(* ===== verification/Prism_Prelude.thy ===== *)
theory Prism_Prelude
  imports Main "HOL-Library.Word" "HOL-Library.Monad_Syntax"
begin

text \<open>
  Shared vocabulary of the development: the C integer types, C strings as lists of bytes,
  counted loops over machine words, the page arithmetic used by every memory component,
  and the lemmas on words, lists and option-valued computations that the component
  theories rely on.

  A value of type \<open>'a option\<close> returned by an operation of the model is \<open>None\<close>
  exactly when control never comes back from the C function: a busy-wait that never ends or
  an access that the paging hardware refuses.
\<close>

unbundle bit_operations_syntax

type_synonym u8 = "8 word"
type_synonym u16 = "16 word"
type_synonym u32 = "32 word"
type_synonym u64 = "64 word"

text \<open>Characters of C strings are bytes; \<open>cstr\<close> reads a string literal.\<close>

type_synonym cstring = "u8 list"

definition cstr :: "string \<Rightarrow> cstring" where
  "cstr s = map of_char s"

text \<open>Collections of rules: what an operation leaves unchanged, and word arithmetic.\<close>

named_theorems frame_simps
named_theorems word_rules

section \<open>Words\<close>

lemma unat_Suc_less [word_rules]:
  fixes x y :: "'a::len word"
  assumes "x < y"
  shows "unat (x + 1) = Suc (unat x)"
proof -
  have "unat x < unat y" using assms by (simp add: word_less_nat_alt)
  moreover have "unat y < 2 ^ LENGTH('a)" by (rule unsigned_less)
  ultimately have "unat x + 1 < 2 ^ LENGTH('a)" by linarith
  then show ?thesis by (simp add: unat_word_ariths)
qed

lemma less_Suc_le_word [word_rules]:
  fixes x y z :: "'a::len word"
  assumes "x < y"
  shows "z < x + 1 \<longleftrightarrow> z < x \<or> z = x"
  using unat_Suc_less [OF assms] by (auto simp: word_less_nat_alt word_unat_eq_iff)

lemma Suc_le_word [word_rules]:
  fixes x y z :: "'a::len word"
  assumes "x < y"
  shows "x + 1 \<le> z \<longleftrightarrow> x < z"
  using unat_Suc_less [OF assms] by (auto simp: word_le_nat_alt word_less_nat_alt)

lemma word_countdown_wf: "x < y \<Longrightarrow> unat y - unat (x + 1) < unat y - unat (x :: 'a::len word)"
  using unat_Suc_less [of x y] by (simp add: word_less_nat_alt)

section \<open>Little-endian memory\<close>

text \<open>
  Memory is a function from addresses to bytes. A 64-bit object at address \<open>a\<close> occupies
  the bytes \<open>a\<close>, \<dots>, \<open>a + 7\<close>, least significant byte first.
\<close>

type_synonym memory = "u64 \<Rightarrow> u8"

definition load64 :: "memory \<Rightarrow> u64 \<Rightarrow> u64" where
  "load64 m a =
     ucast (m a) OR push_bit 8 (ucast (m (a + 1))) OR push_bit 16 (ucast (m (a + 2))) OR
     push_bit 24 (ucast (m (a + 3))) OR push_bit 32 (ucast (m (a + 4))) OR
     push_bit 40 (ucast (m (a + 5))) OR push_bit 48 (ucast (m (a + 6))) OR
     push_bit 56 (ucast (m (a + 7)))"

definition store64 :: "u64 \<Rightarrow> u64 \<Rightarrow> memory \<Rightarrow> memory" where
  "store64 a v m = (\<lambda>x. if x - a < 8 then ucast (drop_bit (8 * unat (x - a)) v) else m x)"

definition load32 :: "memory \<Rightarrow> u64 \<Rightarrow> u32" where
  "load32 m a =
     ucast (m a) OR push_bit 8 (ucast (m (a + 1))) OR push_bit 16 (ucast (m (a + 2))) OR
     push_bit 24 (ucast (m (a + 3)))"

definition store8 :: "u64 \<Rightarrow> u8 \<Rightarrow> memory \<Rightarrow> memory" where
  "store8 a b m = m(a := b)"

lemma byte_high_bits [simp]: "8 \<le> n \<Longrightarrow> \<not> bit (w :: u8) n"
  using bit_imp_le_length by force

lemma less_8_cases:
  "(q::nat) < 8 \<Longrightarrow> q = 0 \<or> q = 1 \<or> q = 2 \<or> q = 3 \<or> q = 4 \<or> q = 5 \<or> q = 6 \<or> q = 7"
  by arith

lemma bit_load64_decomp:
  assumes "q < 8" "r < 8"
  shows "bit (load64 m a) (8 * q + r) \<longleftrightarrow> bit (m (a + of_nat q)) r"
  using less_8_cases [OF assms(1)] assms(2)
  by (elim disjE) (simp_all add: load64_def bit_simps)

lemma bit_load64:
  assumes "n < 64"
  shows "bit (load64 m a) n \<longleftrightarrow> bit (m (a + of_nat (n div 8))) (n mod 8)"
  using bit_load64_decomp [of "n div 8" "n mod 8" m a] assms by simp

lemma load64_store64_same [simp]: "load64 (store64 a v m) a = v"
proof (rule bit_word_eqI)
  fix n assume "n < LENGTH(64)"
  then have n: "n < 64" by simp
  then have u: "unat (word_of_nat (n div 8) :: u64) = n div 8"
    by (simp add: unat_of_nat)
  have "(word_of_nat (n div 8) :: u64) < 8"
    using n by (simp add: word_less_nat_alt u less_mult_imp_div_less)
  with n u show "bit (load64 (store64 a v m) a) n = bit v n"
    by (simp add: bit_load64 store64_def bit_simps)
qed

lemma load64_cong:
  assumes "\<And>i. i < 8 \<Longrightarrow> m (a + i) = m' (a + i)"
  shows "load64 m a = load64 m' a"
  using assms [of 0] assms [of 1] assms [of 2] assms [of 3]
    assms [of 4] assms [of 5] assms [of 6] assms [of 7]
  by (simp add: load64_def)

lemma load64_zero: "(\<And>i. i < 8 \<Longrightarrow> m (a + i) = 0) \<Longrightarrow> load64 m a = 0"
  using load64_cong [of m a "\<lambda>_. 0"] by (simp add: load64_def)

lemma store64_far_apart:
  fixes a b :: u64
  assumes "8 \<le> b - a" "8 \<le> a - b" "i < 8"
  shows "\<not> b + i - a < 8"
  using assms by unat_arith

lemma load64_store64_other:
  assumes "8 \<le> b - a" "8 \<le> a - b"
  shows "load64 (store64 a v m) b = load64 m b"
  by (rule load64_cong) (simp add: store64_def store64_far_apart [OF assms])

section \<open>Pages and page-table indices\<close>

definition page_of :: "u64 \<Rightarrow> u64" where
  "page_of a = a AND NOT 0xFFF"

abbreviation page_aligned :: "u64 \<Rightarrow> bool" where
  "page_aligned a \<equiv> page_of a = a"

text \<open>The nine index bits of a page-table level, \<open>(virt >> n) & 0x1FF\<close>.\<close>

definition pt_index :: "nat \<Rightarrow> u64 \<Rightarrow> u64" where
  "pt_index n virt = drop_bit n virt AND 0x1FF"

lemma word_and_mask_mod:
  "unat ((x :: u64) AND mask n) = unat x mod 2 ^ n"
  by (simp flip: take_bit_eq_mask add: unsigned_take_bit_eq) (simp add: take_bit_eq_mod)

lemma unat_page_offset: "unat ((a :: u64) AND 0xFFF) = unat a mod 4096"
  using word_and_mask_mod [of a 12] by (simp add: mask_eq_exp_minus_1)

lemma page_of_minus: "page_of a = a - (a AND 0xFFF)"
proof -
  have "a = (a AND NOT 0xFFF) OR (a AND 0xFFF)"
    by (metis and.commute bit.conj_disj_distrib bit.disj_cancel_left bit.conj_one_right)
  also have "\<dots> = (a AND NOT 0xFFF) + (a AND 0xFFF)"
    by (rule disjunctive_add [symmetric]) (auto simp: bit_simps)
  finally show ?thesis unfolding page_of_def by (metis add_diff_cancel_right')
qed

lemma unat_page_of: "unat (page_of a) = unat a - unat a mod 4096"
proof -
  have "a AND 0xFFF \<le> a" by (simp add: word_le_nat_alt unat_page_offset)
  then show ?thesis by (simp add: page_of_minus unat_sub unat_page_offset)
qed

lemma unat_pt_index: "unat (pt_index n virt) = unat virt div 2 ^ n mod 512"
  using word_and_mask_mod [of "drop_bit n virt" 9]
  by (simp add: pt_index_def mask_eq_exp_minus_1 unat_drop_bit_eq
      drop_bit_eq_div [where 'a = nat])

lemma pt_index_less [simp]: "pt_index n virt < 512"
  by (simp add: word_less_nat_alt unat_pt_index)

lemma page_of_idem [simp]: "page_of (page_of a) = page_of a"
  by (simp add: page_of_def and.assoc)

lemma page_of_0 [simp]: "page_of 0 = 0"
  by (simp add: page_of_def)

lemma page_aligned_iff: "page_aligned a \<longleftrightarrow> unat a mod 4096 = 0"
proof
  assume "page_aligned a"
  then have "unat a = unat a - unat a mod 4096" using unat_page_of [of a] by simp
  then show "unat a mod 4096 = 0"
    by (metis minus_mod_eq_mult_div mod_mult_self1_is_0)
next
  assume "unat a mod 4096 = 0"
  then show "page_aligned a" by (simp add: word_unat_eq_iff unat_page_of)
qed

lemma page_plus_offset_no_wrap:
  assumes "page_aligned p" "off < 4096"
  shows "unat (p + off) = unat p + unat off"
proof -
  obtain k where p: "unat p = 4096 * k"
    using assms(1) by (auto simp: page_aligned_iff mod_eq_0_iff_dvd dvd_def)
  have "unat p < 18446744073709551616" using unsigned_less [of p, where 'a = nat] by simp
  with p have "k < 4503599627370496" by linarith
  with p have "unat p + 4095 < 18446744073709551616" by linarith
  moreover have "unat off < 4096" using assms(2) by (simp add: word_less_nat_alt)
  ultimately show ?thesis by (simp add: unat_word_ariths)
qed

lemma page_of_plus [simp]:
  assumes "page_aligned p" "off < 4096"
  shows "page_of (p + off) = p"
proof -
  have "unat p mod 4096 = 0" using assms(1) by (simp add: page_aligned_iff)
  moreover have "unat off < 4096" using assms(2) by (simp add: word_less_nat_alt)
  ultimately have "(unat p + unat off) mod 4096 = unat off"
    by (metis add_0 mod_add_left_eq mod_less)
  then show ?thesis
    by (simp add: word_unat_eq_iff unat_page_of page_plus_offset_no_wrap [OF assms])
qed

text \<open>Slot \<open>i\<close> of the 512-entry table that fills the page \<open>p\<close>.\<close>

abbreviation slot :: "u64 \<Rightarrow> u64 \<Rightarrow> u64" where
  "slot p i \<equiv> p + 8 * i"

lemma slot_offset:
  assumes "i < (512 :: u64)" "k < 8"
  shows "unat (8 * i + k) = 8 * unat i + unat k" and "8 * i + k < 4096"
proof -
  have "unat i < 512" "unat k < 8" using assms by (simp_all add: word_less_nat_alt)
  then show *: "unat (8 * i + k) = 8 * unat i + unat k" by (simp add: unat_word_ariths)
  then show "8 * i + k < 4096"
    using \<open>unat i < 512\<close> \<open>unat k < 8\<close> by (simp add: word_less_nat_alt)
qed

lemma page_of_slot_byte [simp]:
  assumes "page_aligned p" "i < 512" "k < 8"
  shows "page_of (slot p i + k) = p"
  using page_of_plus [OF assms(1) slot_offset(2) [OF assms(2,3)]] by (simp add: add.assoc)

lemma page_of_slot [simp]:
  assumes "page_aligned p" "i < 512"
  shows "page_of (slot p i) = p"
  using page_of_slot_byte [OF assms, of 0] by simp

lemma unat_slot:
  assumes "page_aligned p" "i < 512"
  shows "unat (slot p i) = unat p + 8 * unat i"
  using page_plus_offset_no_wrap [OF assms(1) slot_offset(2) [OF assms(2), of 0]]
    slot_offset(1) [OF assms(2), of 0] by simp

lemma unat_slot_le:
  assumes "page_aligned p" "i < 512"
  shows "unat (slot p i) \<le> 18446744073709551608"
proof -
  obtain k where k: "unat p = 4096 * k"
    using assms(1) by (auto simp: page_aligned_iff mod_eq_0_iff_dvd dvd_def)
  have "unat (slot p i) < 18446744073709551616"
    using unsigned_less [of "slot p i", where 'a = nat] by simp
  then have "512 * k + unat i < 2305843009213693952"
    unfolding unat_slot [OF assms] k by linarith
  then show ?thesis unfolding unat_slot [OF assms] k by linarith
qed

lemma far_if_nat_far:
  fixes a b :: u64
  assumes "unat a + 8 \<le> unat b" "unat b \<le> 18446744073709551608"
  shows "8 \<le> b - a" and "8 \<le> a - b"
proof -
  have ab: "a \<le> b" using assms by (simp add: word_le_nat_alt)
  then show "8 \<le> b - a" using assms by (simp add: word_le_nat_alt unat_sub)
  show "8 \<le> a - b"
    using assms by (simp add: word_le_nat_alt unat_sub_if_size word_size)
qed

lemma slots_far_apart:
  assumes "page_aligned p" "page_aligned q" "i < 512" "j < 512" "p \<noteq> q \<or> i \<noteq> j"
  shows "8 \<le> slot q j - slot p i" and "8 \<le> slot p i - slot q j"
proof -
  have ij: "unat i < 512" "unat j < 512" using assms(3,4) by (simp_all add: word_less_nat_alt)
  obtain k where k: "unat p = 4096 * k"
    using assms(1) by (auto simp: page_aligned_iff mod_eq_0_iff_dvd dvd_def)
  obtain l where l: "unat q = 4096 * l"
    using assms(2) by (auto simp: page_aligned_iff mod_eq_0_iff_dvd dvd_def)
  have ne: "k \<noteq> l \<or> unat i \<noteq> unat j"
    using assms(5) k l by (auto simp: word_unat_eq_iff)
  have "unat p + 8 * unat i + 8 \<le> unat q + 8 * unat j \<or>
      unat q + 8 * unat j + 8 \<le> unat p + 8 * unat i"
  proof (cases k l rule: linorder_cases)
    case equal
    with ne ij show ?thesis unfolding k l by linarith
  qed (use ij in \<open>simp_all add: k l\<close>)
  then have "unat (slot p i) + 8 \<le> unat (slot q j) \<or> unat (slot q j) + 8 \<le> unat (slot p i)"
    by (simp only: unat_slot [OF assms(1,3)] unat_slot [OF assms(2,4)])
  moreover have "unat (slot p i) \<le> 18446744073709551608" "unat (slot q j) \<le> 18446744073709551608"
    by (rule unat_slot_le; fact assms)+
  ultimately show "8 \<le> slot q j - slot p i" and "8 \<le> slot p i - slot q j"
    by (auto dest: far_if_nat_far)
qed

lemma load64_slot_store64 [word_rules]:
  assumes "page_aligned p" "page_aligned q" "i < 512" "j < 512"
  shows "load64 (store64 (slot p i) v m) (slot q j) =
    (if p = q \<and> i = j then v else load64 m (slot q j))"
  using slots_far_apart [OF assms] by (auto simp: load64_store64_other)

lemma store64_other_page:
  assumes "page_aligned p" "i < 512" "page_of x \<noteq> p"
  shows "store64 (slot p i) v m x = m x"
proof (rule ccontr)
  assume "store64 (slot p i) v m x \<noteq> m x"
  then have "x - slot p i < 8" by (auto simp: store64_def split: if_splits)
  then have "page_of (slot p i + (x - slot p i)) = p"
    by (rule page_of_slot_byte [OF assms(1,2)])
  with assms(3) show False by simp
qed

end
