(* ===== verification/Prism_Machine.thy ===== *)
theory Prism_Machine
  imports Prism_Prelude
begin

text \<open>
  The machine under the kernel: port input/output (\<^verbatim>\<open>outb\<close>, \<^verbatim>\<open>inb\<close> of
  \<^verbatim>\<open>cpu/pic.h\<close>), physical memory, the control register CR3 and the four-level
  address translation that a pointer dereference goes through, and the memory routines of
  \<^verbatim>\<open>string.h\<close> on top of it.

  The record \<open>link_symbols\<close> holds the addresses the linker chooses; they are never written.
  The environment \<open>io_in n p\<close> is the byte a device presents on port \<open>p\<close> at the
  \<open>n\<close>-th port read of the run. Later theories extend the record \<open>machine\<close> by the static
  variables of the component they model, and every operation is polymorphic in the
  extension, so that the operations of lower components apply unchanged to the state of
  higher ones.
\<close>

section \<open>State\<close>

record link_symbols =
  sym_kernel_end :: u64
  sym_pml4_new :: u64
  sym_pdpt_id :: u64
  sym_pdpt_hi :: u64
  sym_pd_id :: u64
  sym_pd_hi :: u64
  sym_pt_hi_kernel :: u64
  sym_pt_id_0 :: u64
  sym_pt_id_1 :: u64
  sym_gdt_entries :: u64
  sym_tss_value :: u64
  sym_idt_entries :: u64
  sym_isr_stub :: "nat \<Rightarrow> u64"
  sym_idle_entry :: u64
  sym_enter_user_mode :: u64
  sym_syscall_entry :: u64
  sym_thread_a :: u64
  sym_thread_b :: u64
  sym_test_elf :: u64

record machine =
  io_log :: "(u16 \<times> u8) list"
  io_in :: "nat \<Rightarrow> u16 \<Rightarrow> u8"
  io_reads :: nat
  mem :: memory
  cr3 :: u64
  syms :: link_symbols

section \<open>Port input and output\<close>

definition outb :: "u16 \<Rightarrow> u8 \<Rightarrow> 'a machine_scheme \<Rightarrow> 'a machine_scheme" where
  "outb port val s = s\<lparr>io_log := io_log s @ [(port, val)]\<rparr>"

definition inb :: "u16 \<Rightarrow> 'a machine_scheme \<Rightarrow> u8 \<times> 'a machine_scheme" where
  "inb port s = (io_in s (io_reads s) port, s\<lparr>io_reads := Suc (io_reads s)\<rparr>)"

section \<open>Address translation\<close>

definition PAGE_PRESENT :: u64 where "PAGE_PRESENT = push_bit 0 1"
definition PAGE_WRITABLE :: u64 where "PAGE_WRITABLE = push_bit 1 1"
definition PAGE_USER :: u64 where "PAGE_USER = push_bit 2 1"
definition PAGE_PS :: u64 where "PAGE_PS = push_bit 7 1"

definition HIGHER_HALF_BASE :: u64 where "HIGHER_HALF_BASE = 0xFFFFFFFF80000000"

lemmas page_flag_defs = PAGE_PRESENT_def PAGE_WRITABLE_def PAGE_USER_def PAGE_PS_def

abbreviation present :: "u64 \<Rightarrow> bool" where
  "present e \<equiv> e AND PAGE_PRESENT \<noteq> 0"

text \<open>
  The walk of the paging hardware from the table at \<open>c\<close>: PML4, page-directory-pointer table,
  page directory (whose entries may map 2 MiB pages) and page table. \<open>None\<close> is a page fault.
\<close>

definition mmu_walk :: "memory \<Rightarrow> u64 \<Rightarrow> u64 \<Rightarrow> u64 option" where
  "mmu_walk m c virt =
     (let e4 = load64 m (slot (page_of c) (pt_index 39 virt)) in
      if \<not> present e4 then None else
      let e3 = load64 m (slot (page_of e4) (pt_index 30 virt)) in
      if \<not> present e3 then None else
      let e2 = load64 m (slot (page_of e3) (pt_index 21 virt)) in
      if \<not> present e2 then None else
      if e2 AND PAGE_PS \<noteq> 0 then Some ((e2 AND NOT 0x1FFFFF) OR (virt AND 0x1FFFFF)) else
      let e1 = load64 m (slot (page_of e2) (pt_index 12 virt)) in
      if \<not> present e1 then None else
      Some (page_of e1 OR (virt AND 0xFFF)))"

abbreviation translate :: "'a machine_scheme \<Rightarrow> u64 \<Rightarrow> u64 option" where
  "translate s virt \<equiv> mmu_walk (mem s) (cr3 s) virt"

text \<open>The pages a walk reads: the tables on the way to the page.\<close>

definition walk_tables :: "memory \<Rightarrow> u64 \<Rightarrow> u64 \<Rightarrow> u64 set" where
  "walk_tables m c virt =
     (let e4 = load64 m (slot (page_of c) (pt_index 39 virt));
          e3 = load64 m (slot (page_of e4) (pt_index 30 virt));
          e2 = load64 m (slot (page_of e3) (pt_index 21 virt))
      in {page_of c, page_of e4, page_of e3, page_of e2})"

text \<open>Loads and stores through a kernel pointer.\<close>

definition kload8 :: "u64 \<Rightarrow> 'a machine_scheme \<Rightarrow> u8 option" where
  "kload8 virt s = map_option (mem s) (translate s virt)"

definition kstore8 :: "u64 \<Rightarrow> u8 \<Rightarrow> 'a machine_scheme \<Rightarrow> 'a machine_scheme option" where
  "kstore8 virt b s = map_option (\<lambda>pa. s\<lparr>mem := store8 pa b (mem s)\<rparr>) (translate s virt)"

definition kload64 :: "u64 \<Rightarrow> 'a machine_scheme \<Rightarrow> u64 option" where
  "kload64 virt s = map_option (load64 (mem s)) (translate s virt)"

definition kstore64 :: "u64 \<Rightarrow> u64 \<Rightarrow> 'a machine_scheme \<Rightarrow> 'a machine_scheme option" where
  "kstore64 virt v s = map_option (\<lambda>pa. s\<lparr>mem := store64 pa v (mem s)\<rparr>) (translate s virt)"

text \<open>Control register access and the invalidation of one translation, which has no effect
  here because the model keeps no cached translations.\<close>

definition paging_read_cr3 :: "'a machine_scheme \<Rightarrow> u64" where
  "paging_read_cr3 s = cr3 s"

definition paging_write_cr3 :: "u64 \<Rightarrow> 'a machine_scheme \<Rightarrow> 'a machine_scheme" where
  "paging_write_cr3 c s = s\<lparr>cr3 := c\<rparr>"

definition paging_invalidate_page :: "u64 \<Rightarrow> 'a machine_scheme \<Rightarrow> 'a machine_scheme" where
  "paging_invalidate_page virt s = s"

section \<open>Memory routines of string.h\<close>

primrec memset_loop :: "u64 \<Rightarrow> u8 \<Rightarrow> nat \<Rightarrow> 'a machine_scheme \<Rightarrow> 'a machine_scheme option" where
  "memset_loop d ch 0 s = Some s"
| "memset_loop d ch (Suc n) s = do { s' \<leftarrow> kstore8 d ch s; memset_loop (d + 1) ch n s' }"

definition memset :: "u64 \<Rightarrow> u32 \<Rightarrow> u64 \<Rightarrow> 'a machine_scheme \<Rightarrow> 'a machine_scheme option" where
  "memset dest ch n s = memset_loop dest (ucast ch) (unat n) s"

primrec memcpy_loop :: "u64 \<Rightarrow> u64 \<Rightarrow> nat \<Rightarrow> 'a machine_scheme \<Rightarrow> 'a machine_scheme option" where
  "memcpy_loop d src 0 s = Some s"
| "memcpy_loop d src (Suc n) s =
     do { b \<leftarrow> kload8 src s; s' \<leftarrow> kstore8 d b s; memcpy_loop (d + 1) (src + 1) n s' }"

definition memcpy :: "u64 \<Rightarrow> u64 \<Rightarrow> u64 \<Rightarrow> 'a machine_scheme \<Rightarrow> 'a machine_scheme option" where
  "memcpy dest src n s = memcpy_loop dest src (unat n) s"

primrec memmove_down :: "u64 \<Rightarrow> u64 \<Rightarrow> nat \<Rightarrow> 'a machine_scheme \<Rightarrow> 'a machine_scheme option" where
  "memmove_down d src 0 s = Some s"
| "memmove_down d src (Suc n) s =
     do { b \<leftarrow> kload8 (src - 1) s; s' \<leftarrow> kstore8 (d - 1) b s; memmove_down (d - 1) (src - 1) n s' }"

definition memmove :: "u64 \<Rightarrow> u64 \<Rightarrow> u64 \<Rightarrow> 'a machine_scheme \<Rightarrow> 'a machine_scheme option" where
  "memmove dest src n s =
     (if dest < src then memcpy_loop dest src (unat n) s
      else memmove_down (dest + n) (src + n) (unat n) s)"

primrec memcmp_loop :: "u64 \<Rightarrow> u64 \<Rightarrow> nat \<Rightarrow> 'a machine_scheme \<Rightarrow> int option" where
  "memcmp_loop p q 0 s = Some 0"
| "memcmp_loop p q (Suc n) s =
     do { x \<leftarrow> kload8 p s; y \<leftarrow> kload8 q s;
          if x \<noteq> y then Some (uint x - uint y) else memcmp_loop (p + 1) (q + 1) n s }"

definition memcmp :: "u64 \<Rightarrow> u64 \<Rightarrow> u64 \<Rightarrow> 'a machine_scheme \<Rightarrow> int option" where
  "memcmp a b n s = memcmp_loop a b (unat n) s"

partial_function (option) strlen_loop :: "u64 \<Rightarrow> u64 \<Rightarrow> 'a machine_scheme \<Rightarrow> u64 option" where
  "strlen_loop p len s =
     do { b \<leftarrow> kload8 p s; if b = 0 then Some len else strlen_loop (p + 1) (len + 1) s }"

definition strlen :: "u64 \<Rightarrow> 'a machine_scheme \<Rightarrow> u64 option" where
  "strlen p s = strlen_loop p 0 s"

section \<open>Lemmas on translation and memory access\<close>

lemma outb_simps [frame_simps, simp]:
  "io_log (outb p v s) = io_log s @ [(p, v)]"
  "io_in (outb p v s) = io_in s"
  "io_reads (outb p v s) = io_reads s"
  "mem (outb p v s) = mem s"
  "cr3 (outb p v s) = cr3 s"
  "syms (outb p v s) = syms s"
  "machine.more (outb p v s) = machine.more s"
  by (simp_all add: outb_def)

lemma load64_table_cong:
  assumes "\<And>a. page_of a = p \<Longrightarrow> m' a = m a" "page_aligned p" "i < 512"
  shows "load64 m' (slot p i) = load64 m (slot p i)"
  by (rule load64_cong) (simp add: assms)

text \<open>A walk only depends on the contents of the tables it reads.\<close>

lemma mmu_walk_cong:
  assumes "\<And>a. page_of a \<in> walk_tables m c virt \<Longrightarrow> m' a = m a"
  shows "mmu_walk m' c virt = mmu_walk m c virt"
proof -
  define e4 where "e4 = load64 m (slot (page_of c) (pt_index 39 virt))"
  define e3 where "e3 = load64 m (slot (page_of e4) (pt_index 30 virt))"
  define e2 where "e2 = load64 m (slot (page_of e3) (pt_index 21 virt))"
  have same: "load64 m' (slot p (pt_index n virt)) = load64 m (slot p (pt_index n virt))"
    if "p \<in> {page_of c, page_of e4, page_of e3, page_of e2}" for p n
    using that assms
    by (intro load64_table_cong) (auto simp: walk_tables_def Let_def e4_def e3_def e2_def)
  show ?thesis
    unfolding mmu_walk_def Let_def
    by (simp add: same flip: e4_def e3_def e2_def)
qed

lemma walk_tables_cong:
  assumes "\<And>a. page_of a \<in> walk_tables m c virt \<Longrightarrow> m' a = m a"
  shows "walk_tables m' c virt = walk_tables m c virt"
proof -
  define e4 where "e4 = load64 m (slot (page_of c) (pt_index 39 virt))"
  define e3 where "e3 = load64 m (slot (page_of e4) (pt_index 30 virt))"
  define e2 where "e2 = load64 m (slot (page_of e3) (pt_index 21 virt))"
  have same: "load64 m' (slot p (pt_index n virt)) = load64 m (slot p (pt_index n virt))"
    if "p \<in> {page_of c, page_of e4, page_of e3, page_of e2}" for p n
    using that assms
    by (intro load64_table_cong) (auto simp: walk_tables_def Let_def e4_def e3_def e2_def)
  show ?thesis
    unfolding walk_tables_def Let_def
    by (simp add: same flip: e4_def e3_def e2_def)
qed

text \<open>Stores through pointers change the contents of memory and nothing else.\<close>

definition mem_eq :: "'a machine_scheme \<Rightarrow> 'a machine_scheme \<Rightarrow> bool" where
  "mem_eq s t \<longleftrightarrow> t = s\<lparr>mem := mem t\<rparr>"

lemma mem_eqI: "t = s\<lparr>mem := m\<rparr> \<Longrightarrow> mem_eq s t"
  by (simp add: mem_eq_def)

lemma mem_eqE:
  assumes "mem_eq s t"
  obtains m where "t = s\<lparr>mem := m\<rparr>"
  using assms unfolding mem_eq_def by blast

lemma mem_eq_refl [simp]: "mem_eq s s"
  by (simp add: mem_eq_def)

lemma mem_eq_trans [trans]: "mem_eq s t \<Longrightarrow> mem_eq t u \<Longrightarrow> mem_eq s u"
  by (elim mem_eqE) (rule mem_eqI, simp)

lemma mem_eqD [frame_simps]:
  assumes "mem_eq s t"
  shows "cr3 t = cr3 s" "syms t = syms s" "io_in t = io_in s" "io_log t = io_log s"
    "io_reads t = io_reads s"
  by (rule mem_eqE [OF assms], simp)+

lemma kstore8_mem_eq: "kstore8 a b s = Some t \<Longrightarrow> mem_eq s t"
  by (auto simp: kstore8_def mem_eq_def)

lemma kstore64_mem_eq: "kstore64 a v s = Some t \<Longrightarrow> mem_eq s t"
  by (auto simp: kstore64_def mem_eq_def)

lemma memset_loop_mem_eq: "memset_loop d ch n s = Some t \<Longrightarrow> mem_eq s t"
  by (induction n arbitrary: d s) (auto simp: bind_eq_Some_conv dest!: kstore8_mem_eq intro: mem_eq_trans)

lemma memset_mem_eq: "memset d ch n s = Some t \<Longrightarrow> mem_eq s t"
  by (simp add: memset_def memset_loop_mem_eq)

lemma memcpy_loop_mem_eq: "memcpy_loop d src n s = Some t \<Longrightarrow> mem_eq s t"
  by (induction n arbitrary: d src s)
    (auto simp: bind_eq_Some_conv dest!: kstore8_mem_eq intro: mem_eq_trans)

lemma memcpy_mem_eq: "memcpy d src n s = Some t \<Longrightarrow> mem_eq s t"
  by (simp add: memcpy_def memcpy_loop_mem_eq)

end
