(* ===== verification/Prism_Interfaces.thy ===== *)
theory Prism_Interfaces
  imports Prism_Prelude
begin

text \<open>
  The contracts between components, as locales. A client's lemmas are proved once from a
  contract; each provider interprets it on its own definitions.

  \<^item> \<open>byte_sink\<close>: a device that accepts characters one at a time and remembers them in order
    (the serial line).
  \<^item> \<open>bounded_fifo\<close>: a first-in first-out buffer of limited capacity that drops what does not
    fit (the keyboard ring buffer); \<open>linked_fifo\<close> is the unbounded variant over objects that
    must not be enqueued twice (the scheduler's ready list).
  \<^item> \<open>frame_source\<close>: an allocator of physical frames (the physical memory manager).
  \<^item> \<open>word_store\<close>: a range of words that can be read and written independently (the memory of
    the kernel heap).
\<close>

section \<open>Character sinks\<close>

locale byte_sink =
  fixes put :: "u8 \<Rightarrow> 's \<Rightarrow> 's option"
    and contents :: "'s \<Rightarrow> u8 list"
    and live :: "'s \<Rightarrow> bool"
    and same :: "'s \<Rightarrow> 's \<Rightarrow> bool"
  assumes put_total: "live s \<Longrightarrow> \<exists>s'. put c s = Some s'"
    and put_contents: "live s \<Longrightarrow> put c s = Some s' \<Longrightarrow> contents s' = contents s @ [c]"
    and put_live: "live s \<Longrightarrow> put c s = Some s' \<Longrightarrow> live s'"
    and put_same: "put c s = Some s' \<Longrightarrow> same s s'"
    and same_refl: "same s s"
    and same_trans: "same s t \<Longrightarrow> same t u \<Longrightarrow> same s u"
begin

text \<open>Writing a list of characters one after the other.\<close>

primrec put_all :: "u8 list \<Rightarrow> 's \<Rightarrow> 's option" where
  "put_all [] s = Some s"
| "put_all (c # cs) s = Option.bind (put c s) (put_all cs)"

lemma put_all_append: "put_all (xs @ ys) s = Option.bind (put_all xs s) (put_all ys)"
  by (induction xs arbitrary: s) (simp_all split: bind_splits)

lemma put_all_spec:
  assumes "live s"
  shows "\<exists>s'. put_all cs s = Some s' \<and> contents s' = contents s @ cs \<and> live s' \<and> same s s'"
  using assms
proof (induction cs arbitrary: s)
  case Nil
  then show ?case by (simp add: same_refl)
next
  case (Cons c cs)
  obtain t where t: "put c s = Some t" using put_total [OF Cons.prems] by blast
  obtain u where "put_all cs t = Some u" "contents u = contents t @ cs" "live u" "same t u"
    using Cons.IH [OF put_live [OF Cons.prems t]] by blast
  with t put_contents [OF Cons.prems t] put_same [OF t] same_trans show ?case by auto
qed

end

section \<open>First-in first-out buffers\<close>

text \<open>
  \<open>elems\<close> abstracts the buffer to the list it holds, oldest first; \<open>capacity\<close> bounds its
  length. \<open>take_one\<close> returns the oldest element, if any, and the buffer without it.
\<close>

locale bounded_fifo =
  fixes inv :: "'q \<Rightarrow> bool"
    and elems :: "'q \<Rightarrow> 'a list"
    and push :: "'a \<Rightarrow> 'q \<Rightarrow> 'q"
    and take_one :: "'q \<Rightarrow> 'a option \<times> 'q"
    and capacity :: nat
  assumes push_inv: "inv q \<Longrightarrow> inv (push x q)"
    and push_elems: "inv q \<Longrightarrow> elems (push x q) =
           (if length (elems q) < capacity then elems q @ [x] else elems q)"
    and take_inv: "inv q \<Longrightarrow> inv (snd (take_one q))"
    and take_empty: "inv q \<Longrightarrow> elems q = [] \<Longrightarrow> fst (take_one q) = None \<and> elems (snd (take_one q)) = []"
    and take_first: "inv q \<Longrightarrow> elems q = x # xs \<Longrightarrow>
           fst (take_one q) = Some x \<and> elems (snd (take_one q)) = xs"
    and elems_bound: "inv q \<Longrightarrow> length (elems q) \<le> capacity"
begin

primrec push_all :: "'a list \<Rightarrow> 'q \<Rightarrow> 'q" where
  "push_all [] q = q"
| "push_all (x # xs) q = push_all xs (push x q)"

text \<open>Taking until the buffer is empty or the bound on the number of calls is reached.\<close>

primrec drain :: "nat \<Rightarrow> 'q \<Rightarrow> 'a list" where
  "drain 0 q = []"
| "drain (Suc n) q =
     (case take_one q of (None, q') \<Rightarrow> [] | (Some x, q') \<Rightarrow> x # drain n q')"

lemma push_all_spec:
  assumes "inv q"
  shows "inv (push_all xs q) \<and> elems (push_all xs q) = take capacity (elems q @ xs)"
  using assms
proof (induction xs arbitrary: q)
  case Nil
  then show ?case by (simp add: elems_bound)
next
  case (Cons x xs)
  show ?case
  proof (cases "length (elems q) < capacity")
    case True
    with Cons push_inv push_elems show ?thesis by (simp add: take_Cons')
  next
    case False
    then have "length (elems q) = capacity" using elems_bound [OF Cons.prems] by simp
    with Cons push_inv push_elems show ?thesis by simp
  qed
qed

lemma drain_spec: "inv q \<Longrightarrow> drain n q = take n (elems q)"
proof (induction n arbitrary: q)
  case 0
  then show ?case by simp
next
  case (Suc n)
  show ?case
  proof (cases "elems q")
    case Nil
    with take_empty [OF Suc.prems] show ?thesis by (auto split: prod.splits option.splits)
  next
    case (Cons x xs)
    with take_first [OF Suc.prems Cons] take_inv [OF Suc.prems] Suc.IH show ?thesis
      by (auto split: prod.splits option.splits)
  qed
qed

text \<open>What was pushed into an empty buffer comes out in the same order, up to the capacity.\<close>

lemma fifo_order:
  assumes "inv q" "elems q = []"
  shows "drain (length xs) (push_all xs q) = take capacity xs"
  using push_all_spec [OF assms(1), of xs] assms(2) by (simp add: drain_spec min_def)

end

section \<open>Sources of page frames\<close>

text \<open>
  \<open>avail s\<close> is the set of physical addresses of the frames an allocation may still return.
  Address 0 reports exhaustion.
\<close>

locale frame_source =
  fixes inv :: "'s \<Rightarrow> bool"
    and avail :: "'s \<Rightarrow> u64 set"
    and managed :: "'s \<Rightarrow> u64 set"
    and alloc :: "'s \<Rightarrow> u64 \<times> 's"
    and release :: "u64 \<Rightarrow> 's \<Rightarrow> 's"
  assumes avail_managed: "inv s \<Longrightarrow> avail s \<subseteq> managed s"
    and zero_not_avail: "inv s \<Longrightarrow> 0 \<notin> avail s"
    and alloc_empty: "inv s \<Longrightarrow> avail s = {} \<Longrightarrow> alloc s = (0, s)"
    and alloc_avail: "inv s \<Longrightarrow> avail s \<noteq> {} \<Longrightarrow> fst (alloc s) \<in> avail s"
    and alloc_removes: "inv s \<Longrightarrow> avail s \<noteq> {} \<Longrightarrow>
          avail (snd (alloc s)) = avail s - {fst (alloc s)}"
    and alloc_inv: "inv s \<Longrightarrow> inv (snd (alloc s))"
    and alloc_managed: "inv s \<Longrightarrow> managed (snd (alloc s)) = managed s"
    and release_avail: "inv s \<Longrightarrow> a \<in> managed s \<Longrightarrow> a \<noteq> 0 \<Longrightarrow> avail (release a s) = insert a (avail s)"
    and release_inv: "inv s \<Longrightarrow> a \<noteq> 0 \<Longrightarrow> a \<in> managed s \<Longrightarrow> inv (release a s)"
    and release_managed: "managed (release a s) = managed s"
    and finite_avail: "finite (avail s)"
begin

lemma alloc_zero_iff: "inv s \<Longrightarrow> fst (alloc s) = 0 \<longleftrightarrow> avail s = {}"
  using alloc_empty [of s] alloc_avail [of s] zero_not_avail [of s] by force

lemma alloc_cases:
  assumes "inv s" "alloc s = (a, t)"
  obtains (empty) "a = 0" "t = s" "avail s = {}"
  | (frame) "a \<noteq> 0" "a \<in> avail s" "avail t = avail s - {a}" "inv t" "managed t = managed s"
proof (cases "avail s = {}")
  case True
  with assms alloc_empty [OF assms(1) True] show ?thesis using empty by simp
next
  case False
  show ?thesis
  proof (rule frame)
    show "a \<noteq> 0" using alloc_zero_iff [OF assms(1)] False assms(2) by simp
    show "a \<in> avail s" using alloc_avail [OF assms(1) False] assms(2) by simp
    show "avail t = avail s - {a}" using alloc_removes [OF assms(1) False] assms(2) by simp
    show "inv t" using alloc_inv [OF assms(1)] assms(2) by simp
    show "managed t = managed s" using alloc_managed [OF assms(1)] assms(2) by simp
  qed
qed

text \<open>Giving back several frames.\<close>

lemma release_all:
  assumes "inv s" "\<forall>a\<in>set fs. a \<in> managed s \<and> a \<noteq> 0"
  shows "inv (fold release fs s)" "avail (fold release fs s) = avail s \<union> set fs"
proof -
  have "inv (fold release fs s) \<and> avail (fold release fs s) = avail s \<union> set fs"
    using assms
  proof (induction fs arbitrary: s)
    case (Cons a fs)
    then have a: "inv (release a s)" "avail (release a s) = insert a (avail s)" by (simp_all add: release_inv release_avail)
    show ?case using Cons.IH [OF a(1)] Cons.prems(2) a(2) by (simp add: release_managed)
  qed simp
  then show "inv (fold release fs s)" "avail (fold release fs s) = avail s \<union> set fs" by simp_all
qed

text \<open>\<open>n\<close> allocations in a row, as a client that never gives a frame back makes them.\<close>

primrec alloc_many :: "nat \<Rightarrow> 's \<Rightarrow> u64 list \<times> 's" where
  "alloc_many 0 s = ([], s)"
| "alloc_many (Suc n) s =
     (let (a, s1) = alloc s; (as, s2) = alloc_many n s1 in (a # as, s2))"

text \<open>
  As long as enough frames are left, the frames handed out are pairwise different, none is 0
  and all were available; the source loses exactly them.
\<close>

lemma alloc_many_spec:
  assumes "inv s" "n \<le> card (avail s)"
  shows "distinct (fst (alloc_many n s)) \<and> set (fst (alloc_many n s)) \<subseteq> avail s \<and>
    length (fst (alloc_many n s)) = n \<and> inv (snd (alloc_many n s)) \<and>
    avail (snd (alloc_many n s)) = avail s - set (fst (alloc_many n s))"
  using assms
proof (induction n arbitrary: s)
  case 0
  then show ?case by simp
next
  case (Suc n)
  obtain a t where at: "alloc s = (a, t)" by fastforce
  obtain as u where au: "alloc_many n t = (as, u)" by fastforce
  have "avail s \<noteq> {}" using Suc.prems(2) by auto
  with at have a: "a \<in> avail s" "avail t = avail s - {a}" "inv t"
    using alloc_cases [OF Suc.prems(1) at] by auto
  have "n \<le> card (avail t)" using a Suc.prems(2) finite_avail [of s] by simp
  then have "distinct as \<and> set as \<subseteq> avail t \<and> length as = n \<and> inv u \<and>
      avail u = avail t - set as"
    using Suc.IH [OF a(3)] au by simp
  with a at au show ?case by auto
qed

text \<open>A frame that is given back can be handed out again.\<close>

lemma release_alloc_available:
  assumes "inv s" "avail s \<noteq> {}"
  shows "avail (release (fst (alloc s)) (snd (alloc s))) = avail s"
proof -
  obtain a t where at: "alloc s = (a, t)" by fastforce
  from assms at have "a \<noteq> 0" "a \<in> avail s" "avail t = avail s - {a}" "inv t" "managed t = managed s"
    using alloc_cases [OF assms(1) at] by auto
  moreover from this have "a \<in> managed t" using avail_managed [OF assms(1)] by auto
  ultimately show ?thesis using at release_avail [of t a] by auto
qed

end

section \<open>Queues of linked objects\<close>

text \<open>
  \<open>elems\<close> lists the queued objects, oldest first. An object may be added only when it is not
  queued already: the link to its successor is part of the object.
\<close>

locale linked_fifo =
  fixes inv :: "'q \<Rightarrow> bool"
    and elems :: "'q \<Rightarrow> 'a list"
    and valid :: "'a \<Rightarrow> bool"
    and add :: "'a \<Rightarrow> 'q \<Rightarrow> 'q option"
    and pop :: "'q \<Rightarrow> 'a option \<times> 'q"
  assumes add_spec: "inv q \<Longrightarrow> valid x \<Longrightarrow> x \<notin> set (elems q) \<Longrightarrow>
          \<exists>q'. add x q = Some q' \<and> inv q' \<and> elems q' = elems q @ [x]"
    and pop_empty: "inv q \<Longrightarrow> elems q = [] \<Longrightarrow> pop q = (None, q)"
    and pop_first: "inv q \<Longrightarrow> elems q = x # xs \<Longrightarrow> fst (pop q) = Some x \<and> elems (snd (pop q)) = xs"
    and pop_inv: "inv q \<Longrightarrow> inv (snd (pop q))"
    and elems_distinct: "inv q \<Longrightarrow> distinct (elems q)"
    and elems_valid: "inv q \<Longrightarrow> x \<in> set (elems q) \<Longrightarrow> valid x"
begin

text \<open>One turn of a client that holds an object: it takes the oldest queued object, if there is
  one, and queues the object it held.\<close>

definition turn :: "'a \<times> 'q \<Rightarrow> ('a \<times> 'q) option" where
  "turn = (\<lambda>(c, q). case pop q of (None, q') \<Rightarrow> Some (c, q) | (Some x, q') \<Rightarrow> map_option (Pair x) (add c q'))"

primrec turns :: "nat \<Rightarrow> 'a \<times> 'q \<Rightarrow> ('a \<times> 'q) option" where
  "turns 0 cq = Some cq"
| "turns (Suc n) cq = Option.bind (turns n cq) turn"

definition held :: "'a \<times> 'q \<Rightarrow> bool" where
  "held = (\<lambda>(c, q). inv q \<and> valid c \<and> c \<notin> set (elems q))"

definition order :: "'a \<times> 'q \<Rightarrow> 'a list" where
  "order = (\<lambda>(c, q). c # elems q)"

lemma turn_rotates:
  assumes "held cq"
  shows "\<exists>dr. turn cq = Some dr \<and> held dr \<and> order dr = rotate1 (order cq)"
proof -
  obtain c q where cq: "cq = (c, q)" by fastforce
  have q: "inv q" "valid c" "c \<notin> set (elems q)" using assms by (auto simp: cq held_def)
  show ?thesis
  proof (cases "elems q")
    case Nil
    with pop_empty [OF q(1)] q show ?thesis by (simp add: cq turn_def held_def order_def)
  next
    case (Cons x xs)
    obtain q' where p: "pop q = (Some x, q')" using pop_first [OF q(1) Cons] by (cases "pop q") auto
    then have q': "elems q' = xs" "inv q'" using pop_first [OF q(1) Cons] pop_inv [OF q(1)] by auto
    have d: "distinct (x # xs)" "valid x" using elems_distinct [OF q(1)] elems_valid [OF q(1)] Cons by auto
    have "c \<notin> set (elems q')" "c \<noteq> x" using q(3) Cons q'(1) by auto
    then obtain r where "add c q' = Some r" "inv r" "elems r = xs @ [c]" using add_spec [OF q'(2) q(2)] q'(1) by auto
    with d p Cons \<open>c \<noteq> x\<close> show ?thesis
      by (auto simp: cq turn_def held_def order_def)
  qed
qed

lemma turns_rotate:
  assumes "held cq"
  shows "\<exists>dr. turns n cq = Some dr \<and> held dr \<and> order dr = rotate n (order cq)"
proof (induction n)
  case 0
  then show ?case using assms by simp
next
  case (Suc n)
  then obtain dr where "turns n cq = Some dr" "held dr" "order dr = rotate n (order cq)" by blast
  with turn_rotates [of dr] show ?case by auto
qed

text \<open>Every queued object is held after as many turns as there are objects before it.\<close>

lemma turns_fair:
  assumes "held (c, q)" "k < length (elems q)"
  shows "\<exists>r. turns (Suc k) (c, q) = Some (elems q ! k, r)"
proof -
  obtain d r where dr: "turns (Suc k) (c, q) = Some (d, r)" "order (d, r) = rotate (Suc k) (order (c, q))"
    using turns_rotate [OF assms(1), of "Suc k"] by (metis surj_pair)
  then have "d # elems r = rotate (Suc k) (c # elems q)" by (simp add: order_def)
  moreover have "hd (rotate (Suc k) (c # elems q)) = (c # elems q) ! Suc k"
    using assms(2) by (subst hd_rotate_conv_nth) simp_all
  ultimately have "d = elems q ! k" by (metis list.sel(1) nth_Cons_Suc)
  with dr(1) show ?thesis by simp
qed

end

section \<open>Stores of words\<close>

text \<open>
  \<open>cells s\<close> are the addresses that can be used; \<open>same\<close> relates states that differ in the
  contents of cells only. The contents are seen as a function, 0 outside the cells.
\<close>

primrec overwrite :: "('a \<times> 'b) list \<Rightarrow> ('a \<Rightarrow> 'b) \<Rightarrow> 'a \<Rightarrow> 'b" where
  "overwrite [] w = w"
| "overwrite (av # avs) w = overwrite avs (w(fst av := snd av))"

locale word_store =
  fixes ok :: "'s \<Rightarrow> bool"
    and cells :: "'s \<Rightarrow> u64 set"
    and get :: "u64 \<Rightarrow> 's \<Rightarrow> u64 option"
    and put :: "u64 \<Rightarrow> u64 \<Rightarrow> 's \<Rightarrow> 's option"
    and same :: "'s \<Rightarrow> 's \<Rightarrow> bool"
  assumes get_total: "ok s \<Longrightarrow> a \<in> cells s \<Longrightarrow> get a s \<noteq> None"
    and put_total: "ok s \<Longrightarrow> a \<in> cells s \<Longrightarrow> put a v s \<noteq> None"
    and put_ok: "ok s \<Longrightarrow> a \<in> cells s \<Longrightarrow> put a v s = Some t \<Longrightarrow> ok t \<and> cells t = cells s"
    and get_put: "ok s \<Longrightarrow> a \<in> cells s \<Longrightarrow> b \<in> cells s \<Longrightarrow> put a v s = Some t \<Longrightarrow>
          get b t = (if b = a then Some v else get b s)"
    and put_same: "ok s \<Longrightarrow> a \<in> cells s \<Longrightarrow> put a v s = Some t \<Longrightarrow> same s t"
    and same_refl: "same s s"
    and same_trans: "same s t \<Longrightarrow> same t u \<Longrightarrow> same s u"
begin

definition view :: "'s \<Rightarrow> u64 \<Rightarrow> u64" where
  "view s a = (if a \<in> cells s then the (get a s) else 0)"

lemma get_view: "ok s \<Longrightarrow> a \<in> cells s \<Longrightarrow> get a s = Some (view s a)"
  using get_total by (auto simp: view_def)

lemma put_view:
  assumes "ok s" "a \<in> cells s"
  obtains t where "put a v s = Some t" "ok t" "cells t = cells s" "view t = (view s)(a := v)" "same s t"
proof -
  obtain t where t: "put a v s = Some t" using put_total [OF assms] by blast
  note k = put_ok [OF assms t]
  have "view t = (view s)(a := v)"
    using get_put [OF assms _ t] assms k by (auto simp: view_def fun_eq_iff)
  with t k put_same [OF assms t] that show ?thesis by blast
qed

text \<open>Writing words one after the other.\<close>

primrec put_list :: "(u64 \<times> u64) list \<Rightarrow> 's \<Rightarrow> 's option" where
  "put_list [] s = Some s"
| "put_list (av # avs) s = Option.bind (put (fst av) (snd av) s) (put_list avs)"

lemma put_list_view:
  assumes "ok s" "fst ` set avs \<subseteq> cells s"
  shows "\<exists>t. put_list avs s = Some t \<and> ok t \<and> cells t = cells s \<and>
    view t = overwrite avs (view s) \<and> same s t"
  using assms
proof (induction avs arbitrary: s)
  case Nil
  then show ?case by (simp add: same_refl)
next
  case (Cons av avs)
  then have a: "fst av \<in> cells s" by simp
  obtain u where u: "put (fst av) (snd av) s = Some u" "ok u" "cells u = cells s"
    "view u = (view s)(fst av := snd av)" "same s u"
    using put_view [OF Cons.prems(1) a] by blast
  have "fst ` set avs \<subseteq> cells u" using Cons.prems(2) u(3) by simp
  then obtain t where "put_list avs u = Some t" "ok t" "cells t = cells u"
    "view t = overwrite avs (view u)" "same u t"
    using Cons.IH [OF u(2)] by blast
  with u same_trans show ?case by auto
qed

end

end
