(* ===== verification/Prism_Serial.thy ===== *)
theory Prism_Serial
  imports Prism_Machine Prism_Interfaces
begin

text \<open>
  The COM1 driver of \<^verbatim>\<open>drivers/serial.h\<close>. Transmission polls the line status register
  until the transmit holding register is empty; the polling loop is a partial function whose
  result \<open>None\<close> means that it never ends. \<open>uart_live\<close> states what the driver relies on of
  the device: from any moment on, the status register eventually reports an empty transmit
  register. Under it every output function returns, and what it leaves on the wire is
  determined.
\<close>

definition SERIAL_COM1 :: u16 where "SERIAL_COM1 = 0x3F8"

definition serial_init :: "'a machine_scheme \<Rightarrow> 'a machine_scheme" where
  "serial_init s =
     (outb (SERIAL_COM1 + 4) 0x0B \<circ> outb (SERIAL_COM1 + 2) 0xC7 \<circ>
      outb (SERIAL_COM1 + 3) 0x03 \<circ> outb (SERIAL_COM1 + 1) 0x00 \<circ>
      outb (SERIAL_COM1 + 0) 0x03 \<circ> outb (SERIAL_COM1 + 3) 0x80 \<circ>
      outb (SERIAL_COM1 + 1) 0x00) s"

definition serial_tx_ready :: "'a machine_scheme \<Rightarrow> u8 \<times> 'a machine_scheme" where
  "serial_tx_ready s = (case inb (SERIAL_COM1 + 5) s of (v, s') \<Rightarrow> (v AND 0x20, s'))"

partial_function (option) serial_wait :: "'a machine_scheme \<Rightarrow> 'a machine_scheme option" where
  "serial_wait s =
     (if fst (serial_tx_ready s) \<noteq> 0 then Some (snd (serial_tx_ready s))
      else serial_wait (snd (serial_tx_ready s)))"

definition serial_putc :: "u8 \<Rightarrow> 'a machine_scheme \<Rightarrow> 'a machine_scheme option" where
  "serial_putc c s = map_option (outb SERIAL_COM1 c) (serial_wait s)"

primrec serial_puts :: "cstring \<Rightarrow> 'a machine_scheme \<Rightarrow> 'a machine_scheme option" where
  "serial_puts [] s = Some s"
| "serial_puts (c # cs) s =
     do { s1 \<leftarrow> (if c = 10 then serial_putc 13 s else Some s);
          s2 \<leftarrow> serial_putc c s1;
          serial_puts cs s2 }"

definition hex_lower :: cstring where "hex_lower = cstr ''0123456789abcdef''"

text \<open>The loop counter \<open>i\<close> of \<open>serial_puthex64\<close> runs over 60, 56, \dots, 0.\<close>

primrec puthex64_loop :: "nat \<Rightarrow> u64 \<Rightarrow> 'a machine_scheme \<Rightarrow> 'a machine_scheme option" where
  "puthex64_loop 0 val s = Some s"
| "puthex64_loop (Suc k) val s =
     do { s' \<leftarrow> serial_putc (hex_lower ! unat (drop_bit (4 * k) val AND 0xF)) s;
          puthex64_loop k val s' }"

definition serial_puthex64 :: "u64 \<Rightarrow> 'a machine_scheme \<Rightarrow> 'a machine_scheme option" where
  "serial_puthex64 val s = do { s' \<leftarrow> serial_puts (cstr ''0x'') s; puthex64_loop 16 val s' }"

section \<open>The polling loop\<close>

definition uart_live :: "'a machine_scheme \<Rightarrow> bool" where
  "uart_live s \<longleftrightarrow> (\<forall>n. \<exists>k\<ge>n. io_in s k (SERIAL_COM1 + 5) AND 0x20 \<noteq> 0)"

text \<open>Two states that differ only in port traffic.\<close>

definition io_eq :: "'a machine_scheme \<Rightarrow> 'a machine_scheme \<Rightarrow> bool" where
  "io_eq s t \<longleftrightarrow> t = s\<lparr>io_log := io_log t, io_reads := io_reads t\<rparr>"

lemma io_eqI: "t = s\<lparr>io_log := l, io_reads := n\<rparr> \<Longrightarrow> io_eq s t"
  by (simp add: io_eq_def)

lemma io_eqE:
  assumes "io_eq s t"
  obtains l n where "t = s\<lparr>io_log := l, io_reads := n\<rparr>"
  using assms unfolding io_eq_def by blast

lemma io_eq_refl [simp]: "io_eq s s"
  by (simp add: io_eq_def)

lemma io_eq_trans [trans]: "io_eq s t \<Longrightarrow> io_eq t u \<Longrightarrow> io_eq s u"
  by (elim io_eqE) (rule io_eqI, simp)

lemma io_eqD [frame_simps]:
  assumes "io_eq s t"
  shows "mem t = mem s" "cr3 t = cr3 s" "syms t = syms s" "io_in t = io_in s"
    "machine.more t = machine.more s"
  by (rule io_eqE [OF assms], simp)+

lemma io_eq_outb [simp]: "io_eq s (outb p v s)"
  by (simp add: io_eq_def outb_def)

lemma serial_tx_ready_simps:
  "fst (serial_tx_ready s) = io_in s (io_reads s) (SERIAL_COM1 + 5) AND 0x20"
  "snd (serial_tx_ready s) = s\<lparr>io_reads := Suc (io_reads s)\<rparr>"
  by (simp_all add: serial_tx_ready_def inb_def)

lemma serial_wait_result:
  "serial_wait s = Some t \<Longrightarrow> \<exists>n. t = s\<lparr>io_reads := n\<rparr>"
proof (rule serial_wait.raw_induct [where P = "\<lambda>s t. \<exists>n. t = s\<lparr>io_reads := n\<rparr>", rotated])
  fix f and s t :: "'a machine_scheme"
  assume IH: "\<And>s t. f s = Some t \<Longrightarrow> \<exists>n. t = s\<lparr>io_reads := n\<rparr>"
    and eq: "(if fst (serial_tx_ready s) \<noteq> 0 then Some (snd (serial_tx_ready s))
        else f (snd (serial_tx_ready s))) = Some t"
  show "\<exists>n. t = s\<lparr>io_reads := n\<rparr>"
    using eq by (auto simp: serial_tx_ready_simps split: if_splits dest!: IH)
qed

lemma serial_wait_returns:
  assumes "io_in s k (SERIAL_COM1 + 5) AND 0x20 \<noteq> 0" "io_reads s \<le> k"
  shows "\<exists>t. serial_wait s = Some t"
  using assms
proof (induction "k - io_reads s" arbitrary: s)
  case 0
  then show ?case by (subst serial_wait.simps) (simp add: serial_tx_ready_simps)
next
  case (Suc n)
  show ?case
  proof (cases "fst (serial_tx_ready s) = 0")
    case True
    with Suc.hyps(2) Suc.prems Suc.hyps(1) [of "s\<lparr>io_reads := Suc (io_reads s)\<rparr>"] show ?thesis
      by (subst serial_wait.simps) (simp add: serial_tx_ready_simps)
  next
    case False
    then show ?thesis by (subst serial_wait.simps) simp
  qed
qed

section \<open>The serial line as a character sink\<close>

text \<open>The characters sent to the transmit register so far.\<close>

definition serial_sent :: "'a machine_scheme \<Rightarrow> u8 list" where
  "serial_sent s = map snd (filter (\<lambda>(p, v). p = SERIAL_COM1) (io_log s))"

lemma serial_sent_outb [simp]:
  "serial_sent (outb p v s) = (if p = SERIAL_COM1 then serial_sent s @ [v] else serial_sent s)"
  by (simp add: serial_sent_def)

lemma serial_putc_result:
  assumes "serial_putc c s = Some t"
  shows "\<exists>n. t = outb SERIAL_COM1 c (s\<lparr>io_reads := n\<rparr>)"
  using assms serial_wait_result by (fastforce simp: serial_putc_def)

lemma serial_putc_io_eq: "serial_putc c s = Some t \<Longrightarrow> io_eq s t"
  by (auto dest!: serial_putc_result simp: io_eq_def outb_def)

interpretation serial: byte_sink serial_putc serial_sent uart_live io_eq
proof
  fix s t u :: "'a machine_scheme" and c :: u8
  show "\<exists>s'. serial_putc c s = Some s'" if "uart_live s"
  proof -
    obtain k where "io_reads s \<le> k" "io_in s k (SERIAL_COM1 + 5) AND 0x20 \<noteq> 0"
      using \<open>uart_live s\<close> unfolding uart_live_def by blast
    then show ?thesis using serial_wait_returns by (fastforce simp: serial_putc_def)
  qed
  show "serial_sent t = serial_sent s @ [c]" if "uart_live s" "serial_putc c s = Some t"
    using serial_putc_result [OF that(2)] by (auto simp: serial_sent_def outb_def)
  show "uart_live t" if "uart_live s" "serial_putc c s = Some t"
    using that(1) serial_putc_result [OF that(2)] by (auto simp: uart_live_def)
  show "io_eq s t" if "serial_putc c s = Some t"
    using that by (rule serial_putc_io_eq)
  show "io_eq s s" by simp
  show "io_eq s u" if "io_eq s t" "io_eq t u"
    using that by (rule io_eq_trans)
qed

text \<open>What \<open>serial_puts\<close> puts on the wire: every newline is preceded by a carriage return.\<close>

primrec crlf :: "cstring \<Rightarrow> u8 list" where
  "crlf [] = []"
| "crlf (c # cs) = (if c = 10 then [13, 10] else [c]) @ crlf cs"

lemma serial_puts_put_all: "serial_puts cs s = serial.put_all (crlf cs) s"
  by (induction cs arbitrary: s) (simp_all split: bind_splits)

definition hex16 :: "nat \<Rightarrow> u64 \<Rightarrow> u8 list" where
  "hex16 k val = map (\<lambda>i. hex_lower ! unat (drop_bit (4 * i) val AND 0xF)) (rev [0..<k])"

lemma puthex64_loop_put_all: "puthex64_loop k val s = serial.put_all (hex16 k val) s"
  by (induction k arbitrary: s) (simp_all add: hex16_def split: bind_splits)

lemma serial_puthex64_put_all:
  "serial_puthex64 val s = serial.put_all (cstr ''0x'' @ hex16 16 val) s"
  by (simp add: serial_puthex64_def serial.put_all_append serial_puts_put_all
      puthex64_loop_put_all cstr_def split: bind_splits)

lemma hex_lower_no_newline: "n < 16 \<Longrightarrow> hex_lower ! n \<noteq> 10"
proof -
  assume "n < 16"
  then have "hex_lower ! n \<in> set hex_lower" by (intro nth_mem) (simp add: hex_lower_def cstr_def)
  then show ?thesis by (auto simp: hex_lower_def cstr_def of_char_def)
qed

lemma crlf_id: "10 \<notin> set cs \<Longrightarrow> crlf cs = cs"
  by (induction cs) auto

lemma crlf_hex16: "crlf (hex16 k v) = hex16 k v"
proof -
  have "unat (x AND 0xF) < 16" for x :: u64
    using word_and_le1 [of x "0xF"] by (simp add: word_le_nat_alt)
  then have "10 \<notin> set (hex16 k v)" using hex_lower_no_newline by (force simp: hex16_def)
  then show ?thesis by (rule crlf_id)
qed

lemma serial_puthex64_puts: "serial_puthex64 val s = serial_puts (cstr ''0x'' @ hex16 16 val) s"
proof -
  have "crlf (cs @ ds) = crlf cs @ crlf ds" for cs ds by (induction cs) simp_all
  then show ?thesis
    unfolding serial_puthex64_put_all serial_puts_put_all by (simp add: crlf_hex16) (simp add: cstr_def of_char_def)
qed

text \<open>Output functions return, whatever the device, once it is live, and change nothing but
  the port traffic.\<close>

lemma serial_puts_spec:
  assumes "uart_live s"
  shows "\<exists>t. serial_puts cs s = Some t \<and> serial_sent t = serial_sent s @ crlf cs \<and>
    uart_live t \<and> io_eq s t"
  unfolding serial_puts_put_all by (rule serial.put_all_spec [OF assms])

lemma serial_puthex64_spec:
  assumes "uart_live s"
  shows "\<exists>t. serial_puthex64 val s = Some t \<and>
    serial_sent t = serial_sent s @ cstr ''0x'' @ hex16 16 val \<and> uart_live t \<and> io_eq s t"
  unfolding serial_puthex64_put_all by (rule serial.put_all_spec [OF assms])

lemma put_all_io_eq: "serial.put_all cs s = Some t \<Longrightarrow> io_eq s t"
proof (induction cs arbitrary: s)
  case (Cons c cs)
  then obtain u where "serial_putc c s = Some u" "serial.put_all cs u = Some t"
    by (auto simp: bind_eq_Some_conv)
  with Cons.IH serial_putc_io_eq io_eq_trans show ?case by blast
qed simp

lemma serial_puts_io_eq: "serial_puts cs s = Some t \<Longrightarrow> io_eq s t"
  by (auto simp: serial_puts_put_all dest: put_all_io_eq)

lemma serial_puthex64_io_eq: "serial_puthex64 v s = Some t \<Longrightarrow> io_eq s t"
  by (auto simp: serial_puthex64_put_all dest: put_all_io_eq)

end
