(* ===== verification/Prism_Vga.thy ===== *)
theory Prism_Vga
  imports Prism_Machine
begin

text \<open>
  The text-mode console of \<^verbatim>\<open>drivers/vga.c\<close>: 80 columns by 25 rows of 16-bit cells and a
  cursor kept in two bytes. \<open>vga_cells\<close> is the buffer the pointer \<open>vga_buffer\<close> designates; the
  frames that hold it are reserved by the physical memory manager, so no other component
  reaches it.
\<close>

record vga_state = machine +
  vga_buffer :: u64
  vga_cells :: "u16 list"
  vga_cursor_x :: u8
  vga_cursor_y :: u8

definition VGA_WIDTH :: nat where "VGA_WIDTH = 80"
definition VGA_HEIGHT :: nat where "VGA_HEIGHT = 25"

definition VGA_COLOR :: "u8 \<Rightarrow> u8 \<Rightarrow> u8" where
  "VGA_COLOR fg bg = push_bit 4 (bg AND 0xF) OR (fg AND 0xF)"

definition VGA_COLOR_BLACK :: u8 where "VGA_COLOR_BLACK = 0"
definition VGA_COLOR_LIGHT_GREY :: u8 where "VGA_COLOR_LIGHT_GREY = 7"

definition vga_set_higher_half :: "'a vga_state_scheme \<Rightarrow> 'a vga_state_scheme" where
  "vga_set_higher_half s = s\<lparr>vga_buffer := 0xFFFFFFFF80000000 + 0xB8000\<rparr>"

text \<open>\<open>char\<close> is signed on this target, so the cast of \<open>c\<close> to 16 bits extends its sign.\<close>

definition vga_entry :: "u8 \<Rightarrow> u8 \<Rightarrow> u16" where
  "vga_entry c color = push_bit 8 (ucast color) OR scast c"

definition default_color :: u8 where
  "default_color = VGA_COLOR VGA_COLOR_LIGHT_GREY VGA_COLOR_BLACK"

abbreviation blank_cell :: u16 where
  "blank_cell \<equiv> vga_entry 32 default_color"

definition khello_init :: "'a vga_state_scheme \<Rightarrow> 'a vga_state_scheme" where
  "khello_init s = s\<lparr>
     vga_cells := fold (\<lambda>i b. b[i := vga_entry 32 default_color]) [0..<VGA_WIDTH * VGA_HEIGHT] (vga_cells s),
     vga_cursor_x := 0, vga_cursor_y := 0\<rparr>"

text \<open>The scrolling loops: every row is copied onto the one above it, the last is blanked.\<close>

definition scroll_row :: "nat \<Rightarrow> u16 list \<Rightarrow> u16 list" where
  "scroll_row y b =
     fold (\<lambda>x b. b[(y - 1) * VGA_WIDTH + x := b ! (y * VGA_WIDTH + x)]) [0..<VGA_WIDTH] b"

definition blank_last_row :: "u8 \<Rightarrow> u16 list \<Rightarrow> u16 list" where
  "blank_last_row color b =
     fold (\<lambda>x b. b[(VGA_HEIGHT - 1) * VGA_WIDTH + x := vga_entry 32 color]) [0..<VGA_WIDTH] b"

definition vga_scroll :: "u8 \<Rightarrow> u16 list \<Rightarrow> u16 list" where
  "vga_scroll color b = blank_last_row color (fold scroll_row [1..<VGA_HEIGHT] b)"

definition put_cell :: "u8 \<Rightarrow> u8 \<Rightarrow> 'a vga_state_scheme \<Rightarrow> 'a vga_state_scheme" where
  "put_cell c color s =
     (let idx = unat (vga_cursor_y s) * VGA_WIDTH + unat (vga_cursor_x s) in
      if idx < VGA_WIDTH * VGA_HEIGHT
      then s\<lparr>vga_cells := (vga_cells s)[idx := vga_entry c color]\<rparr> else s)"

definition kprintc_place :: "u8 \<Rightarrow> u8 \<Rightarrow> 'a vga_state_scheme \<Rightarrow> 'a vga_state_scheme" where
  "kprintc_place c color s =
     (if c = 10 then s\<lparr>vga_cursor_y := vga_cursor_y s + 1, vga_cursor_x := 0\<rparr>
      else if c = 13 then s\<lparr>vga_cursor_x := 0\<rparr>
      else if c = 9 then s\<lparr>vga_cursor_x := (vga_cursor_x s + 8) AND NOT 0x07\<rparr>
      else
        let s1 = put_cell c color s;
            s2 = s1\<lparr>vga_cursor_x := vga_cursor_x s1 + 1\<rparr>
        in if unat (vga_cursor_x s2) \<ge> VGA_WIDTH
           then s2\<lparr>vga_cursor_x := 0, vga_cursor_y := vga_cursor_y s2 + 1\<rparr> else s2)"

definition kprintc :: "u8 \<Rightarrow> 'a vga_state_scheme \<Rightarrow> 'a vga_state_scheme" where
  "kprintc c s =
     (let color = VGA_COLOR VGA_COLOR_LIGHT_GREY VGA_COLOR_BLACK;
          s1 = kprintc_place c color s
      in if unat (vga_cursor_y s1) \<ge> VGA_HEIGHT
         then s1\<lparr>vga_cells := vga_scroll color (vga_cells s1),
                 vga_cursor_y := of_nat (VGA_HEIGHT - 1)\<rparr>
         else s1)"

primrec kprint :: "cstring \<Rightarrow> 'a vga_state_scheme \<Rightarrow> 'a vga_state_scheme" where
  "kprint [] s = s"
| "kprint (c # cs) s = kprint cs (kprintc c s)"

definition hex_upper :: cstring where "hex_upper = cstr ''0123456789ABCDEF''"

primrec kprint_hex_loop :: "nat \<Rightarrow> u64 \<Rightarrow> 'a vga_state_scheme \<Rightarrow> 'a vga_state_scheme" where
  "kprint_hex_loop 0 val s = s"
| "kprint_hex_loop (Suc i) val s =
     kprint_hex_loop i val (kprintc (hex_upper ! unat (drop_bit (i * 4) val AND 0xF)) s)"

definition kprint_hex :: "u64 \<Rightarrow> 'a vga_state_scheme \<Rightarrow> 'a vga_state_scheme" where
  "kprint_hex val s = kprint_hex_loop 16 val (kprint (cstr ''0x'') s)"

definition cursor_back :: "'a vga_state_scheme \<Rightarrow> 'a vga_state_scheme" where
  "cursor_back s =
     (if vga_cursor_x s = 0
      then s\<lparr>vga_cursor_y := vga_cursor_y s - 1, vga_cursor_x := of_nat (VGA_WIDTH - 1)\<rparr>
      else s\<lparr>vga_cursor_x := vga_cursor_x s - 1\<rparr>)"

definition vga_backspace :: "'a vga_state_scheme \<Rightarrow> 'a vga_state_scheme" where
  "vga_backspace s =
     (if vga_cursor_x s = 0 \<and> vga_cursor_y s = 0 then s
      else cursor_back (kprintc 32 (cursor_back s)))"

text \<open>Console output touches the screen and the cursor only.\<close>

definition vga_eq :: "'a vga_state_scheme \<Rightarrow> 'a vga_state_scheme \<Rightarrow> bool" where
  "vga_eq s t \<longleftrightarrow> t = s\<lparr>vga_cells := vga_cells t, vga_cursor_x := vga_cursor_x t,
     vga_cursor_y := vga_cursor_y t\<rparr>"

lemma vga_eqI: "t = s\<lparr>vga_cells := c, vga_cursor_x := x, vga_cursor_y := y\<rparr> \<Longrightarrow> vga_eq s t"
  by (simp add: vga_eq_def)

lemma vga_eqE:
  assumes "vga_eq s t"
  obtains c x y where "t = s\<lparr>vga_cells := c, vga_cursor_x := x, vga_cursor_y := y\<rparr>"
  using assms unfolding vga_eq_def by blast

lemma vga_eq_refl [simp]: "vga_eq s s"
  by (simp add: vga_eq_def)

lemma vga_eq_trans [trans]: "vga_eq s t \<Longrightarrow> vga_eq t u \<Longrightarrow> vga_eq s u"
  by (elim vga_eqE) (rule vga_eqI, simp)

lemma vga_eqD [frame_simps]:
  assumes "vga_eq s t"
  shows "mem t = mem s" "cr3 t = cr3 s" "syms t = syms s" "io_in t = io_in s" "io_log t = io_log s"
    "io_reads t = io_reads s" "vga_buffer t = vga_buffer s"
  by (rule vga_eqE [OF assms], simp)+

lemma vga_eq_cursor_x [intro]: "vga_eq s t \<Longrightarrow> vga_eq s (t\<lparr>vga_cursor_x := x\<rparr>)"
  by (elim vga_eqE, cases s) (simp add: vga_eq_def)

lemma vga_eq_cursor_y [intro]: "vga_eq s t \<Longrightarrow> vga_eq s (t\<lparr>vga_cursor_y := y\<rparr>)"
  by (elim vga_eqE, cases s) (simp add: vga_eq_def)

lemma vga_eq_cells [intro]: "vga_eq s t \<Longrightarrow> vga_eq s (t\<lparr>vga_cells := c\<rparr>)"
  by (elim vga_eqE, cases s) (simp add: vga_eq_def)

lemma put_cell_vga_eq: "vga_eq s (put_cell c color s)"
  by (auto simp: put_cell_def Let_def)

lemma kprintc_place_vga_eq: "vga_eq s (kprintc_place c color s)"
  unfolding kprintc_place_def Let_def
  by (auto intro: put_cell_vga_eq vga_eq_cursor_x [OF vga_eq_cursor_y])

lemma kprintc_vga_eq: "vga_eq s (kprintc c s)"
  using kprintc_place_vga_eq [of s c "VGA_COLOR VGA_COLOR_LIGHT_GREY VGA_COLOR_BLACK"]
  by (auto simp: kprintc_def Let_def)

lemma kprint_vga_eq: "vga_eq s (kprint cs s)"
proof (induction cs arbitrary: s)
  case (Cons c cs)
  then show ?case using kprintc_vga_eq vga_eq_trans by (metis kprint.simps(2))
qed simp

lemma kprint_hex_loop_vga_eq: "vga_eq s (kprint_hex_loop n v s)"
proof (induction n arbitrary: s)
  case (Suc n)
  then show ?case using kprintc_vga_eq vga_eq_trans by (metis kprint_hex_loop.simps(2))
qed simp

lemma kprint_hex_vga_eq: "vga_eq s (kprint_hex v s)"
  unfolding kprint_hex_def by (rule vga_eq_trans [OF kprint_vga_eq kprint_hex_loop_vga_eq])

lemma khello_init_vga_eq: "vga_eq s (khello_init s)"
  by (simp add: khello_init_def vga_eq_def)

section \<open>Well-formed screens\<close>

text \<open>
  The buffer has its 2000 cells and the cursor is on a row of the screen. A column past the
  right margin can only come from tabs, which do not wrap to the next row, so it is a
  multiple of 8.
\<close>

definition vga_inv :: "'a vga_state_scheme \<Rightarrow> bool" where
  "vga_inv s \<longleftrightarrow> length (vga_cells s) = 2000 \<and> unat (vga_cursor_y s) < 25 \<and>
     (unat (vga_cursor_x s) < 80 \<or> unat (vga_cursor_x s) mod 8 = 0)"

lemmas vga_consts = VGA_WIDTH_def VGA_HEIGHT_def

lemma fold_list_update_length:
  "(\<And>i b. length (f i b) = length b) \<Longrightarrow> length (fold f xs b) = length b"
  by (induction xs arbitrary: b) simp_all

lemma length_scroll_row [simp]: "length (scroll_row y b) = length b"
  unfolding scroll_row_def by (rule fold_list_update_length) simp

lemma length_vga_scroll [simp]: "length (vga_scroll color b) = length b"
  unfolding vga_scroll_def blank_last_row_def
  by (simp add: fold_list_update_length)

lemma put_cell_simps [simp]:
  "vga_cursor_x (put_cell c color s) = vga_cursor_x s"
  "vga_cursor_y (put_cell c color s) = vga_cursor_y s"
  "length (vga_cells (put_cell c color s)) = length (vga_cells s)"
  by (simp_all add: put_cell_def Let_def)

lemma tab_column: "unat (((x :: u8) + 8) AND - 8) mod 8 = 0"
proof -
  have m: "NOT (mask 3) = (- 8 :: u8)" by (simp add: mask_eq_exp_minus_1)
  have "take_bit 3 ((x + 8) AND NOT (mask 3)) = 0"
    by (rule bit_word_eqI) (simp add: bit_simps)
  then have "take_bit 3 (unat ((x + 8) AND - 8)) = 0"
    unfolding m by (metis unsigned_take_bit_eq unsigned_0)
  then show ?thesis by (simp only: take_bit_eq_mod) simp
qed

lemma unat_add_1_u8: "unat (x :: u8) < 255 \<Longrightarrow> unat (x + 1) = Suc (unat x)"
  by (simp add: unat_word_ariths)

lemma column_lt_255: "unat (x :: u8) < 80 \<or> unat x mod 8 = 0 \<Longrightarrow> unat x < 255"
  using unsigned_less [of x, where 'a = nat] by (cases "unat x = 255") auto

lemma kprintc_place_inv:
  assumes "vga_inv s"
  shows "length (vga_cells (kprintc_place c color s)) = 2000"
    "unat (vga_cursor_y (kprintc_place c color s)) \<le> 25"
    "unat (vga_cursor_x (kprintc_place c color s)) < 80 \<or>
     unat (vga_cursor_x (kprintc_place c color s)) mod 8 = 0"
  using assms column_lt_255 [of "vga_cursor_x s"]
  by (auto simp: vga_inv_def kprintc_place_def Let_def vga_consts tab_column unat_add_1_u8)

lemma kprintc_inv: "vga_inv s \<Longrightarrow> vga_inv (kprintc c s)"
  using kprintc_place_inv [of s c default_color]
  by (auto simp: vga_inv_def kprintc_def Let_def vga_consts simp flip: default_color_def)

lemma kprint_inv: "vga_inv s \<Longrightarrow> vga_inv (kprint cs s)"
  by (induction cs arbitrary: s) (simp_all add: kprintc_inv)

lemma kprint_hex_loop_inv: "vga_inv s \<Longrightarrow> vga_inv (kprint_hex_loop n v s)"
  by (induction n arbitrary: s) (simp_all add: kprintc_inv)

lemma kprint_hex_inv: "vga_inv s \<Longrightarrow> vga_inv (kprint_hex v s)"
  by (simp add: kprint_hex_def kprint_inv kprint_hex_loop_inv)

section \<open>Scrolling\<close>

lemma fold_copy_nth:
  assumes "p + n \<le> q" "q + n \<le> length b" "j < length b"
  shows "fold (\<lambda>x b. b[p + x := b ! (q + x)]) [0..<n] b ! j =
    (if p \<le> j \<and> j < p + n then b ! (j - p + q) else b ! j)"
  using assms
proof (induction n arbitrary: j)
  case 0
  then show ?case by auto
next
  case (Suc n)
  let ?f = "fold (\<lambda>x b. b[p + x := b ! (q + x)]) [0..<n] b"
  have len: "length ?f = length b" by (rule fold_list_update_length) simp
  have "?f ! (q + n) = b ! (q + n)" using Suc.prems Suc.IH [of "q + n"] by simp
  moreover have "?f ! j = (if p \<le> j \<and> j < p + n then b ! (j - p + q) else b ! j)"
    using Suc.prems by (intro Suc.IH) simp_all
  ultimately show ?case using Suc.prems len by (auto simp: nth_list_update add.commute)
qed

lemma scroll_row_nth:
  assumes "length b = 2000" "1 \<le> y" "y < 25" "j < 2000"
  shows "scroll_row y b ! j = (if (y - 1) * 80 \<le> j \<and> j < y * 80 then b ! (j + 80) else b ! j)"
proof -
  have "scroll_row y b ! j =
    (if (y - 1) * 80 \<le> j \<and> j < (y - 1) * 80 + 80 then b ! (j - (y - 1) * 80 + y * 80) else b ! j)"
    unfolding scroll_row_def vga_consts using assms by (intro fold_copy_nth) auto
  moreover have "(y - 1) * 80 + 80 = y * 80" using assms(2) by (cases y) simp_all
  moreover have "j - (y - 1) * 80 + y * 80 = j + 80" if "(y - 1) * 80 \<le> j"
    using that assms(2) by (cases y) simp_all
  ultimately show ?thesis by auto
qed

lemma scroll_rows_nth:
  assumes "length b = 2000" "k \<le> 24" "j < 2000"
  shows "fold scroll_row [1..<Suc k] b ! j = (if j < k * 80 then b ! (j + 80) else b ! j)"
  using assms(2,3)
proof (induction k arbitrary: j)
  case 0
  then show ?case by simp
next
  case (Suc k)
  let ?b = "fold scroll_row [1..<Suc k] b"
  have len: "length ?b = 2000" using assms(1) by (simp add: fold_list_update_length del: upt_Suc)
  have "fold scroll_row [1..<Suc (Suc k)] b = scroll_row (Suc k) ?b" by simp
  moreover have "scroll_row (Suc k) ?b ! j =
      (if k * 80 \<le> j \<and> j < Suc k * 80 then ?b ! (j + 80) else ?b ! j)"
    using scroll_row_nth [OF len, of "Suc k" j] Suc.prems by (simp del: upt_Suc)
  moreover have "?b ! j = (if j < k * 80 then b ! (j + 80) else b ! j)"
    using Suc by (intro Suc.IH) simp_all
  moreover have "k * 80 \<le> j \<Longrightarrow> j < Suc k * 80 \<Longrightarrow> ?b ! (j + 80) = b ! (j + 80)"
    using Suc.prems by (subst Suc.IH) auto
  ultimately show ?case by auto
qed

lemma blank_last_row_nth:
  assumes "length b = 2000" "j < 2000"
  shows "blank_last_row color b ! j = (if 1920 \<le> j then vga_entry 32 color else b ! j)"
proof -
  have "fold (\<lambda>x b. b[1920 + x := v]) [0..<n] b ! j = (if 1920 \<le> j \<and> j < 1920 + n then v else b ! j)"
    if "n \<le> 80" for n and v :: u16
    using that
  proof (induction n)
    case (Suc n)
    have "length (fold (\<lambda>x b. b[1920 + x := v]) [0..<n] b) = 2000"
      using assms(1) by (simp add: fold_list_update_length)
    with Suc assms show ?case by (auto simp: nth_list_update)
  qed auto
  from this [of 80 "vga_entry 32 color"] assms(2) show ?thesis
    by (simp add: blank_last_row_def vga_consts)
qed

lemma vga_scroll_eq:
  assumes "length b = 2000"
  shows "vga_scroll color b = drop 80 b @ replicate 80 (vga_entry 32 color)"
proof (rule nth_equalityI)
  show "length (vga_scroll color b) = length (drop 80 b @ replicate 80 (vga_entry 32 color))"
    using assms by simp
next
  fix j assume "j < length (vga_scroll color b)"
  then have j: "j < 2000" using assms by simp
  have up: "[1..<25] = [1..<Suc 24]" by simp
  have "length (fold scroll_row [1..<25] b) = 2000"
    using assms by (simp add: fold_list_update_length)
  with j assms scroll_rows_nth [OF assms, of 24 j]
  show "vga_scroll color b ! j = (drop 80 b @ replicate 80 (vga_entry 32 color)) ! j"
    by (simp add: vga_scroll_def vga_consts blank_last_row_nth up nth_append add.commute
        del: upt_Suc)
qed

section \<open>Placing and erasing one character\<close>

abbreviation printable :: "u8 \<Rightarrow> bool" where
  "printable c \<equiv> c \<noteq> 10 \<and> c \<noteq> 13 \<and> c \<noteq> 9"

definition cursor_index :: "'a vga_state_scheme \<Rightarrow> nat" where
  "cursor_index s = unat (vga_cursor_y s) * 80 + unat (vga_cursor_x s)"

text \<open>Inside a row: the cell under the cursor is written and the cursor moves right.\<close>

lemma kprintc_inside:
  assumes "vga_inv s" "printable c" "unat (vga_cursor_x s) < 79"
  shows "kprintc c s = s\<lparr>vga_cells := (vga_cells s)[cursor_index s := vga_entry c default_color],
    vga_cursor_x := vga_cursor_x s + 1\<rparr>"
  using assms
  by (auto simp: kprintc_def kprintc_place_def put_cell_def Let_def vga_consts vga_inv_def
      cursor_index_def unat_add_1_u8 simp flip: default_color_def)

text \<open>At the last column: the cursor wraps to the next row.\<close>

lemma kprintc_margin:
  assumes "vga_inv s" "printable c" "unat (vga_cursor_x s) = 79" "unat (vga_cursor_y s) < 24"
  shows "kprintc c s = s\<lparr>vga_cells := (vga_cells s)[cursor_index s := vga_entry c default_color],
    vga_cursor_x := 0, vga_cursor_y := vga_cursor_y s + 1\<rparr>"
  using assms
  by (auto simp: kprintc_def kprintc_place_def put_cell_def Let_def vga_consts vga_inv_def
      cursor_index_def unat_add_1_u8 simp flip: default_color_def)

text \<open>At the last cell of the screen: one row is scrolled out.\<close>

lemma kprintc_last_cell:
  assumes "vga_inv s" "printable c" "unat (vga_cursor_x s) = 79" "unat (vga_cursor_y s) = 24"
  shows "kprintc c s = s\<lparr>vga_cells :=
      drop 80 ((vga_cells s)[1999 := vga_entry c default_color]) @ replicate 80 blank_cell,
    vga_cursor_x := 0, vga_cursor_y := 24\<rparr>"
  using assms
  by (auto simp: kprintc_def kprintc_place_def put_cell_def Let_def vga_consts vga_inv_def
      cursor_index_def unat_add_1_u8 vga_scroll_eq simp flip: default_color_def)

lemma kprintc_newline:
  assumes "vga_inv s"
  shows "kprintc 10 s =
    (if unat (vga_cursor_y s) < 24
     then s\<lparr>vga_cursor_x := 0, vga_cursor_y := vga_cursor_y s + 1\<rparr>
     else s\<lparr>vga_cells := drop 80 (vga_cells s) @ replicate 80 blank_cell,
            vga_cursor_x := 0, vga_cursor_y := 24\<rparr>)"
  using assms
  by (auto simp: kprintc_def kprintc_place_def Let_def vga_consts vga_inv_def
      unat_add_1_u8 vga_scroll_eq simp flip: default_color_def)

lemma kprintc_printable_shape:
  assumes "length (vga_cells s) = 2000" "unat (vga_cursor_y s) < 25" "unat (vga_cursor_x s) < 255"
    "printable c"
  shows "length (vga_cells (kprintc c s)) = 2000" "unat (vga_cursor_y (kprintc c s)) < 25"
    "unat (vga_cursor_x (kprintc c s)) < 80"
    "vga_cursor_x (kprintc c s) = 0 \<Longrightarrow> vga_cursor_y (kprintc c s) \<noteq> 0"
proof -
  have x: "unat (vga_cursor_x s + 1) = Suc (unat (vga_cursor_x s))"
    using assms(3) by (rule unat_add_1_u8)
  have y: "unat (vga_cursor_y s + 1) = Suc (unat (vga_cursor_y s))"
    using assms(2) by (intro unat_add_1_u8) simp
  have x0: "vga_cursor_x s + 1 \<noteq> 0" and y0: "vga_cursor_y s + 1 \<noteq> 0"
    using x y by (auto simp: word_unat_eq_iff)
  show "length (vga_cells (kprintc c s)) = 2000" "unat (vga_cursor_y (kprintc c s)) < 25"
    "unat (vga_cursor_x (kprintc c s)) < 80"
    "vga_cursor_x (kprintc c s) = 0 \<Longrightarrow> vga_cursor_y (kprintc c s) \<noteq> 0"
    using assms x y x0 y0
    by (auto simp: kprintc_def kprintc_place_def Let_def vga_consts split: if_splits)
qed

lemma cursor_back_shape:
  assumes "vga_cursor_x s = 0 \<Longrightarrow> vga_cursor_y s \<noteq> 0" "unat (vga_cursor_y s) < 25"
  shows "unat (vga_cursor_y (cursor_back s)) < 25"
    "unat (vga_cursor_x (cursor_back s)) < 255"
    "unat (vga_cursor_x s) < 80 \<Longrightarrow> unat (vga_cursor_x (cursor_back s)) < 80"
    "vga_cells (cursor_back s) = vga_cells s"
proof -
  have dec: "unat (z - 1) = unat z - 1" if "z \<noteq> 0" for z :: u8
    using that by (rule unat_minus_one)
  have "unat (vga_cursor_x s) < 256" using unsigned_less [of "vga_cursor_x s", where 'a = nat] by simp
  then show "unat (vga_cursor_y (cursor_back s)) < 25"
    "unat (vga_cursor_x (cursor_back s)) < 255"
    "unat (vga_cursor_x s) < 80 \<Longrightarrow> unat (vga_cursor_x (cursor_back s)) < 80"
    "vga_cells (cursor_back s) = vga_cells s"
    using assms by (auto simp: cursor_back_def vga_consts dec)
qed

lemma vga_backspace_inv:
  assumes "vga_inv s"
  shows "vga_inv (vga_backspace s)"
proof (cases "vga_cursor_x s = 0 \<and> vga_cursor_y s = 0")
  case True
  with assms show ?thesis by (simp add: vga_backspace_def)
next
  case False
  let ?t = "kprintc 32 (cursor_back s)"
  have s: "length (vga_cells s) = 2000" "unat (vga_cursor_y s) < 25"
    using assms by (simp_all add: vga_inv_def)
  have b: "vga_cells (cursor_back s) = vga_cells s" "unat (vga_cursor_y (cursor_back s)) < 25"
    "unat (vga_cursor_x (cursor_back s)) < 255"
    using cursor_back_shape [of s] False s(2) by auto
  have t: "length (vga_cells ?t) = 2000" "unat (vga_cursor_y ?t) < 25"
    "unat (vga_cursor_x ?t) < 80" "vga_cursor_x ?t = 0 \<Longrightarrow> vga_cursor_y ?t \<noteq> 0"
    using kprintc_printable_shape [of "cursor_back s" 32] s(1) b by auto
  then show ?thesis
    using False cursor_back_shape [of ?t] by (auto simp: vga_backspace_def vga_inv_def)
qed

section \<open>Properties of the console\<close>


text \<open>A cleared screen.\<close>

definition vga_boot :: "vga_state" where
  "vga_boot = \<lparr>io_log = [], io_in = \<lambda>_ _. 0x20, io_reads = 0, mem = \<lambda>_. 0, cr3 = 0,
     syms = \<lparr>sym_kernel_end = 0, sym_pml4_new = 0, sym_pdpt_id = 0, sym_pdpt_hi = 0, sym_pd_id = 0,
       sym_pd_hi = 0, sym_pt_hi_kernel = 0, sym_pt_id_0 = 0, sym_pt_id_1 = 0, sym_gdt_entries = 0,
       sym_tss_value = 0, sym_idt_entries = 0, sym_isr_stub = \<lambda>_. 0, sym_idle_entry = 0,
       sym_enter_user_mode = 0, sym_syscall_entry = 0, sym_thread_a = 0, sym_thread_b = 0, sym_test_elf = 0\<rparr>,
     vga_buffer = 0xB8000, vga_cells = replicate 2000 0, vga_cursor_x = 0, vga_cursor_y = 0\<rparr>"

lemma vga_boot_inv: "vga_inv vga_boot"
  by (simp add: vga_inv_def vga_boot_def)


text \<open>
  Erasing undoes printing: after a printable character is placed, a backspace puts the
  cursor back where it was and leaves a blank in the cell, and nothing else differs, whether
  or not the character was the last of its row.
\<close>

theorem backspace_undoes_kprintc:
  assumes "vga_inv s" "printable c" "unat (vga_cursor_x s) < 79 \<or>
    unat (vga_cursor_x s) = 79 \<and> unat (vga_cursor_y s) < 24"
  shows "vga_backspace (kprintc c s) = s\<lparr>vga_cells := (vga_cells s)[cursor_index s := blank_cell]\<rparr>"
  using assms(3)
proof
  assume x: "unat (vga_cursor_x s) < 79"
  let ?t = "kprintc c s"
  have t: "?t = s\<lparr>vga_cells := (vga_cells s)[cursor_index s := vga_entry c default_color],
      vga_cursor_x := vga_cursor_x s + 1\<rparr>"
    using assms(1,2) x by (rule kprintc_inside)
  have ne: "vga_cursor_x s + 1 \<noteq> 0"
    using unat_add_1_u8 [of "vga_cursor_x s"] x by (auto simp: word_unat_eq_iff)
  have bk: "cursor_back ?t = s\<lparr>vga_cells := (vga_cells s)[cursor_index s := vga_entry c default_color]\<rparr>"
    using ne by (simp add: t cursor_back_def)
  have "vga_inv (cursor_back ?t)" using assms(1) by (simp add: bk vga_inv_def)
  with x have "kprintc 32 (cursor_back ?t) = s\<lparr>vga_cells := (vga_cells s)[cursor_index s := blank_cell],
      vga_cursor_x := vga_cursor_x s + 1\<rparr>"
    by (subst kprintc_inside) (simp_all add: bk cursor_index_def)
  with ne show ?thesis by (simp add: vga_backspace_def t cursor_back_def)
next
  assume x: "unat (vga_cursor_x s) = 79 \<and> unat (vga_cursor_y s) < 24"
  let ?t = "kprintc c s"
  have t: "?t = s\<lparr>vga_cells := (vga_cells s)[cursor_index s := vga_entry c default_color],
      vga_cursor_x := 0, vga_cursor_y := vga_cursor_y s + 1\<rparr>"
    using assms(1,2) x by (intro kprintc_margin) auto
  have ne: "vga_cursor_y s + 1 \<noteq> 0"
    using unat_add_1_u8 [of "vga_cursor_y s"] x by (auto simp: word_unat_eq_iff)
  have x79: "vga_cursor_x s = 79" using x by (simp add: word_unat_eq_iff)
  have bk: "cursor_back ?t = s\<lparr>vga_cells := (vga_cells s)[cursor_index s := vga_entry c default_color]\<rparr>"
    using x79 by (simp add: t cursor_back_def vga_consts)
  have "vga_inv (cursor_back ?t)" using assms(1) by (simp add: bk vga_inv_def)
  with x have "kprintc 32 (cursor_back ?t) = s\<lparr>vga_cells := (vga_cells s)[cursor_index s := blank_cell],
      vga_cursor_x := 0, vga_cursor_y := vga_cursor_y s + 1\<rparr>"
    by (subst kprintc_margin) (simp_all add: bk cursor_index_def)
  with ne x79 show ?thesis by (simp add: vga_backspace_def t cursor_back_def vga_consts)
qed

theorem backspace_undoes_kprintc_witness:
  "vga_backspace (kprintc 65 vga_boot) = vga_boot\<lparr>vga_cells := (vga_cells vga_boot)[0 := blank_cell]\<rparr>"
  using backspace_undoes_kprintc [OF vga_boot_inv, of 65]
  by (simp add: vga_boot_def cursor_index_def)

text \<open>A run of printable characters that stays inside one row.\<close>

lemma list_update_append_run:
  "i < length xs \<Longrightarrow> i + 1 + length cs \<le> length xs \<Longrightarrow>
   take (i + 1) (xs[i := v]) @ cs @ drop (i + 1 + length cs) (xs[i := v]) =
   take i xs @ (v # cs) @ drop (i + length (v # cs)) xs"
  by (simp add: take_Suc_conv_app_nth)

text \<open>
  Printing a string of printable characters that fits the rest of the row writes exactly
  its cells, in order and in the default colour, moves the cursor by its length, and leaves
  every other cell alone.
\<close>

theorem kprint_writes_row:
  assumes "vga_inv s" "list_all printable cs" "unat (vga_cursor_x s) + length cs \<le> 79"
  shows "kprint cs s = s\<lparr>vga_cells := take (cursor_index s) (vga_cells s) @
      map (\<lambda>c. vga_entry c default_color) cs @ drop (cursor_index s + length cs) (vga_cells s),
    vga_cursor_x := vga_cursor_x s + of_nat (length cs)\<rparr>"
  using assms
proof (induction cs arbitrary: s)
  case Nil
  then show ?case by simp
next
  case (Cons c cs)
  let ?t = "kprintc c s"
  have c: "printable c" using Cons.prems(2) by simp
  have t: "?t = s\<lparr>vga_cells := (vga_cells s)[cursor_index s := vga_entry c default_color],
      vga_cursor_x := vga_cursor_x s + 1\<rparr>"
    using Cons.prems(3) by (intro kprintc_inside [OF Cons.prems(1) c]) simp
  have x: "unat (vga_cursor_x s + 1) = Suc (unat (vga_cursor_x s))"
    using Cons.prems(3) by (intro unat_add_1_u8) simp
  have idx: "cursor_index ?t = cursor_index s + 1" by (simp add: t cursor_index_def x)
  have room: "cursor_index s < length (vga_cells s)"
    "cursor_index s + 1 + length (map (\<lambda>c. vga_entry c default_color) cs) \<le> length (vga_cells s)"
    using Cons.prems by (simp_all add: vga_inv_def cursor_index_def)
  have "kprint cs ?t = ?t\<lparr>vga_cells := take (cursor_index ?t) (vga_cells ?t) @
      map (\<lambda>c. vga_entry c default_color) cs @ drop (cursor_index ?t + length cs) (vga_cells ?t),
    vga_cursor_x := vga_cursor_x ?t + of_nat (length cs)\<rparr>"
    using Cons.prems x by (intro Cons.IH kprintc_inv) (simp_all add: t)
  then show ?case
    using list_update_append_run [OF room, of "vga_entry c default_color"] x
    unfolding idx by (simp add: t add.assoc)
qed

theorem kprint_writes_row_witness:
  "take 2 (vga_cells (kprint [72, 105] vga_boot)) = [vga_entry 72 default_color, vga_entry 105 default_color]"
  using kprint_writes_row [OF vga_boot_inv, of "[72, 105]"]
  by (simp add: vga_boot_def cursor_index_def)

lemma tab_at_margin:
  assumes "72 \<le> unat (x :: u8)" "unat x < 80"
  shows "(x + 8) AND - 8 = 80"
proof -
  have "unat x \<in> {72, 73, 74, 75, 76, 77, 78, 79}" using assms by auto
  then have "x \<in> {72, 73, 74, 75, 76, 77, 78, 79}"
    by (auto simp: word_unat_eq_iff)
  then show ?thesis by auto
qed

text \<open>
  A tab in the last eight columns does not wrap: it leaves the cursor past the right margin,
  so the next character is drawn in column 0 of the following row while the cursor is reset to
  that same cell, and the character after it overwrites it. Printing tab, \<open>c\<close>, \<open>d\<close> there
  shows the same screen as printing newline, \<open>d\<close>.
\<close>

theorem tab_at_margin_loses_character:
  assumes "vga_inv s" "72 \<le> unat (vga_cursor_x s)" "unat (vga_cursor_x s) < 80"
    "unat (vga_cursor_y s) < 24" "printable c" "printable d"
  shows "kprint [9, c, d] s = kprint [10, d] s"
proof -
  have y: "unat (vga_cursor_y s + 1) = Suc (unat (vga_cursor_y s))"
    using assms(4) by (intro unat_add_1_u8) simp
  let ?i = "unat (vga_cursor_y s) * 80 + 80"
  have tab: "kprintc 9 s = s\<lparr>vga_cursor_x := 80\<rparr>"
    using assms(4) tab_at_margin [OF assms(2,3)]
    by (simp add: kprintc_def kprintc_place_def Let_def vga_consts)
  have "kprintc c (kprintc 9 s) = s\<lparr>vga_cells := (vga_cells s)[?i := vga_entry c default_color],
      vga_cursor_x := 0, vga_cursor_y := vga_cursor_y s + 1\<rparr>" (is "_ = ?t")
    unfolding tab using assms(4,5) y
    by (simp add: kprintc_def kprintc_place_def put_cell_def Let_def vga_consts flip: default_color_def)
  moreover have "kprintc 10 s = s\<lparr>vga_cursor_x := 0, vga_cursor_y := vga_cursor_y s + 1\<rparr>"
    (is "_ = ?u")
    using kprintc_newline [OF assms(1)] assms(4) by simp
  moreover have "kprintc d ?t = kprintc d ?u"
    using assms(1,4,6) y
    by (simp add: kprintc_inside vga_inv_def cursor_index_def add.commute)
  ultimately show ?thesis by simp
qed

theorem tab_at_margin_loses_character_witness:
  "kprint [9, 65, 66] (vga_boot\<lparr>vga_cursor_x := 75\<rparr>) = kprint [10, 66] (vga_boot\<lparr>vga_cursor_x := 75\<rparr>)"
proof -
  have "vga_inv (vga_boot\<lparr>vga_cursor_x := 75\<rparr>)" by (simp add: vga_inv_def vga_boot_def)
  from tab_at_margin_loses_character [OF this, of 65 66] show ?thesis
    by (simp add: vga_boot_def)
qed

end
