(* ===== verification/Prism_Pmm.thy ===== *)
theory Prism_Pmm
  imports Prism_Serial Prism_Vga Prism_Interfaces
begin

text \<open>
  The physical memory manager of \<^verbatim>\<open>mm/pmm.c\<close> and the boot information walk of
  \<^verbatim>\<open>mm/multiboot2.h\<close>. The bitmap keeps one bit per 4 KiB frame, set when the frame is in
  use; \<open>bitmap\<close> is the array of 32-bit words at the address \<open>bitmap_addr\<close>. The boot information
  is the memory \<open>mbi\<close> read from its base, so offset 0 is its first byte.
\<close>

record pmm_state = vga_state +
  bitmap :: "u64 \<Rightarrow> u32"
  bitmap_addr :: u64
  total_frames :: u64
  used_frames :: u64

definition PMM_FRAME_SIZE :: u64 where "PMM_FRAME_SIZE = 4096"
definition PMM_FRAME_SHIFT :: nat where "PMM_FRAME_SHIFT = 12"
definition MAX_FRAMES :: u64 where "MAX_FRAMES = 1024 * 1024"

definition PMM_FRAME_TO_ADDR :: "u64 \<Rightarrow> u64" where
  "PMM_FRAME_TO_ADDR frame = push_bit PMM_FRAME_SHIFT frame"

definition PMM_ADDR_TO_FRAME :: "u64 \<Rightarrow> u64" where
  "PMM_ADDR_TO_FRAME addr = drop_bit PMM_FRAME_SHIFT addr"

section \<open>The bitmap\<close>

definition bitmap_set :: "u64 \<Rightarrow> 'a pmm_state_scheme \<Rightarrow> 'a pmm_state_scheme" where
  "bitmap_set frame s = s\<lparr>bitmap := (bitmap s)(frame div 32 :=
     bitmap s (frame div 32) OR push_bit (unat (frame mod 32)) 1)\<rparr>"

definition bitmap_clear :: "u64 \<Rightarrow> 'a pmm_state_scheme \<Rightarrow> 'a pmm_state_scheme" where
  "bitmap_clear frame s = s\<lparr>bitmap := (bitmap s)(frame div 32 :=
     bitmap s (frame div 32) AND NOT (push_bit (unat (frame mod 32)) 1))\<rparr>"

definition bitmap_test :: "u64 \<Rightarrow> 'a pmm_state_scheme \<Rightarrow> u32" where
  "bitmap_test frame s = drop_bit (unat (frame mod 32)) (bitmap s (frame div 32)) AND 1"

section \<open>Marking regions\<close>

definition mark_frame :: "bool \<Rightarrow> u64 \<Rightarrow> 'a pmm_state_scheme \<Rightarrow> 'a pmm_state_scheme" where
  "mark_frame used f s =
     (if used then
        if bitmap_test f s = 0
        then (bitmap_set f s)\<lparr>used_frames := used_frames s + 1\<rparr> else s
      else
        if bitmap_test f s \<noteq> 0
        then (bitmap_clear f s)\<lparr>used_frames := used_frames s - 1\<rparr> else s)"

function mark_loop :: "bool \<Rightarrow> u64 \<Rightarrow> u64 \<Rightarrow> 'a pmm_state_scheme \<Rightarrow> 'a pmm_state_scheme" where
  "mark_loop used f end_frame s =
     (if f < end_frame then
        if f \<ge> total_frames s then s
        else mark_loop used (f + 1) end_frame (mark_frame used f s)
      else s)"
  by pat_completeness auto
termination
  by (relation "measure (\<lambda>(used, f, e, s). unat e - unat f)") (auto intro: word_countdown_wf)

declare mark_loop.simps [simp del]

definition pmm_mark_region :: "u64 \<Rightarrow> u64 \<Rightarrow> bool \<Rightarrow> 'a pmm_state_scheme \<Rightarrow> 'a pmm_state_scheme" where
  "pmm_mark_region base len used s =
     mark_loop used (PMM_ADDR_TO_FRAME base)
       (PMM_ADDR_TO_FRAME (base + len + PMM_FRAME_SIZE - 1)) s"

section \<open>Allocation\<close>

function alloc_loop :: "u64 \<Rightarrow> 'a pmm_state_scheme \<Rightarrow> u64 \<times> 'a pmm_state_scheme" where
  "alloc_loop i s =
     (if i < total_frames s then
        if bitmap_test i s = 0
        then (PMM_FRAME_TO_ADDR i, (bitmap_set i s)\<lparr>used_frames := used_frames s + 1\<rparr>)
        else alloc_loop (i + 1) s
      else (0, s))"
  by pat_completeness auto
termination
  by (relation "measure (\<lambda>(i, s). unat (total_frames s) - unat i)") (auto intro: word_countdown_wf)

declare alloc_loop.simps [simp del]

definition pmm_alloc_frame :: "'a pmm_state_scheme \<Rightarrow> u64 \<times> 'a pmm_state_scheme" where
  "pmm_alloc_frame s = alloc_loop 0 s"

function set_run :: "u64 \<Rightarrow> u64 \<Rightarrow> 'a pmm_state_scheme \<Rightarrow> 'a pmm_state_scheme" where
  "set_run f e s =
     (if f < e then set_run (f + 1) e ((bitmap_set f s)\<lparr>used_frames := used_frames s + 1\<rparr>) else s)"
  by pat_completeness auto
termination
  by (relation "measure (\<lambda>(f, e, s). unat e - unat f)") (auto intro: word_countdown_wf)

declare set_run.simps [simp del]

function alloc_run_loop ::
  "u64 \<Rightarrow> u64 \<Rightarrow> u64 \<Rightarrow> u64 \<Rightarrow> 'a pmm_state_scheme \<Rightarrow> u64 \<times> 'a pmm_state_scheme" where
  "alloc_run_loop count i run run_start s =
     (if i < total_frames s then
        if bitmap_test i s = 0 then
          let run_start' = (if run = 0 then i else run_start); run' = run + 1 in
          if run' = count
          then (PMM_FRAME_TO_ADDR run_start', set_run run_start' (run_start' + count) s)
          else alloc_run_loop count (i + 1) run' run_start' s
        else alloc_run_loop count (i + 1) 0 run_start s
      else (0, s))"
  by pat_completeness auto
termination
  by (relation "measure (\<lambda>(c, i, r, st, s). unat (total_frames s) - unat i)")
    (auto intro: word_countdown_wf)

declare alloc_run_loop.simps [simp del]

definition pmm_alloc_frames :: "u64 \<Rightarrow> 'a pmm_state_scheme \<Rightarrow> u64 \<times> 'a pmm_state_scheme" where
  "pmm_alloc_frames count s =
     (if count = 0 then (0, s)
      else if count = 1 then pmm_alloc_frame s
      else alloc_run_loop count 0 0 0 s)"

definition pmm_free_frame :: "u64 \<Rightarrow> 'a pmm_state_scheme \<Rightarrow> 'a pmm_state_scheme" where
  "pmm_free_frame addr s =
     (let frame = PMM_ADDR_TO_FRAME addr in
      if frame < total_frames s \<and> bitmap_test frame s \<noteq> 0
      then (bitmap_clear frame s)\<lparr>used_frames := used_frames s - 1\<rparr> else s)"

function free_frames_loop :: "u64 \<Rightarrow> u64 \<Rightarrow> u64 \<Rightarrow> 'a pmm_state_scheme \<Rightarrow> 'a pmm_state_scheme" where
  "free_frames_loop addr i count s =
     (if i < count
      then free_frames_loop addr (i + 1) count (pmm_free_frame (addr + i * PMM_FRAME_SIZE) s) else s)"
  by pat_completeness auto
termination
  by (relation "measure (\<lambda>(a, i, c, s). unat c - unat i)") (auto intro: word_countdown_wf)

declare free_frames_loop.simps [simp del]

definition pmm_free_frames :: "u64 \<Rightarrow> u64 \<Rightarrow> 'a pmm_state_scheme \<Rightarrow> 'a pmm_state_scheme" where
  "pmm_free_frames addr count s = free_frames_loop addr 0 count s"

definition pmm_total_memory :: "'a pmm_state_scheme \<Rightarrow> u64" where
  "pmm_total_memory s = total_frames s * PMM_FRAME_SIZE"

definition pmm_free_frames_count :: "'a pmm_state_scheme \<Rightarrow> u64" where
  "pmm_free_frames_count s = total_frames s - used_frames s"

section \<open>Boot information and initialisation\<close>

text \<open>
  The tag search of \<^verbatim>\<open>multiboot2_find_tag\<close>: the offset of the tag, or \<open>Some None\<close> for NULL. A tag
  of size 0 that is not the one searched for keeps the loop at the same offset, so the search
  does not return: \<open>None\<close>.
\<close>

partial_function (option) find_tag_loop :: "memory \<Rightarrow> u32 \<Rightarrow> u32 \<Rightarrow> u32 option option" where
  "find_tag_loop mbi type offset =
     (if offset < load32 mbi 0 then
        if load32 mbi (ucast offset) = 0 then Some None
        else if load32 mbi (ucast offset) = type then Some (Some offset)
        else find_tag_loop mbi type
          (offset + ((load32 mbi (ucast offset + 4) + 7) AND NOT 7))
      else Some None)"

definition multiboot2_find_tag :: "memory \<Rightarrow> u32 \<Rightarrow> u32 option option" where
  "multiboot2_find_tag mbi type = find_tag_loop mbi type 8"

record mmap_entry =
  base_addr :: u64
  entry_length :: u64
  entry_type :: u32

text \<open>The entries follow the 16-byte tag header; \<open>entry[i]\<close> strides by the 24 bytes of the
  structure whatever \<open>entry_size\<close> the tag announces.\<close>

definition mmap_entry_at :: "memory \<Rightarrow> u64 \<Rightarrow> u32 \<Rightarrow> mmap_entry" where
  "mmap_entry_at mbi entries i =
     (let a = entries + 24 * ucast i in
      \<lparr>base_addr = load64 mbi a, entry_length = load64 mbi (a + 8), entry_type = load32 mbi (a + 16)\<rparr>)"

definition MULTIBOOT2_MEMORY_AVAILABLE :: u32 where "MULTIBOOT2_MEMORY_AVAILABLE = 1"

definition max_addr_step :: "mmap_entry \<Rightarrow> u64 \<Rightarrow> u64" where
  "max_addr_step e max_addr =
     (let end_addr = base_addr e + entry_length e in if end_addr > max_addr then end_addr else max_addr)"

definition init_entry :: "mmap_entry \<Rightarrow> 'a pmm_state_scheme \<Rightarrow> 'a pmm_state_scheme" where
  "init_entry e s =
     (if entry_type e = MULTIBOOT2_MEMORY_AVAILABLE
      then mark_loop False (PMM_ADDR_TO_FRAME (base_addr e))
             (PMM_ADDR_TO_FRAME (base_addr e + entry_length e)) s
      else pmm_mark_region (base_addr e) (entry_length e) True s)"

text \<open>The hexadecimal print of the bitmap address, filled from the last digit to the first.\<close>

definition hex_digits_upper :: "u64 \<Rightarrow> cstring" where
  "hex_digits_upper v = map (\<lambda>i. hex_upper ! unat (drop_bit (4 * i) v AND 0xF)) (rev [0..<16])"

text \<open>The initialisation after the memory map tag has been found and its entries read.\<close>

definition pmm_init_sizes :: "mmap_entry list \<Rightarrow> 'a pmm_state_scheme \<Rightarrow> 'a pmm_state_scheme" where
  "pmm_init_sizes entries s =
     (let frames = fold max_addr_step entries 0 div PMM_FRAME_SIZE;
          frames = (if frames > MAX_FRAMES then MAX_FRAMES else frames)
      in s\<lparr>total_frames := frames, bitmap_addr := sym_kernel_end (syms s) - HIGHER_HALF_BASE\<rparr>)"

definition bitmap_bytes :: "'a pmm_state_scheme \<Rightarrow> u64" where
  "bitmap_bytes s = (total_frames s + 31) div 32 * 4"

definition pmm_init_regions :: "mmap_entry list \<Rightarrow> 'a pmm_state_scheme \<Rightarrow> 'a pmm_state_scheme" where
  "pmm_init_regions entries s =
     (let kernel_phys_end = bitmap_addr s;
          s = fold init_entry entries s;
          s = pmm_mark_region 0 0x100000 True s;
          s = pmm_mark_region 0x100000 (kernel_phys_end - 0x100000) True s;
          s = pmm_mark_region (bitmap_addr s) (bitmap_bytes s) True s
      in pmm_mark_region 0xB8000 0x8000 True s)"

definition pmm_init :: "memory \<Rightarrow> 'a pmm_state_scheme \<Rightarrow> 'a pmm_state_scheme option" where
  "pmm_init mbi s =
     do { tag \<leftarrow> multiboot2_find_tag mbi 6;
          case tag of
            None \<Rightarrow> Some (kprint (cstr ''PMM: ERROR - No memory map from GRUB!'' @ [10]) s)
          | Some off \<Rightarrow>
              let mmap_tag = ucast off;
                  mmap_size = load32 mbi (mmap_tag + 4) - 16;
                  entry_size = load32 mbi (mmap_tag + 8)
              in if entry_size = 0 then None
                 else
                   let entry_count = mmap_size div entry_size;
                       entries = map (\<lambda>i. mmap_entry_at mbi (mmap_tag + 16) (of_nat i)) [0..<unat entry_count];
                       s1 = pmm_init_sizes entries s;
                       s2 = pmm_mark_region (bitmap_addr s1) (bitmap_bytes s1) True s1
                   in do { s3 \<leftarrow> serial_puts (cstr ''[PMM] Bitmap at '') s2;
                           s4 \<leftarrow> serial_puts (cstr ''0x'') s3;
                           s5 \<leftarrow> serial_puts (hex_digits_upper (bitmap_addr s4)) s4;
                           s6 \<leftarrow> serial_puts [10] s5;
                           Some (pmm_init_regions entries s6) } }"

section \<open>The bitmap as a set of frames\<close>

definition frames_marked :: "'a pmm_state_scheme \<Rightarrow> u64 set" where
  "frames_marked s = {f. bitmap_test f s \<noteq> 0}"

definition frames_used :: "'a pmm_state_scheme \<Rightarrow> u64 set" where
  "frames_used s = {f \<in> frames_marked s. f < total_frames s}"

definition frames_free :: "'a pmm_state_scheme \<Rightarrow> u64 set" where
  "frames_free s = {f. f < total_frames s \<and> f \<notin> frames_marked s}"

text \<open>The well-formedness invariant: the counter agrees with the bitmap.\<close>

definition pmm_inv :: "'a pmm_state_scheme \<Rightarrow> bool" where
  "pmm_inv s \<longleftrightarrow> total_frames s \<le> MAX_FRAMES \<and> used_frames s = of_nat (card (frames_used s))"

text \<open>States that differ only in the bitmap and its counter.\<close>

definition bitmap_eq :: "'a pmm_state_scheme \<Rightarrow> 'a pmm_state_scheme \<Rightarrow> bool" where
  "bitmap_eq s t \<longleftrightarrow> t = s\<lparr>bitmap := bitmap t, used_frames := used_frames t\<rparr>"

lemma bitmap_eqE:
  assumes "bitmap_eq s t"
  obtains b u where "t = s\<lparr>bitmap := b, used_frames := u\<rparr>"
  using assms unfolding bitmap_eq_def by blast

lemma bitmap_eqI: "t = s\<lparr>bitmap := b, used_frames := u\<rparr> \<Longrightarrow> bitmap_eq s t"
  by (simp add: bitmap_eq_def)

lemma bitmap_eq_refl [simp]: "bitmap_eq s s"
  by (simp add: bitmap_eq_def)

lemma bitmap_eq_trans [trans]: "bitmap_eq s t \<Longrightarrow> bitmap_eq t u \<Longrightarrow> bitmap_eq s u"
  by (elim bitmap_eqE) (rule bitmap_eqI, simp)

lemma bitmap_eqD [frame_simps]:
  assumes "bitmap_eq s t"
  shows "total_frames t = total_frames s" "bitmap_addr t = bitmap_addr s" "mem t = mem s"
    "cr3 t = cr3 s" "syms t = syms s" "io_in t = io_in s" "io_log t = io_log s"
    "io_reads t = io_reads s" "pmm_state.more t = pmm_state.more s"
  by (rule bitmap_eqE [OF assms], simp)+

lemma bitmap_test_bit:
  "bitmap_test f s \<noteq> 0 \<longleftrightarrow> bit (bitmap s (f div 32)) (unat (f mod 32))"
  by (simp add: bitmap_test_def and_one_eq bit_iff_odd_drop_bit odd_iff_mod_2_eq_one)

lemma unat_mod_32_less: "unat ((f :: u64) mod 32) < 32"
  by (simp add: unat_mod_distrib)

lemma frame_split_eq:
  fixes f g :: u64
  assumes "f div 32 = g div 32" "unat (f mod 32) = unat (g mod 32)"
  shows "f = g"
  using assms by (metis div_mult_mod_eq word_unat_eq_iff)

lemma frames_marked_set [simp]: "frames_marked (bitmap_set g s) = insert g (frames_marked s)"
  using unat_mod_32_less frame_split_eq
  by (force simp: frames_marked_def bitmap_test_bit bitmap_set_def bit_simps)

lemma frames_marked_clear [simp]: "frames_marked (bitmap_clear g s) = frames_marked s - {g}"
  using unat_mod_32_less frame_split_eq
  by (force simp: frames_marked_def bitmap_test_bit bitmap_clear_def bit_simps)

lemma frames_marked_used_frames [simp]:
  "frames_marked (s\<lparr>used_frames := u\<rparr>) = frames_marked s"
  by (simp add: frames_marked_def bitmap_test_def)

lemma bitmap_test_marked: "bitmap_test f s = 0 \<longleftrightarrow> f \<notin> frames_marked s"
  by (simp add: frames_marked_def)

lemma bitmap_ops_simps [simp, frame_simps]:
  "total_frames (bitmap_set f s) = total_frames s" "total_frames (bitmap_clear f s) = total_frames s"
  "used_frames (bitmap_set f s) = used_frames s" "used_frames (bitmap_clear f s) = used_frames s"
  by (simp_all add: bitmap_set_def bitmap_clear_def)

lemma bitmap_ops_eq [simp]:
  "bitmap_eq s (bitmap_set f s)" "bitmap_eq s (bitmap_clear f s)"
  "bitmap_eq s ((bitmap_set f s)\<lparr>used_frames := u\<rparr>)"
  "bitmap_eq s ((bitmap_clear f s)\<lparr>used_frames := u\<rparr>)"
  by (simp_all add: bitmap_eq_def bitmap_set_def bitmap_clear_def)

lemma finite_frames [simp]: "finite (A :: u64 set)"
  by (rule finite)

lemma card_frames_used_bound:
  assumes "total_frames s \<le> MAX_FRAMES"
  shows "card (frames_used s) \<le> 1048576"
proof -
  have "unat ` frames_used s \<subseteq> {..<1048576}"
    using assms by (auto simp: frames_used_def MAX_FRAMES_def word_le_nat_alt word_less_nat_alt)
  then have "card (unat ` frames_used s) \<le> card {..<1048576 :: nat}"
    by (intro card_mono) simp_all
  moreover have "card (unat ` frames_used s) = card (frames_used s)"
    by (intro card_image inj_onI) (simp add: word_unat_eq_iff)
  ultimately show ?thesis by simp
qed

lemma mark_used_step:
  assumes "pmm_inv s" "f < total_frames s" "f \<notin> frames_marked s"
  shows "pmm_inv ((bitmap_set f s)\<lparr>used_frames := used_frames s + 1\<rparr>)"
proof -
  have "frames_used ((bitmap_set f s)\<lparr>used_frames := used_frames s + 1\<rparr>) = insert f (frames_used s)"
    using assms(2) by (auto simp: frames_used_def)
  moreover have "f \<notin> frames_used s" using assms(3) by (simp add: frames_used_def)
  ultimately show ?thesis using assms(1) by (simp add: pmm_inv_def)
qed

lemma mark_free_step:
  assumes "pmm_inv s" "f < total_frames s" "f \<in> frames_marked s"
  shows "pmm_inv ((bitmap_clear f s)\<lparr>used_frames := used_frames s - 1\<rparr>)"
proof -
  have "frames_used ((bitmap_clear f s)\<lparr>used_frames := used_frames s - 1\<rparr>) = frames_used s - {f}"
    by (auto simp: frames_used_def)
  moreover have "f \<in> frames_used s" using assms(2,3) by (simp add: frames_used_def)
  moreover from this obtain n where "card (frames_used s) = Suc n"
    by (cases "card (frames_used s)") auto
  ultimately show ?thesis using assms(1) by (simp add: pmm_inv_def)
qed

section \<open>Marking\<close>

lemma mark_frame_marked:
  "frames_marked (mark_frame used f s) =
    (if used then insert f (frames_marked s) else frames_marked s - {f})"
  by (auto simp: mark_frame_def bitmap_test_marked insert_absorb)

lemma mark_frame_eq [simp]: "bitmap_eq s (mark_frame used f s)"
  by (simp add: mark_frame_def)

lemma mark_frame_inv: "pmm_inv s \<Longrightarrow> f < total_frames s \<Longrightarrow> pmm_inv (mark_frame used f s)"
  by (auto simp: mark_frame_def bitmap_test_marked intro: mark_used_step mark_free_step)

lemma mark_loop_eq: "bitmap_eq s (mark_loop used f e s)"
proof (induction used f e s rule: mark_loop.induct)
  case (1 used f e s)
  then show ?case
    by (subst mark_loop.simps) (auto intro: bitmap_eq_trans mark_frame_eq)
qed

lemma mark_loop_inv: "pmm_inv s \<Longrightarrow> pmm_inv (mark_loop used f e s)"
proof (induction used f e s rule: mark_loop.induct)
  case (1 used f e s)
  then show ?case
    by (subst mark_loop.simps) (auto simp: not_le intro: mark_frame_inv)
qed

lemma mark_loop_marked:
  "frames_marked (mark_loop used f e s) =
    (let R = {g. f \<le> g \<and> g < e \<and> g < total_frames s} in
     if used then frames_marked s \<union> R else frames_marked s - R)"
proof (induction used f e s rule: mark_loop.induct)
  case (1 used f e s)
  show ?case
  proof (cases "f < e \<and> f < total_frames s")
    case True
    have tf: "total_frames (mark_frame used f s) = total_frames s"
      using bitmap_eqD [OF mark_frame_eq] by blast
    define R where "R = {g. f \<le> g \<and> g < e \<and> g < total_frames s}"
    define R' where "R' = {g. f + 1 \<le> g \<and> g < e \<and> g < total_frames s}"
    have suc: "(f + 1 \<le> g) = (f < g)" for g using True Suc_le_word by blast
    have R: "R = insert f R'" unfolding R_def R'_def suc using True by auto
    have "mark_loop used f e s = mark_loop used (f + 1) e (mark_frame used f s)"
      using True by (subst mark_loop.simps) auto
    moreover have "frames_marked (mark_loop used (f + 1) e (mark_frame used f s)) =
        (if used then frames_marked (mark_frame used f s) \<union> R'
         else frames_marked (mark_frame used f s) - R')"
      using True "1.IH" by (simp add: tf Let_def R'_def not_le)
    ultimately show ?thesis
      unfolding Let_def R_def [symmetric] R mark_frame_marked by (cases used) auto
  next
    case False
    then have "{g. f \<le> g \<and> g < e \<and> g < total_frames s} = {}" by auto
    with False show ?thesis by (subst mark_loop.simps) (auto simp: Let_def)
  qed
qed

lemma pmm_mark_region_eq [simp]: "bitmap_eq s (pmm_mark_region base len used s)"
  by (simp add: pmm_mark_region_def mark_loop_eq)

lemma pmm_mark_region_inv: "pmm_inv s \<Longrightarrow> pmm_inv (pmm_mark_region base len used s)"
  by (simp add: pmm_mark_region_def mark_loop_inv)

section \<open>Frame addresses\<close>

lemma unat_frame_to_addr:
  assumes "f \<le> MAX_FRAMES"
  shows "unat (PMM_FRAME_TO_ADDR f) = 4096 * unat f"
proof -
  have "unat f \<le> 1048576" using assms by (simp add: MAX_FRAMES_def word_le_nat_alt)
  then show ?thesis
    by (simp add: PMM_FRAME_TO_ADDR_def PMM_FRAME_SHIFT_def push_bit_eq_mult unat_word_ariths)
qed

lemma unat_addr_to_frame: "unat (PMM_ADDR_TO_FRAME a) = unat a div 4096"
  by (simp add: PMM_ADDR_TO_FRAME_def PMM_FRAME_SHIFT_def unat_drop_bit_eq
      drop_bit_eq_div [where 'a = nat])

lemma addr_to_frame_inverse [simp]:
  "f \<le> MAX_FRAMES \<Longrightarrow> PMM_ADDR_TO_FRAME (PMM_FRAME_TO_ADDR f) = f"
  by (simp add: word_unat_eq_iff unat_addr_to_frame unat_frame_to_addr)

lemma frame_to_addr_0 [simp]: "PMM_FRAME_TO_ADDR 0 = 0"
  by (simp add: PMM_FRAME_TO_ADDR_def)

lemma frame_to_addr_inj:
  "f \<le> MAX_FRAMES \<Longrightarrow> g \<le> MAX_FRAMES \<Longrightarrow> PMM_FRAME_TO_ADDR f = PMM_FRAME_TO_ADDR g \<longleftrightarrow> f = g"
  by (metis addr_to_frame_inverse)

lemma frame_to_addr_aligned: "f \<le> MAX_FRAMES \<Longrightarrow> page_aligned (PMM_FRAME_TO_ADDR f)"
  by (simp add: page_aligned_iff unat_frame_to_addr)

definition pmm_avail :: "'a pmm_state_scheme \<Rightarrow> u64 set" where
  "pmm_avail s = PMM_FRAME_TO_ADDR ` frames_free s"

definition pmm_managed :: "'a pmm_state_scheme \<Rightarrow> u64 set" where
  "pmm_managed s = PMM_FRAME_TO_ADDR ` {f. f < total_frames s}"

text \<open>The state in which frame 0, whose address means failure, is never handed out.\<close>

definition pmm_ready :: "'a pmm_state_scheme \<Rightarrow> bool" where
  "pmm_ready s \<longleftrightarrow> pmm_inv s \<and> 0 \<in> frames_marked s"

lemma frames_free_bound: "pmm_inv s \<Longrightarrow> f \<in> frames_free s \<Longrightarrow> f \<le> MAX_FRAMES"
  by (auto simp: pmm_inv_def frames_free_def)

lemma frames_total_bound: "pmm_inv s \<Longrightarrow> f < total_frames s \<Longrightarrow> f \<le> MAX_FRAMES"
  by (auto simp: pmm_inv_def)

lemma frames_free_set:
  "frames_free ((bitmap_set f s)\<lparr>used_frames := u\<rparr>) = frames_free s - {f}"
  by (auto simp: frames_free_def)

lemma frames_free_clear:
  "f < total_frames s \<Longrightarrow> frames_free ((bitmap_clear f s)\<lparr>used_frames := u\<rparr>) = insert f (frames_free s)"
  by (auto simp: frames_free_def)

section \<open>Allocating one frame\<close>

text \<open>The search returns the lowest free frame, or fails without a change if there is none.\<close>

lemma alloc_loop_none:
  "(\<forall>g \<in> frames_free s. g < i) \<Longrightarrow> alloc_loop i s = (0, s)"
proof (induction i s rule: alloc_loop.induct)
  case (1 i s)
  show ?case
  proof (cases "i < total_frames s")
    case True
    have "i \<notin> frames_free s" using "1.prems" by auto
    then have used: "bitmap_test i s \<noteq> 0" using True by (simp add: frames_free_def bitmap_test_marked)
    have "\<forall>g \<in> frames_free s. g < i + 1"
      using "1.prems" less_Suc_le_word [OF True] by blast
    with "1.IH" True used show ?thesis by (subst alloc_loop.simps) simp
  next
    case False
    then show ?thesis by (subst alloc_loop.simps) simp
  qed
qed

lemma alloc_loop_least:
  assumes "g \<in> frames_free s" "i \<le> g" "\<And>h. i \<le> h \<Longrightarrow> h < g \<Longrightarrow> h \<notin> frames_free s"
  shows "alloc_loop i s =
    (PMM_FRAME_TO_ADDR g, (bitmap_set g s)\<lparr>used_frames := used_frames s + 1\<rparr>)"
  using assms
proof (induction i s rule: alloc_loop.induct)
  case (1 i s)
  have i: "i < total_frames s" using "1.prems"(1,2) by (auto simp: frames_free_def)
  show ?case
  proof (cases "i = g")
    case True
    with "1.prems"(1) i show ?thesis
      by (subst alloc_loop.simps) (simp add: frames_free_def bitmap_test_marked)
  next
    case False
    then have ig: "i < g" using "1.prems"(2) by simp
    then have "i \<notin> frames_free s" using "1.prems"(3) by blast
    then have used: "bitmap_test i s \<noteq> 0" using i by (simp add: frames_free_def bitmap_test_marked)
    have suc: "(i + 1 \<le> h) = (i < h)" for h using Suc_le_word [OF i] by blast
    have "alloc_loop (i + 1) s =
        (PMM_FRAME_TO_ADDR g, (bitmap_set g s)\<lparr>used_frames := used_frames s + 1\<rparr>)"
      using "1.prems" ig by (intro "1.IH" [OF i]) (auto simp: used suc)
    with i used show ?thesis by (subst alloc_loop.simps) simp
  qed
qed

lemma pmm_alloc_frame_none: "frames_free s = {} \<Longrightarrow> pmm_alloc_frame s = (0, s)"
  by (simp add: pmm_alloc_frame_def alloc_loop_none)

lemma pmm_alloc_frame_some:
  assumes "frames_free s \<noteq> {}"
  shows "pmm_alloc_frame s = (PMM_FRAME_TO_ADDR (Min (frames_free s)),
    (bitmap_set (Min (frames_free s)) s)\<lparr>used_frames := used_frames s + 1\<rparr>)"
  unfolding pmm_alloc_frame_def
proof (rule alloc_loop_least)
  show "Min (frames_free s) \<in> frames_free s" using assms by (simp add: Min_in)
  show "h \<notin> frames_free s" if "h < Min (frames_free s)" for h
    using that Min_le [OF finite_frames, of h "frames_free s"] leD by blast
qed simp

lemma pmm_alloc_frame_eq: "bitmap_eq s (snd (pmm_alloc_frame s))"
  by (cases "frames_free s = {}") (simp_all add: pmm_alloc_frame_none pmm_alloc_frame_some)

lemma pmm_free_frame_eq: "bitmap_eq s (pmm_free_frame a s)"
  by (simp add: pmm_free_frame_def Let_def)

lemma pmm_free_frame_inv: "pmm_inv s \<Longrightarrow> pmm_inv (pmm_free_frame a s)"
  by (auto simp: pmm_free_frame_def Let_def bitmap_test_marked intro: mark_free_step)

lemma pmm_alloc_frame_inv: "pmm_inv s \<Longrightarrow> pmm_inv (snd (pmm_alloc_frame s))"
proof (cases "frames_free s = {}")
  case False
  assume inv: "pmm_inv s"
  have "Min (frames_free s) \<in> frames_free s" using False by (simp add: Min_in)
  with inv False show ?thesis
    by (auto simp: pmm_alloc_frame_some frames_free_def intro: mark_used_step)
qed (simp add: pmm_alloc_frame_none)

lemma pmm_free_frame_avail:
  assumes "pmm_inv s" "f < total_frames s"
  shows "frames_free (pmm_free_frame (PMM_FRAME_TO_ADDR f) s) = insert f (frames_free s)"
  using assms frames_total_bound [OF assms]
  by (auto simp: pmm_free_frame_def Let_def frames_free_clear bitmap_test_marked insert_absorb)
    (auto simp: frames_free_def)

interpretation pmm: frame_source pmm_ready pmm_avail pmm_managed pmm_alloc_frame pmm_free_frame
proof
  fix s :: "'a pmm_state_scheme" and a :: u64
  show "finite (pmm_avail s)" by simp
  show "pmm_managed (pmm_free_frame a s) = pmm_managed s"
    using bitmap_eqD(1) [OF pmm_free_frame_eq [of s a]] by (simp add: pmm_managed_def)
  assume r: "pmm_ready s"
  then have inv: "pmm_inv s" and zero: "0 \<notin> frames_free s"
    by (simp_all add: pmm_ready_def frames_free_def)
  have bound: "f \<in> frames_free s \<Longrightarrow> f \<le> MAX_FRAMES" for f
    using inv by (rule frames_free_bound)
  show "pmm_avail s \<subseteq> pmm_managed s"
    by (auto simp: pmm_avail_def pmm_managed_def frames_free_def)
  show "0 \<notin> pmm_avail s"
    using zero bound frame_to_addr_inj [of 0] by (force simp: pmm_avail_def)
  show "pmm_alloc_frame s = (0, s)" if "pmm_avail s = {}"
    using that by (simp add: pmm_avail_def pmm_alloc_frame_none)
  show "pmm_ready (snd (pmm_alloc_frame s))"
    using r pmm_alloc_frame_inv [OF inv]
    by (cases "frames_free s = {}") (auto simp: pmm_ready_def pmm_alloc_frame_none pmm_alloc_frame_some)
  show "pmm_managed (snd (pmm_alloc_frame s)) = pmm_managed s"
    using bitmap_eqD(1) [OF pmm_alloc_frame_eq [of s]] by (simp add: pmm_managed_def)
  {
    assume "pmm_avail s \<noteq> {}"
    then have ne: "frames_free s \<noteq> {}" by (simp add: pmm_avail_def)
    then have min: "Min (frames_free s) \<in> frames_free s" by (simp add: Min_in)
    show "fst (pmm_alloc_frame s) \<in> pmm_avail s"
      using min by (simp add: pmm_alloc_frame_some [OF ne] pmm_avail_def)
    show "pmm_avail (snd (pmm_alloc_frame s)) = pmm_avail s - {fst (pmm_alloc_frame s)}"
      using min bound frame_to_addr_inj
      by (auto simp: pmm_alloc_frame_some [OF ne] pmm_avail_def frames_free_set)
  }
  {
    assume m: "a \<in> pmm_managed s" and a: "a \<noteq> 0"
    then obtain f where f: "a = PMM_FRAME_TO_ADDR f" "f < total_frames s"
      by (auto simp: pmm_managed_def)
    show "pmm_avail (pmm_free_frame a s) = insert a (pmm_avail s)"
      using pmm_free_frame_avail [OF inv f(2)] by (simp add: pmm_avail_def f(1))
    have "f \<noteq> 0" using a f(1) by auto
    moreover have "f \<le> MAX_FRAMES" using frames_total_bound [OF inv f(2)] .
    ultimately have "0 \<in> frames_marked (pmm_free_frame a s)"
      using r by (auto simp: pmm_ready_def pmm_free_frame_def Let_def f(1))
    then show "pmm_ready (pmm_free_frame a s)"
      using pmm_free_frame_inv [OF inv] by (simp add: pmm_ready_def)
  }
qed

section \<open>Allocating a contiguous run\<close>

text \<open>Frame numbers as natural numbers, so that runs are intervals.\<close>

definition free_idx :: "'a pmm_state_scheme \<Rightarrow> nat set" where
  "free_idx s = unat ` frames_free s"

lemma free_idx_iff: "unat f \<in> free_idx s \<longleftrightarrow> f \<in> frames_free s"
proof
  assume "unat f \<in> free_idx s"
  then obtain g where "unat f = unat g" "g \<in> frames_free s" unfolding free_idx_def by blast
  then show "f \<in> frames_free s" by (simp add: word_unat_eq_iff [symmetric])
qed (simp add: free_idx_def)

lemma free_idx_less: "n \<in> free_idx s \<Longrightarrow> n < unat (total_frames s)"
  by (auto simp: free_idx_def frames_free_def word_less_nat_alt)

lemma bitmap_test_free_idx:
  "i < total_frames s \<Longrightarrow> bitmap_test i s = 0 \<longleftrightarrow> unat i \<in> free_idx s"
  by (simp add: free_idx_iff frames_free_def bitmap_test_marked)

lemma unat_of_nat_frame: "n \<le> unat (x :: u64) \<Longrightarrow> unat (of_nat n :: u64) = n"
  using unsigned_less [of x, where 'a = nat] by (simp add: unat_of_nat)

lemma set_run_eq: "bitmap_eq s (set_run f e s)"
proof (induction f e s rule: set_run.induct)
  case (1 f e s)
  then show ?case by (subst set_run.simps) (auto intro: bitmap_eq_trans bitmap_ops_eq(3))
qed

lemma set_run_spec:
  assumes "pmm_inv s" "e \<le> total_frames s" "{g. f \<le> g \<and> g < e} \<subseteq> frames_free s"
  shows "pmm_inv (set_run f e s) \<and>
    frames_free (set_run f e s) = frames_free s - {g. f \<le> g \<and> g < e}"
  using assms
proof (induction f e s rule: set_run.induct)
  case (1 f e s)
  show ?case
  proof (cases "f < e")
    case True
    let ?t = "(bitmap_set f s)\<lparr>used_frames := used_frames s + 1\<rparr>"
    define R' where "R' = {g. f + 1 \<le> g \<and> g < e}"
    have suc: "(f + 1 \<le> g) = (f < g)" for g using True Suc_le_word by blast
    have R: "{g. f \<le> g \<and> g < e} = insert f R'" unfolding R'_def suc using True by auto
    have fR: "f \<notin> R'" by (simp add: R'_def suc)
    have f: "f \<in> frames_free s" using "1.prems"(3) True by auto
    have "pmm_inv ?t"
      using "1.prems"(1) f by (intro mark_used_step) (simp_all add: frames_free_def)
    moreover have "R' \<subseteq> frames_free ?t"
      using "1.prems"(3) R fR by (auto simp: frames_free_set)
    ultimately have "pmm_inv (set_run (f + 1) e ?t) \<and>
        frames_free (set_run (f + 1) e ?t) = frames_free ?t - R'"
      unfolding R'_def using "1.prems"(2) by (intro "1.IH" [OF True]) simp_all
    moreover have "set_run f e s = set_run (f + 1) e ?t"
      using True by (subst set_run.simps) simp
    ultimately show ?thesis unfolding R by (auto simp: frames_free_set)
  next
    case False
    then have "{g. f \<le> g \<and> g < e} = {}" by auto
    moreover have "set_run f e s = s" using False by (subst set_run.simps) simp
    ultimately show ?thesis using "1.prems"(1) by auto
  qed
qed

text \<open>
  The loop invariant: \<open>run\<close> is the length of the longest run of free frames that ends at \<open>i\<close>,
  and no run of \<open>count\<close> free frames ends at or before \<open>i\<close>.
\<close>

definition run_inv :: "u64 \<Rightarrow> u64 \<Rightarrow> u64 \<Rightarrow> u64 \<Rightarrow> 'a pmm_state_scheme \<Rightarrow> bool" where
  "run_inv count i run run_start s \<longleftrightarrow>
     unat run < unat count \<and> unat run \<le> unat i \<and> i \<le> total_frames s \<and>
     (run \<noteq> 0 \<longrightarrow> unat run_start + unat run = unat i) \<and>
     {unat i - unat run..<unat i} \<subseteq> free_idx s \<and>
     (\<forall>st \<le> unat i. {st..<unat i} \<subseteq> free_idx s \<longrightarrow> unat i - unat run \<le> st) \<and>
     (\<forall>st. st + unat count \<le> unat i \<longrightarrow> \<not> {st..<st + unat count} \<subseteq> free_idx s)"

lemma run_inv_used:
  assumes "run_inv count i run run_start s" "i < total_frames s" "unat i \<notin> free_idx s"
  shows "run_inv count (i + 1) 0 run_start s"
proof -
  have i: "unat (i + 1) = Suc (unat i)" using assms(2) by (rule unat_Suc_less)
  have "Suc (unat i) \<le> st" if "st \<le> Suc (unat i)" "{st..<Suc (unat i)} \<subseteq> free_idx s" for st
    using that assms(3) by (metis atLeastLessThan_iff lessI not_less_eq_eq subset_iff)
  moreover have "\<not> {st..<st + unat count} \<subseteq> free_idx s" if "st + unat count \<le> Suc (unat i)" for st
  proof (cases "st + unat count = Suc (unat i)")
    case True
    then have "unat i \<in> {st..<st + unat count}" using assms(1) by (auto simp: run_inv_def)
    with assms(3) show ?thesis by blast
  next
    case False
    with that assms(1) show ?thesis by (simp add: run_inv_def)
  qed
  moreover have "i + 1 \<le> total_frames s" using assms(2) Suc_le_word by blast
  moreover have "0 < unat count" using assms(1) by (simp add: run_inv_def)
  ultimately show ?thesis unfolding run_inv_def i by simp
qed

lemma run_inv_free:
  assumes "run_inv count i run run_start s" "i < total_frames s" "unat i \<in> free_idx s"
    "run + 1 \<noteq> count"
  shows "run_inv count (i + 1) (run + 1) (if run = 0 then i else run_start) s"
proof -
  have i: "unat (i + 1) = Suc (unat i)" using assms(2) by (rule unat_Suc_less)
  have rc: "run < count" using assms(1) by (simp add: run_inv_def word_less_nat_alt)
  have run: "unat (run + 1) = Suc (unat run)" using rc by (rule unat_Suc_less)
  have lt: "Suc (unat run) < unat count"
    using rc run assms(4) by (metis Suc_lessI word_less_nat_alt word_unat_eq_iff)
  have sub: "{Suc (unat i) - Suc (unat run)..<Suc (unat i)} \<subseteq> free_idx s"
    using assms(1,3) by (auto simp: run_inv_def less_Suc_eq subset_iff)
  have max: "Suc (unat i) - Suc (unat run) \<le> st"
    if "st \<le> Suc (unat i)" "{st..<Suc (unat i)} \<subseteq> free_idx s" for st
  proof (cases "st \<le> unat i")
    case True
    have "{st..<unat i} \<subseteq> free_idx s" using that(2) by auto
    with True assms(1) show ?thesis by (simp add: run_inv_def)
  qed (use that in simp)
  have none: "\<not> {st..<st + unat count} \<subseteq> free_idx s" if "st + unat count \<le> Suc (unat i)" for st
  proof (cases "st + unat count = Suc (unat i)")
    case True
    show ?thesis
    proof
      assume "{st..<st + unat count} \<subseteq> free_idx s"
      then have "Suc (unat i) - Suc (unat run) \<le> st" using True by (intro max) simp_all
      with True lt assms(1) show False by (simp add: run_inv_def)
    qed
  next
    case False
    with that assms(1) show ?thesis by (simp add: run_inv_def)
  qed
  have "i + 1 \<le> total_frames s" using assms(2) Suc_le_word by blast
  moreover have "unat run \<le> unat i" "run \<noteq> 0 \<Longrightarrow> unat run_start + unat run = unat i"
    using assms(1) by (simp_all add: run_inv_def)
  ultimately show ?thesis
    unfolding run_inv_def i run using lt sub max none by auto
qed

lemma alloc_run_loop_spec:
  assumes "run_inv count i run run_start s"
  shows "(\<exists>st. {st..<st + unat count} \<subseteq> free_idx s \<and>
       alloc_run_loop count i run run_start s =
         (PMM_FRAME_TO_ADDR (of_nat st), set_run (of_nat st) (of_nat st + count) s)) \<or>
     (\<forall>st. \<not> {st..<st + unat count} \<subseteq> free_idx s) \<and>
       alloc_run_loop count i run run_start s = (0, s)"
  using assms
proof (induction count i run run_start s rule: alloc_run_loop.induct)
  case (1 count i run run_start s)
  let ?st = "if run = 0 then i else run_start"
  show ?case
  proof (cases "i < total_frames s")
    case lt: True
    show ?thesis
    proof (cases "bitmap_test i s = 0")
      case True
      then have free: "unat i \<in> free_idx s" using lt by (simp add: bitmap_test_free_idx)
      show ?thesis
      proof (cases "run + 1 = count")
        case count: True
        have c: "unat count = Suc (unat run)"
          using count "1.prems" unat_Suc_less [of run count]
          by (simp add: run_inv_def word_less_nat_alt)
        have "unat ?st + unat run = unat i" using "1.prems" by (simp add: run_inv_def)
        then have st: "unat ?st = unat i - unat run" by simp
        have sub: "{unat ?st..<unat ?st + unat count} \<subseteq> free_idx s"
          using "1.prems" free unfolding st c by (auto simp: run_inv_def less_Suc_eq subset_iff)
        have res: "alloc_run_loop count i run run_start s =
            (PMM_FRAME_TO_ADDR ?st, set_run ?st (?st + count) s)"
          using lt True count by (subst alloc_run_loop.simps) (simp add: Let_def)
        have id: "(of_nat (unat ?st) :: u64) = ?st" by simp
        show ?thesis
          by (intro disjI1 exI [of _ "unat ?st"] conjI) (use sub res in \<open>simp_all only: id\<close>)
      next
        case False
        have "alloc_run_loop count i run run_start s = alloc_run_loop count (i + 1) (run + 1) ?st s"
          using lt True False by (subst alloc_run_loop.simps) (simp add: Let_def)
        with "1.IH"(1) [OF lt True refl refl False] run_inv_free [OF "1.prems" lt free False]
        show ?thesis by simp
      qed
    next
      case False
      then have used: "unat i \<notin> free_idx s" using lt by (simp add: bitmap_test_free_idx)
      have "alloc_run_loop count i run run_start s = alloc_run_loop count (i + 1) 0 run_start s"
        using lt False by (subst alloc_run_loop.simps) simp
      with "1.IH"(2) [OF lt False] run_inv_used [OF "1.prems" lt used] show ?thesis by simp
    qed
  next
    case False
    then have "unat i = unat (total_frames s)"
      using "1.prems" by (simp add: run_inv_def word_le_nat_alt word_less_nat_alt)
    then have "\<not> {st..<st + unat count} \<subseteq> free_idx s" for st
    proof (cases "st + unat count \<le> unat i")
      case True
      with "1.prems" show ?thesis by (simp add: run_inv_def)
    next
      case False
      then have "st + unat count - 1 \<in> {st..<st + unat count}"
        "st + unat count - 1 \<notin> free_idx s"
        using "1.prems" \<open>unat i = _\<close> free_idx_less [of "st + unat count - 1" s]
        by (auto simp: run_inv_def)
      then show ?thesis by blast
    qed
    with False show ?thesis by (subst alloc_run_loop.simps) simp
  qed
qed

section \<open>Initialisation\<close>

lemma init_entry_eq [simp]: "bitmap_eq s (init_entry e s)"
  by (simp add: init_entry_def mark_loop_eq)

lemma init_entry_inv: "pmm_inv s \<Longrightarrow> pmm_inv (init_entry e s)"
  by (simp add: init_entry_def mark_loop_inv pmm_mark_region_inv)

lemma fold_init_entry_eq: "bitmap_eq s (fold init_entry es s)"
proof (induction es arbitrary: s)
  case (Cons e es)
  then show ?case using bitmap_eq_trans [OF init_entry_eq] by fastforce
qed simp

lemma fold_init_entry_inv: "pmm_inv s \<Longrightarrow> pmm_inv (fold init_entry es s)"
  by (induction es arbitrary: s) (simp_all add: init_entry_inv)

text \<open>The frames an entry that is not available memory occupies, as the second pass marks them.\<close>

definition entry_frames :: "mmap_entry \<Rightarrow> u64 set" where
  "entry_frames e = {f. PMM_ADDR_TO_FRAME (base_addr e) \<le> f \<and>
     f < PMM_ADDR_TO_FRAME (base_addr e + entry_length e + PMM_FRAME_SIZE - 1)}"

lemma fold_init_entry_unmarked:
  assumes "f \<notin> frames_marked s"
    "\<forall>e \<in> set es. entry_type e \<noteq> MULTIBOOT2_MEMORY_AVAILABLE \<longrightarrow> f \<notin> entry_frames e"
  shows "f \<notin> frames_marked (fold init_entry es s)"
  using assms
proof (induction es arbitrary: s)
  case (Cons e es)
  have "f \<notin> frames_marked (init_entry e s)"
    using Cons.prems
    by (auto simp: init_entry_def pmm_mark_region_def mark_loop_marked Let_def entry_frames_def)
  with Cons show ?case by simp
qed simp

text \<open>Marking a region as used, with the byte range it covers.\<close>

lemma region_end_frame:
  assumes "unat base + unat len + 4095 < 2 ^ 64"
  shows "unat (PMM_ADDR_TO_FRAME (base + len + PMM_FRAME_SIZE - 1)) =
    (unat base + unat len + 4095) div 4096"
proof -
  have eq: "base + len + PMM_FRAME_SIZE - 1 = base + len + 4095"
    by (simp add: PMM_FRAME_SIZE_def)
  have "unat (base + len + 4095) = unat base + unat len + 4095"
    using assms by (simp add: unat_word_ariths)
  then show ?thesis by (simp only: eq unat_addr_to_frame)
qed

lemma mark_region_used:
  assumes "unat base + unat len + 4095 < 2 ^ 64" "f < total_frames s"
    "unat base div 4096 \<le> unat f" "4096 * unat f < unat base + unat len"
  shows "f \<in> frames_marked (pmm_mark_region base len True s)"
proof -
  note region_end_frame [OF assms(1)]
  moreover have "unat f < (unat base + unat len + 4095) div 4096" using assms(4) by linarith
  ultimately show ?thesis using assms(2,3)
    by (simp add: pmm_mark_region_def mark_loop_marked Let_def word_le_nat_alt word_less_nat_alt
        unat_addr_to_frame)
qed

lemma mark_region_mono: "frames_marked s \<subseteq> frames_marked (pmm_mark_region base len True s)"
  by (auto simp: pmm_mark_region_def mark_loop_marked Let_def)

lemma mark_region_bound:
  assumes "f \<in> frames_marked (pmm_mark_region base len True s)" "f \<notin> frames_marked s"
    "unat base + unat len + 4095 < 2 ^ 64"
  shows "4096 * unat f < unat base + unat len"
proof -
  have "unat f < (unat base + unat len + 4095) div 4096"
    using assms(1,2) region_end_frame [OF assms(3)]
    by (simp add: pmm_mark_region_def mark_loop_marked Let_def word_less_nat_alt)
  then show ?thesis by linarith
qed

text \<open>The end of the kernel image and of the bitmap that follows it, as physical addresses.\<close>

definition kernel_phys_end :: "'a machine_scheme \<Rightarrow> u64" where
  "kernel_phys_end s = sym_kernel_end (syms s) - HIGHER_HALF_BASE"

definition reserved_end :: "'a pmm_state_scheme \<Rightarrow> nat" where
  "reserved_end s = unat (bitmap_addr s) + unat (bitmap_bytes s)"

text \<open>The kernel image lies above the first MiB and, with its bitmap, below 1 GiB.\<close>

definition kernel_placed :: "'a machine_scheme \<Rightarrow> bool" where
  "kernel_placed s \<longleftrightarrow> 0x100000 \<le> unat (kernel_phys_end s) \<and> unat (kernel_phys_end s) < 0x40000000"

lemma bitmap_bytes_bound:
  assumes "total_frames s \<le> MAX_FRAMES"
  shows "unat (bitmap_bytes s) \<le> 131072"
proof -
  have t: "unat (total_frames s) \<le> 1048576"
    using assms by (simp add: MAX_FRAMES_def word_le_nat_alt)
  then have "unat ((total_frames s + 31) div 32) = (unat (total_frames s) + 31) div 32"
    by (simp add: unat_div_distrib unat_word_ariths)
  with t show ?thesis by (simp add: bitmap_bytes_def unat_word_ariths)
qed

lemma pmm_init_regions_eq: "bitmap_eq s (pmm_init_regions es s)"
  unfolding pmm_init_regions_def Let_def
  by (intro bitmap_eq_trans [OF _ pmm_mark_region_eq] fold_init_entry_eq)

lemma pmm_init_regions_inv: "pmm_inv s \<Longrightarrow> pmm_inv (pmm_init_regions es s)"
  unfolding pmm_init_regions_def Let_def
  by (intro pmm_mark_region_inv fold_init_entry_inv)

lemma pmm_init_regions_reserved:
  assumes "pmm_inv s" "0x100000 \<le> unat (bitmap_addr s)" "unat (bitmap_addr s) < 0x40000000"
    "f < total_frames s" "4096 * unat f < reserved_end s"
  shows "f \<in> frames_marked (pmm_init_regions es s)"
proof -
  define s0 where "s0 = fold init_entry es s"
  define s1 where "s1 = pmm_mark_region 0 0x100000 True s0"
  define s2 where "s2 = pmm_mark_region 0x100000 (bitmap_addr s - 0x100000) True s1"
  define s3 where "s3 = pmm_mark_region (bitmap_addr s) (bitmap_bytes s) True s2"
  have e0: "bitmap_eq s s0" unfolding s0_def by (rule fold_init_entry_eq)
  have e1: "bitmap_eq s s1" unfolding s1_def by (rule bitmap_eq_trans [OF e0 pmm_mark_region_eq])
  have e2: "bitmap_eq s s2" unfolding s2_def by (rule bitmap_eq_trans [OF e1 pmm_mark_region_eq])
  have "bitmap_addr s2 = bitmap_addr s" "bitmap_bytes s2 = bitmap_bytes s"
    using bitmap_eqD [OF e2] by (simp_all add: bitmap_bytes_def)
  then have res: "pmm_init_regions es s = pmm_mark_region 0xB8000 0x8000 True s3"
    by (simp add: pmm_init_regions_def Let_def s0_def s1_def s2_def s3_def)
  have tf: "total_frames s0 = total_frames s" "total_frames s1 = total_frames s"
    "total_frames s2 = total_frames s"
    using bitmap_eqD(1) [OF e0] bitmap_eqD(1) [OF e1] bitmap_eqD(1) [OF e2] by simp_all
  have bb: "unat (bitmap_bytes s) \<le> 131072"
    using assms(1) by (intro bitmap_bytes_bound) (simp add: pmm_inv_def)
  have len: "unat (bitmap_addr s - 0x100000) = unat (bitmap_addr s) - 0x100000"
    using assms(2) by (simp add: unat_sub word_le_nat_alt)
  consider "4096 * unat f < 0x100000" | "0x100000 \<le> 4096 * unat f" "4096 * unat f < unat (bitmap_addr s)"
    | "unat (bitmap_addr s) \<le> 4096 * unat f" by linarith
  then have "f \<in> frames_marked s3"
  proof cases
    case 1
    then have "f \<in> frames_marked s1"
      unfolding s1_def using assms(4) tf by (intro mark_region_used) simp_all
    then show ?thesis unfolding s3_def s2_def using mark_region_mono by blast
  next
    case 2
    then have "f \<in> frames_marked s2"
      unfolding s2_def using assms(2-4) tf len by (intro mark_region_used) simp_all
    then show ?thesis unfolding s3_def using mark_region_mono by blast
  next
    case 3
    then show ?thesis
      unfolding s3_def using assms(3-5) tf bb by (intro mark_region_used) (simp_all add: reserved_end_def)
  qed
  then show ?thesis unfolding res using mark_region_mono by blast
qed

text \<open>Port traffic does not touch the bitmap.\<close>

lemma io_eq_pmm:
  assumes "io_eq s (t :: 'a pmm_state_scheme)"
  shows "frames_marked t = frames_marked s" "total_frames t = total_frames s"
    "bitmap_addr t = bitmap_addr s" "pmm_inv t = pmm_inv s" "bitmap_bytes t = bitmap_bytes s"
  by (rule io_eqE [OF assms]; simp add: frames_marked_def bitmap_test_def pmm_inv_def
      frames_used_def bitmap_bytes_def)+

lemma pmm_init_sizes_total: "total_frames (pmm_init_sizes es s) \<le> MAX_FRAMES"
  by (simp add: pmm_init_sizes_def Let_def not_less)

lemma pmm_init_result:
  assumes "multiboot2_find_tag mbi 6 = Some (Some off)" "load32 mbi (ucast off + 8) \<noteq> 0"
    "uart_live s"
  obtains es s1 s6 t where
    "es = map (\<lambda>i. mmap_entry_at mbi (ucast off + 16) (of_nat i))
       [0..<unat ((load32 mbi (ucast off + 4) - 16) div load32 mbi (ucast off + 8))]"
    "s1 = pmm_init_sizes es s"
    "io_eq (pmm_mark_region (bitmap_addr s1) (bitmap_bytes s1) True s1) s6"
    "t = pmm_init_regions es s6" "pmm_init mbi s = Some t"
proof -
  define es where "es = map (\<lambda>i. mmap_entry_at mbi (ucast off + 16) (of_nat i))
       [0..<unat ((load32 mbi (ucast off + 4) - 16) div load32 mbi (ucast off + 8))]"
  define s1 where "s1 = pmm_init_sizes es s"
  define s2 where "s2 = pmm_mark_region (bitmap_addr s1) (bitmap_bytes s1) True s1"
  have "bitmap_eq s1 s2" by (simp add: s2_def)
  then have "io_in s2 = io_in s1" by (simp add: bitmap_eqD)
  then have live: "uart_live s2"
    using assms(3) by (simp add: uart_live_def s1_def pmm_init_sizes_def Let_def)
  obtain s3 where s3: "serial_puts (cstr ''[PMM] Bitmap at '') s2 = Some s3" "uart_live s3" "io_eq s2 s3"
    using serial_puts_spec [OF live] by blast
  obtain s4 where s4: "serial_puts (cstr ''0x'') s3 = Some s4" "uart_live s4" "io_eq s3 s4"
    using serial_puts_spec [OF s3(2)] by blast
  obtain s5 where s5: "serial_puts (hex_digits_upper (bitmap_addr s4)) s4 = Some s5" "uart_live s5"
    "io_eq s4 s5"
    using serial_puts_spec [OF s4(2)] by blast
  obtain s6 where s6: "serial_puts [10] s5 = Some s6" "io_eq s5 s6"
    using serial_puts_spec [OF s5(2)] by blast
  have "io_eq s2 s6" using s3(3) s4(3) s5(3) s6(2) by (blast intro: io_eq_trans)
  moreover have "pmm_init mbi s = Some (pmm_init_regions es s6)"
    using assms(1,2) s3(1) s4(1) s5(1) s6(1)
    by (simp add: pmm_init_def Let_def es_def [symmetric] s1_def [symmetric] s2_def [symmetric]
        del: serial_puts.simps)
  ultimately show ?thesis
    using that [OF es_def s1_def _ refl] unfolding s2_def by blast
qed

lemma pmm_alloc_frames_eq: "bitmap_eq s (snd (pmm_alloc_frames count s))"
proof -
  have "bitmap_eq s (snd (alloc_run_loop count i run st s))" for i run st
  proof (induction count i run st s rule: alloc_run_loop.induct)
    case (1 count i run st s)
    then show ?case by (subst alloc_run_loop.simps) (simp add: Let_def set_run_eq)
  qed
  then show ?thesis by (simp add: pmm_alloc_frames_def pmm_alloc_frame_eq)
qed

lemma pmm_free_frames_inv: "pmm_inv s \<Longrightarrow> pmm_inv (pmm_free_frames a count s)"
proof -
  have "pmm_inv s \<Longrightarrow> pmm_inv (free_frames_loop a i count s)" for i
  proof (induction a i count s rule: free_frames_loop.induct)
    case (1 a i count s)
    then show ?case by (subst free_frames_loop.simps) (simp add: pmm_free_frame_inv)
  qed
  then show "pmm_inv s \<Longrightarrow> ?thesis" by (simp add: pmm_free_frames_def)
qed

lemma pmm_run_window:
  assumes "pmm_inv s" "{st..<st + unat count} \<subseteq> free_idx s" "0 < unat count"
  shows "of_nat st + count \<le> total_frames s" "unat (of_nat st :: u64) = st"
    "{g. of_nat st \<le> g \<and> g < of_nat st + count} = {g. unat g \<in> {st..<st + unat count}}"
    "{g. unat g \<in> {st..<st + unat count}} \<subseteq> frames_free s"
proof -
  have "st + unat count - 1 \<in> free_idx s" using assms(2,3) by auto
  then have t: "st + unat count \<le> unat (total_frames s)" using free_idx_less assms(3) by fastforce
  then show st: "unat (of_nat st :: u64) = st" using unat_of_nat_frame [of st "total_frames s"] by simp
  have "unat (of_nat (st + unat count) :: u64) = st + unat count" using t by (rule unat_of_nat_frame)
  then have e: "unat (of_nat st + count) = st + unat count" by simp
  with t show "of_nat st + count \<le> total_frames s" by (simp add: word_le_nat_alt)
  show "{g. of_nat st \<le> g \<and> g < of_nat st + count} = {g. unat g \<in> {st..<st + unat count}}"
    by (simp add: word_le_nat_alt word_less_nat_alt e st)
  show "{g. unat g \<in> {st..<st + unat count}} \<subseteq> frames_free s"
    using assms(2) free_idx_iff by blast
qed

lemma run_inv_start: "count \<noteq> 0 \<Longrightarrow> run_inv count 0 0 0 s"
  by (simp add: run_inv_def unat_gt_0)

lemma pmm_alloc_frames_result:
  assumes "pmm_inv s" "2 \<le> unat count"
  obtains (run) st where "{st..<st + unat count} \<subseteq> free_idx s"
      "fst (pmm_alloc_frames count s) = PMM_FRAME_TO_ADDR (of_nat st)"
      "frames_free (snd (pmm_alloc_frames count s)) =
         frames_free s - {g. unat g \<in> {st..<st + unat count}}"
      "pmm_inv (snd (pmm_alloc_frames count s))"
  | (none) "\<forall>st. \<not> {st..<st + unat count} \<subseteq> free_idx s" "pmm_alloc_frames count s = (0, s)"
proof -
  have c: "count \<noteq> 0" "count \<noteq> 1" using assms(2) by auto
  then have call: "pmm_alloc_frames count s = alloc_run_loop count 0 0 0 s"
    by (simp add: pmm_alloc_frames_def)
  from alloc_run_loop_spec [OF run_inv_start [OF c(1)]] consider
    st where "{st..<st + unat count} \<subseteq> free_idx s" "alloc_run_loop count 0 0 0 s =
         (PMM_FRAME_TO_ADDR (of_nat st), set_run (of_nat st) (of_nat st + count) s)"
    | "\<forall>st. \<not> {st..<st + unat count} \<subseteq> free_idx s" "alloc_run_loop count 0 0 0 s = (0, s)"
    by blast
  then show ?thesis
  proof cases
    case 1
    note w = pmm_run_window [OF assms(1) 1(1)]
    have pos: "0 < unat count" using assms(2) by simp
    have "pmm_inv (set_run (of_nat st) (of_nat st + count) s) \<and>
        frames_free (set_run (of_nat st) (of_nat st + count) s) =
        frames_free s - {g. of_nat st \<le> g \<and> g < of_nat st + count}"
      using w(3,4) [OF pos] by (intro set_run_spec [OF assms(1) w(1) [OF pos]]) simp
    then show ?thesis using run [OF 1(1)] 1(2) w(3) [OF pos] by (simp add: call)
  next
    case 2
    then show ?thesis using none call by simp
  qed
qed

section \<open>Properties of the physical memory manager\<close>

text \<open>
  C19. Every operation keeps the frame counter equal to the number of bits set in the bitmap.
\<close>

theorem pmm_operations_keep_count:
  assumes "pmm_inv s"
  shows "pmm_inv (snd (pmm_alloc_frame s)) \<and> pmm_inv (snd (pmm_alloc_frames count s)) \<and>
    pmm_inv (pmm_free_frame a s) \<and> pmm_inv (pmm_free_frames a count s) \<and>
    pmm_inv (pmm_mark_region a len used s)"
proof -
  have "pmm_inv (snd (pmm_alloc_frames count s))"
  proof (cases "2 \<le> unat count")
    case True
    with assms show ?thesis by (cases rule: pmm_alloc_frames_result) (simp_all add: assms)
  next
    case False
    then have "count = 0 \<or> count = 1" by (auto simp: word_unat_eq_iff)
    with assms show ?thesis by (auto simp: pmm_alloc_frames_def pmm_alloc_frame_inv)
  qed
  with assms show ?thesis
    by (simp add: pmm_alloc_frame_inv pmm_free_frame_inv pmm_free_frames_inv pmm_mark_region_inv)
qed

text \<open>A manager of 64 frames of which the first four are in use.\<close>

definition pmm_sample :: pmm_state where
  "pmm_sample = vga_state.extend vga_boot
     (pmm_state.fields (\<lambda>i. if i = 0 then 0xF else 0) 0 64 4)"

lemma pmm_sample_marked: "frames_marked pmm_sample = {0, 1, 2, 3}"
proof -
  have "bitmap_test f pmm_sample \<noteq> 0 \<longleftrightarrow> f \<in> {0, 1, 2, 3}" for f
  proof (cases "f div 32 = 0")
    case True
    then have f: "f < 32" by (simp add: word_unat_eq_iff unat_div_distrib word_less_nat_alt)
    then have "f mod 32 = f" by (simp add: word_unat_eq_iff unat_mod_distrib word_less_nat_alt)
    moreover have "bit (0xF :: u32) n \<longleftrightarrow> n < 4" for n
      using bit_mask_iff [of 4 n, where 'a = u32] by (auto simp: mask_eq_exp_minus_1)
    ultimately have "bitmap_test f pmm_sample \<noteq> 0 \<longleftrightarrow> unat f < 4"
      unfolding bitmap_test_bit using True
      by (simp add: pmm_sample_def vga_boot_def vga_state.defs pmm_state.defs)
    also have "\<dots> \<longleftrightarrow> unat f \<in> {0, 1, 2, 3}" by auto
    also have "\<dots> \<longleftrightarrow> f \<in> {0, 1, 2, 3}" by (simp add: word_unat_eq_iff)
    finally show ?thesis .
  next
    case False
    then have "f \<notin> {0, 1, 2, 3}" by (auto simp: word_unat_eq_iff unat_div_distrib)
    with False show ?thesis unfolding bitmap_test_bit
      by (simp add: pmm_sample_def vga_boot_def vga_state.defs pmm_state.defs)
  qed
  then show ?thesis by (auto simp: frames_marked_def)
qed

lemma pmm_sample_fields [simp]:
  "total_frames pmm_sample = 64" "used_frames pmm_sample = 4"
  by (simp_all add: pmm_sample_def vga_boot_def vga_state.defs pmm_state.defs)

lemma pmm_sample_ready: "pmm_ready pmm_sample" "pmm_inv pmm_sample"
proof -
  have "frames_used pmm_sample = {0, 1, 2, 3}"
    by (auto simp: frames_used_def pmm_sample_marked)
  then show "pmm_inv pmm_sample" by (simp add: pmm_inv_def MAX_FRAMES_def)
  then show "pmm_ready pmm_sample" by (simp add: pmm_ready_def pmm_sample_marked)
qed

lemma pmm_sample_free: "4 \<in> frames_free pmm_sample" "5 \<in> frames_free pmm_sample"
  by (simp_all add: frames_free_def pmm_sample_marked)

theorem pmm_operations_keep_count_witness:
  "pmm_inv pmm_sample \<and> pmm_inv (snd (pmm_alloc_frame pmm_sample))"
  using pmm_operations_keep_count [OF pmm_sample_ready(2)] pmm_sample_ready(2) by blast

text \<open>
  C12. A single-frame allocation returns the address of the lowest free frame and marks exactly
  that frame, or returns 0 and changes nothing when every frame is in use; the two cases are
  told apart by the result because frame 0 is reserved.
\<close>

theorem pmm_alloc_frame_lowest:
  assumes "pmm_ready s"
  shows "(frames_free s = {} \<longrightarrow> pmm_alloc_frame s = (0, s)) \<and>
    (frames_free s \<noteq> {} \<longrightarrow>
      (\<exists>f. f \<in> frames_free s \<and> (\<forall>g \<in> frames_free s. f \<le> g) \<and>
        fst (pmm_alloc_frame s) = PMM_FRAME_TO_ADDR f \<and> fst (pmm_alloc_frame s) \<noteq> 0 \<and>
        frames_marked (snd (pmm_alloc_frame s)) = insert f (frames_marked s) \<and>
        bitmap_eq s (snd (pmm_alloc_frame s))))"
proof (intro conjI impI)
  assume "frames_free s = {}"
  then show "pmm_alloc_frame s = (0, s)" by (rule pmm_alloc_frame_none)
next
  assume ne: "frames_free s \<noteq> {}"
  then have "fst (pmm_alloc_frame s) \<noteq> 0"
    using pmm.alloc_zero_iff [OF assms] by (simp add: pmm_avail_def)
  moreover have "Min (frames_free s) \<in> frames_free s" "\<forall>g \<in> frames_free s. Min (frames_free s) \<le> g"
    using ne by simp_all
  ultimately show "\<exists>f. f \<in> frames_free s \<and> (\<forall>g \<in> frames_free s. f \<le> g) \<and>
        fst (pmm_alloc_frame s) = PMM_FRAME_TO_ADDR f \<and> fst (pmm_alloc_frame s) \<noteq> 0 \<and>
        frames_marked (snd (pmm_alloc_frame s)) = insert f (frames_marked s) \<and>
        bitmap_eq s (snd (pmm_alloc_frame s))"
    using pmm_alloc_frame_eq [of s] by (auto simp: pmm_alloc_frame_some [OF ne])
qed

theorem pmm_alloc_frame_lowest_witness:
  "\<exists>f. f \<in> frames_free pmm_sample \<and> fst (pmm_alloc_frame pmm_sample) = PMM_FRAME_TO_ADDR f"
  using pmm_alloc_frame_lowest [OF pmm_sample_ready(1)] pmm_sample_free(1) by blast

text \<open>
  Freeing the frame just allocated restores the manager exactly, bitmap and counter included.
\<close>

theorem pmm_alloc_free_roundtrip:
  assumes "pmm_ready s" "frames_free s \<noteq> {}"
  shows "pmm_free_frame (fst (pmm_alloc_frame s)) (snd (pmm_alloc_frame s)) = s"
proof -
  define f where "f = Min (frames_free s)"
  have f: "f \<in> frames_free s" using assms(2) by (simp add: f_def)
  have inv: "pmm_inv s" using assms(1) by (simp add: pmm_ready_def)
  let ?t = "(bitmap_set f s)\<lparr>used_frames := used_frames s + 1\<rparr>"
  have call: "pmm_alloc_frame s = (PMM_FRAME_TO_ADDR f, ?t)"
    unfolding f_def by (rule pmm_alloc_frame_some [OF assms(2)])
  have "bitmap_test f ?t \<noteq> 0" by (simp add: bitmap_test_marked)
  moreover have "f < total_frames ?t" using f by (simp add: frames_free_def)
  moreover have "\<not> bit (bitmap s (f div 32)) (unat (f mod 32))"
    using f bitmap_test_bit [of f s] by (simp add: frames_free_def frames_marked_def)
  then have "(bitmap s (f div 32) OR push_bit (unat (f mod 32)) 1) AND
      NOT (push_bit (unat (f mod 32)) 1) = bitmap s (f div 32)"
    by (intro bit_word_eqI) (auto simp: bit_simps)
  then have "(bitmap_clear f ?t)\<lparr>used_frames := used_frames ?t - 1\<rparr> = s"
    by (simp add: bitmap_clear_def bitmap_set_def)
  ultimately show ?thesis
    using frames_free_bound [OF inv f] by (simp add: call pmm_free_frame_def Let_def)
qed

theorem pmm_alloc_free_roundtrip_witness:
  "pmm_free_frame (fst (pmm_alloc_frame pmm_sample)) (snd (pmm_alloc_frame pmm_sample)) = pmm_sample"
  using pmm_alloc_free_roundtrip [OF pmm_sample_ready(1)] pmm_sample_free(1) by blast

text \<open>
  Frames handed out by successive allocations are pairwise different, were all free, and
  leave exactly the other free frames available.
\<close>

theorem pmm_allocations_distinct:
  assumes "pmm_ready s" "n \<le> card (pmm_avail s)"
  shows "distinct (fst (pmm.alloc_many n s)) \<and> set (fst (pmm.alloc_many n s)) \<subseteq> pmm_avail s \<and>
    length (fst (pmm.alloc_many n s)) = n \<and>
    pmm_avail (snd (pmm.alloc_many n s)) = pmm_avail s - set (fst (pmm.alloc_many n s))"
  using pmm.alloc_many_spec [OF assms] by blast

theorem pmm_allocations_distinct_witness:
  "distinct (fst (pmm.alloc_many 1 pmm_sample))"
proof -
  have "card (pmm_avail pmm_sample) \<noteq> 0"
    using pmm_sample_free(1) by (auto simp: pmm_avail_def)
  then have "1 \<le> card (pmm_avail pmm_sample)" by linarith
  from pmm_allocations_distinct [OF pmm_sample_ready(1) this] show ?thesis by blast
qed

text \<open>
  C20. A contiguous allocation of \<open>count\<close> \<ge> 2 frames succeeds exactly when some run of \<open>count\<close> free
  frames exists; it then returns the address of the first frame of such a run and marks exactly
  the run. On failure it returns 0 and changes nothing.
\<close>

theorem pmm_alloc_frames_run:
  assumes "pmm_ready s" "2 \<le> unat count"
  shows "(fst (pmm_alloc_frames count s) \<noteq> 0 \<longleftrightarrow> (\<exists>st. {st..<st + unat count} \<subseteq> free_idx s)) \<and>
    (fst (pmm_alloc_frames count s) = 0 \<longrightarrow> snd (pmm_alloc_frames count s) = s) \<and>
    (fst (pmm_alloc_frames count s) \<noteq> 0 \<longrightarrow>
      (\<exists>st. {st..<st + unat count} \<subseteq> free_idx s \<and>
        fst (pmm_alloc_frames count s) = PMM_FRAME_TO_ADDR (of_nat st) \<and>
        frames_free (snd (pmm_alloc_frames count s)) =
          frames_free s - {g. unat g \<in> {st..<st + unat count}}))"
proof -
  have inv: "pmm_inv s" and zero: "0 \<notin> frames_free s"
    using assms(1) by (simp_all add: pmm_ready_def frames_free_def)
  from inv assms(2) show ?thesis
  proof (cases rule: pmm_alloc_frames_result)
    case (run st)
    have pos: "0 < unat count" using assms(2) by simp
    have st: "unat (of_nat st :: u64) = st" by (rule pmm_run_window(2) [OF inv run(1) pos])
    have "st \<in> free_idx s" using run(1) pos by auto
    then have free: "(of_nat st :: u64) \<in> frames_free s"
      using free_idx_iff [of "of_nat st" s] by (simp add: st)
    then have "of_nat st \<noteq> (0 :: u64)" using zero by auto
    then have "PMM_FRAME_TO_ADDR (of_nat st) \<noteq> 0"
      using frame_to_addr_inj [OF frames_free_bound [OF inv free], of 0] by simp
    then have "fst (pmm_alloc_frames count s) \<noteq> 0" by (simp add: run(2))
    with run(1-3) show ?thesis by blast
  next
    case none
    then show ?thesis by simp
  qed
qed

theorem pmm_alloc_frames_run_witness:
  "fst (pmm_alloc_frames 2 pmm_sample) \<noteq> 0"
proof -
  have "{4..<6} \<subseteq> free_idx pmm_sample"
  proof
    fix n :: nat assume "n \<in> {4..<6}"
    then have "n = 4 \<or> n = 5" by auto
    then show "n \<in> free_idx pmm_sample"
      using pmm_sample_free free_idx_iff [of 4 pmm_sample] free_idx_iff [of 5 pmm_sample] by auto
  qed
  then have "\<exists>st. {st..<st + unat (2 :: u64)} \<subseteq> free_idx pmm_sample"
    by (intro exI [of _ 4]) simp
  with pmm_alloc_frames_run [OF pmm_sample_ready(1), of 2] show ?thesis by simp
qed

text \<open>A boot information with three available regions and a gap from 2 MiB to 3 MiB.\<close>

definition sample_mbi_bytes :: "u8 list" where
  "sample_mbi_bytes =
    [104, 0, 0, 0, 0, 0, 0, 0,
     6, 0, 0, 0, 88, 0, 0, 0, 24, 0, 0, 0, 0, 0, 0, 0,
     0, 0, 0, 0, 0, 0, 0, 0,      0, 0xF0, 0x09, 0, 0, 0, 0, 0,  1, 0, 0, 0, 0, 0, 0, 0,
     0, 0, 0x10, 0, 0, 0, 0, 0,   0, 0, 0x10, 0, 0, 0, 0, 0,     1, 0, 0, 0, 0, 0, 0, 0,
     0, 0, 0x30, 0, 0, 0, 0, 0,   0, 0, 0x10, 0, 0, 0, 0, 0,     1, 0, 0, 0, 0, 0, 0, 0]"

definition sample_mbi :: memory where
  "sample_mbi a = (if a < 96 then sample_mbi_bytes ! unat a else 0)"

definition sample_entries :: "mmap_entry list" where
  "sample_entries =
    [\<lparr>base_addr = 0, entry_length = 0x9F000, entry_type = 1\<rparr>,
     \<lparr>base_addr = 0x100000, entry_length = 0x100000, entry_type = 1\<rparr>,
     \<lparr>base_addr = 0x300000, entry_length = 0x100000, entry_type = 1\<rparr>]"

lemma sample_mbi_tag:
  "multiboot2_find_tag sample_mbi 6 = Some (Some 8)"
  "load32 sample_mbi (ucast (8 :: u32) + 8) = 24"
  "load32 sample_mbi (ucast (8 :: u32) + 4) = 88"
  by (simp_all add: multiboot2_find_tag_def find_tag_loop.simps [of _ _ 8] load32_def
      sample_mbi_def sample_mbi_bytes_def)

lemma sample_mbi_entries:
  "map (\<lambda>i. mmap_entry_at sample_mbi (ucast (8 :: u32) + 16) (of_nat i))
     [0..<unat ((load32 sample_mbi (ucast (8 :: u32) + 4) - 16) div load32 sample_mbi (ucast (8 :: u32) + 8))] =
   sample_entries"
proof -
  have "[0..<3] = [0, 1, 2 :: nat]" by (simp add: upt_rec)
  then show ?thesis
    unfolding sample_mbi_tag
    by (simp add: mmap_entry_at_def Let_def load64_def load32_def sample_mbi_def
        sample_mbi_bytes_def sample_entries_def)
qed

definition pmm_boot :: pmm_state where
  "pmm_boot = vga_state.extend
     (vga_boot\<lparr>syms := (syms vga_boot)\<lparr>sym_kernel_end := HIGHER_HALF_BASE + 0x110000\<rparr>\<rparr>)
     (pmm_state.fields (\<lambda>_. 0) 0 0 0)"

lemma pmm_boot_fields:
  "uart_live pmm_boot" "kernel_placed pmm_boot" "bitmap pmm_boot = (\<lambda>_. 0)" "used_frames pmm_boot = 0"
  "kernel_phys_end pmm_boot = 0x110000"
  by (auto simp: pmm_boot_def vga_boot_def vga_state.defs pmm_state.defs uart_live_def
      kernel_placed_def kernel_phys_end_def)

lemma sample_total_frames: "total_frames (pmm_init_sizes sample_entries s) = 1024"
  by (simp add: pmm_init_sizes_def sample_entries_def max_addr_step_def Let_def PMM_FRAME_SIZE_def
      MAX_FRAMES_def)

lemma pmm_init_reserved:
  assumes "multiboot2_find_tag mbi 6 = Some (Some off)" "load32 mbi (ucast off + 8) \<noteq> 0"
    "uart_live s" "kernel_placed s" "bitmap s = (\<lambda>_. 0)" "used_frames s = 0"
  shows "\<exists>t. pmm_init mbi s = Some t \<and> pmm_inv t \<and> bitmap_addr t = kernel_phys_end s \<and>
    (\<forall>f. f < total_frames t \<and> 4096 * unat f < reserved_end t \<longrightarrow> f \<in> frames_marked t)"
proof -
  from assms(1-3) obtain es s1 s6 t where
    "es = map (\<lambda>i. mmap_entry_at mbi (ucast off + 16) (of_nat i))
       [0..<unat ((load32 mbi (ucast off + 4) - 16) div load32 mbi (ucast off + 8))]"
    and r: "s1 = pmm_init_sizes es s"
    "io_eq (pmm_mark_region (bitmap_addr s1) (bitmap_bytes s1) True s1) s6"
    "t = pmm_init_regions es s6" "pmm_init mbi s = Some t"
    by (rule pmm_init_result)
  let ?s2 = "pmm_mark_region (bitmap_addr s1) (bitmap_bytes s1) True s1"
  have "frames_marked s1 = {}"
    using assms(5) by (simp add: r(1) frames_marked_def bitmap_test_def pmm_init_sizes_def Let_def)
  then have inv1: "pmm_inv s1"
    using assms(6) pmm_init_sizes_total [of es s]
    by (simp add: pmm_inv_def frames_used_def r(1) pmm_init_sizes_def Let_def)
  have "bitmap_addr s1 = kernel_phys_end s"
    by (simp add: r(1) pmm_init_sizes_def Let_def kernel_phys_end_def)
  moreover have "bitmap_addr ?s2 = bitmap_addr s1" by (rule bitmap_eqD(2) [OF pmm_mark_region_eq])
  ultimately have s6: "pmm_inv s6" "bitmap_addr s6 = kernel_phys_end s"
    using io_eq_pmm(3,4) [OF r(2)] pmm_mark_region_inv [OF inv1] by simp_all
  have t: "pmm_inv t" unfolding r(3) by (rule pmm_init_regions_inv [OF s6(1)])
  have teq: "bitmap_addr t = bitmap_addr s6" "total_frames t = total_frames s6" "reserved_end t = reserved_end s6"
    using bitmap_eqD [OF pmm_init_regions_eq [of s6 es]]
    by (simp_all add: r(3) reserved_end_def bitmap_bytes_def)
  have marked: "f \<in> frames_marked t" if "f < total_frames t" "4096 * unat f < reserved_end t" for f
    using that assms(4) unfolding r(3) teq [unfolded r(3)]
    by (intro pmm_init_regions_reserved [OF s6(1)]) (simp_all add: s6(2) kernel_placed_def)
  with r(4) t marked s6(2) teq(1) show ?thesis by auto
qed



text \<open>A managed frame that is in no unusable entry and not reserved is free.\<close>

lemma pmm_init_leaves_free:
  assumes "multiboot2_find_tag mbi 6 = Some (Some off)" "load32 mbi (ucast off + 8) \<noteq> 0"
    "uart_live s" "kernel_placed s" "bitmap s = (\<lambda>_. 0)" "pmm_init mbi s = Some t"
    "\<forall>i < unat ((load32 mbi (ucast off + 4) - 16) div load32 mbi (ucast off + 8)).
       entry_type (mmap_entry_at mbi (ucast off + 16) (of_nat i)) \<noteq> MULTIBOOT2_MEMORY_AVAILABLE \<longrightarrow>
       f \<notin> entry_frames (mmap_entry_at mbi (ucast off + 16) (of_nat i))"
    "f < total_frames t" "reserved_end t \<le> 4096 * unat f"
  shows "f \<in> frames_free t"
proof -
  from assms(1-3) obtain es s1 s6 t' where
    r: "es = map (\<lambda>i. mmap_entry_at mbi (ucast off + 16) (of_nat i))
       [0..<unat ((load32 mbi (ucast off + 4) - 16) div load32 mbi (ucast off + 8))]"
    "s1 = pmm_init_sizes es s"
    "io_eq (pmm_mark_region (bitmap_addr s1) (bitmap_bytes s1) True s1) s6"
    "t' = pmm_init_regions es s6" "pmm_init mbi s = Some t'"
    by (rule pmm_init_result)
  have t: "t = pmm_init_regions es s6" using r(4,5) assms(6) by simp
  let ?s2 = "pmm_mark_region (bitmap_addr s1) (bitmap_bytes s1) True s1"
  have gap: "\<forall>e \<in> set es. entry_type e \<noteq> MULTIBOOT2_MEMORY_AVAILABLE \<longrightarrow> f \<notin> entry_frames e" using assms(7) by (auto simp: r(1))
  have eq6: "bitmap_addr s6 = bitmap_addr s1" "bitmap_bytes s6 = bitmap_bytes s1" "total_frames s6 = total_frames s1"
    using io_eq_pmm [OF r(3)] bitmap_eqD [OF pmm_mark_region_eq [of s1 "bitmap_addr s1" "bitmap_bytes s1" True]]
    by (simp_all add: bitmap_bytes_def)
  have eqt: "bitmap_addr t = bitmap_addr s6" "bitmap_bytes t = bitmap_bytes s6"
    using bitmap_eqD [OF pmm_init_regions_eq [of s6 es]] by (simp_all add: t bitmap_bytes_def)
  have addr: "0x100000 \<le> unat (bitmap_addr s6)" "unat (bitmap_addr s6) < 0x40000000"
    using assms(4) unfolding eq6 by (simp_all add: kernel_placed_def kernel_phys_end_def r(2)
        pmm_init_sizes_def Let_def)
  have bb: "unat (bitmap_bytes s6) \<le> 131072"
    unfolding eq6(2) by (rule bitmap_bytes_bound) (simp add: r(2) pmm_init_sizes_total)
  have hi: "unat (bitmap_addr s6) + unat (bitmap_bytes s6) \<le> 4096 * unat f"
    using assms(9) by (simp add: reserved_end_def eqt)
  have len: "unat (bitmap_addr s6 - 0x100000) = unat (bitmap_addr s6) - 0x100000"
    using addr(1) by (simp add: unat_sub word_le_nat_alt)
  have keep: "f \<notin> frames_marked (pmm_mark_region base l True u)"
    if "f \<notin> frames_marked u" "unat base + unat l \<le> 4096 * unat f" "unat base + unat l + 4095 < 2 ^ 64"
    for base l and u :: "'a pmm_state_scheme"
    using mark_region_bound [of f base l u] that by linarith
  have "f \<notin> frames_marked s1"
    using assms(5) by (simp add: r(2) frames_marked_def bitmap_test_def pmm_init_sizes_def Let_def)
  then have "f \<notin> frames_marked ?s2" using hi addr bb by - (rule keep; simp flip: eq6)
  then have "f \<notin> frames_marked s6" using io_eq_pmm(1) [OF r(3)] by simp
  then have f0: "f \<notin> frames_marked (fold init_entry es s6)" (is "f \<notin> frames_marked ?u0")
    using gap by (intro fold_init_entry_unmarked)
  let ?u1 = "pmm_mark_region 0 0x100000 True ?u0"
  let ?u2 = "pmm_mark_region 0x100000 (bitmap_addr s6 - 0x100000) True ?u1"
  have e2: "bitmap_eq s6 ?u2"
    by (intro bitmap_eq_trans [OF _ pmm_mark_region_eq] fold_init_entry_eq)
  have "f \<notin> frames_marked ?u1" using f0 hi addr by - (rule keep; simp)
  then have "f \<notin> frames_marked ?u2" using hi addr len by - (rule keep; simp)
  then have "f \<notin> frames_marked (pmm_mark_region (bitmap_addr s6) (bitmap_bytes s6) True ?u2)"
    using hi addr bb by - (rule keep; simp)
  then have "f \<notin> frames_marked (pmm_mark_region 0xB8000 0x8000 True
      (pmm_mark_region (bitmap_addr s6) (bitmap_bytes s6) True ?u2))"
    using hi addr by - (rule keep; simp)
  moreover have "bitmap_addr ?u2 = bitmap_addr s6" "bitmap_bytes ?u2 = bitmap_bytes s6"
    using bitmap_eqD [OF e2] by (simp_all add: bitmap_bytes_def)
  ultimately have "f \<notin> frames_marked t" by (simp add: t pmm_init_regions_def Let_def)
  with assms(8) show ?thesis by (simp add: frames_free_def)
qed

text \<open>
  A managed frame that no entry of the memory map covers, and that is not reserved for the
  kernel or the screen, is left free: the second pass marks the frames of unusable entries
  only, so a gap in the memory map is handed out as ordinary memory.
\<close>

theorem pmm_init_gap_is_free:
  assumes "multiboot2_find_tag mbi 6 = Some (Some off)" "load32 mbi (ucast off + 8) \<noteq> 0"
    "uart_live s" "kernel_placed s" "bitmap s = (\<lambda>_. 0)" "pmm_init mbi s = Some t"
    "\<forall>i < unat ((load32 mbi (ucast off + 4) - 16) div load32 mbi (ucast off + 8)).
       f \<notin> entry_frames (mmap_entry_at mbi (ucast off + 16) (of_nat i))"
    "f < total_frames t" "reserved_end t \<le> 4096 * unat f"
  shows "f \<in> frames_free t"
  by (rule pmm_init_leaves_free [OF assms(1-6) _ assms(8,9)]) (use assms(7) in blast)

lemma pmm_init_sample:
  obtains t where "pmm_init sample_mbi pmm_boot = Some t" "total_frames t = 1024"
    "reserved_end t = 0x110080"
proof -
  have ne: "load32 sample_mbi (ucast (8 :: u32) + 8) \<noteq> 0" unfolding sample_mbi_tag by simp
  from sample_mbi_tag(1) ne pmm_boot_fields(1) obtain es s1 s6 t where
    r: "es = map (\<lambda>i. mmap_entry_at sample_mbi (ucast (8 :: u32) + 16) (of_nat i))
       [0..<unat ((load32 sample_mbi (ucast (8 :: u32) + 4) - 16) div load32 sample_mbi (ucast (8 :: u32) + 8))]"
    "s1 = pmm_init_sizes es pmm_boot"
    "io_eq (pmm_mark_region (bitmap_addr s1) (bitmap_bytes s1) True s1) s6"
    "t = pmm_init_regions es s6" "pmm_init sample_mbi pmm_boot = Some t"
    by (rule pmm_init_result)
  have s1: "total_frames s1 = 1024" "bitmap_addr s1 = 0x110000"
    using r(1,2) pmm_boot_fields(5) unfolding sample_mbi_entries
    by (simp_all add: sample_total_frames) (simp add: pmm_init_sizes_def Let_def kernel_phys_end_def)
  have "total_frames t = 1024" "bitmap_addr t = 0x110000"
    using bitmap_eqD(1,2) [OF pmm_init_regions_eq [of s6 es]] io_eq_pmm(2,3) [OF r(3)]
      bitmap_eqD(1,2) [OF pmm_mark_region_eq [of s1 "bitmap_addr s1" "bitmap_bytes s1" True]] s1
    by (simp_all add: r(4))
  then show ?thesis using that r(5) by (simp add: reserved_end_def bitmap_bytes_def)
qed

theorem pmm_init_gap_is_free_witness:
  "\<exists>t. pmm_init sample_mbi pmm_boot = Some t \<and> 512 \<in> frames_free t"
proof -
  obtain t where t: "pmm_init sample_mbi pmm_boot = Some t" "total_frames t = 1024"
    "reserved_end t = 0x110080" by (rule pmm_init_sample)
  have ne: "load32 sample_mbi (ucast (8 :: u32) + 8) \<noteq> 0" unfolding sample_mbi_tag by simp
  have "\<forall>e \<in> set sample_entries. 512 \<notin> entry_frames e"
    by (simp add: sample_entries_def entry_frames_def PMM_ADDR_TO_FRAME_def PMM_FRAME_SHIFT_def
        PMM_FRAME_SIZE_def)
  then have gap: "\<forall>i < unat ((load32 sample_mbi (ucast (8 :: u32) + 4) - 16) div
        load32 sample_mbi (ucast (8 :: u32) + 8)).
      512 \<notin> entry_frames (mmap_entry_at sample_mbi (ucast (8 :: u32) + 16) (of_nat i))"
    unfolding sample_mbi_entries [symmetric] by simp
  have "512 \<in> frames_free t"
    by (rule pmm_init_gap_is_free [OF sample_mbi_tag(1) ne pmm_boot_fields(1-3) t(1) gap])
      (simp_all add: t)
  with t(1) show ?thesis by blast
qed

text \<open>
  A tag of size 0 that is neither the end tag nor the one searched for makes the tag search
  of the boot information spin forever.
\<close>

theorem find_tag_size_zero_hangs:
  assumes "off < load32 mbi 0" "load32 mbi (ucast off) \<noteq> 0" "load32 mbi (ucast off) \<noteq> type"
    "load32 mbi (ucast off + 4) = 0"
  shows "find_tag_loop mbi type off = None"
proof (rule ccontr)
  assume "find_tag_loop mbi type off \<noteq> None"
  then obtain r where ret: "find_tag_loop mbi type off = Some r" by blast
  have "(mbi, type, off) \<noteq> (mbi, type, off)"
  proof (rule find_tag_loop.raw_induct [where P = "\<lambda>m ty o' r. (m, ty, o') \<noteq> (mbi, type, off)", OF _ ret])
    fix f m ty o' r
    assume IH: "\<And>m ty o' r. f m ty o' = Some r \<Longrightarrow> (m, ty, o') \<noteq> (mbi, type, off)"
      and eq: "(if o' < load32 m 0 then
        if load32 m (ucast o') = 0 then Some None
        else if load32 m (ucast o') = ty then Some (Some o')
        else f m ty (o' + ((load32 m (ucast o' + 4) + 7) AND NOT 7))
      else Some None) = Some r"
    show "(m, ty, o') \<noteq> (mbi, type, off)"
      using eq IH [of mbi type off r] assms by auto
  qed
  then show False by simp
qed

theorem find_tag_size_zero_hangs_witness:
  "find_tag_loop (\<lambda>a. if a = 0 then 64 else if a = 8 then 1 else 0) 6 8 = None"
  by (rule find_tag_size_zero_hangs) (simp_all add: load32_def)

end
