(* ===== verification/Prism_Pic.thy ===== *)
theory Prism_Pic
  imports Prism_Vga
begin

text \<open>
  The interrupt controllers: \<^verbatim>\<open>cpu/pic.c\<close>. The code is a sequence of port writes. What the
  writes mean is stated against \<open>pic_chip\<close>, the part of an 8259A that they program: the four
  initialisation command words, the mask register and the non-specific end-of-interrupt
  command, as the data sheet of that chip gives them.
\<close>

definition PIC_MASTER_CMD :: u16 where "PIC_MASTER_CMD = 0x20"
definition PIC_MASTER_DATA :: u16 where "PIC_MASTER_DATA = 0x21"
definition PIC_SLAVE_CMD :: u16 where "PIC_SLAVE_CMD = 0xA0"
definition PIC_SLAVE_DATA :: u16 where "PIC_SLAVE_DATA = 0xA1"

definition PIC_MASTER_OFFSET :: u8 where "PIC_MASTER_OFFSET = 32"
definition PIC_SLAVE_OFFSET :: u8 where "PIC_SLAVE_OFFSET = 40"

definition kinit_pic :: "'a vga_state_scheme \<Rightarrow> 'a vga_state_scheme" where
  "kinit_pic s =
     (let master_offset = PIC_MASTER_OFFSET; slave_offset = PIC_SLAVE_OFFSET;
          s = outb PIC_MASTER_CMD 0x11 s;
          s = outb PIC_SLAVE_CMD 0x11 s;
          s = outb PIC_MASTER_DATA master_offset s;
          s = outb PIC_SLAVE_DATA slave_offset s;
          s = outb PIC_MASTER_DATA 0x04 s;
          s = outb PIC_SLAVE_DATA 0x02 s;
          s = outb PIC_MASTER_DATA 0x01 s;
          s = outb PIC_SLAVE_DATA 0x01 s;
          s = outb PIC_MASTER_DATA 0x00 s;
          s = outb PIC_SLAVE_DATA 0x00 s
      in kprint (cstr ''PIC: Master=0x20, Slave=0x28, remapped'' @ [10]) s)"

definition pic_send_eoi :: "u8 \<Rightarrow> 'a machine_scheme \<Rightarrow> 'a machine_scheme" where
  "pic_send_eoi irq s =
     (let s = (if irq \<ge> 8 then outb PIC_SLAVE_CMD 0x20 s else s)
      in outb PIC_MASTER_CMD 0x20 s)"

lemmas pic_ports = PIC_MASTER_CMD_def PIC_MASTER_DATA_def PIC_SLAVE_CMD_def PIC_SLAVE_DATA_def

section \<open>The programmed chips\<close>

text \<open>
  \<open>chip_icw\<close> counts the initialisation words still expected: after a command with bit 4 set the
  next three data writes are ICW2 (vector base), ICW3 (cascade) and, as bit 0 asked for it,
  ICW4; afterwards a data write sets the mask. \<open>chip_service\<close> lists the interrupts in service,
  the one served last first; a non-specific end-of-interrupt command retires that one.
\<close>

record pic_chip =
  chip_icw :: nat
  chip_base :: u8
  chip_cascade :: u8
  chip_mode :: u8
  chip_mask :: u8
  chip_service :: "u8 list"

definition chip_command :: "u8 \<Rightarrow> pic_chip \<Rightarrow> pic_chip" where
  "chip_command v p =
     (if bit v 4 then p\<lparr>chip_icw := (if bit v 0 then 3 else 2), chip_mask := 0, chip_service := []\<rparr>
      else if v = 0x20 then p\<lparr>chip_service := tl (chip_service p)\<rparr> else p)"

definition chip_data :: "u8 \<Rightarrow> pic_chip \<Rightarrow> pic_chip" where
  "chip_data v p =
     (if chip_icw p = 3 then p\<lparr>chip_base := v AND 0xF8, chip_icw := 2\<rparr>
      else if chip_icw p = 2 then p\<lparr>chip_cascade := v, chip_icw := 1\<rparr>
      else if chip_icw p = 1 then p\<lparr>chip_mode := v, chip_icw := 0\<rparr>
      else p\<lparr>chip_mask := v\<rparr>)"

fun pic_write :: "u16 \<times> u8 \<Rightarrow> pic_chip \<times> pic_chip \<Rightarrow> pic_chip \<times> pic_chip" where
  "pic_write (port, v) (m, sl) =
     (if port = PIC_MASTER_CMD then (chip_command v m, sl)
      else if port = PIC_MASTER_DATA then (chip_data v m, sl)
      else if port = PIC_SLAVE_CMD then (m, chip_command v sl)
      else if port = PIC_SLAVE_DATA then (m, chip_data v sl)
      else (m, sl))"

text \<open>The state the two chips are in after the port writes of a run.\<close>

definition pics_after :: "(u16 \<times> u8) list \<Rightarrow> pic_chip \<times> pic_chip \<Rightarrow> pic_chip \<times> pic_chip" where
  "pics_after w ps = fold pic_write w ps"

lemma pics_after_append: "pics_after (xs @ ys) ps = pics_after ys (pics_after xs ps)"
  by (simp add: pics_after_def)

lemma pic_send_eoi_log:
  "io_log (pic_send_eoi irq s) =
     io_log s @ (if irq \<ge> 8 then [(PIC_SLAVE_CMD, 0x20)] else []) @ [(PIC_MASTER_CMD, 0x20)]"
  by (simp add: pic_send_eoi_def Let_def)

lemma pic_send_eoi_shape: "pic_send_eoi irq s = s\<lparr>io_log := io_log (pic_send_eoi irq s)\<rparr>"
  by (simp add: pic_send_eoi_def Let_def outb_def)

lemma kinit_pic_log:
  "io_log (kinit_pic s) = io_log s @
     [(PIC_MASTER_CMD, 0x11), (PIC_SLAVE_CMD, 0x11), (PIC_MASTER_DATA, 32), (PIC_SLAVE_DATA, 40),
      (PIC_MASTER_DATA, 4), (PIC_SLAVE_DATA, 2), (PIC_MASTER_DATA, 1), (PIC_SLAVE_DATA, 1),
      (PIC_MASTER_DATA, 0), (PIC_SLAVE_DATA, 0)]"
  by (simp add: kinit_pic_def Let_def vga_eqD [OF kprint_vga_eq] PIC_MASTER_OFFSET_def PIC_SLAVE_OFFSET_def)

text \<open>
  C38. Whatever state the interrupt controllers are in, \<open>kinit_pic\<close> leaves them fully initialised:
  the master delivers at vector base 32 and the slave at 40, clear of the CPU exceptions, the
  cascade is on line 2 of the master, both run in 8086 mode, and no line is masked.
\<close>

theorem kinit_pic_remaps:
  "pics_after (io_log (kinit_pic s)) ps =
     (let (m, sl) = pics_after (io_log s) ps in
      (m\<lparr>chip_icw := 0, chip_base := 32, chip_cascade := 4, chip_mode := 1, chip_mask := 0, chip_service := []\<rparr>,
       sl\<lparr>chip_icw := 0, chip_base := 40, chip_cascade := 2, chip_mode := 1, chip_mask := 0, chip_service := []\<rparr>))"
proof -
  obtain m sl where ms: "pics_after (io_log s) ps = (m, sl)" by fastforce
  have b: "bit (0x11 :: u8) 4" "bit (0x11 :: u8) 0" by simp_all
  show ?thesis unfolding kinit_pic_log pics_after_append ms
    by (simp add: pics_after_def pic_ports chip_command_def chip_data_def b)
qed

text \<open>
  An end-of-interrupt for line \<open>irq\<close> retires the interrupt the master serves, and for the lines
  8 to 15, which reach the processor through the slave, the slave's as well; an interrupt that
  the other chip serves is never retired by mistake.
\<close>

theorem pic_send_eoi_retires:
  assumes "pics_after (io_log s) ps = (m, sl)"
  shows "pics_after (io_log (pic_send_eoi irq s)) ps =
     (m\<lparr>chip_service := tl (chip_service m)\<rparr>,
      if irq \<ge> 8 then sl\<lparr>chip_service := tl (chip_service sl)\<rparr> else sl)"
proof -
  have "\<not> bit (0x20 :: u8) 4" by simp
  then show ?thesis unfolding pic_send_eoi_log pics_after_append assms
    by (auto simp: pics_after_def pic_ports chip_command_def)
qed

theorem pic_send_eoi_retires_witness:
  "let chip = \<lparr>chip_icw = 0, chip_base = 40, chip_cascade = 0, chip_mode = 1, chip_mask = 0, chip_service = [1]\<rparr>
   in pics_after (io_log (pic_send_eoi 9 vga_boot)) (chip, chip) =
     (chip\<lparr>chip_service := []\<rparr>, chip\<lparr>chip_service := []\<rparr>)"
proof -
  define chip where "chip = \<lparr>chip_icw = 0, chip_base = 40, chip_cascade = 0, chip_mode = 1, chip_mask = 0,
    chip_service = [1 :: u8]\<rparr>"
  have "pics_after (io_log vga_boot) (chip, chip) = (chip, chip)"
    by (simp add: pics_after_def vga_boot_def)
  from pic_send_eoi_retires [OF this, of 9] show ?thesis
    unfolding chip_def [symmetric] Let_def by (simp add: chip_def)
qed

end
