(* ===== verification/Prism_Cpu.thy ===== *)
theory Prism_Cpu
  imports Prism_Pmm Prism_Pic
begin

text \<open>
  The descriptor tables of the processor: \<^verbatim>\<open>cpu/gdt.c\<close>, \<^verbatim>\<open>cpu/tss.h\<close> and \<^verbatim>\<open>cpu/idt.c\<close>. The
  record adds the static tables and the processor registers the code loads: the descriptor
  table registers, the segment selectors, the task register, and the
  registers a context switch saves, the flags among them.
\<close>

section \<open>State\<close>

record tss64 =
  tss_reserved0 :: u32
  tss_rsp0 :: u64
  tss_rsp1 :: u64
  tss_rsp2 :: u64
  tss_reserved1 :: u64
  tss_ist1 :: u64
  tss_ist2 :: u64
  tss_ist3 :: u64
  tss_reserved2 :: u64
  tss_reserved3 :: u64
  tss_reserved4 :: u64
  tss_reserved5 :: u64
  tss_reserved6 :: u64
  tss_iopb_offset :: u16
  tss_reserved7 :: u8

text \<open>The packed structure occupies 4 + 12 * 8 + 2 + 1 bytes.\<close>

definition sizeof_tss64 :: nat where
  "sizeof_tss64 = 4 + 12 * 8 + 2 + 1"

definition zero_tss :: tss64 where
  "zero_tss = \<lparr>tss_reserved0 = 0, tss_rsp0 = 0, tss_rsp1 = 0, tss_rsp2 = 0, tss_reserved1 = 0,
     tss_ist1 = 0, tss_ist2 = 0, tss_ist3 = 0, tss_reserved2 = 0, tss_reserved3 = 0,
     tss_reserved4 = 0, tss_reserved5 = 0, tss_reserved6 = 0, tss_iopb_offset = 0, tss_reserved7 = 0\<rparr>"

record idt_entry =
  gate_base_low :: u16
  gate_selector :: u16
  gate_ist :: u8
  gate_flags :: u8
  gate_base_mid :: u16
  gate_base_high :: u32
  gate_reserved :: u32

definition zero_gate :: idt_entry where
  "zero_gate = \<lparr>gate_base_low = 0, gate_selector = 0, gate_ist = 0, gate_flags = 0,
     gate_base_mid = 0, gate_base_high = 0, gate_reserved = 0\<rparr>"

record segment_regs =
  seg_cs :: u16
  seg_ds :: u16
  seg_es :: u16
  seg_ss :: u16
  seg_fs :: u16
  seg_gs :: u16

record cpu_regs =
  reg_rip :: u64
  reg_rsp :: u64
  reg_rflags :: u64
  reg_rbp :: u64
  reg_rbx :: u64
  reg_r12 :: u64
  reg_r13 :: u64
  reg_r14 :: u64
  reg_r15 :: u64

record cpu_state = pmm_state +
  gdt_entries :: "u64 list"
  tss_value :: tss64
  gdt_register :: "u16 \<times> u64"
  ist_stacks :: "u64 list"
  idt_entries :: "idt_entry list"
  idt_register :: "u16 \<times> u64"
  cpu_gdtr :: "u16 \<times> u64"
  cpu_idtr :: "u16 \<times> u64"
  cpu_segs :: segment_regs
  cpu_tr :: u16
  regs :: cpu_regs

section \<open>The global descriptor table\<close>

definition GDT_ENTRIES :: nat where "GDT_ENTRIES = 7"
definition GDT_SEL_KCODE :: u16 where "GDT_SEL_KCODE = 0x08"

definition tss_set_rsp0 :: "u64 \<Rightarrow> 'a cpu_state_scheme \<Rightarrow> 'a cpu_state_scheme" where
  "tss_set_rsp0 rsp0 s = s\<lparr>tss_value := (tss_value s)\<lparr>tss_rsp0 := rsp0\<rparr>\<rparr>"

definition tss_get_rsp0 :: "'a cpu_state_scheme \<Rightarrow> u64" where
  "tss_get_rsp0 s = tss_rsp0 (tss_value s)"

definition tss_desc_low :: "u64 \<Rightarrow> u16 \<Rightarrow> u64" where
  "tss_desc_low tss_base tss_limit =
     ucast (tss_limit AND 0xFFFF) OR push_bit 16 (tss_base AND 0xFFFF) OR
     push_bit 32 (drop_bit 16 tss_base AND 0xFF) OR push_bit 40 0x89 OR
     push_bit 56 (drop_bit 24 tss_base AND 0xFF)"

definition tss_desc_high :: "u64 \<Rightarrow> u64" where
  "tss_desc_high tss_base = drop_bit 32 tss_base AND 0xFFFFFFFF"

text \<open>
  The task register can only be loaded from a descriptor of an available 64-bit TSS, which the
  instruction then marks busy; anything else raises a general protection fault (\<open>None\<close>).
\<close>

definition ltr :: "u16 \<Rightarrow> 'a cpu_state_scheme \<Rightarrow> 'a cpu_state_scheme option" where
  "ltr sel s =
     (let i = unat (drop_bit 3 sel); d = gdt_entries s ! i in
      if i < length (gdt_entries s) \<and> drop_bit 40 d AND 0x9F = 0x89
      then Some (s\<lparr>cpu_tr := sel, gdt_entries := (gdt_entries s)[i := d OR push_bit 41 1]\<rparr>)
      else None)"

text \<open>The seven entries, in the order of the assignments.\<close>

definition build_gdt :: "u64 \<Rightarrow> u16 \<Rightarrow> u64 list" where
  "build_gdt tss_base tss_limit =
     (let g = replicate GDT_ENTRIES 0;
          g = g[1 := 0x00AF9A000000FFFF];
          g = g[2 := 0x00AF92000000FFFF];
          g = g[3 := 0x00AF9A000000FFFF];
          g = g[3 := (g ! 3 AND 0xFFFFFFFFFFFF00FF) OR push_bit 40 0xFA];
          g = g[4 := 0x00AF92000000FFFF];
          g = g[4 := (g ! 4 AND 0xFFFFFFFFFFFF00FF) OR push_bit 40 0xF2];
          g = g[5 := tss_desc_low tss_base tss_limit]
      in g[6 := tss_desc_high tss_base])"

definition kinit_gdt :: "'a cpu_state_scheme \<Rightarrow> 'a cpu_state_scheme option" where
  "kinit_gdt s =
     (let tss_base = sym_tss_value (syms s);
          tss_limit = of_nat (sizeof_tss64 - 1);
          s = s\<lparr>tss_value := zero_tss, gdt_entries := build_gdt tss_base tss_limit\<rparr>;
          s = s\<lparr>gdt_register := (of_nat (8 * GDT_ENTRIES - 1), sym_gdt_entries (syms s))\<rparr>;
          s = s\<lparr>cpu_gdtr := gdt_register s\<rparr>;
          s = s\<lparr>cpu_segs := (cpu_segs s)\<lparr>seg_ds := 0x10, seg_es := 0x10, seg_ss := 0x10,
                                          seg_fs := 0, seg_gs := 0\<rparr>\<rparr>
      in do { s \<leftarrow> ltr 0x28 s;
              Some (s\<lparr>cpu_segs := (cpu_segs s)\<lparr>seg_cs := 0x08\<rparr>\<rparr>) })"

section \<open>The interrupt descriptor table\<close>

definition IDT_ENTRIES :: nat where "IDT_ENTRIES = 256"
definition IST_COUNT :: nat where "IST_COUNT = 3"
definition IST_DF :: u8 where "IST_DF = 1"
definition IST_PF :: u8 where "IST_PF = 2"
definition IST_GP :: u8 where "IST_GP = 3"

definition ist_alloc :: "u8 \<Rightarrow> 'a cpu_state_scheme \<Rightarrow> (u64 \<times> 'a cpu_state_scheme) option" where
  "ist_alloc idx s =
     (let (frame, s) = pmm_alloc_frame s in
      if frame = 0 then Some (0, s)
      else let va = frame + HIGHER_HALF_BASE in
        do { s \<leftarrow> memset va 0 PMM_FRAME_SIZE s;
             Some (va + PMM_FRAME_SIZE, s\<lparr>ist_stacks := (ist_stacks s)[unat (idx - 1) := va]\<rparr>) })"

definition idt_set_gate ::
  "u8 \<Rightarrow> u64 \<Rightarrow> u16 \<Rightarrow> u8 \<Rightarrow> u8 \<Rightarrow> 'a cpu_state_scheme \<Rightarrow> 'a cpu_state_scheme" where
  "idt_set_gate n handler selector flags ist s = s\<lparr>idt_entries := (idt_entries s)[unat n :=
     \<lparr>gate_base_low = ucast (handler AND 0xFFFF),
      gate_selector = selector,
      gate_ist = ist AND 0x7,
      gate_flags = flags,
      gate_base_mid = ucast (drop_bit 16 handler AND 0xFFFF),
      gate_base_high = ucast (drop_bit 32 handler AND 0xFFFFFFFF),
      gate_reserved = 0\<rparr>]\<rparr>"

text \<open>\<open>isr_default_handler\<close> never returns; its result is the state in which it halts.\<close>

definition isr_default_handler :: "'a vga_state_scheme \<Rightarrow> 'a vga_state_scheme" where
  "isr_default_handler s =
     kprint (cstr ''Halting CPU.'' @ [10]) (kprint (cstr ''EXCEPTION: Unhandled interrupt'' @ [10]) s)"

definition isr_timer_handler :: "'a machine_scheme \<Rightarrow> 'a machine_scheme" where
  "isr_timer_handler s = pic_send_eoi 0 s"

definition exception_ist :: "nat \<Rightarrow> u8" where
  "exception_ist i = (if i = 8 then IST_DF else if i = 14 then IST_PF else if i = 13 then IST_GP else 0)"

text \<open>The two loops that wire the stubs of vectors \<open>k\<close>, \dots, \<open>k + n - 1\<close>.\<close>

definition install_stubs :: "nat \<Rightarrow> nat \<Rightarrow> (nat \<Rightarrow> u8) \<Rightarrow> 'a cpu_state_scheme \<Rightarrow> 'a cpu_state_scheme" where
  "install_stubs k n ist s =
     fold (\<lambda>i s. idt_set_gate (of_nat (k + i)) (sym_isr_stub (syms s) (k + i)) GDT_SEL_KCODE 0x8E (ist i) s)
       [0..<n] s"

definition kinit_idt :: "'a cpu_state_scheme \<Rightarrow> 'a cpu_state_scheme option" where
  "kinit_idt s =
     (let s = s\<lparr>idt_register := (of_nat (16 * IDT_ENTRIES - 1), sym_idt_entries (syms s))\<rparr>;
          s = s\<lparr>idt_entries := fold (\<lambda>i es. es[i := zero_gate]) [0..<IDT_ENTRIES] (idt_entries s)\<rparr>
      in do { (df_top, s) \<leftarrow> ist_alloc IST_DF s;
              (pf_top, s) \<leftarrow> ist_alloc IST_PF s;
              (gp_top, s) \<leftarrow> ist_alloc IST_GP s;
              let s = install_stubs 0 32 exception_ist s;
              let s = s\<lparr>tss_value := (tss_value s)\<lparr>tss_ist1 := df_top, tss_ist2 := pf_top, tss_ist3 := gp_top\<rparr>\<rparr>;
              let s = install_stubs 32 16 (\<lambda>i. 0) s;
              let s = s\<lparr>cpu_idtr := idt_register s\<rparr>;
              Some (kprint (cstr ''IDT: 256 entries loaded'' @ [10]) s) })"

section \<open>Descriptors as the processor reads them\<close>

definition desc_dpl :: "u64 \<Rightarrow> u64" where "desc_dpl d = drop_bit 45 d AND 3"
definition desc_present :: "u64 \<Rightarrow> bool" where "desc_present d = bit d 47"
definition desc_code :: "u64 \<Rightarrow> bool" where "desc_code d \<longleftrightarrow> bit d 44 \<and> bit d 43"
definition desc_data :: "u64 \<Rightarrow> bool" where "desc_data d \<longleftrightarrow> bit d 44 \<and> \<not> bit d 43 \<and> bit d 41"
definition desc_long :: "u64 \<Rightarrow> bool" where "desc_long d = bit d 53"

definition tss_desc_base :: "u64 \<Rightarrow> u64 \<Rightarrow> u64" where
  "tss_desc_base lo hi =
     (drop_bit 16 lo AND 0xFFFFFF) OR push_bit 24 (drop_bit 56 lo AND 0xFF) OR push_bit 32 (hi AND 0xFFFFFFFF)"

definition desc_limit :: "u64 \<Rightarrow> u64" where
  "desc_limit d = (d AND 0xFFFF) OR push_bit 16 (drop_bit 48 d AND 0xF)"

definition gate_handler :: "idt_entry \<Rightarrow> u64" where
  "gate_handler g = ucast (gate_base_low g) OR push_bit 16 (ucast (gate_base_mid g)) OR
     push_bit 32 (ucast (gate_base_high g))"

text \<open>Constant masks as \<open>mask n\<close>, so that their bits are known.\<close>

lemma mask_consts:
  "(0xFF :: 'a::len word) = mask 8" "(0xFFFF :: 'a word) = mask 16" "(0xFFFFFF :: 'a word) = mask 24"
  "(0xFFFFFFFF :: 'a word) = mask 32" "(0xF :: 'a word) = mask 4"
  by (simp_all add: mask_eq_exp_minus_1)

lemma bit_small_const: "take_bit k (c :: u64) = c \<Longrightarrow> bit c n \<Longrightarrow> n < k"
  by (metis bit_take_bit_iff)

lemma tss_desc_base_eq:
  "tss_desc_base (tss_desc_low base limit OR push_bit 41 1) (tss_desc_high base) = base"
proof (rule bit_word_eqI)
  fix n assume n: "n < LENGTH(64)"
  define acc busy :: u64 where "acc = 0x89" "busy = 1"
  have small: "bit acc k \<Longrightarrow> k < 8" "bit busy k \<Longrightarrow> k < 1" for k
    using bit_small_const [of 8 acc k] bit_small_const [of 1 busy k] by (simp_all add: acc_busy_def)
  show "bit (tss_desc_base (tss_desc_low base limit OR push_bit 41 1) (tss_desc_high base)) n = bit base n"
    using n unfolding tss_desc_base_def tss_desc_low_def tss_desc_high_def mask_consts acc_busy_def [symmetric]
    by (cases "n < 16"; cases "n < 24"; cases "n < 32")
      (auto simp: bit_simps dest!: small)
qed

lemma gate_handler_eq:
  "gate_handler \<lparr>gate_base_low = ucast (h AND 0xFFFF), gate_selector = sel, gate_ist = ist, gate_flags = fl,
     gate_base_mid = ucast (drop_bit 16 h AND 0xFFFF), gate_base_high = ucast (drop_bit 32 h AND 0xFFFFFFFF),
     gate_reserved = r\<rparr> = h"
proof (rule bit_word_eqI)
  fix n assume "n < LENGTH(64)"
  then show "bit (gate_handler \<lparr>gate_base_low = ucast (h AND 0xFFFF), gate_selector = sel, gate_ist = ist,
      gate_flags = fl, gate_base_mid = ucast (drop_bit 16 h AND 0xFFFF),
      gate_base_high = ucast (drop_bit 32 h AND 0xFFFFFFFF), gate_reserved = r\<rparr>) n = bit h n"
    unfolding gate_handler_def mask_consts
    by (cases "n < 16"; cases "n < 32") (auto simp: bit_simps)
qed

lemma tss_desc_low_access: "drop_bit 40 (tss_desc_low base limit) AND mask 8 = 0x89"
proof (rule bit_word_eqI)
  fix n assume n: "n < LENGTH(64)"
  define acc :: u64 where "acc = 0x89"
  have small: "bit acc k \<Longrightarrow> k < 8" for k
    using bit_small_const [of 8 acc k] by (simp add: acc_def)
  show "bit (drop_bit 40 (tss_desc_low base limit) AND mask 8) n = bit (0x89 :: u64) n"
    using n unfolding tss_desc_low_def mask_consts acc_def [symmetric]
    by (cases "n < 8") (auto simp: bit_simps dest!: small dest: bit_imp_le_length)
qed

lemma tss_desc_low_type: "drop_bit 40 (tss_desc_low base limit) AND 0x9F = 0x89"
proof -
  have "drop_bit 40 (tss_desc_low base limit) AND 0x9F =
      (drop_bit 40 (tss_desc_low base limit) AND mask 8) AND 0x9F"
    by (simp add: and.assoc mask_eq_exp_minus_1)
  then show ?thesis unfolding tss_desc_low_access by simp
qed

lemma seven_entries:
  "replicate 7 x = [x, x, x, x, x, x, x]"
  "[x0, x1, x2, x3, x4, x5, x6][1 := y] = [x0, y, x2, x3, x4, x5, x6]"
  "[x0, x1, x2, x3, x4, x5, x6][2 := y] = [x0, x1, y, x3, x4, x5, x6]"
  "[x0, x1, x2, x3, x4, x5, x6][3 := y] = [x0, x1, x2, y, x4, x5, x6]"
  "[x0, x1, x2, x3, x4, x5, x6][4 := y] = [x0, x1, x2, x3, y, x5, x6]"
  "[x0, x1, x2, x3, x4, x5, x6][5 := y] = [x0, x1, x2, x3, x4, y, x6]"
  "[x0, x1, x2, x3, x4, x5, x6][6 := y] = [x0, x1, x2, x3, x4, x5, y]"
  by (simp_all add: numeral_eq_Suc)

lemma tss_desc_limit_eq: "desc_limit (tss_desc_low base limit OR push_bit 41 1) = ucast limit"
proof (rule bit_word_eqI)
  fix n assume n: "n < LENGTH(64)"
  define acc busy :: u64 where "acc = 0x89" "busy = 1"
  have small: "bit acc k \<Longrightarrow> k < 8" "bit busy k \<Longrightarrow> k < 1" for k
    using bit_small_const [of 8 acc k] bit_small_const [of 1 busy k] by (simp_all add: acc_busy_def)
  show "bit (desc_limit (tss_desc_low base limit OR push_bit 41 1)) n = bit (ucast limit :: u64) n"
    using n unfolding desc_limit_def tss_desc_low_def mask_consts acc_busy_def [symmetric]
    by (cases "n < 16") (auto simp: bit_simps dest!: small dest: bit_imp_le_length)
qed

lemma build_gdt_eq:
  "build_gdt base limit = [0, 0x00AF9A000000FFFF, 0x00AF92000000FFFF, 0x00AFFA00000000FF, 0x00AFF200000000FF,
     tss_desc_low base limit, tss_desc_high base]"
  by (simp add: build_gdt_def Let_def GDT_ENTRIES_def seven_entries)

lemma kinit_gdt_eq:
  "kinit_gdt s = Some (s\<lparr>tss_value := zero_tss,
     gdt_entries := [0, 0x00AF9A000000FFFF, 0x00AF92000000FFFF, 0x00AFFA00000000FF, 0x00AFF200000000FF,
        tss_desc_low (sym_tss_value (syms s)) 102 OR push_bit 41 1, tss_desc_high (sym_tss_value (syms s))],
     gdt_register := (55, sym_gdt_entries (syms s)), cpu_gdtr := (55, sym_gdt_entries (syms s)),
     cpu_segs := \<lparr>seg_cs = 0x08, seg_ds = 0x10, seg_es = 0x10, seg_ss = 0x10, seg_fs = 0, seg_gs = 0\<rparr>,
     cpu_tr := 0x28\<rparr>)"
  by (cases "cpu_segs s") (simp add: kinit_gdt_def Let_def ltr_def build_gdt_eq tss_desc_low_type
      GDT_ENTRIES_def sizeof_tss64_def seven_entries)

text \<open>A present segment of the given kind (64-bit code, or data), privilege and limit.\<close>

definition segment_ok :: "bool \<Rightarrow> nat \<Rightarrow> u64 \<Rightarrow> u64 \<Rightarrow> bool" where
  "segment_ok code dpl lim d \<longleftrightarrow> desc_present d \<and> desc_dpl d = of_nat dpl \<and>
     (if code then desc_code d \<and> desc_long d else desc_data d) \<and> desc_limit d = lim"


section \<open>The interrupt gates\<close>

text \<open>What the processor needs of the gate of a vector.\<close>

definition gate_ok :: "idt_entry \<Rightarrow> u64 \<Rightarrow> u8 \<Rightarrow> bool" where
  "gate_ok g handler ist \<longleftrightarrow> gate_handler g = handler \<and> gate_selector g = GDT_SEL_KCODE \<and>
     gate_flags g = 0x8E \<and> gate_ist g = ist AND 7 \<and> gate_reserved g = 0"

lemma idt_set_gate_simps [simp]:
  "length (idt_entries (idt_set_gate n h sel fl ist s)) = length (idt_entries s)"
  "syms (idt_set_gate n h sel fl ist s) = syms s"
  "tss_value (idt_set_gate n h sel fl ist s) = tss_value s"
  "idt_register (idt_set_gate n h sel fl ist s) = idt_register s"
  by (simp_all add: idt_set_gate_def)

lemma idt_set_gate_nth:
  assumes "unat n < length (idt_entries s)"
  shows "gate_ok (idt_entries (idt_set_gate n h GDT_SEL_KCODE 0x8E ist s) ! unat n) h ist"
    and "j \<noteq> unat n \<Longrightarrow> idt_entries (idt_set_gate n h sel fl ist s) ! j = idt_entries s ! j"
  using assms by (simp_all add: idt_set_gate_def gate_ok_def gate_handler_eq)

lemma install_stubs_simps [simp]:
  "length (idt_entries (install_stubs k n ist s)) = length (idt_entries s)"
  "syms (install_stubs k n ist s) = syms s"
  "tss_value (install_stubs k n ist s) = tss_value s"
  "idt_register (install_stubs k n ist s) = idt_register s"
  by (induction n) (simp_all add: install_stubs_def)

lemma install_stubs_nth:
  assumes "length (idt_entries s) = 256" "k + n \<le> 256"
  shows "(\<forall>i<n. gate_ok (idt_entries (install_stubs k n ist s) ! (k + i)) (sym_isr_stub (syms s) (k + i)) (ist i)) \<and>
    (\<forall>j. \<not> (k \<le> j \<and> j < k + n) \<longrightarrow> idt_entries (install_stubs k n ist s) ! j = idt_entries s ! j)"
  using assms(2)
proof (induction n)
  case 0
  show ?case by (simp add: install_stubs_def)
next
  case (Suc n)
  let ?t = "install_stubs k n ist s"
  let ?u = "idt_set_gate (of_nat (k + n)) (sym_isr_stub (syms s) (k + n)) GDT_SEL_KCODE 0x8E (ist n) ?t"
  have u: "install_stubs k (Suc n) ist s = ?u"
    using install_stubs_simps(2) [of k n ist s] by (simp add: install_stubs_def)
  have "k + n < 256" using Suc.prems by simp
  then have kn: "unat (of_nat (k + n) :: u8) = k + n" by (simp add: unat_of_nat del: of_nat_add)
  have bound: "unat (of_nat (k + n) :: u8) < length (idt_entries ?t)"
    using \<open>k + n < 256\<close> assms(1) unfolding kn by simp
  note nth = idt_set_gate_nth(1) [OF bound, of "sym_isr_stub (syms s) (k + n)" "ist n"]
    and other = idt_set_gate_nth(2) [OF bound]
  have "gate_ok (idt_entries ?u ! (k + i)) (sym_isr_stub (syms s) (k + i)) (ist i)" if "i < Suc n" for i
  proof (cases "i = n")
    case True
    with nth show ?thesis unfolding kn by simp
  next
    case False
    then have "idt_entries ?u ! (k + i) = idt_entries ?t ! (k + i)" by (intro other) (simp add: kn del: of_nat_add)
    with False that Suc show ?thesis by simp
  qed
  moreover have "idt_entries ?u ! j = idt_entries s ! j" if "\<not> (k \<le> j \<and> j < k + Suc n)" for j
  proof -
    have "idt_entries ?u ! j = idt_entries ?t ! j"
      using that by (intro other) (auto simp: kn simp del: of_nat_add)
    with that Suc show ?thesis by auto
  qed
  ultimately show ?case unfolding u by blast
qed

lemma fold_clear_all: "length es = n \<Longrightarrow> fold (\<lambda>i es. es[i := z]) [0..<n] es = replicate n z"
proof -
  have "fold (\<lambda>i es. es[i := z]) [0..<k] es = replicate k z @ drop k es" if "k \<le> length es" for k es
    using that
  proof (induction k)
    case (Suc k)
    then show ?case by (simp add: list_update_append Cons_nth_drop_Suc [symmetric] replicate_append_same)
  qed simp
  then show "length es = n \<Longrightarrow> ?thesis" by simp
qed

lemma ist_alloc_frame:
  assumes "ist_alloc idx s = Some (v, t)"
  shows "idt_entries t = idt_entries s" "syms t = syms s" "tss_value t = tss_value s" "cpu_tr t = cpu_tr s"
proof -
  obtain a u where au: "pmm_alloc_frame s = (a, u)" by fastforce
  then obtain b n where u: "u = s\<lparr>bitmap := b, used_frames := n\<rparr>"
    using pmm_alloc_frame_eq [of s] by (metis bitmap_eqE snd_conv)
  have "\<exists>m l. t = u\<lparr>mem := m, ist_stacks := l\<rparr>"
  proof (cases "a = 0")
    case True
    then have "t = u\<lparr>mem := mem u, ist_stacks := ist_stacks u\<rparr>"
      using assms by (simp add: ist_alloc_def au)
    then show ?thesis by blast
  next
    case False
    then show ?thesis
      using assms by (auto simp: ist_alloc_def Let_def au bind_eq_Some_conv dest!: memset_mem_eq elim!: mem_eqE)
  qed
  then obtain m l where "t = u\<lparr>mem := m, ist_stacks := l\<rparr>" by blast
  then show "idt_entries t = idt_entries s" "syms t = syms s" "tss_value t = tss_value s" "cpu_tr t = cpu_tr s"
    by (simp_all add: u)
qed

lemma kinit_idt_steps:
  fixes s :: "'a cpu_state_scheme"
  assumes "kinit_idt s = Some t" "length (idt_entries s) = 256"
  obtains s1 s2 :: "'a cpu_state_scheme" where
    "length (idt_entries s1) = 256" "\<forall>i<256. idt_entries s1 ! i = zero_gate" "syms s1 = syms s"
    "idt_entries t = idt_entries (install_stubs 32 16 (\<lambda>i. 0) s2)"
    "idt_entries s2 = idt_entries (install_stubs 0 32 exception_ist s1)" "syms s2 = syms s"
proof -
  let ?s0 = "s\<lparr>idt_register := (of_nat (16 * IDT_ENTRIES - 1), sym_idt_entries (syms s)),
     idt_entries := fold (\<lambda>i es. es[i := zero_gate]) [0..<IDT_ENTRIES] (idt_entries s)\<rparr>"
  obtain df sa pf sb gp s1 where a: "ist_alloc IST_DF ?s0 = Some (df, sa)"
    "ist_alloc IST_PF sa = Some (pf, sb)" "ist_alloc IST_GP sb = Some (gp, s1)"
    using assms(1) by (auto simp: kinit_idt_def Let_def bind_eq_Some_conv)
  define s2 where "s2 = (install_stubs 0 32 exception_ist s1)\<lparr>tss_value :=
     (tss_value s1)\<lparr>tss_ist1 := df, tss_ist2 := pf, tss_ist3 := gp\<rparr>\<rparr>"
  have s1: "idt_entries s1 = replicate 256 zero_gate" "syms s1 = syms s"
    using ist_alloc_frame(1,2) [OF a(1)] ist_alloc_frame(1,2) [OF a(2)] ist_alloc_frame(1,2) [OF a(3)]
    by (simp_all add: IDT_ENTRIES_def fold_clear_all [OF assms(2)])
  have "t = kprint (cstr ''IDT: 256 entries loaded'' @ [10])
      ((install_stubs 32 16 (\<lambda>i. 0) s2)\<lparr>cpu_idtr := idt_register (install_stubs 32 16 (\<lambda>i. 0) s2)\<rparr>)"
    using assms(1) a by (simp add: kinit_idt_def Let_def s2_def del: append.simps)
  then obtain c x y where "t = (install_stubs 32 16 (\<lambda>i. 0) s2)\<lparr>cpu_idtr := idt_register (install_stubs 32 16 (\<lambda>i. 0) s2),
      vga_cells := c, vga_cursor_x := x, vga_cursor_y := y\<rparr>"
    using kprint_vga_eq by (metis vga_eqE)
  then show ?thesis using that [of s1 s2] s1 by (simp add: s2_def)
qed

lemma kinit_idt_gates_aux:
  fixes s :: "'a cpu_state_scheme"
  assumes "kinit_idt s = Some t" "length (idt_entries s) = 256"
  shows "(\<forall>i<48. gate_ok (idt_entries t ! i) (sym_isr_stub (syms s) i)
            (if i = 8 then 1 else if i = 14 then 2 else if i = 13 then 3 else 0)) \<and>
    (\<forall>i. 48 \<le> i \<and> i < 256 \<longrightarrow> idt_entries t ! i = zero_gate)"
proof -
  obtain s1 s2 :: "'a cpu_state_scheme" where
    s1: "length (idt_entries s1) = 256" "\<forall>i<256. idt_entries s1 ! i = zero_gate" "syms s1 = syms s"
    and t: "idt_entries t = idt_entries (install_stubs 32 16 (\<lambda>i. 0) s2)"
    and s2: "idt_entries s2 = idt_entries (install_stubs 0 32 exception_ist s1)" "syms s2 = syms s"
    by (rule kinit_idt_steps [OF assms])
  have len2: "length (idt_entries s2) = 256" using s1(1) by (simp add: s2(1))
  note low = install_stubs_nth [OF s1(1), of 0 32 exception_ist, simplified]
    and high = install_stubs_nth [OF len2, of 32 16 "\<lambda>i. 0", simplified]
  have "gate_ok (idt_entries t ! i) (sym_isr_stub (syms s) i)
            (if i = 8 then 1 else if i = 14 then 2 else if i = 13 then 3 else 0)" if "i < 48" for i
  proof (cases "i < 32")
    case True
    with high have "idt_entries t ! i = idt_entries s2 ! i" by (simp add: t)
    moreover have "(if i = 8 then 1 else if i = 14 then 2 else if i = 13 then 3 else 0) = exception_ist i"
      by (simp add: exception_ist_def IST_DF_def IST_PF_def IST_GP_def)
    ultimately show ?thesis using low True by (simp only: s2 s1(3))
  next
    case False
    then have "i = 32 + (i - 32)" "i - 32 < 16" using that by simp_all
    then obtain j where "i = 32 + j" "j < 16" by blast
    with high show ?thesis by (simp add: t s2(2))
  qed
  moreover have "idt_entries t ! i = zero_gate" if "48 \<le> i" "i < 256" for i
    using that high low s1(2) by (simp add: t s2(1))
  ultimately show ?thesis by blast
qed

text \<open>
  C37. Once \<open>kinit_idt\<close> returns, the 48 wired vectors lead to the assembly stubs of the same number
  through present ring-0 interrupt gates of the kernel code segment: the three 16-, 16- and
  32-bit pieces of each gate reassemble to the stub's address, double faults, page faults and
  general protection faults name their own interrupt stacks 1, 2 and 3, every other vector uses
  the current stack, and the vectors from 48 on are not present.
\<close>

theorem kinit_idt_gates:
  assumes "kinit_idt s = Some t" "length (idt_entries s) = 256"
  shows "(\<forall>i<48. gate_ok (idt_entries t ! i) (sym_isr_stub (syms s) i)
            (if i = 8 then 1 else if i = 14 then 2 else if i = 13 then 3 else 0)) \<and>
    (\<forall>i. 48 \<le> i \<and> i < 256 \<longrightarrow> idt_entries t ! i = zero_gate)"
  by (rule kinit_idt_gates_aux [OF assms])

text \<open>Without frames, \<open>kinit_idt\<close> changes the descriptor tables and the screen only.\<close>

lemma ist_alloc_empty:
  assumes "total_frames s = 0"
  shows "ist_alloc idx s = Some (0, s)"
proof -
  have "frames_free s = {}" using assms by (simp add: frames_free_def)
  then show ?thesis by (simp add: ist_alloc_def pmm_alloc_frame_none)
qed

lemma install_stubs_eq: "\<exists>es. install_stubs k n f s = s\<lparr>idt_entries := es\<rparr>"
proof -
  define g :: "nat \<Rightarrow> 'a cpu_state_scheme \<Rightarrow> 'a cpu_state_scheme" where
    "g i s = idt_set_gate (of_nat (k + i)) (sym_isr_stub (syms s) (k + i)) GDT_SEL_KCODE 0x8E (f i) s" for i s
  have "\<exists>es. fold g is s = s\<lparr>idt_entries := es\<rparr>" for "is"
  proof (induction "is" arbitrary: s)
    case (Cons i "is")
    obtain e where e: "g i s = s\<lparr>idt_entries := e\<rparr>" unfolding g_def idt_set_gate_def by blast
    show ?case using Cons.IH [of "s\<lparr>idt_entries := e\<rparr>"] by (simp add: e)
  next
    case Nil
    show ?case by (rule exI [of _ "idt_entries s"]) simp
  qed
  then show ?thesis unfolding install_stubs_def g_def .
qed

lemma kinit_idt_empty:
  assumes "total_frames s = 0"
  obtains r es c x y where "kinit_idt s = Some (s\<lparr>idt_register := r, idt_entries := es,
    tss_value := (tss_value s)\<lparr>tss_ist1 := 0, tss_ist2 := 0, tss_ist3 := 0\<rparr>, cpu_idtr := r, vga_cells := c, vga_cursor_x := x, vga_cursor_y := y\<rparr>)"
proof -
  let ?r = "(of_nat (16 * IDT_ENTRIES - 1), sym_idt_entries (syms s))"
  let ?s0 = "s\<lparr>idt_register := ?r, idt_entries := fold (\<lambda>i es. es[i := zero_gate]) [0..<IDT_ENTRIES] (idt_entries s)\<rparr>"
  obtain e1 where e1: "install_stubs 0 32 exception_ist ?s0 = ?s0\<lparr>idt_entries := e1\<rparr>" using install_stubs_eq by blast
  let ?s1 = "?s0\<lparr>idt_entries := e1, tss_value := (tss_value s)\<lparr>tss_ist1 := 0, tss_ist2 := 0, tss_ist3 := 0\<rparr>\<rparr>"
  obtain e2 where e2: "install_stubs 32 16 (\<lambda>i. 0) ?s1 = ?s1\<lparr>idt_entries := e2\<rparr>" using install_stubs_eq by blast
  let ?s2 = "?s1\<lparr>idt_entries := e2, cpu_idtr := ?r\<rparr>"
  obtain c x y where v: "kprint (cstr ''IDT: 256 entries loaded'' @ [10]) ?s2 = ?s2\<lparr>vga_cells := c, vga_cursor_x := x, vga_cursor_y := y\<rparr>"
    using kprint_vga_eq by (rule vga_eqE)
  have "kinit_idt s = Some (kprint (cstr ''IDT: 256 entries loaded'' @ [10]) ?s2)"
    using e1 e2 by (simp add: kinit_idt_def Let_def ist_alloc_empty assms del: append.simps)
  then have "kinit_idt s = Some (s\<lparr>idt_register := ?r, idt_entries := e2,
    tss_value := (tss_value s)\<lparr>tss_ist1 := 0, tss_ist2 := 0, tss_ist3 := 0\<rparr>, cpu_idtr := ?r, vga_cells := c, vga_cursor_x := x, vga_cursor_y := y\<rparr>)"
    unfolding v by simp
  then show thesis by (rule that)
qed

text \<open>
  While the frame allocator is still empty, which is its state when \<open>kernel_main\<close> calls
  \<open>kinit_idt\<close> before \<open>pmm_init\<close>, no interrupt stack is allocated: \<open>kinit_idt\<close> returns with the
  three stack pointers of the TSS at 0, although the gates of the double, page and protection
  faults select them.
\<close>

theorem kinit_idt_without_frames:
  fixes s :: "'a cpu_state_scheme"
  assumes "total_frames s = 0" "length (idt_entries s) = 256"
  shows "\<exists>t. kinit_idt s = Some t \<and> tss_ist1 (tss_value t) = 0 \<and> tss_ist2 (tss_value t) = 0 \<and>
    tss_ist3 (tss_value t) = 0 \<and> gate_ist (idt_entries t ! 8) = 1 \<and> gate_ist (idt_entries t ! 14) = 2 \<and>
    gate_ist (idt_entries t ! 13) = 3 \<and> ist_stacks t = ist_stacks s"
proof -
  obtain r es c x y where t: "kinit_idt s = Some (s\<lparr>idt_register := r, idt_entries := es,
    tss_value := (tss_value s)\<lparr>tss_ist1 := 0, tss_ist2 := 0, tss_ist3 := 0\<rparr>, cpu_idtr := r, vga_cells := c, vga_cursor_x := x, vga_cursor_y := y\<rparr>)"
    (is "_ = Some ?t") by (rule kinit_idt_empty [OF assms(1)])
  have ist: "gate_ist (idt_entries ?t ! i) = (if i = 8 then 1 else if i = 14 then 2 else if i = 13 then 3 else 0) AND 7"
    if "i < 48" for i
    using kinit_idt_gates_aux [OF t assms(2)] that by (simp add: gate_ok_def)
  show ?thesis by (rule exI [of _ ?t]) (use t ist [of 8] ist [of 14] ist [of 13] in simp)
qed

text \<open>The state in which the boot code hands over, with cleared static tables.\<close>

definition cpu_boot :: cpu_state where
  "cpu_boot = pmm_state.extend pmm_boot (cpu_state.fields (replicate 7 0) zero_tss (0, 0)
     (replicate 3 0) (replicate 256 zero_gate) (0, 0) (0, 0) (0, 0)
     \<lparr>seg_cs = 8, seg_ds = 0, seg_es = 0, seg_ss = 0, seg_fs = 0, seg_gs = 0\<rparr> 0
     \<lparr>reg_rip = 0, reg_rsp = 0, reg_rflags = 0, reg_rbp = 0, reg_rbx = 0, reg_r12 = 0, reg_r13 = 0,
      reg_r14 = 0, reg_r15 = 0\<rparr>)"

lemmas boot_defs = cpu_boot_def pmm_boot_def vga_boot_def vga_state.defs pmm_state.defs cpu_state.defs

lemma cpu_boot_fields:
  "length (idt_entries cpu_boot) = 256" "total_frames cpu_boot = 0"
  by (simp_all add: boot_defs)

theorem kinit_idt_without_frames_witness:
  "total_frames cpu_boot = 0 \<and>
   (\<exists>t. kinit_idt cpu_boot = Some t \<and> tss_ist1 (tss_value t) = 0 \<and> gate_ist (idt_entries t ! 8) = 1)"
  using kinit_idt_without_frames [OF cpu_boot_fields(2,1)] cpu_boot_fields(2) by blast

lemma kinit_idt_boot_returns: "\<exists>t. kinit_idt cpu_boot = Some t"
  using kinit_idt_empty [OF cpu_boot_fields(2)] by blast

theorem kinit_idt_gates_witness:
  "\<exists>t. kinit_idt cpu_boot = Some t \<and> gate_handler (idt_entries t ! 33) = sym_isr_stub (syms cpu_boot) 33 \<and>
     idt_entries t ! 48 = zero_gate"
proof -
  obtain t where t: "kinit_idt cpu_boot = Some t" using kinit_idt_boot_returns by blast
  then show ?thesis
    using kinit_idt_gates [OF t cpu_boot_fields(1)] by (auto simp: gate_ok_def)
qed

end
