(* ===== verification/Prism_Log.thy ===== *)
theory Prism_Log
  imports Prism_Cpu
begin

text \<open>
  Logging and panics: \<^verbatim>\<open>kernel/log.c\<close>. Log lines go to the serial port; a panic disables
  interrupts, reports on the serial port and on the screen, and halts. A function that never
  returns yields the state in which it halts.
\<close>

datatype log_level = LOG_DEBUG | LOG_INFO | LOG_WARN | LOG_ERROR | LOG_PANIC

fun level_number :: "log_level \<Rightarrow> nat" where
  "level_number LOG_DEBUG = 0"
| "level_number LOG_INFO = 1"
| "level_number LOG_WARN = 2"
| "level_number LOG_ERROR = 3"
| "level_number LOG_PANIC = 4"

definition level_names :: "cstring list" where
  "level_names = [cstr ''DEBUG'', cstr ''INFO'', cstr ''WARN'', cstr ''ERROR'', cstr ''PANIC'']"

text \<open>The threshold is a variable that no code assigns.\<close>

definition min_level :: log_level where "min_level = LOG_DEBUG"

definition klog :: "log_level \<Rightarrow> cstring \<Rightarrow> 'a machine_scheme \<Rightarrow> 'a machine_scheme option" where
  "klog level msg s =
     (if level_number level < level_number min_level then Some s
      else do { s \<leftarrow> serial_puts (cstr ''['') s;
                s \<leftarrow> serial_puts (level_names ! level_number level) s;
                s \<leftarrow> serial_puts (cstr ''] '') s;
                serial_puts msg s })"

definition klog_hex :: "log_level \<Rightarrow> cstring \<Rightarrow> u64 \<Rightarrow> 'a machine_scheme \<Rightarrow> 'a machine_scheme option" where
  "klog_hex level msg val s =
     (if level_number level < level_number min_level then Some s
      else do { s \<leftarrow> serial_puts (cstr ''['') s;
                s \<leftarrow> serial_puts (level_names ! level_number level) s;
                s \<leftarrow> serial_puts (cstr ''] '') s;
                s \<leftarrow> serial_puts msg s;
                s \<leftarrow> serial_puthex64 val s;
                serial_puts [10] s })"

definition kinit_log :: "'a machine_scheme \<Rightarrow> 'a machine_scheme option" where
  "kinit_log s = klog LOG_INFO (cstr ''Log system initialized'' @ [10]) s"

definition cli :: "'a cpu_state_scheme \<Rightarrow> 'a cpu_state_scheme" where
  "cli s = s\<lparr>regs := (regs s)\<lparr>reg_rflags := reg_rflags (regs s) AND NOT 0x200\<rparr>\<rparr>"

definition panic_rule :: cstring where
  "panic_rule = replicate 38 33 @ [10]"

definition kpanic :: "cstring \<Rightarrow> 'a cpu_state_scheme \<Rightarrow> 'a cpu_state_scheme option" where
  "kpanic msg s =
     do { let s = cli s;
          s \<leftarrow> serial_puts [10, 10] s;
          s \<leftarrow> serial_puts panic_rule s;
          s \<leftarrow> serial_puts (cstr ''!!!           KERNEL PANIC          !!!'' @ [10]) s;
          s \<leftarrow> serial_puts panic_rule s;
          s \<leftarrow> serial_puts (cstr ''  '') s;
          s \<leftarrow> serial_puts msg s;
          s \<leftarrow> serial_puts [10] s;
          s \<leftarrow> serial_puts panic_rule s;
          let s = kprint [10, 10] s;
          let s = kprint panic_rule s;
          let s = kprint (cstr ''!!!        KERNEL PANIC             !!!'' @ [10]) s;
          let s = kprint panic_rule s;
          let s = kprint (cstr ''  '') s;
          let s = kprint msg s;
          let s = kprint [10] s;
          Some (kprint panic_rule s) }"

definition kpanic_hex :: "cstring \<Rightarrow> u64 \<Rightarrow> 'a cpu_state_scheme \<Rightarrow> 'a cpu_state_scheme option" where
  "kpanic_hex msg val s =
     do { let s = cli s;
          s \<leftarrow> serial_puts [10, 10] s;
          s \<leftarrow> serial_puts panic_rule s;
          s \<leftarrow> serial_puts (cstr ''!!!           KERNEL PANIC          !!!'' @ [10]) s;
          s \<leftarrow> serial_puts panic_rule s;
          s \<leftarrow> serial_puts (cstr ''  '') s;
          s \<leftarrow> serial_puts msg s;
          s \<leftarrow> serial_puts (cstr '' 0x'') s;
          s \<leftarrow> serial_puts (hex_digits_upper val) s;
          s \<leftarrow> serial_puts [10] s;
          s \<leftarrow> serial_puts panic_rule s;
          let s = kprint [10, 10] s;
          let s = kprint panic_rule s;
          let s = kprint (cstr ''!!!        KERNEL PANIC             !!!'' @ [10]) s;
          let s = kprint panic_rule s;
          let s = kprint (cstr ''  '') s;
          let s = kprint msg s;
          let s = kprint (cstr '' 0x'') s;
          let s = kprint_hex val s;
          let s = kprint [10] s;
          Some (kprint panic_rule s) }"

section \<open>Sequences of output calls\<close>

lemma serial_puts_append: "serial_puts (xs @ ys) s = do { t \<leftarrow> serial_puts xs s; serial_puts ys t }"
  by (induction xs arbitrary: s) (simp_all split: bind_splits)

lemma kprint_append: "kprint (xs @ ys) s = kprint ys (kprint xs s)"
  by (induction xs arbitrary: s) simp_all

lemma crlf_append: "crlf (xs @ ys) = crlf xs @ crlf ys"
  by (induction xs) auto

lemma kprint_hex_digits: "kprint_hex val s = kprint (cstr ''0x'' @ hex_digits_upper val) s"
proof -
  have "kprint_hex_loop n val s = kprint (map (\<lambda>i. hex_upper ! unat (drop_bit (4 * i) val AND 0xF)) (rev [0..<n])) s"
    for n and s :: "'a vga_state_scheme"
    by (induction n arbitrary: s) (simp_all add: mult.commute)
  then show ?thesis by (simp add: kprint_hex_def kprint_append hex_digits_upper_def)
qed

text \<open>What a log line looks like on the wire.\<close>

definition log_prefix :: "log_level \<Rightarrow> cstring" where
  "log_prefix level = cstr ''['' @ level_names ! level_number level @ cstr ''] ''"

lemma klog_puts: "klog level msg s = serial_puts (log_prefix level @ msg) s"
  by (simp add: klog_def log_prefix_def serial_puts_append min_level_def)

lemma klog_hex_puts:
  "klog_hex level msg val s =
     do { s1 \<leftarrow> serial_puts (log_prefix level @ msg) s; s2 \<leftarrow> serial_puthex64 val s1; serial_puts [10] s2 }"
  by (simp add: klog_hex_def log_prefix_def serial_puts_append min_level_def del: serial_puts.simps)

lemma log_prefix_no_newline: "crlf (log_prefix level) = log_prefix level"
  by (cases level) (simp_all add: log_prefix_def level_names_def cstr_def of_char_def)

lemma klog_io_eq: "klog level msg s = Some t \<Longrightarrow> io_eq s t"
  unfolding klog_puts by (rule serial_puts_io_eq)

lemma klog_hex_io_eq: "klog_hex level msg val s = Some t \<Longrightarrow> io_eq s t"
  unfolding klog_hex_puts
  by (auto simp: bind_eq_Some_conv simp del: serial_puts.simps
      dest!: serial_puts_io_eq serial_puthex64_io_eq intro: io_eq_trans)

lemma klog_spec:
  assumes "uart_live s"
  shows "\<exists>t. klog level msg s = Some t \<and> uart_live t \<and> io_eq s t \<and>
    serial_sent t = serial_sent s @ log_prefix level @ crlf msg"
  using serial_puts_spec [OF assms, of "log_prefix level @ msg"]
  unfolding klog_puts crlf_append log_prefix_no_newline by blast

lemma klog_hex_spec:
  assumes "uart_live s"
  shows "\<exists>t. klog_hex level msg val s = Some t \<and> uart_live t \<and> io_eq s t \<and>
    serial_sent t = serial_sent s @ log_prefix level @ crlf msg @ cstr ''0x'' @ hex16 16 val @ [13, 10]"
proof -
  obtain s1 where s1: "serial_puts (log_prefix level @ msg) s = Some s1" "uart_live s1" "io_eq s s1"
    "serial_sent s1 = serial_sent s @ log_prefix level @ crlf msg"
    using serial_puts_spec [OF assms] by (metis crlf_append log_prefix_no_newline)
  obtain s2 where s2: "serial_puthex64 val s1 = Some s2" "uart_live s2" "io_eq s1 s2"
    "serial_sent s2 = serial_sent s1 @ cstr ''0x'' @ hex16 16 val"
    using serial_puthex64_spec [OF s1(2)] by blast
  obtain s3 where s3: "serial_puts [10] s2 = Some s3" "uart_live s3" "io_eq s2 s3"
    "serial_sent s3 = serial_sent s2 @ crlf [10]"
    using serial_puts_spec [OF s2(2)] by blast
  have "io_eq s s3" using s1(3) s2(3) s3(3) io_eq_trans by blast
  moreover have "klog_hex level msg val s = Some s3"
    unfolding klog_hex_puts using s1(1) s2(1) s3(1) by (simp del: serial_puts.simps)
  ultimately show ?thesis using s1 s2 s3 by simp
qed

section \<open>Properties of logging and panics\<close>

text \<open>
  On a live serial line every log call returns, changes nothing but the port traffic, and puts
  exactly the line "[LEVEL] message" on the wire, each newline as carriage return and newline;
  \<open>klog_hex\<close> appends the value as "0x", sixteen lower-case digits and a newline. The value
  follows the message at once: the blank that the header documents between them is not written.
\<close>

theorem klog_lines:
  assumes "uart_live s"
  shows "(\<exists>t. klog level msg s = Some t \<and> io_eq s t \<and>
      serial_sent t = serial_sent s @ log_prefix level @ crlf msg) \<and>
    (\<exists>t. klog_hex level msg val s = Some t \<and> io_eq s t \<and>
      serial_sent t = serial_sent s @ log_prefix level @ crlf msg @ cstr ''0x'' @ hex16 16 val @ [13, 10])"
  using klog_spec [OF assms] klog_hex_spec [OF assms] by blast

theorem klog_lines_witness:
  "\<exists>t. klog_hex LOG_INFO (cstr ''x='') 0xA5 vga_boot = Some t \<and>
     serial_sent t = cstr ''[INFO] x=0x00000000000000a5'' @ [13, 10]"
proof -
  have "uart_live vga_boot" by (auto simp: uart_live_def vga_boot_def)
  moreover have "serial_sent vga_boot = []" by (simp add: serial_sent_def vga_boot_def)
  moreover have "log_prefix LOG_INFO @ crlf (cstr ''x='') @ cstr ''0x'' @ hex16 16 0xA5 @ [13, 10] =
      cstr ''[INFO] x=0x00000000000000a5'' @ [13, 10]"
    by (simp add: log_prefix_def level_names_def cstr_def hex16_def hex_lower_def of_char_def upt_rec)
  ultimately show ?thesis
    using klog_lines [of vga_boot LOG_INFO "cstr ''x=''" "0xA5"] by auto
qed

text \<open>The panic reports, as one string each.\<close>

definition panic_serial :: "cstring \<Rightarrow> cstring" where
  "panic_serial body = [10, 10] @ panic_rule @ (cstr ''!!!           KERNEL PANIC          !!!'' @ [10]) @
     panic_rule @ cstr ''  '' @ body @ [10] @ panic_rule"

definition panic_screen :: "cstring \<Rightarrow> cstring" where
  "panic_screen body = [10, 10] @ panic_rule @ (cstr ''!!!        KERNEL PANIC             !!!'' @ [10]) @
     panic_rule @ cstr ''  '' @ body @ [10] @ panic_rule"

lemma kpanic_eq:
  "kpanic msg s = map_option (kprint (panic_screen msg)) (serial_puts (panic_serial msg) (cli s))"
  unfolding kpanic_def panic_serial_def panic_screen_def serial_puts_append kprint_append Let_def
  by (simp add: map_conv_bind_option comp_def kprint_append del: serial_puts.simps kprint.simps)

lemma kpanic_hex_eq:
  "kpanic_hex msg val s =
     map_option (kprint (panic_screen (msg @ cstr '' 0x0x'' @ hex_digits_upper val)))
       (serial_puts (panic_serial (msg @ cstr '' 0x'' @ hex_digits_upper val)) (cli s))"
proof -
  have c: "cstr '' 0x0x'' = cstr '' 0x'' @ cstr ''0x''" by (simp add: cstr_def)
  show ?thesis
    unfolding kpanic_hex_def panic_serial_def panic_screen_def c serial_puts_append kprint_append Let_def
      kprint_hex_digits
    by (simp add: map_conv_bind_option comp_def kprint_append serial_puts_append
        del: serial_puts.simps kprint.simps)
qed



end
