(* ===== verification/Prism_Keyboard.thy ===== *)
theory Prism_Keyboard
  imports Prism_Log Prism_Interfaces
begin

text \<open>
  The interrupt dispatch table of \<^verbatim>\<open>isr/isr.c\<close> (registration only; the dispatcher itself is in
  the theory of interrupts) and the keyboard driver \<^verbatim>\<open>drivers/keyboard.c\<close>: modifier state,
  scan-code translation, and the 256-byte ring buffer between the interrupt handler and the
  reader.
\<close>

section \<open>The handler table\<close>

text \<open>The functions the kernel registers for hardware interrupts.\<close>

datatype irq_handler_fn = Timer_irq_handler | Keyboard_irq_handler

record irq_state = cpu_state +
  irq_handlers :: "irq_handler_fn option list"

definition isr_register_irq :: "u8 \<Rightarrow> irq_handler_fn \<Rightarrow> 'a irq_state_scheme \<Rightarrow> 'a irq_state_scheme" where
  "isr_register_irq irq handler s =
     (if irq < 16 then s\<lparr>irq_handlers := (irq_handlers s)[unat irq := Some handler]\<rparr> else s)"

definition isr_unregister_irq :: "u8 \<Rightarrow> 'a irq_state_scheme \<Rightarrow> 'a irq_state_scheme" where
  "isr_unregister_irq irq s =
     (if irq < 16 then s\<lparr>irq_handlers := (irq_handlers s)[unat irq := None]\<rparr> else s)"

section \<open>The keyboard driver\<close>

record kbd_state = irq_state +
  kbd_buffer :: "u8 list"
  kbd_head :: u8
  kbd_tail :: u8
  kbd_lshift :: bool
  kbd_rshift :: bool
  kbd_ctrl :: bool
  kbd_alt :: bool

definition KBD_DATA_PORT :: u16 where "KBD_DATA_PORT = 0x60"
definition KBD_BUFFER_SIZE :: nat where "KBD_BUFFER_SIZE = 256"

definition scancode_ascii :: "u8 list" where
  "scancode_ascii =
     [0, 0] @ cstr ''123456'' @ cstr ''7890-='' @ [0, 0] @ cstr ''qwertyui'' @ cstr ''op[]'' @ [0, 0] @
     cstr ''as'' @ cstr ''dfghjkl;'' @ [39, 96, 0, 92] @ cstr ''zxcv'' @ cstr ''bnm,./'' @ [0, 42] @
     [0, 32, 0, 0, 0, 0, 0, 0] @ replicate 64 0"

definition scancode_shift :: "u8 list" where
  "scancode_shift =
     [0, 0] @ cstr ''!@#$%^'' @ cstr ''&*()_+'' @ [0, 0] @ cstr ''QWERTYUI'' @ cstr ''OP{}'' @ [0, 0] @
     cstr ''AS'' @ cstr ''DFGHJKL:'' @ [34, 126, 0, 124] @ cstr ''ZXCV'' @ cstr ''BNM<>?'' @ [0, 42] @
     [0, 32, 0, 0, 0, 0, 0, 0] @ replicate 64 0"

definition kbd_buffer_push :: "u8 \<Rightarrow> 'a kbd_state_scheme \<Rightarrow> 'a kbd_state_scheme" where
  "kbd_buffer_push c s =
     (let next_pos = of_nat ((unat (kbd_head s) + 1) mod KBD_BUFFER_SIZE) in
      if next_pos \<noteq> kbd_tail s
      then s\<lparr>kbd_buffer := (kbd_buffer s)[unat (kbd_head s) := c], kbd_head := next_pos\<rparr>
      else s)"

text \<open>The character of a make code, with the special keys that the tables leave at 0.\<close>

definition scancode_char :: "bool \<Rightarrow> u8 \<Rightarrow> u8" where
  "scancode_char shift scancode =
     (let c = (if shift then scancode_shift ! unat scancode else scancode_ascii ! unat scancode);
          c = (if scancode = 0x0E then 8 else c);
          c = (if scancode = 0x1C then 10 else c)
      in if scancode = 0x0F then 9 else c)"

definition keyboard_irq_handler :: "'a kbd_state_scheme \<Rightarrow> 'a kbd_state_scheme" where
  "keyboard_irq_handler s =
     (let (scancode, s) = inb KBD_DATA_PORT s in
      if scancode AND 0x80 \<noteq> 0 then
        let break_code = scancode AND 0x7F in
        if break_code = 0x2A then s\<lparr>kbd_lshift := False\<rparr>
        else if break_code = 0x36 then s\<lparr>kbd_rshift := False\<rparr>
        else if break_code = 0x1D then s\<lparr>kbd_ctrl := False\<rparr>
        else if break_code = 0x38 then s\<lparr>kbd_alt := False\<rparr>
        else s
      else if scancode = 0x2A then s\<lparr>kbd_lshift := True\<rparr>
      else if scancode = 0x36 then s\<lparr>kbd_rshift := True\<rparr>
      else if scancode = 0x1D then s\<lparr>kbd_ctrl := True\<rparr>
      else if scancode = 0x38 then s\<lparr>kbd_alt := True\<rparr>
      else
        let shift = kbd_lshift s \<or> kbd_rshift s; c = scancode_char shift scancode in
        if c \<noteq> 0 then kbd_buffer_push c s else s)"

definition kinit_keyboard :: "'a irq_state_scheme \<Rightarrow> 'a irq_state_scheme" where
  "kinit_keyboard s =
     kprint (cstr ''Keyboard: PS/2 driver installed (IRQ1)'' @ [10]) (isr_register_irq 1 Keyboard_irq_handler s)"

definition keyboard_getchar :: "'a kbd_state_scheme \<Rightarrow> u8 \<times> 'a kbd_state_scheme" where
  "keyboard_getchar s =
     (if kbd_head s = kbd_tail s then (0, s)
      else (kbd_buffer s ! unat (kbd_tail s),
            s\<lparr>kbd_tail := of_nat ((unat (kbd_tail s) + 1) mod KBD_BUFFER_SIZE)\<rparr>))"

definition keyboard_has_key :: "'a kbd_state_scheme \<Rightarrow> bool" where
  "keyboard_has_key s \<longleftrightarrow> kbd_head s \<noteq> kbd_tail s"

definition keyboard_lshift :: "'a kbd_state_scheme \<Rightarrow> bool" where "keyboard_lshift s = kbd_lshift s"
definition keyboard_rshift :: "'a kbd_state_scheme \<Rightarrow> bool" where "keyboard_rshift s = kbd_rshift s"
definition keyboard_ctrl :: "'a kbd_state_scheme \<Rightarrow> bool" where "keyboard_ctrl s = kbd_ctrl s"

section \<open>The ring buffer as a bounded queue\<close>

definition kbd_inv :: "'a kbd_state_scheme \<Rightarrow> bool" where
  "kbd_inv s \<longleftrightarrow> length (kbd_buffer s) = 256"

text \<open>The buffered characters, oldest first: the cells from the tail up to the head.\<close>

definition kbd_elems :: "'a kbd_state_scheme \<Rightarrow> u8 list" where
  "kbd_elems s = map (\<lambda>i. kbd_buffer s ! unat (kbd_tail s + of_nat i)) [0..<unat (kbd_head s - kbd_tail s)]"

definition kbd_take :: "'a kbd_state_scheme \<Rightarrow> u8 option \<times> 'a kbd_state_scheme" where
  "kbd_take s = (if keyboard_has_key s then map_prod Some id (keyboard_getchar s) else (None, s))"

lemma of_nat_mod_256: "(of_nat (n mod 256) :: u8) = of_nat n"
  by (rule word_unat_eq_iff [THEN iffD2]) (simp add: unat_of_nat)

lemma wrap_next: "(of_nat (Suc (unat (x :: u8)) mod KBD_BUFFER_SIZE) :: u8) = x + 1"
  by (simp add: KBD_BUFFER_SIZE_def of_nat_mod_256)

lemma unat_plus_1_u8:
  assumes "(x :: u8) + 1 \<noteq> 0"
  shows "unat (x + 1) = Suc (unat x)"
proof -
  have "unat x < 256" using unsigned_less [of x, where 'a = nat] by simp
  moreover have "Suc (unat x) mod 256 \<noteq> 0"
    using assms by (simp add: word_unat_eq_iff unat_word_ariths)
  ultimately have "Suc (unat x) < 256" by (cases "unat x = 255") simp_all
  then show ?thesis by (simp add: unat_word_ariths)
qed

lemma ring_distinct:
  assumes "i < unat ((h :: u8) - t)"
  shows "t + of_nat i \<noteq> h"
proof
  assume "t + of_nat i = h"
  then have "h - t = of_nat i" by (metis add_diff_cancel_left')
  moreover have "i < 256" using assms unsigned_less [of "h - t", where 'a = nat] by simp
  ultimately show False using assms by (simp add: unat_of_nat)
qed

lemma kbd_push_elems:
  assumes "kbd_inv s"
  shows "kbd_elems (kbd_buffer_push c s) =
    (if length (kbd_elems s) < 255 then kbd_elems s @ [c] else kbd_elems s)"
proof (cases "kbd_head s + 1 = kbd_tail s")
  case True
  then have "kbd_head s - kbd_tail s = - 1" by (metis add_diff_cancel_left' diff_add_cancel minus_diff_eq)
  with True show ?thesis by (simp add: kbd_buffer_push_def Let_def wrap_next kbd_elems_def unsigned_minus_1_eq_mask mask_eq_exp_minus_1)
next
  case False
  let ?d = "kbd_head s - kbd_tail s"
  have "?d + 1 \<noteq> 0" using False by (simp add: algebra_simps eq_neg_iff_add_eq_0 flip: eq_iff_diff_eq_0)
  then have len: "unat (kbd_head s + 1 - kbd_tail s) = Suc (unat ?d)"
    using unat_plus_1_u8 [of ?d] by (simp add: algebra_simps)
  have "unat (kbd_head s + 1 - kbd_tail s) < 256"
    using unsigned_less [of "kbd_head s + 1 - kbd_tail s", where 'a = nat] by simp
  then have "unat ?d < 255" using len by linarith
  moreover have "(kbd_buffer s)[unat (kbd_head s) := c] ! unat (kbd_tail s + of_nat i) =
      kbd_buffer s ! unat (kbd_tail s + of_nat i)" if "i < unat ?d" for i
    using ring_distinct [OF that] by (metis nth_list_update_neq word_unat_eq_iff)
  moreover have "unat (kbd_head s) < 256" using unsigned_less [of "kbd_head s", where 'a = nat] by simp
  ultimately show ?thesis
    using False assms len by (auto simp: kbd_buffer_push_def Let_def wrap_next kbd_elems_def kbd_inv_def)
qed

lemma kbd_take_elems:
  assumes "kbd_elems s = x # xs"
  shows "fst (kbd_take s) = Some x \<and> kbd_elems (snd (kbd_take s)) = xs"
proof -
  let ?d = "kbd_head s - kbd_tail s"
  have pos: "0 < unat ?d" using assms by (auto simp: kbd_elems_def intro: ccontr)
  then have ne: "kbd_head s \<noteq> kbd_tail s" by auto
  have len: "unat ?d = Suc (unat (?d - 1))" using unat_plus_1_u8 [of "?d - 1"] ne by simp
  have "kbd_elems s = kbd_buffer s ! unat (kbd_tail s) #
      map (\<lambda>i. kbd_buffer s ! unat (kbd_tail s + 1 + of_nat i)) [0..<unat (?d - 1)]"
    unfolding kbd_elems_def len upt_conv_Cons [OF zero_less_Suc] map_Suc_upt [symmetric]
    by (simp add: algebra_simps)
  with assms ne show ?thesis
    by (simp add: kbd_take_def keyboard_has_key_def keyboard_getchar_def wrap_next kbd_elems_def algebra_simps)
qed

interpretation kbd: bounded_fifo kbd_inv kbd_elems kbd_buffer_push kbd_take 255
proof
  fix s :: "'a kbd_state_scheme" and c x xs
  assume inv: "kbd_inv s"
  show "kbd_inv (kbd_buffer_push c s)" using inv by (simp add: kbd_inv_def kbd_buffer_push_def Let_def)
  show "kbd_elems (kbd_buffer_push c s) =
      (if length (kbd_elems s) < 255 then kbd_elems s @ [c] else kbd_elems s)"
    by (rule kbd_push_elems [OF inv])
  show "kbd_inv (snd (kbd_take s))" using inv
    by (simp add: kbd_inv_def kbd_take_def keyboard_getchar_def)
  show "fst (kbd_take s) = None \<and> kbd_elems (snd (kbd_take s)) = []" if "kbd_elems s = []"
  proof -
    have "unat (kbd_head s - kbd_tail s) = 0" using that by (simp add: kbd_elems_def)
    then have "kbd_head s = kbd_tail s" by (simp add: unat_eq_zero)
    with that show ?thesis by (simp add: kbd_take_def keyboard_has_key_def)
  qed
  show "fst (kbd_take s) = Some x \<and> kbd_elems (snd (kbd_take s)) = xs" if "kbd_elems s = x # xs"
    by (rule kbd_take_elems [OF that])
  show "length (kbd_elems s) \<le> 255"
    using unsigned_less [of "kbd_head s - kbd_tail s", where 'a = nat] by (simp add: kbd_elems_def)
qed

section \<open>What the driver delivers\<close>

text \<open>
  The text that a sequence of scan codes stands for, given which shift keys are held at its
  start: shift presses and releases switch the table, control and alt and every release are
  silent, and a make code without a character is ignored.
\<close>

fun keys_typed :: "bool \<Rightarrow> bool \<Rightarrow> u8 list \<Rightarrow> u8 list" where
  "keys_typed l r [] = []"
| "keys_typed l r (c # cs) =
     (if c = 0x2A then keys_typed True r cs
      else if c = 0x36 then keys_typed l True cs
      else if c = 0xAA then keys_typed False r cs
      else if c = 0xB6 then keys_typed l False cs
      else if c \<ge> 0x80 \<or> c = 0x1D \<or> c = 0x38 \<or> scancode_char (l \<or> r) c = 0 then keys_typed l r cs
      else scancode_char (l \<or> r) c # keys_typed l r cs)"

text \<open>The scan codes the controller presents at the next \<open>n\<close> interrupts.\<close>

definition scancodes :: "nat \<Rightarrow> 'a machine_scheme \<Rightarrow> u8 list" where
  "scancodes n s = map (\<lambda>i. io_in s (io_reads s + i) KBD_DATA_PORT) [0..<n]"

lemma scancodes_Suc:
  "scancodes (Suc n) s = io_in s (io_reads s) KBD_DATA_PORT # scancodes n (s\<lparr>io_reads := Suc (io_reads s)\<rparr>)"
  unfolding scancodes_def upt_conv_Cons [OF zero_less_Suc] map_Suc_upt [symmetric] by simp

text \<open>Facts about all bytes are checked value by value.\<close>

lemma all_bytes:
  assumes "list_all P (map of_nat [0..<256])"
  shows "P (c :: u8)"
proof -
  have "unat c \<in> set [0..<256]" using unsigned_less [of c, where 'a = nat] by simp
  moreover have "c = of_nat (unat c)" by simp
  ultimately show ?thesis using assms unfolding list_all_iff set_map by (metis image_eqI)
qed

lemma break_codes:
  "(c AND 0x80 \<noteq> 0) = (c \<ge> 0x80) \<and> (c \<ge> 0x80 \<longrightarrow> (c AND 0x7F = 0x2A) = (c = 0xAA) \<and>
     (c AND 0x7F = 0x36) = (c = 0xB6))"
  for c :: u8
  by (rule all_bytes) code_simp

lemma kbd_inb: "inb KBD_DATA_PORT s = (io_in s (io_reads s) KBD_DATA_PORT, s\<lparr>io_reads := Suc (io_reads s)\<rparr>)"
  by (simp add: inb_def)

lemma kbd_push_frame [simp]:
  "kbd_lshift (kbd_buffer_push c s) = kbd_lshift s" "kbd_rshift (kbd_buffer_push c s) = kbd_rshift s"
  "io_in (kbd_buffer_push c s) = io_in s" "io_reads (kbd_buffer_push c s) = io_reads s"
  by (simp_all add: kbd_buffer_push_def Let_def)

lemma scancodes_cong: "io_in t = io_in s \<Longrightarrow> io_reads t = io_reads s \<Longrightarrow> scancodes n t = scancodes n s"
  by (simp add: scancodes_def)

lemma keyboard_irq_handler_reads:
  "io_in (keyboard_irq_handler s) = io_in s \<and> io_reads (keyboard_irq_handler s) = Suc (io_reads s)"
  unfolding keyboard_irq_handler_def kbd_inb by (simp add: Let_def)

lemma keyboard_irq_handler_step:
  assumes "kbd_inv s"
  shows "kbd_inv (keyboard_irq_handler s)"
    and "take 255 (kbd_elems (keyboard_irq_handler s) @
           keys_typed (kbd_lshift (keyboard_irq_handler s)) (kbd_rshift (keyboard_irq_handler s)) cs) =
         take 255 (kbd_elems s @ keys_typed (kbd_lshift s) (kbd_rshift s)
           (io_in s (io_reads s) KBD_DATA_PORT # cs))"
proof -
  let ?c = "io_in s (io_reads s) KBD_DATA_PORT" and ?s = "s\<lparr>io_reads := Suc (io_reads s)\<rparr>"
  have inv: "kbd_inv ?s" and el: "kbd_elems ?s = kbd_elems s" using assms by (simp_all add: kbd_inv_def kbd_elems_def)
  have els [simp]: "kbd_elems (s\<lparr>io_reads := n, kbd_lshift := b\<rparr>) = kbd_elems s" 
    "kbd_elems (s\<lparr>io_reads := n, kbd_rshift := b\<rparr>) = kbd_elems s"
    "kbd_elems (s\<lparr>io_reads := n, kbd_ctrl := b\<rparr>) = kbd_elems s"
    "kbd_elems (s\<lparr>io_reads := n, kbd_alt := b\<rparr>) = kbd_elems s" for n b
    by (simp_all add: kbd_elems_def)
  have bound: "length (kbd_elems s) \<le> 255" by (rule kbd.elems_bound [OF assms])
  note push = kbd.push_elems [OF inv, unfolded el]
  show "kbd_inv (keyboard_irq_handler s)"
    using kbd.push_inv [OF inv] inv unfolding keyboard_irq_handler_def kbd_inb
    by (simp add: Let_def) (simp add: kbd_inv_def)
  show "take 255 (kbd_elems (keyboard_irq_handler s) @
           keys_typed (kbd_lshift (keyboard_irq_handler s)) (kbd_rshift (keyboard_irq_handler s)) cs) =
         take 255 (kbd_elems s @ keys_typed (kbd_lshift s) (kbd_rshift s) (?c # cs))"
  proof (cases "?c \<ge> 0x80")
    case True
    then have "?c \<noteq> 0x2A" "?c \<noteq> 0x36" by auto
    with True break_codes [of ?c] show ?thesis
      unfolding keyboard_irq_handler_def kbd_inb by (simp add: Let_def el)
  next
    case False
    then have "?c \<noteq> 0xAA" "?c \<noteq> 0xB6" by auto
    with False break_codes [of ?c] bound push show ?thesis
      unfolding keyboard_irq_handler_def kbd_inb by (auto simp: Let_def el take_Cons')
  qed
qed

text \<open>
  C18. Keyboard interrupts implement the typing specification: after any number of them the buffer
  holds what it held, followed by the text that the scan codes read from the controller stand
  for under the modifier state, cut off at 255 characters; what does not fit is dropped and
  never overwrites unread input.
\<close>

theorem keyboard_interrupts_type:
  assumes "kbd_inv s"
  shows "kbd_inv ((keyboard_irq_handler ^^ n) s) \<and>
    kbd_elems ((keyboard_irq_handler ^^ n) s) =
      take 255 (kbd_elems s @ keys_typed (kbd_lshift s) (kbd_rshift s) (scancodes n s))"
  using assms
proof (induction n arbitrary: s)
  case 0
  then show ?case using kbd.elems_bound [OF 0] by (simp add: scancodes_def)
next
  case (Suc n)
  have "scancodes n (keyboard_irq_handler s) = scancodes n (s\<lparr>io_reads := Suc (io_reads s)\<rparr>)"
    using keyboard_irq_handler_reads [of s] by (intro scancodes_cong) simp_all
  with Suc.IH [OF keyboard_irq_handler_step(1) [OF Suc.prems]] keyboard_irq_handler_step(2) [OF Suc.prems]
  show ?case unfolding funpow_Suc_right o_apply scancodes_Suc by simp
qed

text \<open>A driver whose controller presents the scan codes of the word \<open>Hi\<close>.\<close>

definition kbd_sample :: kbd_state where
  "kbd_sample = irq_state.extend (cpu_state.extend
     (cpu_boot\<lparr>io_in := \<lambda>n p. [0x2A, 0x23, 0xAA, 0x17] ! (n mod 4)\<rparr>) (irq_state.fields (replicate 16 None)))
     (kbd_state.fields (replicate 256 0) 254 254 False False False False)"

lemmas kbd_sample_defs = kbd_sample_def irq_state.defs kbd_state.defs boot_defs

lemma kbd_sample_facts:
  "kbd_inv kbd_sample" "kbd_elems kbd_sample = []"
  "keys_typed (kbd_lshift kbd_sample) (kbd_rshift kbd_sample) (scancodes 4 kbd_sample) = cstr ''Hi''"
proof -
  show "kbd_inv kbd_sample" "kbd_elems kbd_sample = []"
    by (simp_all add: kbd_inv_def kbd_elems_def kbd_sample_defs)
  have "scancodes 4 kbd_sample = [0x2A, 0x23, 0xAA, 0x17]"
    by (simp add: scancodes_def kbd_sample_defs upt_rec)
  moreover have "kbd_lshift kbd_sample = False" "kbd_rshift kbd_sample = False"
    by (simp_all add: kbd_sample_defs)
  moreover have "scancode_char True 0x23 = 72" "scancode_char False 0x17 = 105"
    by code_simp+
  ultimately show "keys_typed (kbd_lshift kbd_sample) (kbd_rshift kbd_sample) (scancodes 4 kbd_sample) = cstr ''Hi''"
    by (simp add: cstr_def of_char_def)
qed

theorem keyboard_interrupts_type_witness:
  "kbd_elems ((keyboard_irq_handler ^^ 4) kbd_sample) = cstr ''Hi''"
  using keyboard_interrupts_type [OF kbd_sample_facts(1), of 4]
  by (simp add: kbd_sample_facts cstr_def)

text \<open>The reader: \<open>n\<close> calls of \<open>keyboard_getchar\<close>.\<close>

primrec keyboard_read :: "nat \<Rightarrow> 'a kbd_state_scheme \<Rightarrow> u8 list" where
  "keyboard_read 0 s = []"
| "keyboard_read (Suc n) s = (case keyboard_getchar s of (c, t) \<Rightarrow> c # keyboard_read n t)"

lemma keyboard_read_empty: "\<not> keyboard_has_key s \<Longrightarrow> keyboard_read n s = replicate n 0"
  by (induction n) (simp_all add: keyboard_getchar_def keyboard_has_key_def)

lemma keyboard_read_drain:
  "keyboard_read n s = kbd.drain n s @ replicate (n - length (kbd.drain n s)) 0"
proof (induction n arbitrary: s)
  case (Suc n)
  show ?case
  proof (cases "keyboard_has_key s")
    case True
    obtain c u where cu: "keyboard_getchar s = (c, u)" by fastforce
    with True have "kbd_take s = (Some c, u)" by (simp add: kbd_take_def)
    with Suc cu show ?thesis by simp
  next
    case False
    then have "kbd_take s = (None, s)" by (simp add: kbd_take_def)
    with keyboard_read_empty [OF False, of "Suc n"] show ?thesis by simp
  qed
qed simp

text \<open>
  Reading is first-in first-out: \<open>n\<close> calls of \<open>keyboard_getchar\<close> return the oldest buffered
  characters in order, then 0 for every call on an empty buffer; \<open>keyboard_has_key\<close> tells the two
  apart.
\<close>

theorem keyboard_reads_in_order:
  assumes "kbd_inv s"
  shows "keyboard_read n s = take n (kbd_elems s) @ replicate (n - length (kbd_elems s)) 0 \<and>
    (keyboard_has_key s \<longleftrightarrow> kbd_elems s \<noteq> [])"
proof
  show "keyboard_read n s = take n (kbd_elems s) @ replicate (n - length (kbd_elems s)) 0"
    unfolding keyboard_read_drain kbd.drain_spec [OF assms] by (simp add: min_def)
  show "keyboard_has_key s \<longleftrightarrow> kbd_elems s \<noteq> []"
    by (simp add: keyboard_has_key_def kbd_elems_def unat_eq_zero)
qed

theorem keyboard_reads_in_order_witness:
  "keyboard_read 3 (kbd_buffer_push 66 (kbd_buffer_push 65 kbd_sample)) = [65, 66, 0]"
proof -
  have inv: "kbd_inv (kbd_buffer_push 66 (kbd_buffer_push 65 kbd_sample))"
    by (intro kbd.push_inv kbd_sample_facts)
  have "kbd_elems (kbd_buffer_push 66 (kbd_buffer_push 65 kbd_sample)) = [65, 66]"
    by (simp add: kbd.push_elems kbd.push_inv kbd_sample_facts)
  with keyboard_reads_in_order [OF inv, of 3] show ?thesis by simp
qed

end
