(* ===== verification/Prism_Paging.thy ===== *)
theory Prism_Paging
  imports Prism_Keyboard
begin

text \<open>
  Virtual memory: \<^verbatim>\<open>mm/paging.c\<close>. The page tables live in physical memory and every access of
  the code to them is a load or store through a kernel virtual address, so it goes through the
  very translation that the tables define. The static tables are at the link addresses in
  \<open>syms\<close>; the frame of a table at link address \<open>a\<close> is \<open>a - HIGHER_HALF_BASE\<close>. Invalidating a
  translation has no effect because the model caches none.
\<close>

record paging_state = kbd_state +
  new_pml4 :: u64

definition SCRATCH_VA :: u64 where "SCRATCH_VA = 0xFFFFFFFF801FF000"
definition SCRATCH_PT_IDX :: u64 where "SCRATCH_PT_IDX = 511"

text \<open>Access to entry \<open>i\<close> of a table through a pointer to it.\<close>

abbreviation table_get :: "u64 \<Rightarrow> u64 \<Rightarrow> 'a machine_scheme \<Rightarrow> u64 option" where
  "table_get p i s \<equiv> kload64 (slot p i) s"

abbreviation table_set :: "u64 \<Rightarrow> u64 \<Rightarrow> u64 \<Rightarrow> 'a machine_scheme \<Rightarrow> 'a machine_scheme option" where
  "table_set p i v s \<equiv> kstore64 (slot p i) v s"

definition scratch_map :: "u64 \<Rightarrow> 'a machine_scheme \<Rightarrow> (u64 \<times> 'a machine_scheme) option" where
  "scratch_map pa s =
     do { s \<leftarrow> table_set (sym_pt_hi_kernel (syms s)) SCRATCH_PT_IDX
                 ((pa AND NOT 0xFFF) OR PAGE_PRESENT OR PAGE_WRITABLE) s;
          Some (SCRATCH_VA, paging_invalidate_page SCRATCH_VA s) }"

definition virt_for_phys :: "u64 \<Rightarrow> 'a machine_scheme \<Rightarrow> (u64 \<times> 'a machine_scheme) option" where
  "virt_for_phys pa s =
     (if pa < 0x200000 then Some (pa + HIGHER_HALF_BASE, s) else scratch_map pa s)"

text \<open>A counted loop whose body may fail to return.\<close>

primrec foreach :: "('i \<Rightarrow> 's \<Rightarrow> 's option) \<Rightarrow> 'i list \<Rightarrow> 's \<Rightarrow> 's option" where
  "foreach f [] s = Some s"
| "foreach f (i # is) s = do { s \<leftarrow> f i s; foreach f is s }"

definition paging_init :: "'a paging_state_scheme \<Rightarrow> 'a paging_state_scheme option" where
  "paging_init s =
     (let y = syms s;
          pml4_pa = sym_pml4_new y - HIGHER_HALF_BASE;
          pdpt_id_pa = sym_pdpt_id y - HIGHER_HALF_BASE;
          pdpt_hi_pa = sym_pdpt_hi y - HIGHER_HALF_BASE;
          pd_id_pa = sym_pd_id y - HIGHER_HALF_BASE;
          pd_hi_pa = sym_pd_hi y - HIGHER_HALF_BASE;
          pt_hi_pa = sym_pt_hi_kernel y - HIGHER_HALF_BASE;
          pt_id0_pa = sym_pt_id_0 y - HIGHER_HALF_BASE;
          pt_id1_pa = sym_pt_id_1 y - HIGHER_HALF_BASE;
          rw = PAGE_PRESENT OR PAGE_WRITABLE;
          rw_user = PAGE_PRESENT OR PAGE_WRITABLE OR PAGE_USER
      in do { s \<leftarrow> foreach (\<lambda>p. memset p 0 4096)
                     [sym_pml4_new y, sym_pdpt_id y, sym_pdpt_hi y, sym_pd_id y, sym_pd_hi y,
                      sym_pt_hi_kernel y, sym_pt_id_0 y, sym_pt_id_1 y] s;
              s \<leftarrow> table_set (sym_pml4_new y) 0 (pdpt_id_pa OR rw) s;
              s \<leftarrow> table_set (sym_pdpt_id y) 0 (pd_id_pa OR rw) s;
              s \<leftarrow> table_set (sym_pd_id y) 0 (pt_id0_pa OR rw) s;
              s \<leftarrow> table_set (sym_pd_id y) 1 (pt_id1_pa OR rw) s;
              s \<leftarrow> foreach (\<lambda>i s. do {
                       s \<leftarrow> table_set (sym_pt_id_0 y) (of_nat i) ((of_nat i * PMM_FRAME_SIZE) OR rw) s;
                       table_set (sym_pt_id_1 y) (of_nat i) (((of_nat i + 512) * PMM_FRAME_SIZE) OR rw) s })
                     [0..<512] s;
              s \<leftarrow> table_set (sym_pml4_new y) 511 (pdpt_hi_pa OR rw_user) s;
              s \<leftarrow> table_set (sym_pdpt_hi y) 510 (pd_hi_pa OR rw_user) s;
              s \<leftarrow> table_set (sym_pd_hi y) 0 (pt_hi_pa OR rw_user) s;
              s \<leftarrow> foreach (\<lambda>i. table_set (sym_pt_hi_kernel y) (of_nat i) ((of_nat i * PMM_FRAME_SIZE) OR rw_user))
                     [0..<512] s;
              Some (paging_write_cr3 pml4_pa (s\<lparr>new_pml4 := sym_pml4_new y\<rparr>)) })"

text \<open>
  One level of \<open>paging_map_page\<close>: a missing table is allocated, cleared through the scratch page
  and linked into the parent at pointer \<open>p\<close>; the result is a pointer to the table. \<open>Inl\<close> is the
  early return on an empty frame allocator.
\<close>

definition map_level ::
  "u64 \<Rightarrow> u64 \<Rightarrow> u64 \<Rightarrow> 'a pmm_state_scheme \<Rightarrow> ('a pmm_state_scheme + u64 \<times> 'a pmm_state_scheme) option" where
  "map_level p i flags s =
     do { e \<leftarrow> table_get p i s;
          r \<leftarrow> (if e AND PAGE_PRESENT = 0 then
                  let (frame, s) = pmm_alloc_frame s in
                  if frame = 0 then Some (Inl s)
                  else do { (v, s) \<leftarrow> scratch_map frame s;
                            s \<leftarrow> memset v 0 4096 s;
                            s \<leftarrow> table_set p i (frame OR flags) s;
                            Some (Inr s) }
                else Some (Inr s));
          case r of
            Inl s \<Rightarrow> Some (Inl s)
          | Inr s \<Rightarrow> do { e \<leftarrow> table_get p i s;
                         (v, s) \<leftarrow> virt_for_phys (e AND NOT 0xFFF) s;
                         Some (Inr (v, s)) } }"

definition paging_map_page ::
  "u64 \<Rightarrow> u64 \<Rightarrow> u64 \<Rightarrow> 'a paging_state_scheme \<Rightarrow> (int \<times> 'a paging_state_scheme) option" where
  "paging_map_page virt phys flags s =
     (if new_pml4 s = 0 then Some (- 1, s)
      else
        let pi = pt_index 39 virt; pdi = pt_index 30 virt;
            pdi2 = pt_index 21 virt; pti = pt_index 12 virt;
            rw = PAGE_PRESENT OR PAGE_WRITABLE;
            intermediate_rw = (if pi = 511 then rw OR PAGE_USER else rw)
        in do { r \<leftarrow> map_level (new_pml4 s) pi intermediate_rw s;
                case r of Inl s \<Rightarrow> Some (- 1, s)
                | Inr (pdpt, s) \<Rightarrow>
              do { r \<leftarrow> map_level pdpt pdi intermediate_rw s;
                case r of Inl s \<Rightarrow> Some (- 1, s)
                | Inr (pd, s) \<Rightarrow>
              do { r \<leftarrow> map_level pd pdi2 intermediate_rw s;
                case r of Inl s \<Rightarrow> Some (- 1, s)
                | Inr (pt, s) \<Rightarrow>
              do { s \<leftarrow> table_set pt pti ((phys AND NOT 0xFFF) OR flags) s;
                   Some (0, paging_invalidate_page virt s) } } } })"

text \<open>
  Following an existing path: the pointer to the table that entry \<open>i\<close> of the table at \<open>p\<close>
  designates, or \<open>Inl\<close> when the entry is not present.
\<close>

definition walk_level :: "u64 \<Rightarrow> u64 \<Rightarrow> 'a machine_scheme \<Rightarrow> ('a machine_scheme + u64 \<times> 'a machine_scheme) option" where
  "walk_level p i s =
     do { e \<leftarrow> table_get p i s;
          if e AND PAGE_PRESENT = 0 then Some (Inl s)
          else do { (v, s) \<leftarrow> virt_for_phys (e AND NOT 0xFFF) s; Some (Inr (v, s)) } }"

definition walk_to_pt :: "u64 \<Rightarrow> u64 \<Rightarrow> 'a machine_scheme \<Rightarrow> ('a machine_scheme + u64 \<times> 'a machine_scheme) option" where
  "walk_to_pt pml4 virt s =
     do { r \<leftarrow> walk_level pml4 (pt_index 39 virt) s;
          case r of Inl s \<Rightarrow> Some (Inl s)
          | Inr (pdpt, s) \<Rightarrow>
        do { r \<leftarrow> walk_level pdpt (pt_index 30 virt) s;
          case r of Inl s \<Rightarrow> Some (Inl s)
          | Inr (pd, s) \<Rightarrow> walk_level pd (pt_index 21 virt) s } }"

definition paging_unmap_page :: "u64 \<Rightarrow> 'a paging_state_scheme \<Rightarrow> 'a paging_state_scheme option" where
  "paging_unmap_page virt s =
     (if new_pml4 s = 0 then Some s
      else do { r \<leftarrow> walk_to_pt (new_pml4 s) virt s;
                case r of Inl s \<Rightarrow> Some s
                | Inr (pt, s) \<Rightarrow>
                    do { s \<leftarrow> table_set pt (pt_index 12 virt) 0 s; Some (paging_invalidate_page virt s) } })"

definition paging_create_user_space :: "'a paging_state_scheme \<Rightarrow> (u64 \<times> 'a paging_state_scheme) option" where
  "paging_create_user_space s =
     (let (new_pml4_pa, s) = pmm_alloc_frame s in
      if new_pml4_pa = 0 then Some (0, s)
      else do { (user_pml4, s) \<leftarrow> virt_for_phys new_pml4_pa s;
                s \<leftarrow> memset user_pml4 0 PMM_FRAME_SIZE s;
                (kernel_pml4, s) \<leftarrow> virt_for_phys (paging_read_cr3 s AND NOT 0xFFF) s;
                e \<leftarrow> table_get kernel_pml4 511 s;
                s \<leftarrow> table_set user_pml4 511 e s;
                Some (new_pml4_pa, s) })"

definition paging_phys_to_virt :: "u64 \<Rightarrow> 'a machine_scheme \<Rightarrow> (u64 \<times> 'a machine_scheme) option" where
  "paging_phys_to_virt pa s = virt_for_phys pa s"

definition paging_virt_to_phys_cr3 :: "u64 \<Rightarrow> u64 \<Rightarrow> 'a machine_scheme \<Rightarrow> (u64 \<times> 'a machine_scheme) option" where
  "paging_virt_to_phys_cr3 cr3_pa virt s =
     do { (pml4, s) \<leftarrow> virt_for_phys cr3_pa s;
          r \<leftarrow> walk_to_pt pml4 virt s;
          case r of Inl s \<Rightarrow> Some (0, s)
          | Inr (pt, s) \<Rightarrow>
              do { e \<leftarrow> table_get pt (pt_index 12 virt) s;
                   if e AND PAGE_PRESENT = 0 then Some (0, s)
                   else Some ((e AND NOT 0xFFF) OR (virt AND 0xFFF), s) } }"

definition paging_virt_to_phys :: "u64 \<Rightarrow> 'a paging_state_scheme \<Rightarrow> (u64 \<times> 'a paging_state_scheme) option" where
  "paging_virt_to_phys virt s =
     (if new_pml4 s = 0 then Some (0, s)
      else paging_virt_to_phys_cr3 (paging_read_cr3 s AND NOT 0xFFF) virt s)"

definition USER_ADDR_LIMIT :: u64 where "USER_ADDR_LIMIT = 0x0000800000000000"

text \<open>The two passes of \<open>user_mem_check\<close> over the pages of the buffer.\<close>

partial_function (option) check_mapped_loop ::
  "u64 \<Rightarrow> u64 \<Rightarrow> 'a paging_state_scheme \<Rightarrow> (bool \<times> 'a paging_state_scheme) option" where
  "check_mapped_loop va lim s =
     (if va < lim then
        do { (pa, s) \<leftarrow> paging_virt_to_phys va s;
             if pa = 0 then Some (False, s) else check_mapped_loop (va + PMM_FRAME_SIZE) lim s }
      else Some (True, s))"

definition check_page_flags ::
  "bool \<Rightarrow> u64 \<Rightarrow> 'a machine_scheme \<Rightarrow> (bool \<times> 'a machine_scheme) option" where
  "check_page_flags writable va s =
     do { (pml4, s) \<leftarrow> virt_for_phys (paging_read_cr3 s AND NOT 0xFFF) s;
          r \<leftarrow> walk_to_pt pml4 va s;
          case r of Inl s \<Rightarrow> Some (False, s)
          | Inr (pt, s) \<Rightarrow>
              do { e \<leftarrow> table_get pt (pt_index 12 va) s;
                   Some (e AND PAGE_PRESENT \<noteq> 0 \<and> \<not> (writable \<and> e AND PAGE_WRITABLE = 0) \<and>
                         e AND PAGE_USER \<noteq> 0, s) } }"

partial_function (option) check_flags_loop ::
  "bool \<Rightarrow> u64 \<Rightarrow> u64 \<Rightarrow> 'a machine_scheme \<Rightarrow> (bool \<times> 'a machine_scheme) option" where
  "check_flags_loop writable va lim s =
     (if va < lim then
        do { (ok, s) \<leftarrow> check_page_flags writable va s;
             if \<not> ok then Some (False, s) else check_flags_loop writable (va + PMM_FRAME_SIZE) lim s }
      else Some (True, s))"

definition user_mem_check ::
  "u64 \<Rightarrow> u64 \<Rightarrow> bool \<Rightarrow> 'a paging_state_scheme \<Rightarrow> (bool \<times> 'a paging_state_scheme) option" where
  "user_mem_check addr len writable s =
     (if addr \<ge> USER_ADDR_LIMIT then Some (False, s)
      else if len = 0 then Some (True, s)
      else if addr + len < addr then Some (False, s)
      else if addr + len > USER_ADDR_LIMIT then Some (False, s)
      else let first = addr AND NOT 0xFFF in
        do { (ok, s) \<leftarrow> check_mapped_loop first (addr + len) s;
             if \<not> ok then Some (False, s)
             else check_flags_loop writable first (addr + len) s })"

definition paging_kernel_cr3 :: "'a machine_scheme \<Rightarrow> u64" where
  "paging_kernel_cr3 s = paging_read_cr3 s AND NOT 0xFFF"

text \<open>
  Releasing an address space, one definition per loop, innermost first. The pointers to the
  tables stay what they were when they were computed, also after the scratch page has been
  moved to another frame.
\<close>

definition free_pt :: "u64 \<Rightarrow> 'a pmm_state_scheme \<Rightarrow> 'a pmm_state_scheme option" where
  "free_pt pt s = foreach (\<lambda>pti s. do {
       e \<leftarrow> table_get pt (of_nat pti) s;
       if e AND PAGE_PRESENT = 0 then Some s else Some (pmm_free_frame (e AND NOT 0xFFF) s) }) [0..<512] s"

definition free_pd :: "u64 \<Rightarrow> 'a pmm_state_scheme \<Rightarrow> 'a pmm_state_scheme option" where
  "free_pd pd s = foreach (\<lambda>pdi2 s. do {
       e \<leftarrow> table_get pd (of_nat pdi2) s;
       if e AND PAGE_PRESENT = 0 then Some s
       else if e AND PAGE_PS \<noteq> 0 then Some (pmm_free_frame (e AND NOT 0xFFF) s)
       else do { (pt, s) \<leftarrow> virt_for_phys (e AND NOT 0xFFF) s;
                 s \<leftarrow> free_pt pt s;
                 e \<leftarrow> table_get pd (of_nat pdi2) s;
                 Some (pmm_free_frame (e AND NOT 0xFFF) s) } }) [0..<512] s"

definition free_pdpt :: "u64 \<Rightarrow> 'a pmm_state_scheme \<Rightarrow> 'a pmm_state_scheme option" where
  "free_pdpt pdpt s = foreach (\<lambda>pdi s. do {
       e \<leftarrow> table_get pdpt (of_nat pdi) s;
       if e AND PAGE_PRESENT = 0 then Some s
       else do { (pd, s) \<leftarrow> virt_for_phys (e AND NOT 0xFFF) s;
                 s \<leftarrow> free_pd pd s;
                 e \<leftarrow> table_get pdpt (of_nat pdi) s;
                 Some (pmm_free_frame (e AND NOT 0xFFF) s) } }) [0..<512] s"

definition paging_free_user_space :: "u64 \<Rightarrow> 'a pmm_state_scheme \<Rightarrow> 'a pmm_state_scheme option" where
  "paging_free_user_space cr3_pa s =
     do { (pml4, s) \<leftarrow> virt_for_phys cr3_pa s;
          if pml4 = 0 then Some s
          else do { s \<leftarrow> foreach (\<lambda>pi s. do {
                        e \<leftarrow> table_get pml4 (of_nat pi) s;
                        if e AND PAGE_PRESENT = 0 then Some s
                        else do { (pdpt, s) \<leftarrow> virt_for_phys (e AND NOT 0xFFF) s;
                                  s \<leftarrow> free_pdpt pdpt s;
                                  e \<leftarrow> table_get pml4 (of_nat pi) s;
                                  Some (pmm_free_frame (e AND NOT 0xFFF) s) } }) [0..<511] s;
                    Some (pmm_free_frame cr3_pa s) } }"

end
