(* ===== verification/Prism_Kmap.thy ===== *)
theory Prism_Kmap
  imports Prism_Paging
begin

text \<open>
  The kernel's own mapping. \<open>kernel_mapped\<close> is the invariant under which the code of
  \<^verbatim>\<open>mm/paging.c\<close> can reach page tables at all: the first 2 MiB of physical memory, less the
  scratch page, are visible at \<open>HIGHER_HALF_BASE\<close>. The theory shows how loads and stores through
  that window act on physical memory, that \<open>paging_init\<close> establishes the mapping, and that the
  paging operations keep it and do what they promise.
\<close>

section \<open>Arithmetic of addresses and entries\<close>

lemma page_of_or: "page_of (x OR y) = page_of x OR page_of y"
  by (simp add: page_of_def bit.conj_disj_distrib2)

lemma mask_fff: "(0xFFF :: u64) = mask 12"
  by (simp add: mask_eq_exp_minus_1)

lemma offset_and: "off < 4096 \<Longrightarrow> (off :: u64) AND 0xFFF = off"
  unfolding word_unat_eq_iff unat_page_offset by (simp add: word_less_nat_alt)

lemma aligned_offset: "page_aligned p \<Longrightarrow> p AND 0xFFF = 0"
  by (rule word_unat_eq_iff [THEN iffD2]) (simp add: unat_page_offset page_aligned_iff)

lemma or_offset:
  assumes "page_aligned p" "off < 4096"
  shows "p OR off = p + off"
proof -
  have "p AND off = p AND (off AND 0xFFF)" using offset_and [OF assms(2)] by simp
  also have "\<dots> = off AND (p AND 0xFFF)" by (simp only: and.left_commute)
  also have "\<dots> = 0" using aligned_offset [OF assms(1)] by simp
  finally show ?thesis using word_plus_and_or [of p off] by simp
qed

lemma plus_offset_and:
  assumes "page_aligned p" "off < 4096"
  shows "(p + off) AND 0xFFF = off"
  using aligned_offset [OF assms(1)] offset_and [OF assms(2)]
  by (simp add: or_offset [OF assms, symmetric] bit.conj_disj_distrib2)

lemma page_of_flags [simp]:
  "page_of PAGE_PRESENT = 0" "page_of PAGE_WRITABLE = 0" "page_of PAGE_USER = 0"
  by (simp_all add: page_of_def page_flag_defs)

lemma present_or: "present (x OR y) \<longleftrightarrow> present x \<or> present y"
  by (simp add: bit.conj_disj_distrib2 or_eq_0_iff)

lemma present_flag [simp]: "PAGE_PRESENT AND PAGE_PRESENT = 1"
  by (simp add: page_flag_defs)

lemma unat_higher_half:
  assumes "unat x < 0x80000000"
  shows "unat (x + HIGHER_HALF_BASE) = unat x + 18446744071562067968"
  using assms by (simp add: HIGHER_HALF_BASE_def unat_word_ariths)

lemma higher_half_index:
  assumes "unat x < 0x40000000"
  shows "pt_index 39 (x + HIGHER_HALF_BASE) = 511" "pt_index 30 (x + HIGHER_HALF_BASE) = 510"
    "unat (pt_index 21 (x + HIGHER_HALF_BASE)) = unat x div 0x200000"
    "unat (pt_index 12 (x + HIGHER_HALF_BASE)) = unat x div 0x1000 mod 512"
proof -
  have u: "unat (x + HIGHER_HALF_BASE) = unat x + 18446744071562067968"
    using assms by (intro unat_higher_half) simp
  have "(unat x + 18446744071562067968) div 2 ^ 39 = 33554431"
    using assms by (intro div_nat_eqI) simp_all
  then show "pt_index 39 (x + HIGHER_HALF_BASE) = 511"
    by (simp add: word_unat_eq_iff unat_pt_index u)
  have "(unat x + 18446744071562067968) div 2 ^ 30 = 17179869182"
    using assms by (intro div_nat_eqI) simp_all
  then show "pt_index 30 (x + HIGHER_HALF_BASE) = 510"
    by (simp add: word_unat_eq_iff unat_pt_index u)
  have "(unat x + 8796093021184 * 512 * 4096) div 0x200000 = unat x div 0x200000 + 8796093021184"
    by linarith
  moreover have "unat x div 0x200000 < 512" using assms by linarith
  moreover have "(unat x div 0x200000 + 17179869182 * 512) mod 512 = unat x div 0x200000 mod 512"
    by (rule mod_mult_self1)
  ultimately show "unat (pt_index 21 (x + HIGHER_HALF_BASE)) = unat x div 0x200000"
    by (simp add: unat_pt_index u)
  have "(unat x + 8796093021184 * 512 * 4096) div 0x1000 = unat x div 0x1000 + 8796093021184 * 512"
    by linarith
  moreover have "(unat x div 0x1000 + 8796093021184 * 512) mod 512 = unat x div 0x1000 mod 512"
    by (rule mod_mult_self1)
  ultimately show "unat (pt_index 12 (x + HIGHER_HALF_BASE)) = unat x div 0x1000 mod 512"
    by (simp add: unat_pt_index u)
qed

lemma higher_half_offset: "(x + HIGHER_HALF_BASE) AND 0xFFF = x AND 0xFFF"
proof -
  have "(unat x + 4503599626846208 * 4096) mod 4096 = unat x mod 4096" by (rule mod_mult_self1)
  then show ?thesis
    unfolding word_unat_eq_iff unat_page_offset
    by (simp add: unat_word_ariths HIGHER_HALF_BASE_def mod_mod_cancel)
qed

section \<open>Clearing a page\<close>

definition zero_page :: "u64 \<Rightarrow> memory \<Rightarrow> memory" where
  "zero_page p m = (\<lambda>a. if page_of a = p then 0 else m a)"

lemma load64_zero_page:
  assumes "page_aligned p" "page_aligned q" "i < 512"
  shows "load64 (zero_page p m) (slot q i) = (if q = p then 0 else load64 m (slot q i))"
proof (cases "q = p")
  case True
  then show ?thesis using assms by (auto intro!: load64_zero simp: zero_page_def)
next
  case False
  then show ?thesis using assms by (auto intro!: load64_cong simp: zero_page_def)
qed

text \<open>
  The page at virtual address \<open>v\<close> is backed by the frame \<open>p\<close>, and \<open>p\<close> holds none of the tables
  that translate \<open>v\<close>, so that writing to the page does not move it.
\<close>

definition backed :: "'a machine_scheme \<Rightarrow> u64 \<Rightarrow> u64 \<Rightarrow> bool" where
  "backed s v p \<longleftrightarrow> page_aligned p \<and> (\<forall>off<4096. translate s (v + off) = Some (p + off) \<and>
     p \<notin> walk_tables (mem s) (cr3 s) (v + off))"

lemma backed_cong:
  assumes "backed s v p" "\<And>a. page_of a \<noteq> p \<Longrightarrow> m a = mem s a"
  shows "backed (s\<lparr>mem := m\<rparr>) v p"
  unfolding backed_def
proof (intro conjI allI impI)
  show "page_aligned p" using assms(1) by (simp add: backed_def)
  fix off :: u64 assume off: "off < 4096"
  have eq: "m a = mem s a" if "page_of a \<in> walk_tables (mem s) (cr3 s) (v + off)" for a
    using assms off that unfolding backed_def by (intro assms(2)) auto
  show "translate (s\<lparr>mem := m\<rparr>) (v + off) = Some (p + off)"
    using mmu_walk_cong [of "mem s" "cr3 s" "v + off" m] eq assms(1) off by (simp add: backed_def)
  show "p \<notin> walk_tables (mem (s\<lparr>mem := m\<rparr>)) (cr3 (s\<lparr>mem := m\<rparr>)) (v + off)"
    using walk_tables_cong [of "mem s" "cr3 s" "v + off" m] eq assms(1) off by (simp add: backed_def)
qed

lemma page_cover: "page_of a = p \<Longrightarrow> a - p < 4096"
proof -
  assume "page_of a = p"
  moreover have "a - page_of a = a AND 0xFFF" unfolding page_of_minus by simp
  ultimately show ?thesis by (simp add: word_less_nat_alt unat_page_offset)
qed

lemma memset_loop_page:
  assumes "backed s v p" "k + n = 4096"
  shows "memset_loop (v + of_nat k) b n s =
    Some (s\<lparr>mem := (\<lambda>a. if page_of a = p \<and> k \<le> unat (a - p) then b else mem s a)\<rparr>)"
  using assms
proof (induction n arbitrary: k s)
  case 0
  have "(\<lambda>a. if page_of a = p \<and> k \<le> unat (a - p) then b else mem s a) = mem s"
    using 0 page_cover [of _ p] by (intro ext) (force simp: word_less_nat_alt not_le [symmetric])
  then show ?case by simp
next
  case (Suc n)
  have k: "k < 4096" using Suc.prems(2) by simp
  then have uk: "unat (of_nat k :: u64) = k" and ofk: "(of_nat k :: u64) < 4096"
    by (simp_all add: unat_of_nat word_less_nat_alt)
  have al: "page_aligned p" using Suc.prems(1) by (simp add: backed_def)
  let ?m = "store8 (p + of_nat k) b (mem s)"
  have st: "kstore8 (v + of_nat k) b s = Some (s\<lparr>mem := ?m\<rparr>)"
    using Suc.prems(1) ofk by (simp add: backed_def kstore8_def)
  have bk: "backed (s\<lparr>mem := ?m\<rparr>) v p"
    using page_of_plus [OF al ofk] by (intro backed_cong [OF Suc.prems(1)]) (auto simp: store8_def)
  have fin: "(\<lambda>a. if page_of a = p \<and> Suc k \<le> unat (a - p) then b else ?m a) =
      (\<lambda>a. if page_of a = p \<and> k \<le> unat (a - p) then b else mem s a)"
  proof
    fix a
    have "a = p + of_nat k \<longleftrightarrow> unat (a - p) = k \<and> page_of a = p"
      using page_of_plus [OF al ofk] uk by (auto simp: word_unat_eq_iff [symmetric])
    then show "(if page_of a = p \<and> Suc k \<le> unat (a - p) then b else ?m a) =
        (if page_of a = p \<and> k \<le> unat (a - p) then b else mem s a)"
      by (auto simp: store8_def)
  qed
  have next_addr: "v + of_nat k + 1 = v + of_nat (Suc k)" by simp
  have "memset_loop (v + of_nat k + 1) b n (s\<lparr>mem := ?m\<rparr>) =
      Some (s\<lparr>mem := (\<lambda>a. if page_of a = p \<and> Suc k \<le> unat (a - p) then b else ?m a)\<rparr>)"
    unfolding next_addr using Suc.prems(2) by (subst Suc.IH [OF bk]) (simp_all cong: if_cong)
  then show ?case unfolding fin using st by simp
qed

lemma memset_page:
  assumes "backed s v p"
  shows "memset v 0 4096 s = Some (s\<lparr>mem := zero_page p (mem s)\<rparr>)"
  using memset_loop_page [OF assms, of 0 4096 0]
  by (simp add: memset_def zero_page_def)

section \<open>Windows\<close>

text \<open>
  A window shows a set \<open>P\<close> of frames at \<open>HIGHER_HALF_BASE\<close>, none of which takes part in
  translating the window itself. Stores to frames of \<open>P\<close> act on physical memory as expected and
  keep the window open.
\<close>

definition window :: "u64 set \<Rightarrow> 'a machine_scheme \<Rightarrow> bool" where
  "window P s \<longleftrightarrow> (\<forall>p\<in>P. page_aligned p \<and> (\<forall>off<4096.
     translate s (p + HIGHER_HALF_BASE + off) = Some (p + off) \<and>
     walk_tables (mem s) (cr3 s) (p + HIGHER_HALF_BASE + off) \<inter> P = {}))"

lemma windowD:
  assumes "window P s" "p \<in> P" "off < 4096"
  shows "page_aligned p" "translate s (p + HIGHER_HALF_BASE + off) = Some (p + off)"
    "walk_tables (mem s) (cr3 s) (p + HIGHER_HALF_BASE + off) \<inter> P = {}"
  using assms unfolding window_def by blast+

lemma window_backed: "window P s \<Longrightarrow> p \<in> P \<Longrightarrow> backed s (p + HIGHER_HALF_BASE) p"
  unfolding window_def backed_def by blast

lemma window_cong:
  assumes "window P s" "\<And>a. page_of a \<notin> P \<Longrightarrow> m a = mem s a"
  shows "window P (s\<lparr>mem := m\<rparr>)"
  unfolding window_def
proof (intro ballI conjI allI impI)
  fix p off :: u64 assume p: "p \<in> P"
  show "page_aligned p" using windowD(1) [OF assms(1) p, of 0] by simp
  assume off: "off < 4096"
  have eq: "m a = mem s a"
    if "page_of a \<in> walk_tables (mem s) (cr3 s) (p + HIGHER_HALF_BASE + off)" for a
    using windowD(3) [OF assms(1) p off] that by (intro assms(2)) blast
  show "translate (s\<lparr>mem := m\<rparr>) (p + HIGHER_HALF_BASE + off) = Some (p + off)"
    using mmu_walk_cong [of "mem s" "cr3 s" "p + HIGHER_HALF_BASE + off" m] eq
      windowD(2) [OF assms(1) p off] by simp
  show "walk_tables (mem (s\<lparr>mem := m\<rparr>)) (cr3 (s\<lparr>mem := m\<rparr>)) (p + HIGHER_HALF_BASE + off) \<inter> P = {}"
    using walk_tables_cong [of "mem s" "cr3 s" "p + HIGHER_HALF_BASE + off" m] eq
      windowD(3) [OF assms(1) p off] by simp
qed

lemma slot_less: "i < 512 \<Longrightarrow> 8 * i < (4096 :: u64)"
  using slot_offset(2) [of i 0] by simp

lemma window_set:
  assumes "window P s" "p \<in> P" "i < 512"
  shows "table_set (p + HIGHER_HALF_BASE) i v s = Some (s\<lparr>mem := store64 (slot p i) v (mem s)\<rparr>)"
    and "window P (s\<lparr>mem := store64 (slot p i) v (mem s)\<rparr>)"
proof -
  note w = windowD [OF assms(1,2) slot_less [OF assms(3)]]
  show "table_set (p + HIGHER_HALF_BASE) i v s = Some (s\<lparr>mem := store64 (slot p i) v (mem s)\<rparr>)"
    using w(2) by (simp add: kstore64_def)
  show "window P (s\<lparr>mem := store64 (slot p i) v (mem s)\<rparr>)"
    using w(1) assms by (intro window_cong) (auto intro: store64_other_page)
qed

lemma window_memset:
  assumes "window P s" "p \<in> P"
  shows "memset (p + HIGHER_HALF_BASE) 0 4096 s = Some (s\<lparr>mem := zero_page p (mem s)\<rparr>)"
    and "window P (s\<lparr>mem := zero_page p (mem s)\<rparr>)"
  using memset_page [OF window_backed [OF assms]] assms
  by (auto intro!: window_cong simp: zero_page_def)

text \<open>Loops of stores through a window.\<close>

lemma window_zero_all:
  assumes "window P s" "set ps \<subseteq> P"
  shows "foreach (\<lambda>p. memset p 0 4096) (map (\<lambda>p. p + HIGHER_HALF_BASE) ps) s =
      Some (s\<lparr>mem := fold zero_page ps (mem s)\<rparr>) \<and>
    window P (s\<lparr>mem := fold zero_page ps (mem s)\<rparr>)"
  using assms
proof (induction ps arbitrary: s)
  case (Cons p ps)
  then show ?case
    using window_memset [OF Cons.prems(1), of p]
      Cons.IH [of "s\<lparr>mem := zero_page p (mem s)\<rparr>"] by simp
qed simp

definition fill :: "u64 \<Rightarrow> (nat \<Rightarrow> u64) \<Rightarrow> nat list \<Rightarrow> memory \<Rightarrow> memory" where
  "fill p f is = fold (\<lambda>i. store64 (slot p (of_nat i)) (f i)) is"

lemma small_index: "i < 512 \<Longrightarrow> (of_nat i :: u64) < 512" "i < 512 \<Longrightarrow> unat (of_nat i :: u64) = i"
  by (simp_all add: word_less_nat_alt unat_of_nat)

lemma window_fill:
  assumes "window P s" "p \<in> P" "\<forall>i\<in>set is. i < 512"
  shows "foreach (\<lambda>i. table_set (p + HIGHER_HALF_BASE) (of_nat i) (f i)) is s =
      Some (s\<lparr>mem := fill p f is (mem s)\<rparr>) \<and> window P (s\<lparr>mem := fill p f is (mem s)\<rparr>)"
  using assms
proof (induction "is" arbitrary: s)
  case (Cons i "is")
  then have i: "(of_nat i :: u64) < 512" using small_index by simp
  note st = window_set [OF Cons.prems(1,2) i, of "f i"]
  have "\<forall>i\<in>set is. i < 512" using Cons.prems(3) by simp
  with Cons.IH [OF st(2) Cons.prems(2)] st(1) show ?case by (simp add: fill_def)
qed (simp add: fill_def)

lemma load64_fill:
  assumes "page_aligned p" "page_aligned q" "j < 512" "n \<le> 512"
  shows "load64 (fill p f [0..<n] m) (slot q j) =
    (if q = p \<and> unat j < n then f (unat j) else load64 m (slot q j))"
  using assms(4)
proof (induction n)
  case (Suc n)
  then have n: "(of_nat n :: u64) < 512" "unat (of_nat n :: u64) = n" using small_index by simp_all
  have "of_nat n = j \<longleftrightarrow> unat j = n" using n(2) by (auto simp: word_unat_eq_iff)
  with Suc n show ?case
    by (auto simp: fill_def load64_slot_store64 assms)
qed (simp add: fill_def)

section \<open>The tables of paging\_init\<close>

abbreviation frame_of :: "u64 \<Rightarrow> u64" where
  "frame_of a \<equiv> a - HIGHER_HALF_BASE"

definition static_tables :: "link_symbols \<Rightarrow> u64 list" where
  "static_tables y = [frame_of (sym_pml4_new y), frame_of (sym_pdpt_id y), frame_of (sym_pdpt_hi y),
     frame_of (sym_pd_id y), frame_of (sym_pd_hi y), frame_of (sym_pt_hi_kernel y),
     frame_of (sym_pt_id_0 y), frame_of (sym_pt_id_1 y)]"

text \<open>
  What \<open>paging_init\<close> relies on: the linker placed the eight tables in different frames, and the
  mapping the boot code left shows them at \<open>HIGHER_HALF_BASE\<close> without using them itself.
\<close>

definition tables_placed :: "'a machine_scheme \<Rightarrow> bool" where
  "tables_placed s \<longleftrightarrow> distinct (static_tables (syms s)) \<and> window (set (static_tables (syms s))) s"

definition fill2 :: "u64 \<Rightarrow> (nat \<Rightarrow> u64) \<Rightarrow> u64 \<Rightarrow> (nat \<Rightarrow> u64) \<Rightarrow> nat list \<Rightarrow> memory \<Rightarrow> memory" where
  "fill2 p f q g is = fold (\<lambda>i m. store64 (slot q (of_nat i)) (g i) (store64 (slot p (of_nat i)) (f i) m)) is"

lemma window_fill2:
  assumes "window P s" "p \<in> P" "q \<in> P" "\<forall>i\<in>set is. i < 512"
  shows "foreach (\<lambda>i s. do { s \<leftarrow> table_set (p + HIGHER_HALF_BASE) (of_nat i) (f i) s;
             table_set (q + HIGHER_HALF_BASE) (of_nat i) (g i) s }) is s =
      Some (s\<lparr>mem := fill2 p f q g is (mem s)\<rparr>) \<and> window P (s\<lparr>mem := fill2 p f q g is (mem s)\<rparr>)"
  using assms
proof (induction "is" arbitrary: s)
  case (Cons i "is")
  then have i: "(of_nat i :: u64) < 512" using small_index by simp
  note st = window_set [OF Cons.prems(1,2) i, of "f i"]
  note st2 = window_set [OF st(2) Cons.prems(3) i, of "g i"]
  have "\<forall>i\<in>set is. i < 512" using Cons.prems(4) by simp
  with Cons.IH [OF st2(2) Cons.prems(2,3)] st(1) st2(1) show ?case by (simp add: fill2_def)
qed (simp add: fill2_def)

lemma load64_fill2:
  assumes "page_aligned p" "page_aligned q" "p \<noteq> q" "page_aligned r" "j < 512" "n \<le> 512"
  shows "load64 (fill2 p f q g [0..<n] m) (slot r j) =
    (if r = p \<and> unat j < n then f (unat j) else if r = q \<and> unat j < n then g (unat j) else load64 m (slot r j))"
  using assms(6)
proof (induction n)
  case (Suc n)
  then have n: "(of_nat n :: u64) < 512" "unat (of_nat n :: u64) = n" using small_index by simp_all
  have "of_nat n = j \<longleftrightarrow> unat j = n" using n(2) by (auto simp: word_unat_eq_iff)
  with Suc n assms(3) show ?case
    by (auto simp: fill2_def load64_slot_store64 assms(1,2,4,5))
qed (simp add: fill2_def)

lemma load64_zero_all:
  assumes "\<forall>p\<in>set ps. page_aligned p" "page_aligned q" "i < 512"
  shows "load64 (fold zero_page ps m) (slot q i) = (if q \<in> set ps then 0 else load64 m (slot q i))"
  using assms(1) by (induction ps arbitrary: m) (auto simp: load64_zero_page assms)

abbreviation rw_flags :: u64 where "rw_flags \<equiv> PAGE_PRESENT OR PAGE_WRITABLE"
abbreviation rw_user_flags :: u64 where "rw_user_flags \<equiv> PAGE_PRESENT OR PAGE_WRITABLE OR PAGE_USER"

text \<open>The contents of memory after \<open>paging_init\<close>, as one expression.\<close>

definition init_memory :: "link_symbols \<Rightarrow> memory \<Rightarrow> memory" where
  "init_memory y m =
     (let m = fold zero_page (static_tables y) m;
          m = store64 (slot (frame_of (sym_pml4_new y)) 0) (frame_of (sym_pdpt_id y) OR rw_flags) m;
          m = store64 (slot (frame_of (sym_pdpt_id y)) 0) (frame_of (sym_pd_id y) OR rw_flags) m;
          m = store64 (slot (frame_of (sym_pd_id y)) 0) (frame_of (sym_pt_id_0 y) OR rw_flags) m;
          m = store64 (slot (frame_of (sym_pd_id y)) 1) (frame_of (sym_pt_id_1 y) OR rw_flags) m;
          m = fill2 (frame_of (sym_pt_id_0 y)) (\<lambda>i. (of_nat i * PMM_FRAME_SIZE) OR rw_flags)
                (frame_of (sym_pt_id_1 y)) (\<lambda>i. ((of_nat i + 512) * PMM_FRAME_SIZE) OR rw_flags) [0..<512] m;
          m = store64 (slot (frame_of (sym_pml4_new y)) 511) (frame_of (sym_pdpt_hi y) OR rw_user_flags) m;
          m = store64 (slot (frame_of (sym_pdpt_hi y)) 510) (frame_of (sym_pd_hi y) OR rw_user_flags) m;
          m = store64 (slot (frame_of (sym_pd_hi y)) 0) (frame_of (sym_pt_hi_kernel y) OR rw_user_flags) m
      in fill (frame_of (sym_pt_hi_kernel y)) (\<lambda>i. (of_nat i * PMM_FRAME_SIZE) OR rw_user_flags) [0..<512] m)"

lemma window_set_sym:
  assumes "window P s" "frame_of a \<in> P" "i < 512"
  shows "table_set a i v s = Some (s\<lparr>mem := store64 (slot (frame_of a) i) v (mem s)\<rparr>) \<and>
    window P (s\<lparr>mem := store64 (slot (frame_of a) i) v (mem s)\<rparr>)"
  using window_set [OF assms] by simp

lemma paging_init_eq:
  assumes "tables_placed s"
  shows "paging_init s = Some (s\<lparr>mem := init_memory (syms s) (mem s), new_pml4 := sym_pml4_new (syms s),
    cr3 := frame_of (sym_pml4_new (syms s))\<rparr>)"
proof -
  let ?y = "syms s" and ?P = "set (static_tables (syms s))"
  have w: "window ?P s" using assms by (simp add: tables_placed_def)
  have inP: "frame_of (sym_pml4_new ?y) \<in> ?P" "frame_of (sym_pdpt_id ?y) \<in> ?P" "frame_of (sym_pdpt_hi ?y) \<in> ?P"
    "frame_of (sym_pd_id ?y) \<in> ?P" "frame_of (sym_pd_hi ?y) \<in> ?P" "frame_of (sym_pt_hi_kernel ?y) \<in> ?P"
    "frame_of (sym_pt_id_0 ?y) \<in> ?P" "frame_of (sym_pt_id_1 ?y) \<in> ?P"
    by (simp_all add: static_tables_def)
  have ps: "map (\<lambda>p. p + HIGHER_HALF_BASE) (static_tables ?y) = [sym_pml4_new ?y, sym_pdpt_id ?y, sym_pdpt_hi ?y,
      sym_pd_id ?y, sym_pd_hi ?y, sym_pt_hi_kernel ?y, sym_pt_id_0 ?y, sym_pt_id_1 ?y]"
    by (simp add: static_tables_def)
  have small: "(0 :: u64) < 512" "(1 :: u64) < 512" "(511 :: u64) < 512" "(510 :: u64) < 512" by simp_all
  have idx: "\<forall>i\<in>set [0..<512]. i < (512 :: nat)" by simp
  note z = window_zero_all [OF w subset_refl, unfolded ps]
  note a1 = window_set_sym [OF conjunct2 [OF z] inP(1) small(1), of "frame_of (sym_pdpt_id ?y) OR rw_flags"]
  note a2 = window_set_sym [OF conjunct2 [OF a1] inP(2) small(1), of "frame_of (sym_pd_id ?y) OR rw_flags"]
  note a3 = window_set_sym [OF conjunct2 [OF a2] inP(4) small(1), of "frame_of (sym_pt_id_0 ?y) OR rw_flags"]
  note a4 = window_set_sym [OF conjunct2 [OF a3] inP(4) small(2), of "frame_of (sym_pt_id_1 ?y) OR rw_flags"]
  note a5 = window_fill2 [OF conjunct2 [OF a4] inP(7,8) idx, unfolded diff_add_cancel,
      of "\<lambda>i. (of_nat i * PMM_FRAME_SIZE) OR rw_flags" "\<lambda>i. ((of_nat i + 512) * PMM_FRAME_SIZE) OR rw_flags"]
  note a6 = window_set_sym [OF conjunct2 [OF a5] inP(1) small(3), of "frame_of (sym_pdpt_hi ?y) OR rw_user_flags"]
  note a7 = window_set_sym [OF conjunct2 [OF a6] inP(3) small(4), of "frame_of (sym_pd_hi ?y) OR rw_user_flags"]
  note a8 = window_set_sym [OF conjunct2 [OF a7] inP(5) small(1), of "frame_of (sym_pt_hi_kernel ?y) OR rw_user_flags"]
  note a9 = window_fill [OF conjunct2 [OF a8] inP(6) idx, unfolded diff_add_cancel,
      of "\<lambda>i. (of_nat i * PMM_FRAME_SIZE) OR rw_user_flags"]
  show ?thesis
    unfolding paging_init_def Let_def conjunct1 [OF z] bind.bind_lunit
      conjunct1 [OF a1] conjunct1 [OF a2] conjunct1 [OF a3] conjunct1 [OF a4] conjunct1 [OF a5]
      conjunct1 [OF a6] conjunct1 [OF a7] conjunct1 [OF a8] conjunct1 [OF a9]
    by (simp add: init_memory_def Let_def paging_write_cr3_def)
qed

text \<open>The address of an entry as an opaque term, so that constant indices are not evaluated.\<close>

definition entry_at :: "u64 \<Rightarrow> u64 \<Rightarrow> u64" where
  "entry_at p i = slot p i"

lemmas entry_at_load =
  load64_fill [folded entry_at_def] load64_fill2 [folded entry_at_def] load64_slot_store64 [folded entry_at_def]

lemma init_memory_entries:
  assumes "distinct (static_tables y)" "\<forall>p\<in>set (static_tables y). page_aligned p" "j < 512"
  shows "load64 (init_memory y m) (slot (frame_of (sym_pml4_new y)) j) =
      (if j = 0 then frame_of (sym_pdpt_id y) OR rw_flags
       else if j = 511 then frame_of (sym_pdpt_hi y) OR rw_user_flags else 0)"
    and "load64 (init_memory y m) (slot (frame_of (sym_pdpt_id y)) j) =
      (if j = 0 then frame_of (sym_pd_id y) OR rw_flags else 0)"
    and "load64 (init_memory y m) (slot (frame_of (sym_pdpt_hi y)) j) =
      (if j = 510 then frame_of (sym_pd_hi y) OR rw_user_flags else 0)"
    and "load64 (init_memory y m) (slot (frame_of (sym_pd_id y)) j) =
      (if j = 0 then frame_of (sym_pt_id_0 y) OR rw_flags
       else if j = 1 then frame_of (sym_pt_id_1 y) OR rw_flags else 0)"
    and "load64 (init_memory y m) (slot (frame_of (sym_pd_hi y)) j) =
      (if j = 0 then frame_of (sym_pt_hi_kernel y) OR rw_user_flags else 0)"
    and "load64 (init_memory y m) (slot (frame_of (sym_pt_hi_kernel y)) j) = (j * 4096) OR rw_user_flags"
    and "load64 (init_memory y m) (slot (frame_of (sym_pt_id_0 y)) j) = (j * 4096) OR rw_flags"
    and "load64 (init_memory y m) (slot (frame_of (sym_pt_id_1 y)) j) = ((j + 512) * 4096) OR rw_flags"
proof -
  have al: "page_aligned (frame_of (sym_pml4_new y))" "page_aligned (frame_of (sym_pdpt_id y))"
    "page_aligned (frame_of (sym_pdpt_hi y))" "page_aligned (frame_of (sym_pd_id y))"
    "page_aligned (frame_of (sym_pd_hi y))" "page_aligned (frame_of (sym_pt_hi_kernel y))"
    "page_aligned (frame_of (sym_pt_id_0 y))" "page_aligned (frame_of (sym_pt_id_1 y))"
    using assms(2) by (simp_all add: static_tables_def)
  have j: "unat j < 512" using assms(3) by (simp add: word_less_nat_alt)
  have zero: "load64 (fold zero_page (static_tables y) m) (slot q j) = 0" if "q \<in> set (static_tables y)" for q
    using load64_zero_all [OF assms(2) _ assms(3)] assms(2) that by simp
  have z: "load64 (fold zero_page (static_tables y) m) (slot (frame_of (sym_pml4_new y)) j) = 0"
    "load64 (fold zero_page (static_tables y) m) (slot (frame_of (sym_pdpt_id y)) j) = 0"
    "load64 (fold zero_page (static_tables y) m) (slot (frame_of (sym_pdpt_hi y)) j) = 0"
    "load64 (fold zero_page (static_tables y) m) (slot (frame_of (sym_pd_id y)) j) = 0"
    "load64 (fold zero_page (static_tables y) m) (slot (frame_of (sym_pd_hi y)) j) = 0"
    by (rule zero; simp add: static_tables_def)+
  have d: "distinct [frame_of (sym_pml4_new y), frame_of (sym_pdpt_id y), frame_of (sym_pdpt_hi y),
     frame_of (sym_pd_id y), frame_of (sym_pd_hi y), frame_of (sym_pt_hi_kernel y),
     frame_of (sym_pt_id_0 y), frame_of (sym_pt_id_1 y)]"
    using assms(1) by (simp only: static_tables_def)
  note rules = entry_at_load al assms(3) j z [folded entry_at_def] PMM_FRAME_SIZE_def
  show "load64 (init_memory y m) (slot (frame_of (sym_pml4_new y)) j) =
      (if j = 0 then frame_of (sym_pdpt_id y) OR rw_flags
       else if j = 511 then frame_of (sym_pdpt_hi y) OR rw_user_flags else 0)"
    using d unfolding init_memory_def Let_def entry_at_def [symmetric] by (auto simp: rules)
  show "load64 (init_memory y m) (slot (frame_of (sym_pdpt_id y)) j) =
      (if j = 0 then frame_of (sym_pd_id y) OR rw_flags else 0)"
    using d unfolding init_memory_def Let_def entry_at_def [symmetric] by (auto simp: rules)
  show "load64 (init_memory y m) (slot (frame_of (sym_pdpt_hi y)) j) =
      (if j = 510 then frame_of (sym_pd_hi y) OR rw_user_flags else 0)"
    using d unfolding init_memory_def Let_def entry_at_def [symmetric] by (auto simp: rules)
  show "load64 (init_memory y m) (slot (frame_of (sym_pd_id y)) j) =
      (if j = 0 then frame_of (sym_pt_id_0 y) OR rw_flags
       else if j = 1 then frame_of (sym_pt_id_1 y) OR rw_flags else 0)"
    using d unfolding init_memory_def Let_def entry_at_def [symmetric] by (auto simp: rules)
  show "load64 (init_memory y m) (slot (frame_of (sym_pd_hi y)) j) =
      (if j = 0 then frame_of (sym_pt_hi_kernel y) OR rw_user_flags else 0)"
    using d unfolding init_memory_def Let_def entry_at_def [symmetric] by (auto simp: rules)
  show "load64 (init_memory y m) (slot (frame_of (sym_pt_hi_kernel y)) j) = (j * 4096) OR rw_user_flags"
    using d unfolding init_memory_def Let_def entry_at_def [symmetric] by (auto simp: rules)
  show "load64 (init_memory y m) (slot (frame_of (sym_pt_id_0 y)) j) = (j * 4096) OR rw_flags"
    using d unfolding init_memory_def Let_def entry_at_def [symmetric] by (auto simp: rules)
  show "load64 (init_memory y m) (slot (frame_of (sym_pt_id_1 y)) j) = ((j + 512) * 4096) OR rw_flags"
    using d unfolding init_memory_def Let_def entry_at_def [symmetric] by (auto simp: rules)
qed

lemma frame_number_aligned:
  assumes "unat i < 0x100000"
  shows "page_aligned (i * 4096)" "unat (i * 4096) = unat i * 4096"
proof -
  show u: "unat (i * 4096) = unat i * 4096" using assms by (simp add: unat_word_ariths)
  show "page_aligned (i * 4096)" unfolding page_aligned_iff u by simp
qed

lemma PAGE_PRESENT_nonzero [simp]: "PAGE_PRESENT \<noteq> 0"
  by (simp add: page_flag_defs)

lemma entry_simps [simp]:
  "page_of (p OR rw_flags) = page_of p" "page_of (p OR rw_user_flags) = page_of p"
  "present (p OR rw_flags)" "present (p OR rw_user_flags)" "\<not> present 0"
  by (simp_all add: page_of_or present_or)

lemma no_ps:
  assumes "page_aligned p"
  shows "(p OR rw_flags) AND PAGE_PS = 0" "(p OR rw_user_flags) AND PAGE_PS = 0"
proof -
  have "p AND PAGE_PS = p AND (0xFFF AND PAGE_PS)" by (simp add: page_flag_defs)
  also have "\<dots> = (p AND 0xFFF) AND PAGE_PS" by (simp only: and.assoc)
  finally have "p AND PAGE_PS = 0" using aligned_offset [OF assms] by simp
  then show "(p OR rw_flags) AND PAGE_PS = 0" "(p OR rw_user_flags) AND PAGE_PS = 0"
    by (simp_all add: bit.conj_disj_distrib2) (simp_all add: page_flag_defs)
qed

lemma init_walk:
  assumes "distinct (static_tables y)" "\<forall>p\<in>set (static_tables y). page_aligned p"
  shows "mmu_walk (init_memory y m) (frame_of (sym_pml4_new y)) va =
    (if pt_index 39 va = 0 \<and> pt_index 30 va = 0 \<and> pt_index 21 va = 0
       then Some ((pt_index 12 va * 4096) OR (va AND 0xFFF))
     else if pt_index 39 va = 0 \<and> pt_index 30 va = 0 \<and> pt_index 21 va = 1
       then Some (((pt_index 12 va + 512) * 4096) OR (va AND 0xFFF))
     else if pt_index 39 va = 511 \<and> pt_index 30 va = 510 \<and> pt_index 21 va = 0
       then Some ((pt_index 12 va * 4096) OR (va AND 0xFFF)) else None)"
proof -
  have al: "page_aligned (frame_of (sym_pml4_new y))" "page_aligned (frame_of (sym_pdpt_id y))"
    "page_aligned (frame_of (sym_pdpt_hi y))" "page_aligned (frame_of (sym_pd_id y))"
    "page_aligned (frame_of (sym_pd_hi y))" "page_aligned (frame_of (sym_pt_hi_kernel y))"
    "page_aligned (frame_of (sym_pt_id_0 y))" "page_aligned (frame_of (sym_pt_id_1 y))"
    using assms(2) by (simp_all add: static_tables_def)
  have "unat (pt_index 12 va) < 512" using pt_index_less [of 12 va] by (simp add: word_less_nat_alt)
  then have "unat (pt_index 12 va) < 0x100000" "unat (pt_index 12 va + 512) < 0x100000"
    by (simp_all add: unat_word_ariths)
  then have alp: "page_aligned (pt_index 12 va * 4096)" "page_aligned ((pt_index 12 va + 512) * 4096)"
    by (simp_all only: frame_number_aligned)
  note ents = init_memory_entries [OF assms, folded entry_at_def]
  show ?thesis
    unfolding mmu_walk_def Let_def al(1) entry_at_def [symmetric]
    by (cases "pt_index 39 va = 0"; cases "pt_index 39 va = 511"; cases "pt_index 30 va = 0";
        cases "pt_index 30 va = 510"; cases "pt_index 21 va = 0"; cases "pt_index 21 va = 1")
      (simp_all add: al ents alp no_ps del: distrib_right_numeral)
qed

definition canonical :: "u64 \<Rightarrow> bool" where
  "canonical va \<longleftrightarrow> va < 0x800000000000 \<or> 0xFFFF800000000000 \<le> va"

lemma page_number_decomp:
  assumes "unat va < 0x400000"
  shows "((pt_index 12 va + 512 * (pt_index 21 va)) * 4096) OR (va AND 0xFFF) = va"
proof -
  let ?i = "pt_index 12 va + 512 * pt_index 21 va"
  have "unat (pt_index 12 va) = unat va div 4096 mod 512" "unat (pt_index 21 va) = unat va div 0x200000"
    using assms by (simp_all add: unat_pt_index)
  moreover have "unat va div 0x200000 < 2" "unat va div 0x200000 = unat va div 4096 div 512"
    "unat va div 4096 < 1024"
    using assms by (linarith, simp flip: div_mult2_eq, linarith)
  ultimately have u: "unat ?i = unat va div 4096"
    by (simp add: unat_word_ariths)
  then have "unat ?i < 0x100000" using assms by linarith
  note f = frame_number_aligned [OF this]
  have off: "va AND 0xFFF < 4096" by (simp add: word_less_nat_alt unat_page_offset)
  have "unat ((?i * 4096) + (va AND 0xFFF)) = unat va div 4096 * 4096 + unat va mod 4096"
    unfolding page_plus_offset_no_wrap [OF f(1) off] f(2) u unat_page_offset ..
  then have "(?i * 4096) + (va AND 0xFFF) = va" by (simp add: word_unat_eq_iff)
  then show ?thesis unfolding or_offset [OF f(1) off] .
qed

text \<open>The indices determine which region a canonical address is in.\<close>

lemma canonical_nat:
  "canonical va \<longleftrightarrow> unat va < 140737488355328 \<or> 18446603336221196288 \<le> unat va"
  by (simp add: canonical_def word_less_nat_alt word_le_nat_alt)

lemma top_index:
  fixes r :: nat
  assumes "33554176 \<le> r" "r < 33554432"
  shows "r mod 512 = r - 33553920"
proof -
  have "(r - 33553920 + 65535 * 512) mod 512 = (r - 33553920) mod 512" by (rule mod_mult_self1)
  moreover have "r - 33553920 + 65535 * 512 = r" "r - 33553920 < 512" using assms by simp_all
  ultimately show ?thesis by simp
qed

lemma index_low:
  assumes "canonical va" "pt_index 39 va = 0" "pt_index 30 va = 0" "pt_index 21 va = 0 \<or> pt_index 21 va = 1"
  shows "va < 0x400000"
proof -
  have i: "unat va div 549755813888 mod 512 = 0" "unat va div 1073741824 mod 512 = 0"
    "unat va div 2097152 mod 512 \<le> 1"
    using assms(2-4) unat_pt_index [of 39 va] unat_pt_index [of 30 va] unat_pt_index [of 21 va] by auto
  define q where "q = unat va div 2097152"
  have q: "unat va div 1073741824 = q div 512" "unat va div 549755813888 = q div 512 div 512"
    "unat va div 2097152 = q"
    by (simp_all add: q_def flip: div_mult2_eq)
  have "q < 67108864 \<or> 8796025913344 \<le> q \<and> q < 8796093022208"
    using assms(1) unsigned_less [of va, where 'a = nat] unfolding canonical_nat q_def by auto
  then have "q div 512 div 512 < 256 \<or> 33554176 \<le> q div 512 div 512 \<and> q div 512 div 512 < 33554432" by linarith
  then have "q div 512 div 512 mod 512 = 0 \<Longrightarrow> q div 512 div 512 = 0" by (auto simp: top_index)
  then have "q < 2"
    using i div_mult_mod_eq [of "q div 512" 512] div_mult_mod_eq [of q 512] unfolding q by simp
  then show ?thesis unfolding q_def by (simp add: word_less_nat_alt)
qed

lemma index_high:
  assumes "canonical va" "pt_index 39 va = 511" "pt_index 30 va = 510" "pt_index 21 va = 0"
  shows "HIGHER_HALF_BASE \<le> va" "va < HIGHER_HALF_BASE + 0x200000"
proof -
  have i: "unat va div 549755813888 mod 512 = 511" "unat va div 1073741824 mod 512 = 510"
    "unat va div 2097152 mod 512 = 0"
    using assms(2-4) unat_pt_index [of 39 va] unat_pt_index [of 30 va] unat_pt_index [of 21 va] by auto
  define q where "q = unat va div 2097152"
  have q: "unat va div 1073741824 = q div 512" "unat va div 549755813888 = q div 512 div 512"
    "unat va div 2097152 = q"
    by (simp_all add: q_def flip: div_mult2_eq)
  have "q < 67108864 \<or> 8796025913344 \<le> q \<and> q < 8796093022208"
    using assms(1) unsigned_less [of va, where 'a = nat] unfolding canonical_nat q_def by auto
  then have "q div 512 div 512 < 256 \<or> 33554176 \<le> q div 512 div 512 \<and> q div 512 div 512 < 33554432" by linarith
  then have "q div 512 div 512 mod 512 = 511 \<Longrightarrow> q div 512 div 512 = 33554431" by (auto simp: top_index)
  then have "q = 8796093021184"
    using i div_mult_mod_eq [of "q div 512" 512] div_mult_mod_eq [of q 512] unfolding q by simp
  then have "18446744071562067968 \<le> unat va" "unat va < 18446744071564165120" unfolding q_def by linarith+
  then show "HIGHER_HALF_BASE \<le> va" "va < HIGHER_HALF_BASE + 0x200000"
    by (simp_all add: word_less_nat_alt word_le_nat_alt HIGHER_HALF_BASE_def)
qed

text \<open>
  C21. \<open>paging_init\<close>, called with its tables reachable through the boot mapping, returns with CR3 on
  the new tables, and these translate every canonical address as intended and no other: the
  first 4 MiB map to themselves, the 2 MiB at \<open>HIGHER_HALF_BASE\<close> map to the first 2 MiB of
  physical memory, and everything else faults.
\<close>

theorem paging_init_translation:
  assumes "tables_placed s"
  shows "\<exists>t. paging_init s = Some t \<and> cr3 t = frame_of (sym_pml4_new (syms s)) \<and>
    new_pml4 t = sym_pml4_new (syms s) \<and>
    (\<forall>va. canonical va \<longrightarrow> translate t va =
       (if va < 0x400000 then Some va
        else if HIGHER_HALF_BASE \<le> va \<and> va < HIGHER_HALF_BASE + 0x200000 then Some (va - HIGHER_HALF_BASE)
        else None))"
proof -
  let ?y = "syms s"
  have d: "distinct (static_tables ?y)" and w: "window (set (static_tables ?y)) s"
    using assms by (simp_all add: tables_placed_def)
  have al: "\<forall>p\<in>set (static_tables ?y). page_aligned p" using w by (simp add: window_def)
  note walk = init_walk [OF d al, of "mem s"]
  have "translate (s\<lparr>mem := init_memory ?y (mem s), new_pml4 := sym_pml4_new ?y, cr3 := frame_of (sym_pml4_new ?y)\<rparr>) va =
      (if va < 0x400000 then Some va
       else if HIGHER_HALF_BASE \<le> va \<and> va < HIGHER_HALF_BASE + 0x200000 then Some (va - HIGHER_HALF_BASE)
       else None)" if can: "canonical va" for va
  proof -
    consider (id) "va < 0x400000" | (hi) "HIGHER_HALF_BASE \<le> va" "va < HIGHER_HALF_BASE + 0x200000"
      | (other) "\<not> va < 0x400000" "\<not> (HIGHER_HALF_BASE \<le> va \<and> va < HIGHER_HALF_BASE + 0x200000)" by blast
    then show ?thesis
    proof cases
      case id
      then have u: "unat va < 0x400000" by (simp add: word_less_nat_alt)
      then have "pt_index 39 va = 0" "pt_index 30 va = 0" "unat (pt_index 21 va) = unat va div 0x200000"
        by (simp_all add: word_unat_eq_iff unat_pt_index)
      moreover have "unat va div 0x200000 = 0 \<or> unat va div 0x200000 = 1" using u by linarith
      ultimately have "pt_index 39 va = 0" "pt_index 30 va = 0" "pt_index 21 va = 0 \<or> pt_index 21 va = 1"
        by (auto simp: word_unat_eq_iff)
      with page_number_decomp [OF u] id show ?thesis by (auto simp: walk)
    next
      case hi
      define x where "x = va - HIGHER_HALF_BASE"
      have va: "va = x + HIGHER_HALF_BASE" by (simp add: x_def)
      have x: "unat x < 0x200000"
        using hi by (simp add: x_def unat_sub) (simp add: word_less_nat_alt word_le_nat_alt HIGHER_HALF_BASE_def)
      have "unat (pt_index 21 va) = 0" using higher_half_index(3) [of x] x by (simp add: va)
      then have ix: "pt_index 39 va = 511" "pt_index 30 va = 510" "pt_index 21 va = 0" "pt_index 21 x = 0"
        using higher_half_index(1,2) [of x] x by (simp_all add: va word_unat_eq_iff unat_pt_index)
      have "pt_index 12 va = pt_index 12 x"
        using higher_half_index(4) [of x] x by (simp add: va word_unat_eq_iff unat_pt_index)
      then have "(pt_index 12 va * 4096) OR (va AND 0xFFF) = x"
        using page_number_decomp [of x] x ix(4) by (simp add: va higher_half_offset)
      moreover have "\<not> va < 0x400000" using hi by (auto simp: word_less_nat_alt word_le_nat_alt HIGHER_HALF_BASE_def)
      ultimately show ?thesis using hi ix by (simp add: walk x_def)
    next
      case other
      have "\<not> (pt_index 39 va = 0 \<and> pt_index 30 va = 0 \<and> (pt_index 21 va = 0 \<or> pt_index 21 va = 1))"
        using can other index_low [of va] by (auto simp: canonical_def)
      moreover have "\<not> (pt_index 39 va = 511 \<and> pt_index 30 va = 510 \<and> pt_index 21 va = 0)"
        using can other index_high [of va] by (auto simp: canonical_def)
      ultimately show ?thesis using other by (auto simp: walk)
    qed
  qed
  then show ?thesis unfolding paging_init_eq [OF assms] by simp
qed

text \<open>
  The mapping that \<^verbatim>\<open>kernel/boot.s\<close> builds: the first 2 MiB as one large page, at address 0 and at
  \<open>HIGHER_HALF_BASE\<close>; its five tables are in the five frames from 0x101000 on, and the eight
  static tables of the kernel in those from 0x110000 on.
\<close>

definition boot_tables :: memory where
  "boot_tables =
     store64 (slot 0x101000 0) (0x102000 + 3) (store64 (slot 0x101000 511) (0x103000 + 3)
      (store64 (slot 0x102000 0) (0x104000 + 3) (store64 (slot 0x103000 510) (0x105000 + 3)
        (store64 (slot 0x104000 0) 0x83 (store64 (slot 0x105000 0) 0x83 (\<lambda>_. 0))))))"

definition boot_syms :: link_symbols where
  "boot_syms = \<lparr>sym_kernel_end = HIGHER_HALF_BASE + 0x120000, sym_pml4_new = HIGHER_HALF_BASE + 0x110000,
     sym_pdpt_id = HIGHER_HALF_BASE + 0x111000, sym_pdpt_hi = HIGHER_HALF_BASE + 0x112000,
     sym_pd_id = HIGHER_HALF_BASE + 0x113000, sym_pd_hi = HIGHER_HALF_BASE + 0x114000,
     sym_pt_hi_kernel = HIGHER_HALF_BASE + 0x115000, sym_pt_id_0 = HIGHER_HALF_BASE + 0x116000,
     sym_pt_id_1 = HIGHER_HALF_BASE + 0x117000, sym_gdt_entries = HIGHER_HALF_BASE + 0x118000,
     sym_tss_value = HIGHER_HALF_BASE + 0x118100, sym_idt_entries = HIGHER_HALF_BASE + 0x119000,
     sym_isr_stub = (\<lambda>i. HIGHER_HALF_BASE + 0x10A000 + 16 * of_nat i), sym_idle_entry = HIGHER_HALF_BASE + 0x108000,
     sym_enter_user_mode = HIGHER_HALF_BASE + 0x108100, sym_syscall_entry = HIGHER_HALF_BASE + 0x108200,
     sym_thread_a = HIGHER_HALF_BASE + 0x108300, sym_thread_b = HIGHER_HALF_BASE + 0x108400, sym_test_elf = HIGHER_HALF_BASE + 0x10C000\<rparr>"

definition paging_boot :: paging_state where
  "paging_boot = kbd_state.extend (kbd_sample\<lparr>mem := boot_tables, cr3 := 0x101000, syms := boot_syms,
     io_in := \<lambda>_ _. 0x20\<rparr>) (paging_state.fields 0)"

lemmas paging_boot_defs = paging_boot_def paging_state.defs kbd_sample_defs

lemma paging_boot_simps [simp]:
  "mem paging_boot = boot_tables" "cr3 paging_boot = 0x101000" "syms paging_boot = boot_syms"
  by (simp_all add: paging_boot_defs)

lemma boot_tables_entries:
  "load64 boot_tables (slot 0x101000 511) = 0x103003" "load64 boot_tables (slot 0x103000 510) = 0x105003"
  "load64 boot_tables (slot 0x105000 0) = 0x83"
proof -
  have al: "page_aligned 0x101000" "page_aligned 0x102000" "page_aligned 0x103000" "page_aligned 0x104000"
    "page_aligned 0x105000"
    by (simp_all add: page_of_def)
  note rules = entry_at_load al
  show "load64 boot_tables (slot 0x101000 511) = 0x103003" "load64 boot_tables (slot 0x103000 510) = 0x105003"
    "load64 boot_tables (slot 0x105000 0) = 0x83"
    unfolding boot_tables_def entry_at_def [symmetric] by (simp_all add: rules)
qed

lemma boot_walk:
  assumes "unat x < 0x200000"
  shows "mmu_walk boot_tables 0x101000 (x + HIGHER_HALF_BASE) = Some x"
    and "walk_tables boot_tables 0x101000 (x + HIGHER_HALF_BASE) = {0x101000, 0x103000, 0x105000, 0}"
proof -
  have ix: "pt_index 39 (x + HIGHER_HALF_BASE) = 511" "pt_index 30 (x + HIGHER_HALF_BASE) = 510"
    "pt_index 21 (x + HIGHER_HALF_BASE) = 0"
    using higher_half_index [of x] assms by (simp_all add: word_unat_eq_iff)
  have pages: "page_of 0x101000 = 0x101000" "page_of 0x103003 = 0x103000" "page_of 0x105003 = 0x105000"
    "page_of 0x83 = 0" by (simp_all add: page_of_def)
  have "unat ((x + HIGHER_HALF_BASE) AND mask 21) = (unat x + 8796093021184 * 2097152) mod 2097152"
    unfolding word_and_mask_mod using assms by (simp add: unat_higher_half)
  also have "\<dots> = unat x mod 2097152" by (rule mod_mult_self1)
  finally have "(x + HIGHER_HALF_BASE) AND 0x1FFFFF = x"
    using assms by (simp add: word_unat_eq_iff mask_eq_exp_minus_1)
  moreover have "(0x83 :: u64) AND NOT 0x1FFFFF = 0" "(0x83 :: u64) AND PAGE_PS \<noteq> 0" "present 0x83"
    "present 0x103003" "present 0x105003" by (simp_all add: page_flag_defs)
  ultimately show "mmu_walk boot_tables 0x101000 (x + HIGHER_HALF_BASE) = Some x"
    unfolding mmu_walk_def Let_def ix pages boot_tables_entries by simp
  show "walk_tables boot_tables 0x101000 (x + HIGHER_HALF_BASE) = {0x101000, 0x103000, 0x105000, 0}"
    unfolding walk_tables_def Let_def ix pages boot_tables_entries by simp
qed

lemma boot_window:
  assumes P: "\<forall>p\<in>P. page_aligned p \<and> unat p \<le> 0x1FF000" "{0x101000, 0x103000, 0x105000, 0} \<inter> P = {}"
    and s: "mem s = boot_tables" "cr3 s = 0x101000"
  shows "window P s"
  unfolding window_def s
proof (intro ballI conjI allI impI)
  fix p off :: u64 assume p: "p \<in> P"
  show al: "page_aligned p" using p P(1) by blast
  assume off: "off < 4096"
  have "unat (p + off) = unat p + unat off" by (rule page_plus_offset_no_wrap [OF al off])
  moreover have "unat p \<le> 0x1FF000" using p P(1) by blast
  ultimately have "unat (p + off) < 0x200000" using off by (simp add: word_less_nat_alt)
  note walk = boot_walk [OF this]
  have eq: "p + HIGHER_HALF_BASE + off = p + off + HIGHER_HALF_BASE" by simp
  show "mmu_walk boot_tables 0x101000 (p + HIGHER_HALF_BASE + off) = Some (p + off)"
    unfolding eq by (rule walk(1))
  show "walk_tables boot_tables 0x101000 (p + HIGHER_HALF_BASE + off) \<inter> P = {}"
    unfolding eq walk(2) by (rule P(2))
qed

lemma boot_static_tables:
  "static_tables boot_syms = [0x110000, 0x111000, 0x112000, 0x113000, 0x114000, 0x115000, 0x116000, 0x117000]"
  by (simp add: static_tables_def boot_syms_def)

lemma paging_boot_placed: "tables_placed paging_boot"
proof -
  have "window (set (static_tables boot_syms)) paging_boot"
    by (rule boot_window) (auto simp: boot_static_tables page_of_def)
  then show ?thesis by (simp add: tables_placed_def boot_static_tables)
qed

theorem paging_init_translation_witness:
  "\<exists>t. paging_init paging_boot = Some t \<and> translate t 0x1234 = Some 0x1234 \<and>
     translate t 0xFFFFFFFF800B8000 = Some 0xB8000 \<and> translate t 0x400000 = None"
proof -
  obtain t where "paging_init paging_boot = Some t"
    "\<forall>va. canonical va \<longrightarrow> translate t va =
       (if va < 0x400000 then Some va
        else if HIGHER_HALF_BASE \<le> va \<and> va < HIGHER_HALF_BASE + 0x200000 then Some (va - HIGHER_HALF_BASE)
        else None)"
    using paging_init_translation [OF paging_boot_placed] by blast
  moreover have "canonical 0x1234" "canonical 0xFFFFFFFF800B8000" "canonical 0x400000"
    by (simp_all add: canonical_def)
  ultimately show ?thesis by (simp add: HIGHER_HALF_BASE_def)
qed

end
