(* ===== verification/Prism_Mapping.thy ===== *)
theory Prism_Mapping
  imports Prism_Kmap
begin

text \<open>
  What the paging operations do once the kernel runs on its own tables: the invariants
  \<open>kernel_mapped\<close> (the window on low memory works) and \<open>kernel_space\<close> (in addition, the page
  tables of the kernel half and the free frames do not overlap), and the effect of mapping,
  unmapping and translating pages under them.
\<close>

section \<open>The kernel window\<close>

abbreviation k_pml4 :: "'a machine_scheme \<Rightarrow> u64" where "k_pml4 s \<equiv> page_of (cr3 s)"
abbreviation k_pdpt :: "'a machine_scheme \<Rightarrow> u64" where "k_pdpt s \<equiv> frame_of (sym_pdpt_hi (syms s))"
abbreviation k_pd :: "'a machine_scheme \<Rightarrow> u64" where "k_pd s \<equiv> frame_of (sym_pd_hi (syms s))"
abbreviation k_pt :: "'a machine_scheme \<Rightarrow> u64" where "k_pt s \<equiv> frame_of (sym_pt_hi_kernel (syms s))"

abbreviation k_entry :: "'a machine_scheme \<Rightarrow> u64 \<Rightarrow> u64 \<Rightarrow> u64" where
  "k_entry s p i \<equiv> load64 (mem s) (entry_at p i)"

definition ktables :: "'a machine_scheme \<Rightarrow> u64 set" where
  "ktables s = {k_pml4 s, k_pdpt s, k_pd s, k_pt s}"

definition kernel_mapped :: "'a machine_scheme \<Rightarrow> bool" where
  "kernel_mapped s \<longleftrightarrow>
     distinct [k_pml4 s, k_pdpt s, k_pd s, k_pt s] \<and>
     (\<forall>p \<in> {k_pdpt s, k_pd s, k_pt s}. page_aligned p \<and> unat p < 0x1FF000) \<and>
     present (k_entry s (k_pml4 s) 511) \<and> page_of (k_entry s (k_pml4 s) 511) = k_pdpt s \<and>
     present (k_entry s (k_pdpt s) 510) \<and> page_of (k_entry s (k_pdpt s) 510) = k_pd s \<and>
     present (k_entry s (k_pd s) 0) \<and> page_of (k_entry s (k_pd s) 0) = k_pt s \<and>
     k_entry s (k_pd s) 0 AND PAGE_PS = 0 \<and>
     (\<forall>i<511. present (k_entry s (k_pt s) i) \<and> page_of (k_entry s (k_pt s) i) = i * 4096)"

lemma kernel_mappedD:
  assumes "kernel_mapped s"
  shows "page_aligned (k_pdpt s)" "page_aligned (k_pd s)" "page_aligned (k_pt s)"
    "unat (k_pdpt s) < 0x1FF000" "unat (k_pd s) < 0x1FF000" "unat (k_pt s) < 0x1FF000"
    "present (k_entry s (k_pml4 s) 511)" "page_of (k_entry s (k_pml4 s) 511) = k_pdpt s"
    "present (k_entry s (k_pdpt s) 510)" "page_of (k_entry s (k_pdpt s) 510) = k_pd s"
    "present (k_entry s (k_pd s) 0)" "page_of (k_entry s (k_pd s) 0) = k_pt s"
    "k_entry s (k_pd s) 0 AND PAGE_PS = 0"
    "i < 511 \<Longrightarrow> present (k_entry s (k_pt s) i)" "i < 511 \<Longrightarrow> page_of (k_entry s (k_pt s) i) = i * 4096"
    "distinct [k_pml4 s, k_pdpt s, k_pd s, k_pt s]"
  using assms by (simp_all add: kernel_mapped_def)

text \<open>Walks of the kernel half start with the two fixed tables.\<close>

lemma kernel_walk:
  assumes "kernel_mapped s" "unat x < 0x40000000"
  shows "mmu_walk (mem s) (cr3 s) (x + HIGHER_HALF_BASE) =
    (let e2 = k_entry s (k_pd s) (pt_index 21 (x + HIGHER_HALF_BASE)) in
     if \<not> present e2 then None
     else if e2 AND PAGE_PS \<noteq> 0 then Some ((e2 AND NOT 0x1FFFFF) OR ((x + HIGHER_HALF_BASE) AND 0x1FFFFF))
     else let e1 = k_entry s (page_of e2) (pt_index 12 (x + HIGHER_HALF_BASE)) in
       if \<not> present e1 then None else Some (page_of e1 OR (x AND 0xFFF)))"
  unfolding mmu_walk_def entry_at_def [symmetric] higher_half_index(1,2) [OF assms(2)] higher_half_offset Let_def
  using kernel_mappedD [OF assms(1)] by simp

lemma kernel_walk_tables:
  assumes "kernel_mapped s" "unat x < 0x40000000"
  shows "walk_tables (mem s) (cr3 s) (x + HIGHER_HALF_BASE) =
    {k_pml4 s, k_pdpt s, k_pd s, page_of (k_entry s (k_pd s) (pt_index 21 (x + HIGHER_HALF_BASE)))}"
  unfolding walk_tables_def entry_at_def [symmetric] higher_half_index(1,2) [OF assms(2)] Let_def
  using kernel_mappedD [OF assms(1)] by simp

lemma low_index:
  assumes "unat x < 0x200000"
  shows "pt_index 21 (x + HIGHER_HALF_BASE) = 0" "unat (pt_index 12 (x + HIGHER_HALF_BASE)) = unat x div 4096"
proof -
  show "pt_index 21 (x + HIGHER_HALF_BASE) = 0"
    using higher_half_index(3) [of x] assms by (simp add: word_unat_eq_iff)
  have "unat x div 4096 < 512" using assms by linarith
  then show "unat (pt_index 12 (x + HIGHER_HALF_BASE)) = unat x div 4096"
    using higher_half_index(4) [of x] assms by simp
qed

lemma page_number_times: "unat x < 0x200000 \<Longrightarrow> pt_index 12 (x + HIGHER_HALF_BASE) * 4096 = page_of x"
  using low_index(2) [of x] by (simp add: word_unat_eq_iff unat_word_ariths unat_page_of minus_mod_eq_div_mult)

lemma page_split: "page_of x OR (x AND 0xFFF) = x"
proof -
  have "x AND 0xFFF < 4096" by (simp add: word_less_nat_alt unat_page_offset)
  then have "page_of x OR (x AND 0xFFF) = page_of x + (x AND 0xFFF)" by (rule or_offset [OF page_of_idem])
  then show ?thesis unfolding page_of_minus by simp
qed

lemma window_walk:
  assumes "kernel_mapped s" "unat x < 0x1FF000"
  shows "translate s (x + HIGHER_HALF_BASE) = Some x"
    and "walk_tables (mem s) (cr3 s) (x + HIGHER_HALF_BASE) = ktables s"
proof -
  have x: "unat x < 0x200000" "unat x < 0x40000000" using assms(2) by simp_all
  have "pt_index 12 (x + HIGHER_HALF_BASE) < 511"
    using low_index(2) [OF x(1)] assms(2) by (simp add: word_less_nat_alt)
  with kernel_mappedD [OF assms(1)] page_number_times [OF x(1)]
  show "translate s (x + HIGHER_HALF_BASE) = Some x"
    unfolding kernel_walk [OF assms(1) x(2)] low_index(1) [OF x(1)] by (simp add: page_split)
  show "walk_tables (mem s) (cr3 s) (x + HIGHER_HALF_BASE) = ktables s"
    unfolding kernel_walk_tables [OF assms(1) x(2)] low_index(1) [OF x(1)]
    using kernel_mappedD [OF assms(1)] by (auto simp: ktables_def)
qed

lemma window_page:
  assumes "kernel_mapped s" "page_aligned f" "unat f < 0x1FF000" "off < 4096"
  shows "translate s (f + HIGHER_HALF_BASE + off) = Some (f + off)"
    and "walk_tables (mem s) (cr3 s) (f + HIGHER_HALF_BASE + off) = ktables s"
proof -
  obtain k where k: "unat f = 4096 * k" using assms(2) by (auto simp: page_aligned_iff mod_eq_0_iff_dvd dvd_def)
  have "k < 511" "unat off < 4096" using assms(3,4) k by (simp_all add: word_less_nat_alt)
  then have lt: "unat (f + off) < 0x1FF000" unfolding page_plus_offset_no_wrap [OF assms(2,4)] k by linarith
  have eq: "f + HIGHER_HALF_BASE + off = f + off + HIGHER_HALF_BASE" by simp
  show "translate s (f + HIGHER_HALF_BASE + off) = Some (f + off)"
    and "walk_tables (mem s) (cr3 s) (f + HIGHER_HALF_BASE + off) = ktables s"
    unfolding eq using window_walk [OF assms(1) lt] by blast+
qed

lemma window_page_backed:
  assumes "kernel_mapped s" "page_aligned f" "unat f < 0x1FF000" "f \<notin> ktables s"
  shows "backed s (f + HIGHER_HALF_BASE) f"
  using window_page [OF assms(1-3)] assms(2,4) by (simp add: backed_def)

lemma scratch_walk:
  assumes "kernel_mapped s" "off < 4096"
  shows "translate s (SCRATCH_VA + off) =
      (let e = k_entry s (k_pt s) 511 in if \<not> present e then None else Some (page_of e + off))"
    and "walk_tables (mem s) (cr3 s) (SCRATCH_VA + off) = ktables s"
proof -
  let ?x = "0x1FF000 + off"
  have va: "SCRATCH_VA + off = ?x + HIGHER_HALF_BASE" by (simp add: SCRATCH_VA_def HIGHER_HALF_BASE_def)
  have al: "page_aligned 0x1FF000" by (simp add: page_of_def)
  have "unat ?x = unat (0x1FF000 :: u64) + unat off" by (rule page_plus_offset_no_wrap [OF al assms(2)])
  then have u: "unat ?x = 2093056 + unat off" by simp
  have "unat off < 4096" using assms(2) by (simp add: word_less_nat_alt)
  then have x: "unat ?x < 0x200000" "unat ?x < 0x40000000" "unat ?x div 4096 = 511" unfolding u by simp_all
  have "pt_index 12 (?x + HIGHER_HALF_BASE) = 511" using low_index(2) [OF x(1)] x(3) by (simp add: word_unat_eq_iff)
  with kernel_mappedD [OF assms(1)]
  show "translate s (SCRATCH_VA + off) =
      (let e = k_entry s (k_pt s) 511 in if \<not> present e then None else Some (page_of e + off))"
    unfolding va kernel_walk [OF assms(1) x(2)] low_index(1) [OF x(1)]
    by (simp add: Let_def plus_offset_and [OF al assms(2)] or_offset assms(2))
  show "walk_tables (mem s) (cr3 s) (SCRATCH_VA + off) = ktables s"
    unfolding va kernel_walk_tables [OF assms(1) x(2)] low_index(1) [OF x(1)]
    using kernel_mappedD [OF assms(1)] by (auto simp: ktables_def)
qed

section \<open>Stores that keep the window\<close>

lemma load64_entry_store:
  assumes "page_aligned p" "page_aligned q" "i < 512" "j < 512"
  shows "load64 (store64 (entry_at p i) v m) (entry_at q j) =
    (if p = q \<and> i = j then v else load64 m (entry_at q j))"
  using load64_slot_store64 [OF assms] by (simp only: entry_at_def)

lemma load64_entry_cong:
  assumes "\<And>a. page_of a = p \<Longrightarrow> m' a = m a" "page_aligned p" "i < 512"
  shows "load64 m' (entry_at p i) = load64 m (entry_at p i)"
  using load64_table_cong [OF assms] by (simp only: entry_at_def)

text \<open>The entries the window rests on.\<close>

definition protected_entry :: "'a machine_scheme \<Rightarrow> u64 \<Rightarrow> u64 \<Rightarrow> bool" where
  "protected_entry s p i \<longleftrightarrow> p = k_pml4 s \<and> i = 511 \<or> p = k_pdpt s \<and> i = 510 \<or> p = k_pd s \<and> i = 0 \<or>
     p = k_pt s \<and> i < 511"

lemma less_511: "(i :: u64) < 511 \<Longrightarrow> i < 512"
  by (simp add: word_less_nat_alt)

lemma kernel_mapped_store:
  assumes "kernel_mapped s" "page_aligned p" "i < 512" "\<not> protected_entry s p i"
  shows "kernel_mapped (s\<lparr>mem := store64 (entry_at p i) v (mem s)\<rparr>)"
proof -
  note km = kernel_mappedD [OF assms(1)]
  have "k_entry (s\<lparr>mem := store64 (entry_at p i) v (mem s)\<rparr>) q j = k_entry s q j"
    if "protected_entry s q j" for q j
  proof -
    have "page_aligned q" "j < 512"
      using that km(1-3) by (auto simp: protected_entry_def less_511)
    then show ?thesis using that assms by (auto simp: load64_entry_store)
  qed
  then show ?thesis using km unfolding kernel_mapped_def by (simp add: protected_entry_def)
qed

lemma kernel_mapped_cong:
  assumes "kernel_mapped s" "\<And>a. page_of a \<in> ktables s \<Longrightarrow> m a = mem s a"
  shows "kernel_mapped (s\<lparr>mem := m\<rparr>)"
proof -
  note km = kernel_mappedD [OF assms(1)]
  have "k_entry (s\<lparr>mem := m\<rparr>) q j = k_entry s q j" if "protected_entry s q j" for q j
  proof -
    have q: "page_aligned q" "j < 512" "q \<in> ktables s"
      using that km(1-3) by (auto simp: protected_entry_def less_511 ktables_def)
    then show ?thesis using assms(2) by (auto intro!: load64_entry_cong)
  qed
  then show ?thesis using km unfolding kernel_mapped_def by (simp add: protected_entry_def)
qed

lemma window_entry:
  assumes "kernel_mapped s" "page_aligned p" "unat p < 0x1FF000" "i < 512"
  shows "table_get (p + HIGHER_HALF_BASE) i s = Some (k_entry s p i)"
    and "table_set (p + HIGHER_HALF_BASE) i v s = Some (s\<lparr>mem := store64 (entry_at p i) v (mem s)\<rparr>)"
proof -
  obtain k where k: "unat p = 4096 * k" using assms(2) by (auto simp: page_aligned_iff mod_eq_0_iff_dvd dvd_def)
  have "unat i < 512" using assms(4) by (simp add: word_less_nat_alt)
  moreover have "k < 511" using assms(3) k by simp
  ultimately have "unat (slot p i) < 0x1FF000" unfolding unat_slot [OF assms(2,4)] k by linarith
  note walk = window_walk(1) [OF assms(1) this]
  have eq: "slot (p + HIGHER_HALF_BASE) i = slot p i + HIGHER_HALF_BASE" by simp
  have "translate s (slot (p + HIGHER_HALF_BASE) i) = Some (slot p i)" unfolding eq by (rule walk)
  then show "table_get (p + HIGHER_HALF_BASE) i s = Some (k_entry s p i)"
    and "table_set (p + HIGHER_HALF_BASE) i v s = Some (s\<lparr>mem := store64 (entry_at p i) v (mem s)\<rparr>)"
    by (simp_all add: kload64_def kstore64_def entry_at_def)
qed

lemma scratch_map_eq:
  assumes "kernel_mapped s"
  shows "scratch_map pa s = Some (SCRATCH_VA,
      s\<lparr>mem := store64 (entry_at (k_pt s) 511) (page_of pa OR rw_flags) (mem s)\<rparr>)"
    and "kernel_mapped (s\<lparr>mem := store64 (entry_at (k_pt s) 511) (page_of pa OR rw_flags) (mem s)\<rparr>)"
proof -
  note km = kernel_mappedD [OF assms]
  have i: "(511 :: u64) < 512" by simp
  show "scratch_map pa s = Some (SCRATCH_VA,
      s\<lparr>mem := store64 (entry_at (k_pt s) 511) (page_of pa OR rw_flags) (mem s)\<rparr>)"
    using window_entry(2) [OF assms km(3,6) i, of "page_of pa OR rw_flags"]
    by (simp add: scratch_map_def SCRATCH_PT_IDX_def paging_invalidate_page_def page_of_def)
  show "kernel_mapped (s\<lparr>mem := store64 (entry_at (k_pt s) 511) (page_of pa OR rw_flags) (mem s)\<rparr>)"
    using km(16) by (intro kernel_mapped_store assms km i) (auto simp: protected_entry_def)
qed

text \<open>A table that the code reaches through pointer \<open>v\<close>: through the window, or through the
  scratch page if that shows its frame at the moment.\<close>

definition shows_table :: "'a machine_scheme \<Rightarrow> u64 \<Rightarrow> u64 \<Rightarrow> bool" where
  "shows_table s v p \<longleftrightarrow> v = p + HIGHER_HALF_BASE \<and> unat p < 0x1FF000 \<or>
     v = SCRATCH_VA \<and> page_of (k_entry s (k_pt s) 511) = p \<and> present (k_entry s (k_pt s) 511)"

lemma shows_table_entry:
  assumes "kernel_mapped s" "page_aligned p" "shows_table s v p" "i < 512"
  shows "table_get v i s = Some (k_entry s p i)"
    and "table_set v i x s = Some (s\<lparr>mem := store64 (entry_at p i) x (mem s)\<rparr>)"
proof -
  show "table_get v i s = Some (k_entry s p i)"
  proof (cases "v = p + HIGHER_HALF_BASE \<and> unat p < 0x1FF000")
    case True
    then show ?thesis using window_entry(1) [OF assms(1,2) _ assms(4)] by simp
  next
    case False
    then show ?thesis using assms(3) scratch_walk(1) [OF assms(1) slot_less [OF assms(4)]]
      by (auto simp: shows_table_def kload64_def entry_at_def)
  qed
  show "table_set v i x s = Some (s\<lparr>mem := store64 (entry_at p i) x (mem s)\<rparr>)"
  proof (cases "v = p + HIGHER_HALF_BASE \<and> unat p < 0x1FF000")
    case True
    then show ?thesis using window_entry(2) [OF assms(1,2) _ assms(4)] by simp
  next
    case False
    then show ?thesis using assms(3) scratch_walk(1) [OF assms(1) slot_less [OF assms(4)]]
      by (auto simp: shows_table_def kstore64_def entry_at_def)
  qed
qed

lemma aligned_below_2m:
  assumes "page_aligned p" "p < 0x200000" "p \<noteq> 0x1FF000"
  shows "unat p < 0x1FF000"
proof -
  obtain k where k: "unat p = 4096 * k" using assms(1) by (auto simp: page_aligned_iff mod_eq_0_iff_dvd dvd_def)
  have "unat p < 2097152" "unat p \<noteq> 2093056" using assms(2,3) by (simp_all add: word_less_nat_alt word_unat_eq_iff)
  then show ?thesis unfolding k by simp
qed

lemma virt_for_phys_eq:
  assumes "kernel_mapped s" "page_aligned p" "p \<noteq> 0x1FF000"
  obtains v m where "virt_for_phys p s = Some (v, s\<lparr>mem := m\<rparr>)" "kernel_mapped (s\<lparr>mem := m\<rparr>)"
    "shows_table (s\<lparr>mem := m\<rparr>) v p" "m = mem s \<or> m = store64 (entry_at (k_pt s) 511) (p OR rw_flags) (mem s)"
proof (cases "p < 0x200000")
  case True
  have "unat p < 0x1FF000" by (rule aligned_below_2m [OF assms(2) True assms(3)])
  with True assms(1) show ?thesis
    by (intro that [of "p + HIGHER_HALF_BASE" "mem s"]) (simp_all add: virt_for_phys_def shows_table_def)
next
  case False
  have i: "(511 :: u64) < 512" by simp
  have "load64 (store64 (entry_at (k_pt s) 511) (p OR rw_flags) (mem s)) (entry_at (k_pt s) 511) = p OR rw_flags"
    using load64_entry_store [OF kernel_mappedD(3) [OF assms(1)] kernel_mappedD(3) [OF assms(1)] i i] by simp
  with False scratch_map_eq [OF assms(1), of p] assms(2) show ?thesis
    by (intro that [of SCRATCH_VA "store64 (entry_at (k_pt s) 511) (p OR rw_flags) (mem s)"])
      (simp_all add: virt_for_phys_def shows_table_def)
qed

section \<open>The kernel half\<close>

text \<open>
  The kernel runs on its static top-level table; the page tables that its page directory names
  beyond the window are separate frames, none of them free, none of them the scratch frame.
\<close>

definition pd_used :: "'a machine_scheme \<Rightarrow> u64 \<Rightarrow> bool" where
  "pd_used s i \<longleftrightarrow> 0 < i \<and> i < 512 \<and> present (k_entry s (k_pd s) i)"

abbreviation pd_table :: "'a machine_scheme \<Rightarrow> u64 \<Rightarrow> u64" where
  "pd_table s i \<equiv> page_of (k_entry s (k_pd s) i)"

definition kernel_space :: "'a paging_state_scheme \<Rightarrow> bool" where
  "kernel_space s \<longleftrightarrow> kernel_mapped s \<and> unat (k_pml4 s) < 0x1FF000 \<and> new_pml4 s = k_pml4 s + HIGHER_HALF_BASE \<and>
     pmm_ready s \<and> pmm_avail s \<inter> ktables s = {} \<and> 0x1FF000 \<notin> pmm_avail s \<and>
     (\<forall>i. pd_used s i \<longrightarrow> k_entry s (k_pd s) i AND PAGE_PS = 0 \<and>
        pd_table s i \<notin> ktables s \<union> {0x1FF000} \<union> pmm_avail s) \<and>
     (\<forall>i j. pd_used s i \<and> pd_used s j \<and> i \<noteq> j \<longrightarrow> pd_table s i \<noteq> pd_table s j)"

lemma kernel_spaceD:
  assumes "kernel_space s"
  shows "kernel_mapped s" "unat (k_pml4 s) < 0x1FF000" "new_pml4 s = k_pml4 s + HIGHER_HALF_BASE"
    "pmm_ready s" "pmm_avail s \<inter> ktables s = {}" "0x1FF000 \<notin> pmm_avail s"
    "pd_used s i \<Longrightarrow> k_entry s (k_pd s) i AND PAGE_PS = 0"
    "pd_used s i \<Longrightarrow> pd_table s i \<notin> ktables s" "pd_used s i \<Longrightarrow> pd_table s i \<noteq> 0x1FF000"
    "pd_used s i \<Longrightarrow> pd_table s i \<notin> pmm_avail s"
    "pd_used s i \<Longrightarrow> pd_used s j \<Longrightarrow> i \<noteq> j \<Longrightarrow> pd_table s i \<noteq> pd_table s j"
  using assms by (auto simp: kernel_space_def)

lemma avail_aligned: "pmm_ready s \<Longrightarrow> f \<in> pmm_avail s \<Longrightarrow> page_aligned f"
  using frames_free_bound frame_to_addr_aligned by (fastforce simp: pmm_avail_def pmm_ready_def)

text \<open>A level whose entry is present and names a table below the scratch page.\<close>

lemma and_neg_4096 [simp]: "(x :: u64) AND - 4096 = page_of x"
  by (simp add: page_of_def)

lemma map_level_low:
  assumes "kernel_mapped s" "page_aligned p" "unat p < 0x1FF000" "i < 512"
    "present (k_entry s p i)" "unat (page_of (k_entry s p i)) < 0x1FF000"
  shows "map_level (p + HIGHER_HALF_BASE) i fl s = Some (Inr (page_of (k_entry s p i) + HIGHER_HALF_BASE, s))"
proof -
  have "page_of (k_entry s p i) < 0x200000" using assms(6) by (simp add: word_less_nat_alt)
  with assms(5) show ?thesis
    unfolding map_level_def window_entry(1) [OF assms(1-4)]
    by (simp add: virt_for_phys_def window_entry(1) [OF assms(1-4)])
qed

lemma ktables_mem [simp]: "ktables (s\<lparr>mem := m\<rparr>) = ktables s"
  by (simp add: ktables_def)

lemma store_outside:
  assumes "page_aligned p" "i < 512" "page_of a \<noteq> p"
  shows "store64 (entry_at p i) v m a = m a"
  using store64_other_page [OF assms] by (simp only: entry_at_def)

text \<open>Allocating, clearing and linking a new page table.\<close>

lemma fresh_table:
  assumes "kernel_mapped s" "page_aligned f" "f \<notin> ktables s" "i < 512" "0 < i"
    and fl: "page_of fl = 0" "present fl" "fl AND PAGE_PS = 0"
  defines "m \<equiv> store64 (entry_at (k_pd s) i) (f OR fl)
      (zero_page f (store64 (entry_at (k_pt s) 511) (f OR rw_flags) (mem s)))"
  shows "\<exists>s1 s2. scratch_map f s = Some (SCRATCH_VA, s1) \<and> memset SCRATCH_VA 0 4096 s1 = Some s2 \<and>
      table_set (k_pd s + HIGHER_HALF_BASE) i (f OR fl) s2 = Some (s\<lparr>mem := m\<rparr>)"
    and "kernel_mapped (s\<lparr>mem := m\<rparr>)" and "shows_table (s\<lparr>mem := m\<rparr>) SCRATCH_VA f"
    and "k_entry (s\<lparr>mem := m\<rparr>) (k_pd s) i = f OR fl"
    and "\<And>j. j < 512 \<Longrightarrow> j \<noteq> i \<Longrightarrow> k_entry (s\<lparr>mem := m\<rparr>) (k_pd s) j = k_entry s (k_pd s) j"
    and "\<And>j. j < 512 \<Longrightarrow> k_entry (s\<lparr>mem := m\<rparr>) f j = 0"
    and "\<And>a. page_of a \<notin> ktables s \<Longrightarrow> page_of a \<noteq> f \<Longrightarrow> m a = mem s a"
proof -
  let ?m1 = "store64 (entry_at (k_pt s) 511) (f OR rw_flags) (mem s)"
  let ?s1 = "s\<lparr>mem := ?m1\<rparr>" and ?s2 = "s\<lparr>mem := zero_page f ?m1\<rparr>"
  note km = kernel_mappedD [OF assms(1)]
  have i511: "(511 :: u64) < 512" by simp
  have f: "f \<noteq> k_pml4 s" "f \<noteq> k_pdpt s" "f \<noteq> k_pd s" "f \<noteq> k_pt s" using assms(3) by (auto simp: ktables_def)
  have al: "page_aligned (k_pml4 s)" by simp
  note s1 = scratch_map_eq [OF assms(1), of f, unfolded assms(2)]
  have e1: "k_entry ?s1 (k_pt ?s1) 511 = f OR rw_flags"
    using load64_entry_store [OF km(3) km(3) i511 i511] by simp
  have bk: "backed ?s1 SCRATCH_VA f"
    unfolding backed_def
  proof (intro conjI allI impI)
    show "page_aligned f" by (rule assms(2))
    fix off :: u64 assume off: "off < 4096"
    have "present (f OR rw_flags)" "page_of (f OR rw_flags) = f" using assms(2) by simp_all
    then show "translate ?s1 (SCRATCH_VA + off) = Some (f + off)"
      using scratch_walk(1) [OF s1(2) off] unfolding e1 Let_def by simp
    show "f \<notin> walk_tables (mem ?s1) (cr3 ?s1) (SCRATCH_VA + off)"
      using scratch_walk(2) [OF s1(2) off] assms(3) by simp
  qed
  have z: "memset SCRATCH_VA 0 4096 ?s1 = Some ?s2" using memset_page [OF bk] by simp
  have "kernel_mapped (?s1\<lparr>mem := zero_page f ?m1\<rparr>)"
    by (rule kernel_mapped_cong [OF s1(2)]) (use assms(3) in \<open>auto simp: zero_page_def\<close>)
  then have km2: "kernel_mapped ?s2" by simp
  have st: "table_set (k_pd s + HIGHER_HALF_BASE) i (f OR fl) ?s2 = Some (s\<lparr>mem := m\<rparr>)"
    using window_entry(2) [OF km2 _ _ assms(4), of "k_pd s" "f OR fl"] km(2,5) by (simp add: m_def)
  show "\<exists>s1 s2. scratch_map f s = Some (SCRATCH_VA, s1) \<and> memset SCRATCH_VA 0 4096 s1 = Some s2 \<and>
      table_set (k_pd s + HIGHER_HALF_BASE) i (f OR fl) s2 = Some (s\<lparr>mem := m\<rparr>)"
    using s1(1) z st by blast
  have np: "\<not> protected_entry ?s2 (k_pd s) i" using assms(5) km(16) by (auto simp: protected_entry_def)
  show "kernel_mapped (s\<lparr>mem := m\<rparr>)"
    using kernel_mapped_store [OF km2 km(2) assms(4) np, of "f OR fl"] by (simp add: m_def)
  have z2: "load64 (zero_page f ?m1) (entry_at q j) = (if q = f then 0 else load64 ?m1 (entry_at q j))"
    if "page_aligned q" "j < 512" for q j
    using load64_zero_page [OF assms(2) that] by (simp only: entry_at_def)
  have look: "load64 m (entry_at q j) = (if k_pd s = q \<and> i = j then f OR fl else if q = f then 0
      else if k_pt s = q \<and> 511 = j then f OR rw_flags else k_entry s q j)"
    if "page_aligned q" "j < 512" for q j
    unfolding m_def load64_entry_store [OF km(2) that(1) assms(4) that(2)] z2 [OF that]
      load64_entry_store [OF km(3) that(1) i511 that(2)] by simp
  show "shows_table (s\<lparr>mem := m\<rparr>) SCRATCH_VA f"
    using look [OF km(3) i511] f km(16) assms(2) by (simp add: shows_table_def)
  show "k_entry (s\<lparr>mem := m\<rparr>) (k_pd s) i = f OR fl" using look [OF km(2) assms(4)] by simp
  show "k_entry (s\<lparr>mem := m\<rparr>) (k_pd s) j = k_entry s (k_pd s) j" if "j < 512" "j \<noteq> i" for j
    using look [OF km(2) that(1)] that(2) f km(16) by auto
  show "k_entry (s\<lparr>mem := m\<rparr>) f j = 0" if "j < 512" for j
    using look [OF assms(2) that] f by simp
  show "m a = mem s a" if "page_of a \<notin> ktables s" "page_of a \<noteq> f" for a
    using that km(2,3) assms(4) unfolding m_def
    by (simp add: store_outside zero_page_def ktables_def)
qed

lemma kernel_mapped_same:
  assumes "mem t = mem s" "cr3 t = cr3 s" "syms t = syms s"
  shows "kernel_mapped t = kernel_mapped s" "ktables t = ktables s"
  by (simp_all add: kernel_mapped_def ktables_def assms)

lemma kernel_space_cong:
  assumes "kernel_space s" "kernel_mapped t" "cr3 t = cr3 s" "syms t = syms s" "new_pml4 t = new_pml4 s"
    "\<And>j. j < 512 \<Longrightarrow> k_entry t (k_pd s) j = k_entry s (k_pd s) j" "pmm_ready t" "pmm_avail t \<subseteq> pmm_avail s"
  shows "kernel_space t"
proof -
  note k = kernel_spaceD [OF assms(1)]
  have used: "pd_used t j = pd_used s j" for j using assms(4,6) by (auto simp: pd_used_def)
  have ent: "k_entry t (k_pd t) j = k_entry s (k_pd s) j" if "pd_used s j" for j
    using assms(4,6) that by (simp add: pd_used_def)
  have kt: "ktables t = ktables s" by (simp add: ktables_def assms(3,4))
  show ?thesis
    unfolding kernel_space_def used kt
  proof (intro conjI allI impI)
    show "kernel_mapped t" "pmm_ready t" by (rule assms)+
    show "unat (k_pml4 t) < 0x1FF000" "new_pml4 t = k_pml4 t + HIGHER_HALF_BASE"
      using k(2,3) by (simp_all add: assms)
    show "pmm_avail t \<inter> ktables s = {}" "0x1FF000 \<notin> pmm_avail t" using k(5,6) assms(8) by auto
    fix i
    { assume u: "pd_used s i"
      show "k_entry t (k_pd t) i AND PAGE_PS = 0" "pd_table t i \<notin> ktables s \<union> {0x1FF000} \<union> pmm_avail t"
        using k(7-10) [OF u] assms(8) by (auto simp: ent [OF u]) }
    fix j assume "pd_used s i \<and> pd_used s j \<and> i \<noteq> j"
    then show "pd_table t i \<noteq> pd_table t j" using k(11) ent by auto
  qed
qed

lemma pmm_mem_update [simp]:
  "pmm_avail (s\<lparr>mem := m\<rparr>) = pmm_avail s" "pmm_ready (s\<lparr>mem := m\<rparr>) = pmm_ready s"
  by (simp_all add: pmm_avail_def frames_free_def frames_marked_def bitmap_test_def pmm_ready_def pmm_inv_def frames_used_def)

text \<open>
  The outcome of the page-directory level: \<open>v\<close> points to the page table \<open>p\<close> of entry \<open>i\<close>, which is
  the one that was there, or a cleared one in a frame that was free.
\<close>

definition pt_linked ::
  "'a paging_state_scheme \<Rightarrow> u64 \<Rightarrow> u64 \<Rightarrow> 'a paging_state_scheme \<Rightarrow> u64 \<Rightarrow> bool" where
  "pt_linked s i v t p \<longleftrightarrow>
     kernel_space t \<and> shows_table t v p \<and> pd_used t i \<and> pd_table t i = p \<and>
     t = s\<lparr>mem := mem t, bitmap := bitmap t, used_frames := used_frames t\<rparr> \<and> pmm_avail t = pmm_avail s - {p} \<and>
     (\<forall>j. j < 512 \<and> j \<noteq> i \<longrightarrow> k_entry t (k_pd s) j = k_entry s (k_pd s) j) \<and>
     (if pd_used s i then pd_table s i = p \<and> (\<forall>j<512. k_entry t p j = k_entry s p j)
      else p \<in> pmm_avail s - pmm_avail t \<and> (\<forall>j<512. k_entry t p j = 0)) \<and>
     (\<forall>a. page_of a \<notin> ktables s \<and> page_of a \<noteq> p \<longrightarrow> mem t a = mem s a)"

lemma map_level_pd_present:
  assumes ks: "kernel_space s" and u: "pd_used s i"
  shows "\<exists>v t p. map_level (k_pd s + HIGHER_HALF_BASE) i fl s = Some (Inr (v, t)) \<and> pt_linked s i v t p"
proof -
  note k = kernel_spaceD [OF ks] and km = kernel_mappedD [OF kernel_spaceD(1) [OF ks]]
  let ?p = "pd_table s i"
  have i: "i < 512" "present (k_entry s (k_pd s) i)" using u by (simp_all add: pd_used_def)
  have i511: "(511 :: u64) < 512" by simp
  obtain v m where v: "virt_for_phys ?p s = Some (v, s\<lparr>mem := m\<rparr>)" "kernel_mapped (s\<lparr>mem := m\<rparr>)"
    "shows_table (s\<lparr>mem := m\<rparr>) v ?p" "m = mem s \<or> m = store64 (entry_at (k_pt s) 511) (?p OR rw_flags) (mem s)"
    by (rule virt_for_phys_eq [OF k(1) page_of_idem k(9) [OF u]])
  let ?t = "s\<lparr>mem := m\<rparr>"
  have ent: "load64 m (entry_at q j) = k_entry s q j" if "page_aligned q" "j < 512" "q \<noteq> k_pt s" for q j
    using v(4) that load64_entry_store [OF km(3) that(1) i511 that(2)] by auto
  have pd: "load64 m (entry_at (k_pd s) j) = k_entry s (k_pd s) j" if "j < 512" for j
    using ent [OF km(2) that] km(16) by simp
  have space: "kernel_space ?t" by (rule kernel_space_cong [OF ks v(2)]) (simp_all add: pd k(4))
  have "map_level (k_pd s + HIGHER_HALF_BASE) i fl s = Some (Inr (v, ?t))"
    using i(2) v(1) window_entry(1) [OF k(1) km(2,5) i(1)] by (simp add: map_level_def)
  have "?p \<noteq> k_pt s" using k(8) [OF u] by (auto simp: ktables_def)
  then have same: "load64 m (entry_at ?p j) = k_entry s ?p j" if "j < 512" for j using ent that by simp
  have out: "m a = mem s a" if "page_of a \<notin> ktables s" for a
    using v(4) that store_outside [OF km(3) i511, of a] by (auto simp: ktables_def)
  have "pt_linked s i v ?t ?p"
    using space v(3) u pd same out i k(10) [OF u] unfolding pt_linked_def by (simp add: pd_used_def)
  with \<open>map_level _ _ _ _ = _\<close> show ?thesis by blast
qed

lemma map_level_pd_full:
  assumes ks: "kernel_space s" and i: "0 < i" "i < 512" "\<not> pd_used s i" and none: "pmm_avail s = {}"
  shows "map_level (k_pd s + HIGHER_HALF_BASE) i fl s = Some (Inl s)"
proof -
  note k = kernel_spaceD [OF ks] and km = kernel_mappedD [OF kernel_spaceD(1) [OF ks]]
  have "k_entry s (k_pd s) i AND PAGE_PRESENT = 0" using i by (auto simp: pd_used_def)
  then show ?thesis
    using window_entry(1) [OF k(1) km(2,5) i(2)] pmm.alloc_empty [OF k(4) none]
    by (simp add: map_level_def)
qed

lemma map_level_pd_new:
  fixes s :: "'a paging_state_scheme"
  assumes ks: "kernel_space s" and i: "0 < i" "i < 512" "\<not> pd_used s i" and some: "pmm_avail s \<noteq> {}"
  shows "\<exists>v t p. map_level (k_pd s + HIGHER_HALF_BASE) i rw_user_flags s = Some (Inr (v, t)) \<and> pt_linked s i v t p"
proof -
  note k = kernel_spaceD [OF ks] and km = kernel_mappedD [OF kernel_spaceD(1) [OF ks]]
  obtain f u where fu: "pmm_alloc_frame s = (f, u)" by fastforce
  have f: "f \<noteq> 0" "f \<in> pmm_avail s" "pmm_avail u = pmm_avail s - {f}" "pmm_ready u"
    using pmm.alloc_cases [OF k(4) fu] some by auto
  obtain b n where u: "u = s\<lparr>bitmap := b, used_frames := n\<rparr>"
    using pmm_alloc_frame_eq [of s] unfolding fu snd_conv by (rule bitmap_eqE)
  have uk: "kernel_mapped u" "ktables u = ktables s" and same: "mem u = mem s" "cr3 u = cr3 s" "syms u = syms s"
    using kernel_mapped_same [of u s] k(1) by (simp_all add: u)
  have fal: "page_aligned f" by (rule avail_aligned [OF k(4) f(2)])
  have fk: "f \<notin> ktables u" "f \<noteq> 0x1FF000" using f(2) k(5,6) uk(2) by auto
  have fl: "page_of rw_user_flags = 0" "present rw_user_flags" "rw_user_flags AND PAGE_PS = 0"
    by (simp add: page_of_or, simp add: present_or, simp add: page_flag_defs)
  define m where "m = store64 (entry_at (k_pd u) i) (f OR rw_user_flags)
      (zero_page f (store64 (entry_at (k_pt u) 511) (f OR rw_flags) (mem u)))"
  note fr = fresh_table [OF uk(1) fal fk(1) i(2,1) fl, folded m_def]
  let ?w = "u\<lparr>mem := m\<rparr>"
  obtain v m' where v: "virt_for_phys f ?w = Some (v, ?w\<lparr>mem := m'\<rparr>)" "kernel_mapped (?w\<lparr>mem := m'\<rparr>)"
    "shows_table (?w\<lparr>mem := m'\<rparr>) v f"
    "m' = mem ?w \<or> m' = store64 (entry_at (k_pt ?w) 511) (f OR rw_flags) (mem ?w)"
    by (rule virt_for_phys_eq [OF fr(2) fal fk(2)])
  let ?t = "u\<lparr>mem := m'\<rparr>"
  have teq: "?w\<lparr>mem := m'\<rparr> = ?t" by simp
  have i511: "(511 :: u64) < 512" by simp
  have al: "page_aligned (k_pd u)" "page_aligned (k_pt u)" using km(2,3) same by simp_all
  have ne: "k_pd u \<noteq> k_pt u" "f \<noteq> k_pt u" "f \<noteq> k_pd u" using km(16) fk(1) same by (auto simp: ktables_def)
  have ent: "load64 m' (entry_at q j) = load64 m (entry_at q j)" if "page_aligned q" "j < 512" "q \<noteq> k_pt u" for q j
    using v(4) that load64_entry_store [OF al(2) that(1) i511 that(2)] by auto
  have pdi: "load64 m' (entry_at (k_pd u) i) = f OR rw_user_flags"
    using ent [OF al(1) i(2)] ne fr(4) by simp
  have pdj: "load64 m' (entry_at (k_pd u) j) = load64 (mem s) (entry_at (k_pd u) j)" if "j < 512" "j \<noteq> i" for j
    using ent [OF al(1) that(1)] ne fr(5) [OF that] same by simp
  have pt0: "load64 m' (entry_at f j) = 0" if "j < 512" for j
    using ent [OF fal that] ne fr(6) [OF that] by simp
  have out: "m' a = mem s a" if "page_of a \<notin> ktables s" "page_of a \<noteq> f" for a
    using v(4) that fr(7) [of a] uk(2) same store_outside [OF al(2) i511, of a] by (auto simp: ktables_def)
  have lvl: "map_level (k_pd s + HIGHER_HALF_BASE) i rw_user_flags s = Some (Inr (v, ?t))"
  proof -
    have e: "k_entry s (k_pd s) i AND PAGE_PRESENT = 0" using i by (auto simp: pd_used_def)
    obtain s1 s2 where st: "scratch_map f u = Some (SCRATCH_VA, s1)" "memset SCRATCH_VA 0 4096 s1 = Some s2"
      "table_set (k_pd u + HIGHER_HALF_BASE) i (f OR rw_user_flags) s2 = Some ?w"
      using fr(1) by blast
    have "table_get (k_pd ?w + HIGHER_HALF_BASE) i ?w = Some (f OR rw_user_flags)"
      using window_entry(1) [OF fr(2) _ _ i(2), of "k_pd u"] al(1) km(5) fr(4) same by simp
    then show ?thesis
      using window_entry(1) [OF k(1) km(2,5) i(2)] e fu f(1) st v(1) fal same
      by (simp add: map_level_def)
  qed
  have used: "pd_used ?t j \<longleftrightarrow> pd_used s j \<or> j = i" for j
    using i pdi pdj [of j] same by (cases "j = i") (auto simp: pd_used_def)
  have tab: "pd_table ?t j = (if j = i then f else pd_table s j)" if "pd_used ?t j" for j
    using pdi pdj [of j] that same fal by (simp add: pd_used_def)
  have ps: "k_entry ?t (k_pd ?t) j AND PAGE_PS = 0" if "pd_used ?t j" for j
  proof (cases "j = i")
    case True
    then show ?thesis using pdi no_ps(2) [OF fal] by simp
  next
    case False
    then show ?thesis using k(7) [of j] that used [of j] pdj [of j] same by (simp add: pd_used_def)
  qed
  have space: "kernel_space ?t"
    unfolding kernel_space_def
  proof (intro conjI allI impI)
    show "kernel_mapped ?t" using v(2) unfolding teq .
    show "unat (k_pml4 ?t) < 0x1FF000" "new_pml4 ?t = k_pml4 ?t + HIGHER_HALF_BASE"
      using k(2,3) by (simp_all add: u)
    show "pmm_ready ?t" "pmm_avail ?t \<inter> ktables ?t = {}" "0x1FF000 \<notin> pmm_avail ?t"
      using f(3,4) k(5,6) uk(2) by auto
    fix j
    { assume "pd_used ?t j"
      then show "k_entry ?t (k_pd ?t) j AND PAGE_PS = 0" by (rule ps)
    next
      assume j: "pd_used ?t j"
      show "pd_table ?t j \<notin> ktables ?t \<union> {0x1FF000} \<union> pmm_avail ?t"
        using k(8-10) [of j] fk f(3) uk(2) used [of j] j unfolding tab [OF j] by auto }
    fix j' assume "pd_used ?t j \<and> pd_used ?t j' \<and> j \<noteq> j'"
    then show "pd_table ?t j \<noteq> pd_table ?t j'"
      using k(10,11) f(2) used tab by auto
  qed
  have "pt_linked s i v ?t f"
    unfolding pt_linked_def
    using space v(3) [unfolded teq] used [of i] tab [of i] f(2,3) i(3) pdj pt0 out same by (simp add: u)
  with lvl show ?thesis by blast
qed

section \<open>Mapping a page of the kernel half\<close>

text \<open>Offsets from \<open>HIGHER_HALF_BASE\<close> that lie beyond the window and within the page directory.\<close>

definition heap_region :: "u64 \<Rightarrow> bool" where
  "heap_region x \<longleftrightarrow> 0x200000 \<le> unat x \<and> unat x < 0x40000000"

lemma heap_region_index:
  assumes "heap_region x"
  shows "0 < pt_index 21 (x + HIGHER_HALF_BASE)" "unat x < 0x40000000"
  using assms higher_half_index(3) [of x] by (simp_all add: heap_region_def word_less_nat_alt div_greater_zero_iff)

lemma same_page_index:
  assumes "unat x < 0x40000000" "unat y < 0x40000000"
  shows "page_of y = page_of x \<longleftrightarrow>
    pt_index 21 (y + HIGHER_HALF_BASE) = pt_index 21 (x + HIGHER_HALF_BASE) \<and>
    pt_index 12 (y + HIGHER_HALF_BASE) = pt_index 12 (x + HIGHER_HALF_BASE)"
proof -
  have "page_of y = page_of x \<longleftrightarrow> unat y div 4096 = unat x div 4096"
    by (simp add: word_unat_eq_iff unat_page_of minus_mod_eq_div_mult)
  also have "\<dots> \<longleftrightarrow> unat y div 4096 div 512 = unat x div 4096 div 512 \<and> unat y div 4096 mod 512 = unat x div 4096 mod 512"
    by (metis div_mult_mod_eq)
  also have "\<dots> \<longleftrightarrow> unat y div 0x200000 = unat x div 0x200000 \<and> unat y div 4096 mod 512 = unat x div 4096 mod 512"
    by (simp flip: div_mult2_eq)
  finally show ?thesis
    using higher_half_index(3,4) [OF assms(1)] higher_half_index(3,4) [OF assms(2)]
    by (simp add: word_unat_eq_iff)
qed

text \<open>Writing the page-table entry, once the table is linked.\<close>

lemma pt_entry_written:
  fixes s t :: "'a paging_state_scheme" and e :: u64
  assumes ks: "kernel_space s" and x: "heap_region x"
    and l: "pt_linked s (pt_index 21 (x + HIGHER_HALF_BASE)) v t p"
  defines "i \<equiv> pt_index 21 (x + HIGHER_HALF_BASE)" and "j \<equiv> pt_index 12 (x + HIGHER_HALF_BASE)"
    and "u \<equiv> t\<lparr>mem := store64 (entry_at p (pt_index 12 (x + HIGHER_HALF_BASE))) e (mem t)\<rparr>"
  shows "table_set v j e t = Some u" "kernel_space u"
    "\<And>y. heap_region y \<Longrightarrow> translate u (y + HIGHER_HALF_BASE) =
      (if page_of y = page_of x then if present e then Some (page_of e OR (y AND 0xFFF)) else None
       else translate s (y + HIGHER_HALF_BASE))"
proof -
  note L = l [unfolded pt_linked_def, folded i_def]
  have kt: "kernel_space t" and sh: "shows_table t v p" and used: "pd_used t i" and tab: "pd_table t i = p"
    and sub: "pmm_avail t \<subseteq> pmm_avail s" and pdj: "\<And>k. k < 512 \<Longrightarrow> k \<noteq> i \<Longrightarrow> k_entry t (k_pd s) k = k_entry s (k_pd s) k"
    and old: "pd_used s i \<Longrightarrow> pd_table s i = p \<and> (\<forall>k<512. k_entry t p k = k_entry s p k)"
    and new: "\<not> pd_used s i \<Longrightarrow> p \<in> pmm_avail s - pmm_avail t \<and> (\<forall>k<512. k_entry t p k = 0)"
    and out: "\<And>a. page_of a \<notin> ktables s \<Longrightarrow> page_of a \<noteq> p \<Longrightarrow> mem t a = mem s a"
    using L by auto
  have teq: "t = s\<lparr>mem := mem t, bitmap := bitmap t, used_frames := used_frames t\<rparr>" using L by blast
  have same: "cr3 t = cr3 s" "syms t = syms s" by (subst teq, simp)+
  have kts: "ktables t = ktables s" by (simp add: ktables_def same)
  note k = kernel_spaceD [OF kt] and km = kernel_mappedD [OF kernel_spaceD(1) [OF kt]]
  have pal: "page_aligned p" using tab by auto
  have pk: "p \<notin> ktables t" using k(8) [OF used] tab by simp
  have j: "j < 512" and i: "i < 512" "0 < i" using heap_region_index(1) [OF x] by (simp_all add: i_def j_def)
  show set: "table_set v j e t = Some u"
    using shows_table_entry(2) [OF k(1) pal sh j] by (simp add: u_def j_def)
  have "\<not> protected_entry t p j" using pk by (auto simp: protected_entry_def ktables_def)
  then have kmu: "kernel_mapped u"
    unfolding u_def by (intro kernel_mapped_store k pal) (simp_all add: j_def)
  have ent: "k_entry u q n = (if p = q \<and> j = n then e else k_entry t q n)"
    if "page_aligned q" "n < 512" for q n
    using load64_entry_store [OF pal that(1) j that(2)] by (simp add: u_def j_def)
  have ne: "p \<noteq> k_pd t" using pk by (auto simp: ktables_def)
  have pdu: "k_entry u (k_pd t) n = k_entry t (k_pd t) n" if "n < 512" for n using ent [OF km(2) that] ne by simp
  show ksu: "kernel_space u"
    by (rule kernel_space_cong [OF kt kmu]) (use pdu k(4) in \<open>simp_all add: u_def\<close>)
  have ucr: "cr3 u = cr3 s" "syms u = syms s" by (simp_all add: u_def same)
  fix y assume y: "heap_region y"
  let ?i = "pt_index 21 (y + HIGHER_HALF_BASE)" and ?j = "pt_index 12 (y + HIGHER_HALF_BASE)"
  have y': "unat y < 0x40000000" and x': "unat x < 0x40000000" using x y by (simp_all add: heap_region_def)
  have iy: "0 < ?i" using heap_region_index(1) [OF y] .
  have eqs: "page_of y = page_of x \<longleftrightarrow> ?i = i \<and> ?j = j" using same_page_index [OF x' y'] by (simp add: i_def j_def)
  have e2: "k_entry u (k_pd u) ?i = k_entry t (k_pd t) ?i" using pdu [of ?i] same ucr by simp
  show "translate u (y + HIGHER_HALF_BASE) =
      (if page_of y = page_of x then if present e then Some (page_of e OR (y AND 0xFFF)) else None
       else translate s (y + HIGHER_HALF_BASE))"
  proof (cases "?i = i")
    case True
    have ps: "k_entry t (k_pd t) i AND PAGE_PS = 0" "present (k_entry t (k_pd t) i)"
      using k(7) [OF used] used by (simp_all add: pd_used_def)
    have e1: "k_entry u p ?j = (if page_of y = page_of x then e else k_entry t p ?j)"
      using ent [OF pal, of ?j] eqs True by auto
    have "translate u (y + HIGHER_HALF_BASE) =
        (let e1 = k_entry u p ?j in if \<not> present e1 then None else Some (page_of e1 OR (y AND 0xFFF)))"
      unfolding kernel_walk [OF kmu y'] Let_def e2 using ps True tab by simp
    moreover have "translate s (y + HIGHER_HALF_BASE) =
        (let e1 = k_entry t p ?j in if \<not> present e1 then None else Some (page_of e1 OR (y AND 0xFFF)))"
    proof (cases "pd_used s i")
      case True
      have "present (k_entry s (k_pd s) i)" "k_entry s (k_pd s) i AND PAGE_PS = 0"
        using True kernel_spaceD(7) [OF ks True] by (simp_all add: pd_used_def)
      with old [OF True] \<open>?i = i\<close> show ?thesis
        unfolding kernel_walk [OF kernel_spaceD(1) [OF ks] y'] Let_def by simp
    next
      case False
      then have "\<not> present (k_entry s (k_pd s) i)" using i by (simp add: pd_used_def)
      with new [OF False] \<open>?i = i\<close> show ?thesis
        unfolding kernel_walk [OF kernel_spaceD(1) [OF ks] y'] Let_def by simp
    qed
    ultimately show ?thesis unfolding e1 Let_def by (cases "page_of y = page_of x") simp_all
  next
    case False
    have e2s: "k_entry t (k_pd t) ?i = k_entry s (k_pd s) ?i" using pdj [of ?i] False same by simp
    have "k_entry u (pd_table s ?i) ?j = k_entry s (pd_table s ?i) ?j" if "present (k_entry s (k_pd s) ?i)"
    proof -
      have us: "pd_used s ?i" "pd_used t ?i" using that iy e2s by (simp_all add: pd_used_def)
      have q: "pd_table s ?i \<notin> ktables s" using kernel_spaceD(8) [OF ks us(1)] .
      have qp: "pd_table s ?i \<noteq> p" using k(11) [OF us(2) used] False tab e2s by simp
      have "k_entry u (pd_table s ?i) ?j = k_entry t (pd_table s ?i) ?j" using ent [of "pd_table s ?i" ?j] qp by auto
      also have "\<dots> = k_entry s (pd_table s ?i) ?j"
        by (rule load64_entry_cong) (use out q qp in auto)
      finally show ?thesis .
    qed
    then show ?thesis
      using False eqs unfolding kernel_walk [OF kmu y'] kernel_walk [OF kernel_spaceD(1) [OF ks] y'] Let_def e2 e2s
      by auto
  qed
qed

lemma paging_map_page_steps:
  assumes ks: "kernel_space s" and x: "heap_region x"
  shows "paging_map_page (x + HIGHER_HALF_BASE) phys fl s =
    do { r \<leftarrow> map_level (k_pd s + HIGHER_HALF_BASE) (pt_index 21 (x + HIGHER_HALF_BASE)) rw_user_flags s;
         case r of Inl s \<Rightarrow> Some (- 1, s)
         | Inr (pt, s) \<Rightarrow> do { s \<leftarrow> table_set pt (pt_index 12 (x + HIGHER_HALF_BASE)) (page_of phys OR fl) s;
                            Some (0, s) } }"
proof -
  note k = kernel_spaceD [OF ks] and km = kernel_mappedD [OF kernel_spaceD(1) [OF ks]]
  have ix: "pt_index 39 (x + HIGHER_HALF_BASE) = 511" "pt_index 30 (x + HIGHER_HALF_BASE) = 510"
    using higher_half_index(1,2) [OF heap_region_index(2) [OF x]] .
  have i: "(511 :: u64) < 512" "(510 :: u64) < 512" by simp_all
  have "unat (new_pml4 s) \<noteq> 0" using k(2) unfolding k(3) by (simp add: unat_higher_half)
  then have nz: "new_pml4 s \<noteq> 0" by auto
  have l1: "map_level (new_pml4 s) 511 f s = Some (Inr (k_pdpt s + HIGHER_HALF_BASE, s))" for f
    using map_level_low [OF k(1) page_of_idem k(2) i(1) km(7), of f] km(4) unfolding km(8) k(3) by simp
  have l2: "map_level (k_pdpt s + HIGHER_HALF_BASE) 510 f s = Some (Inr (k_pd s + HIGHER_HALF_BASE, s))" for f
    using map_level_low [OF k(1) km(1,4) i(2) km(9), of f] km(5) unfolding km(10) by simp
  show ?thesis
    unfolding paging_map_page_def Let_def ix l1 bind.bind_lunit sum.case prod.case l2
    using nz by (simp add: or.assoc paging_invalidate_page_def)
qed

lemma paging_map_page_linked:
  assumes ks: "kernel_space s" and x: "heap_region x" and fl: "page_of fl = 0" "present fl"
    and some: "pd_used s (pt_index 21 (x + HIGHER_HALF_BASE)) \<or> pmm_avail s \<noteq> {}"
  shows "\<exists>v t p u. pt_linked s (pt_index 21 (x + HIGHER_HALF_BASE)) v t p \<and>
    u = t\<lparr>mem := store64 (entry_at p (pt_index 12 (x + HIGHER_HALF_BASE))) (page_of phys OR fl) (mem t)\<rparr> \<and>
    paging_map_page (x + HIGHER_HALF_BASE) phys fl s = Some (0, u)"
proof -
  let ?i = "pt_index 21 (x + HIGHER_HALF_BASE)"
  have i: "0 < ?i" "?i < 512" using heap_region_index(1) [OF x] by simp_all
  obtain v t p where l: "map_level (k_pd s + HIGHER_HALF_BASE) ?i rw_user_flags s = Some (Inr (v, t))" "pt_linked s ?i v t p"
    using map_level_pd_present [OF ks] map_level_pd_new [OF ks i] some by metis
  with pt_entry_written(1) [OF ks x l(2), of "page_of phys OR fl"] show ?thesis
    unfolding paging_map_page_steps [OF ks x] l(1) by fastforce
qed

lemma paging_map_page_cases:
  assumes ks: "kernel_space s" and x: "heap_region x" and fl: "page_of fl = 0" "present fl"
  shows "if pd_used s (pt_index 21 (x + HIGHER_HALF_BASE)) \<or> pmm_avail s \<noteq> {}
    then \<exists>t. paging_map_page (x + HIGHER_HALF_BASE) phys fl s = Some (0, t) \<and> kernel_space t \<and>
      (\<forall>y. heap_region y \<longrightarrow> translate t (y + HIGHER_HALF_BASE) =
        (if page_of y = page_of x then Some (page_of phys OR (y AND 0xFFF)) else translate s (y + HIGHER_HALF_BASE)))
    else paging_map_page (x + HIGHER_HALF_BASE) phys fl s = Some (- 1, s)"
proof (cases "pd_used s (pt_index 21 (x + HIGHER_HALF_BASE)) \<or> pmm_avail s \<noteq> {}")
  case True
  obtain v t p u where l: "pt_linked s (pt_index 21 (x + HIGHER_HALF_BASE)) v t p"
    "u = t\<lparr>mem := store64 (entry_at p (pt_index 12 (x + HIGHER_HALF_BASE))) (page_of phys OR fl) (mem t)\<rparr>"
    "paging_map_page (x + HIGHER_HALF_BASE) phys fl s = Some (0, u)"
    using paging_map_page_linked [OF assms True] by blast
  note w = pt_entry_written(2,3) [OF ks x l(1), where e = "page_of phys OR fl", folded l(2)]
  have "present (page_of phys OR fl)" unfolding present_or using fl(2) by simp
  moreover have "page_of (page_of phys OR fl) = page_of phys" using fl(1) by (simp add: page_of_or)
  ultimately show ?thesis unfolding l(3) using True w by simp
next
  case False
  have i: "0 < pt_index 21 (x + HIGHER_HALF_BASE)" "pt_index 21 (x + HIGHER_HALF_BASE) < 512"
    using heap_region_index(1) [OF x] by simp_all
  have "map_level (k_pd s + HIGHER_HALF_BASE) (pt_index 21 (x + HIGHER_HALF_BASE)) rw_user_flags s = Some (Inl s)"
    using map_level_pd_full [OF ks i] False by blast
  with False show ?thesis unfolding paging_map_page_steps [OF ks x] by simp
qed


section \<open>Establishing the invariant\<close>

lemma init_kernel_mapped:
  fixes s :: "'a paging_state_scheme"
  assumes "tables_placed s"
    and low: "\<forall>p \<in> {frame_of (sym_pdpt_hi (syms s)), frame_of (sym_pd_hi (syms s)), frame_of (sym_pt_hi_kernel (syms s))}.
      unat p < 0x1FF000"
    and t: "paging_init s = Some t"
  shows "kernel_mapped t" "\<And>i. \<not> pd_used t i" "k_pml4 t = frame_of (sym_pml4_new (syms s))"
proof -
  let ?y = "syms s"
  have d: "distinct (static_tables ?y)" and al: "\<forall>p\<in>set (static_tables ?y). page_aligned p"
    using assms(1) by (simp_all add: tables_placed_def window_def)
  have teq: "t = s\<lparr>mem := init_memory ?y (mem s), new_pml4 := sym_pml4_new ?y, cr3 := frame_of (sym_pml4_new ?y)\<rparr>"
    using t paging_init_eq [OF assms(1)] by simp
  have als: "page_aligned (frame_of (sym_pml4_new ?y))" "page_aligned (frame_of (sym_pdpt_hi ?y))"
    "page_aligned (frame_of (sym_pd_hi ?y))" "page_aligned (frame_of (sym_pt_hi_kernel ?y))"
    using al by (simp_all add: static_tables_def)
  note ent = init_memory_entries [OF d al, folded entry_at_def]
  show pml4: "k_pml4 t = frame_of (sym_pml4_new ?y)" using als(1) by (simp add: teq)
  have sy: "syms t = ?y" "mem t = init_memory ?y (mem s)" by (simp_all add: teq)
  have ks: "(511 :: u64) < 512" "(510 :: u64) < 512" "(0 :: u64) < 512" by simp_all
  have pt: "present (load64 (init_memory ?y (mem s)) (entry_at (frame_of (sym_pt_hi_kernel ?y)) i)) \<and>
      page_of (load64 (init_memory ?y (mem s)) (entry_at (frame_of (sym_pt_hi_kernel ?y)) i)) = i * 4096"
    if "i < 511" for i
  proof -
    have "unat i < 0x100000" using that by (simp add: word_less_nat_alt)
    then show ?thesis using ent(6) [OF less_511 [OF that]] frame_number_aligned(1) [of i] by simp
  qed
  have dist: "distinct [frame_of (sym_pml4_new ?y), frame_of (sym_pdpt_hi ?y), frame_of (sym_pd_hi ?y),
      frame_of (sym_pt_hi_kernel ?y)]"
    using d by (simp add: static_tables_def)
  show "kernel_mapped t"
    unfolding kernel_mapped_def pml4 sy
    using low als dist pt ent(1) [OF ks(1)] ent(3) [OF ks(2)] ent(5) [OF ks(3)] no_ps(2) [OF als(4)] by simp
  show "\<not> pd_used t i" for i
    using ent(5) [of i] unfolding pd_used_def sy by auto
qed

lemma init_kernel_space:
  assumes "tables_placed s"
    "\<forall>p \<in> set (static_tables (syms s)). unat p < 0x1FF000"
    "pmm_ready s" "pmm_avail s \<inter> set (static_tables (syms s)) = {}" "0x1FF000 \<notin> pmm_avail s"
  shows "\<exists>t. paging_init s = Some t \<and> kernel_space t \<and> pmm_avail t = pmm_avail s"
proof -
  let ?y = "syms s"
  define t where "t = s\<lparr>mem := init_memory ?y (mem s), new_pml4 := sym_pml4_new ?y, cr3 := frame_of (sym_pml4_new ?y)\<rparr>"
  have t: "paging_init s = Some t" unfolding t_def by (rule paging_init_eq [OF assms(1)])
  have low: "\<forall>p \<in> {frame_of (sym_pdpt_hi ?y), frame_of (sym_pd_hi ?y), frame_of (sym_pt_hi_kernel ?y)}. unat p < 0x1FF000"
    "unat (frame_of (sym_pml4_new ?y)) < 0x1FF000"
    using assms(2) by (simp_all add: static_tables_def)
  note m = init_kernel_mapped [OF assms(1) low(1) t]
  have sy: "syms t = ?y" by (simp add: t_def)
  have kt: "ktables t \<subseteq> set (static_tables ?y)" unfolding ktables_def m(3) sy by (auto simp: static_tables_def)
  have av: "pmm_avail t = pmm_avail s" "pmm_ready t = pmm_ready s"
    by (simp_all add: t_def pmm_avail_def frames_free_def frames_marked_def bitmap_test_def pmm_ready_def pmm_inv_def
        frames_used_def)
  have "new_pml4 t = k_pml4 t + HIGHER_HALF_BASE" unfolding m(3) by (simp add: t_def)
  then have "kernel_space t"
    unfolding kernel_space_def av m(3) using m(1,2) low(2) assms(3-5) kt by auto
  with t av show ?thesis by blast
qed

text \<open>
  \<open>paging_init\<close> establishes the invariant of the kernel half, provided the linker placed the
  tables below the scratch page and the frame allocator gives out neither them nor the scratch
  frame 0x1FF000.
\<close>

theorem paging_init_kernel_space:
  assumes "tables_placed s"
    "\<forall>p \<in> set (static_tables (syms s)). unat p < 0x1FF000"
    "pmm_ready s" "pmm_avail s \<inter> set (static_tables (syms s)) = {}" "0x1FF000 \<notin> pmm_avail s"
  shows "\<exists>t. paging_init s = Some t \<and> kernel_space t"
  using init_kernel_space [OF assms] by blast

definition paging_sample :: paging_state where
  "paging_sample = paging_boot\<lparr>bitmap := bitmap pmm_sample, total_frames := 64, used_frames := 4\<rparr>"

lemma pmm_fields_determine:
  assumes "bitmap s = bitmap pmm_sample" "total_frames s = 64" "used_frames s = 4"
  shows "pmm_ready s" "frames_free s = frames_free pmm_sample"
proof -
  have m: "frames_marked s = frames_marked pmm_sample"
    by (simp add: frames_marked_def bitmap_test_def assms)
  show "frames_free s = frames_free pmm_sample" by (simp add: frames_free_def m assms)
  have "frames_used s = frames_used pmm_sample" by (simp add: frames_used_def m assms)
  then show "pmm_ready s"
    using pmm_sample_ready by (simp add: pmm_ready_def pmm_inv_def m assms)
qed

lemma paging_sample_fields [simp]:
  "bitmap paging_sample = bitmap pmm_sample" "total_frames paging_sample = 64" "used_frames paging_sample = 4"
  "syms paging_sample = boot_syms"
  by (simp_all add: paging_sample_def)

lemma paging_sample_avail: "a \<in> pmm_avail paging_sample \<Longrightarrow> unat a < 0x40000"
proof -
  assume "a \<in> pmm_avail paging_sample"
  then obtain f where "f \<in> frames_free paging_sample" "a = PMM_FRAME_TO_ADDR f" by (auto simp: pmm_avail_def)
  then show ?thesis
    using unat_frame_to_addr [of f] frames_free_bound [of paging_sample f] pmm_fields_determine(1) [of paging_sample]
    by (auto simp: frames_free_def word_less_nat_alt pmm_ready_def)
qed

lemma paging_sample_placed:
  "tables_placed paging_sample" "\<forall>p \<in> set (static_tables (syms paging_sample)). unat p < 0x1FF000"
  "pmm_ready paging_sample" "pmm_avail paging_sample \<inter> set (static_tables (syms paging_sample)) = {}"
  "0x1FF000 \<notin> pmm_avail paging_sample"
proof -
  note tabs = boot_static_tables
  show "tables_placed paging_sample"
    using paging_boot_placed by (simp add: tables_placed_def window_def paging_sample_def)
  show "\<forall>p \<in> set (static_tables (syms paging_sample)). unat p < 0x1FF000" by (simp add: tabs)
  show "pmm_ready paging_sample" by (rule pmm_fields_determine) simp_all
  show "pmm_avail paging_sample \<inter> set (static_tables (syms paging_sample)) = {}"
    using paging_sample_avail by (fastforce simp: tabs)
  show "0x1FF000 \<notin> pmm_avail paging_sample" using paging_sample_avail [of "0x1FF000"] by auto
qed

theorem paging_init_kernel_space_witness: "\<exists>t. paging_init paging_sample = Some t \<and> kernel_space t"
  using paging_init_kernel_space [OF paging_sample_placed] .

text \<open>The sample kernel after \<open>paging_init\<close>.\<close>

lemma kernel_sample:
  obtains t where "paging_init paging_sample = Some t" "kernel_space t" "pmm_avail t \<noteq> {}"
proof -
  obtain t where t: "paging_init paging_sample = Some t" "kernel_space t" "pmm_avail t = pmm_avail paging_sample"
    using init_kernel_space [OF paging_sample_placed] by blast
  have "4 \<in> frames_free paging_sample"
    using pmm_fields_determine(2) [of paging_sample] pmm_sample_free(1) by simp
  then have "pmm_avail t \<noteq> {}" using t(3) by (auto simp: pmm_avail_def)
  with t that show ?thesis by blast
qed


end
