(* ===== verification/Prism_Walk.thy ===== *)
theory Prism_Walk
  imports Prism_Mapping
begin

text \<open>
  The software walks of \<^verbatim>\<open>mm/paging.c\<close>: \<open>paging_virt_to_phys\<close>, \<open>paging_unmap_page\<close>, the check of
  user buffers and the creation of user address spaces, compared with the walk of the hardware.
\<close>

section \<open>Walks through tables in the window\<close>

text \<open>
  The tables on the way to \<open>va\<close> are all below the scratch page, so that following them does not
  move the scratch page, and no large page is on the way.
\<close>

definition low_walk :: "'a machine_scheme \<Rightarrow> u64 \<Rightarrow> bool" where
  "low_walk s va \<longleftrightarrow>
     (let c = k_pml4 s; e4 = k_entry s c (pt_index 39 va); e3 = k_entry s (page_of e4) (pt_index 30 va);
          e2 = k_entry s (page_of e3) (pt_index 21 va)
      in unat c < 0x1FF000 \<and> (present e4 \<longrightarrow> unat (page_of e4) < 0x1FF000 \<and>
           (present e3 \<longrightarrow> unat (page_of e3) < 0x1FF000 \<and>
             (present e2 \<longrightarrow> unat (page_of e2) < 0x1FF000 \<and> e2 AND PAGE_PS = 0))))"

text \<open>The page-table entry of \<open>va\<close>, if the tables above it exist.\<close>

definition leaf_entry :: "'a machine_scheme \<Rightarrow> u64 \<Rightarrow> u64 option" where
  "leaf_entry s va =
     (let e4 = k_entry s (k_pml4 s) (pt_index 39 va); e3 = k_entry s (page_of e4) (pt_index 30 va);
          e2 = k_entry s (page_of e3) (pt_index 21 va)
      in if present e4 \<and> present e3 \<and> present e2 then Some (k_entry s (page_of e2) (pt_index 12 va)) else None)"

lemma low_walk_translate:
  assumes "low_walk s va"
  shows "translate s va = (case leaf_entry s va of None \<Rightarrow> None
    | Some e \<Rightarrow> if present e then Some (page_of e OR (va AND 0xFFF)) else None)"
  using assms unfolding low_walk_def mmu_walk_def leaf_entry_def entry_at_def [symmetric] Let_def
  by auto

lemma walk_level_low:
  assumes "kernel_mapped s" "page_aligned p" "unat p < 0x1FF000" "i < 512"
    "present (k_entry s p i) \<longrightarrow> unat (page_of (k_entry s p i)) < 0x1FF000"
  shows "walk_level (p + HIGHER_HALF_BASE) i s =
    Some (if present (k_entry s p i) then Inr (page_of (k_entry s p i) + HIGHER_HALF_BASE, s) else Inl s)"
proof -
  have "page_of (k_entry s p i) < 0x200000" if "present (k_entry s p i)"
    using assms(5) that by (simp add: word_less_nat_alt)
  then show ?thesis
    unfolding walk_level_def window_entry(1) [OF assms(1-4)] by (auto simp: virt_for_phys_def)
qed

lemma walk_to_pt_low:
  assumes km: "kernel_mapped s" and lw: "low_walk s va"
  shows "(case leaf_entry s va of
      None \<Rightarrow> walk_to_pt (k_pml4 s + HIGHER_HALF_BASE) va s = Some (Inl s)
    | Some e \<Rightarrow> \<exists>p. walk_to_pt (k_pml4 s + HIGHER_HALF_BASE) va s = Some (Inr (p + HIGHER_HALF_BASE, s)) \<and>
        page_aligned p \<and> unat p < 0x1FF000 \<and> k_entry s p (pt_index 12 va) = e)"
proof -
  let ?e4 = "k_entry s (k_pml4 s) (pt_index 39 va)"
  let ?e3 = "k_entry s (page_of ?e4) (pt_index 30 va)"
  let ?e2 = "k_entry s (page_of ?e3) (pt_index 21 va)"
  have low: "unat (k_pml4 s) < 0x1FF000" "present ?e4 \<longrightarrow> unat (page_of ?e4) < 0x1FF000"
    "present ?e4 \<Longrightarrow> present ?e3 \<longrightarrow> unat (page_of ?e3) < 0x1FF000"
    "present ?e4 \<Longrightarrow> present ?e3 \<Longrightarrow> present ?e2 \<longrightarrow> unat (page_of ?e2) < 0x1FF000"
    using lw by (auto simp: low_walk_def Let_def)
  note l4 = walk_level_low [OF km page_of_idem low(1) pt_index_less low(2)]
  have l3: "walk_level (page_of ?e4 + HIGHER_HALF_BASE) (pt_index 30 va) s =
      Some (if present ?e3 then Inr (page_of ?e3 + HIGHER_HALF_BASE, s) else Inl s)" if "present ?e4"
    using low(2,3) that by (intro walk_level_low km) auto
  have l2: "walk_level (page_of ?e3 + HIGHER_HALF_BASE) (pt_index 21 va) s =
      Some (if present ?e2 then Inr (page_of ?e2 + HIGHER_HALF_BASE, s) else Inl s)" if "present ?e4" "present ?e3"
    using low(3,4) that by (intro walk_level_low km) auto
  consider "\<not> present ?e4" | "present ?e4" "\<not> present ?e3" | "present ?e4" "present ?e3" "\<not> present ?e2"
    | "present ?e4" "present ?e3" "present ?e2" by blast
  then show ?thesis
  proof cases
    case 1
    then show ?thesis unfolding walk_to_pt_def l4 leaf_entry_def Let_def by simp
  next
    case 2
    then show ?thesis unfolding walk_to_pt_def l4 leaf_entry_def Let_def by (simp add: l3)
  next
    case 3
    then show ?thesis unfolding walk_to_pt_def l4 leaf_entry_def Let_def by (simp add: l3 l2)
  next
    case 4
    then show ?thesis unfolding walk_to_pt_def l4 leaf_entry_def Let_def
      using low(4) by (simp add: l3 l2)
  qed
qed

lemma virt_for_phys_pml4:
  assumes "low_walk s va"
  shows "virt_for_phys (k_pml4 s) s = Some (k_pml4 s + HIGHER_HALF_BASE, s)"
proof -
  have "k_pml4 s < 0x200000" using assms by (simp add: low_walk_def Let_def word_less_nat_alt)
  then show ?thesis by (simp add: virt_for_phys_def)
qed

lemma virt_to_phys_low:
  assumes "kernel_mapped s" "low_walk s va" "new_pml4 s \<noteq> 0"
  shows "paging_virt_to_phys va s = Some (case translate s va of None \<Rightarrow> 0 | Some pa \<Rightarrow> pa, s)"
proof (cases "leaf_entry s va")
  case None
  with walk_to_pt_low [OF assms(1,2)] low_walk_translate [OF assms(2)] assms(3) show ?thesis
    by (simp add: paging_virt_to_phys_def paging_virt_to_phys_cr3_def paging_read_cr3_def
        virt_for_phys_pml4 [OF assms(2)])
next
  case (Some e)
  then obtain p where p: "walk_to_pt (k_pml4 s + HIGHER_HALF_BASE) va s = Some (Inr (p + HIGHER_HALF_BASE, s))"
    "page_aligned p" "unat p < 0x1FF000" "k_entry s p (pt_index 12 va) = e"
    using walk_to_pt_low [OF assms(1,2)] by auto
  note get = window_entry(1) [OF assms(1) p(2,3) pt_index_less, of 12 va, unfolded p(4)]
  show ?thesis
    using Some p(1) get assms(3) low_walk_translate [OF assms(2)]
    by (simp add: paging_virt_to_phys_def paging_virt_to_phys_cr3_def paging_read_cr3_def
        virt_for_phys_pml4 [OF assms(2)])
qed

text \<open>
  C26. The software walk agrees with the hardware: with the tables on the way below 2 MiB,
  \<open>paging_virt_to_phys\<close> returns the physical address that the processor would use, or 0 if the
  access would fault, and changes nothing.
\<close>

theorem paging_virt_to_phys_agrees:
  assumes "kernel_mapped s" "low_walk s va" "new_pml4 s \<noteq> 0"
  shows "paging_virt_to_phys va s = Some (case translate s va of None \<Rightarrow> 0 | Some pa \<Rightarrow> pa, s)"
  by (rule virt_to_phys_low [OF assms])

section \<open>User buffers\<close>

text \<open>Walking up page by page below the user limit visits every page once.\<close>

abbreviation pages_in :: "u64 \<Rightarrow> u64 \<Rightarrow> u64 \<Rightarrow> bool" where
  "pages_in va lim v \<equiv> page_aligned v \<and> va \<le> v \<and> v < lim"

lemma next_page:
  assumes "page_aligned va" "va < lim" "unat lim \<le> 0x800000000000"
  shows "unat (va + PMM_FRAME_SIZE) = unat va + 4096" "page_aligned (va + PMM_FRAME_SIZE)"
    "pages_in va lim v \<longleftrightarrow> v = va \<or> pages_in (va + PMM_FRAME_SIZE) lim v"
proof -
  have "unat va < unat lim" using assms(2) by (simp add: word_less_nat_alt)
  with assms(3) show u: "unat (va + PMM_FRAME_SIZE) = unat va + 4096"
    by (simp add: PMM_FRAME_SIZE_def unat_word_ariths)
  obtain k where k: "unat va = 4096 * k" using assms(1) by (auto simp: page_aligned_iff mod_eq_0_iff_dvd dvd_def)
  show "page_aligned (va + PMM_FRAME_SIZE)" unfolding page_aligned_iff u k by simp
  have "va \<le> v \<longleftrightarrow> v = va \<or> va + PMM_FRAME_SIZE \<le> v" if "page_aligned v"
  proof -
    have "unat v mod 4096 = 0" using that page_aligned_iff by blast
    then have "4096 dvd unat v" by (simp add: dvd_eq_mod_eq_0)
    then obtain l where l: "unat v = 4096 * l" by (auto simp: dvd_def)
    show ?thesis unfolding word_le_nat_alt word_unat_eq_iff u unfolding k l by auto
  qed
  then show "pages_in va lim v \<longleftrightarrow> v = va \<or> pages_in (va + PMM_FRAME_SIZE) lim v"
    using assms by auto
qed

lemma check_mapped_loop_low:
  assumes "kernel_mapped s" "new_pml4 s \<noteq> 0" "page_aligned va" "unat lim \<le> 0x800000000000"
    "\<forall>v. pages_in va lim v \<longrightarrow> low_walk s v"
  shows "check_mapped_loop va lim s =
    Some (\<forall>v. pages_in va lim v \<longrightarrow> (\<exists>pa. translate s v = Some pa \<and> pa \<noteq> 0), s)"
  using assms(3,5)
proof (induction "unat lim - unat va" arbitrary: va rule: less_induct)
  case less
  show ?case
  proof (cases "va < lim")
    case False
    then have "\<forall>v. pages_in va lim v \<longrightarrow> (\<exists>pa. translate s v = Some pa \<and> pa \<noteq> 0)" by auto
    with False show ?thesis by (subst check_mapped_loop.simps) simp
  next
    case True
    note np = next_page [OF less.prems(1) True assms(4)]
    have "unat va < unat lim" using True by (simp add: word_less_nat_alt)
    then have dec: "unat lim - unat (va + PMM_FRAME_SIZE) < unat lim - unat va" using np(1) by simp
    have "low_walk s va" using less.prems True by simp
    note vt = virt_to_phys_low [OF assms(1) this assms(2)]
    have "\<forall>v. pages_in (va + PMM_FRAME_SIZE) lim v \<longrightarrow> low_walk s v" using less.prems(2) np(3) by blast
    note IH = less.hyps [OF dec np(2) this]
    let ?ok = "\<lambda>v. \<exists>pa. translate s v = Some pa \<and> pa \<noteq> 0"
    have split: "(\<forall>v. pages_in va lim v \<longrightarrow> ?ok v) \<longleftrightarrow>
        ?ok va \<and> (\<forall>v. pages_in (va + PMM_FRAME_SIZE) lim v \<longrightarrow> ?ok v)"
      unfolding np(3) by blast
    have step: "check_mapped_loop va lim s =
        (if ?ok va then check_mapped_loop (va + PMM_FRAME_SIZE) lim s else Some (False, s))"
      using True vt by (subst check_mapped_loop.simps) (simp split: option.splits)
    show ?thesis unfolding step IH split by simp
  qed
qed

text \<open>What \<open>user_mem_check\<close> requires of a page: present, open to user mode, writable if asked.\<close>

definition user_page :: "'a machine_scheme \<Rightarrow> bool \<Rightarrow> u64 \<Rightarrow> bool" where
  "user_page s writable va \<longleftrightarrow> (case leaf_entry s va of None \<Rightarrow> False
     | Some e \<Rightarrow> present e \<and> e AND PAGE_USER \<noteq> 0 \<and> (writable \<longrightarrow> e AND PAGE_WRITABLE \<noteq> 0))"

lemma check_page_flags_low:
  assumes "kernel_mapped s" "low_walk s va"
  shows "check_page_flags writable va s = Some (user_page s writable va, s)"
proof (cases "leaf_entry s va")
  case None
  with walk_to_pt_low [OF assms] show ?thesis
    by (simp add: check_page_flags_def paging_read_cr3_def virt_for_phys_pml4 [OF assms(2)] user_page_def)
next
  case (Some e)
  then obtain p where p: "walk_to_pt (k_pml4 s + HIGHER_HALF_BASE) va s = Some (Inr (p + HIGHER_HALF_BASE, s))"
    "page_aligned p" "unat p < 0x1FF000" "k_entry s p (pt_index 12 va) = e"
    using walk_to_pt_low [OF assms] by auto
  note get = window_entry(1) [OF assms(1) p(2,3) pt_index_less, of 12 va, unfolded p(4)]
  show ?thesis
    using Some p(1) get
    by (auto simp: check_page_flags_def paging_read_cr3_def virt_for_phys_pml4 [OF assms(2)] user_page_def)
qed

lemma check_flags_loop_low:
  assumes "kernel_mapped s" "page_aligned va" "unat lim \<le> 0x800000000000"
    "\<forall>v. pages_in va lim v \<longrightarrow> low_walk s v"
  shows "check_flags_loop writable va lim s = Some (\<forall>v. pages_in va lim v \<longrightarrow> user_page s writable v, s)"
  using assms(2,4)
proof (induction "unat lim - unat va" arbitrary: va rule: less_induct)
  case less
  show ?case
  proof (cases "va < lim")
    case False
    then have "\<forall>v. pages_in va lim v \<longrightarrow> user_page s writable v" by auto
    with False show ?thesis by (subst check_flags_loop.simps) simp
  next
    case True
    note np = next_page [OF less.prems(1) True assms(3)]
    have "unat va < unat lim" using True by (simp add: word_less_nat_alt)
    then have dec: "unat lim - unat (va + PMM_FRAME_SIZE) < unat lim - unat va" using np(1) by simp
    have "low_walk s va" using less.prems True by simp
    note vt = check_page_flags_low [OF assms(1) this]
    have "\<forall>v. pages_in (va + PMM_FRAME_SIZE) lim v \<longrightarrow> low_walk s v" using less.prems(2) np(3) by blast
    note IH = less.hyps [OF dec np(2) this]
    have split: "(\<forall>v. pages_in va lim v \<longrightarrow> user_page s writable v) \<longleftrightarrow>
        user_page s writable va \<and> (\<forall>v. pages_in (va + PMM_FRAME_SIZE) lim v \<longrightarrow> user_page s writable v)"
      unfolding np(3) by blast
    have step: "check_flags_loop writable va lim s =
        (if user_page s writable va then check_flags_loop writable (va + PMM_FRAME_SIZE) lim s else Some (False, s))"
      using True vt by (subst check_flags_loop.simps) simp
    show ?thesis unfolding step IH split by simp
  qed
qed

text \<open>
  C11. \<open>user_mem_check\<close> is exact: called with the tables of the user pages below 2 MiB, it returns
  without changing anything, and accepts a buffer if and only if it starts below the user limit
  and is either empty, or ends at or below the limit without wrapping around and every page it
  touches is mapped to a frame other than 0, present, open to user mode and, when asked for,
  writable.
\<close>

theorem user_mem_check_exact:
  assumes "kernel_mapped s" "new_pml4 s \<noteq> 0"
    "\<forall>v. page_aligned v \<and> v < USER_ADDR_LIMIT \<longrightarrow> low_walk s v"
  shows "user_mem_check addr len writable s = Some (unat addr < 0x800000000000 \<and> (len = 0 \<or>
      unat addr + unat len \<le> 0x800000000000 \<and>
      (\<forall>v. page_aligned v \<and> unat (page_of addr) \<le> unat v \<and> unat v < unat addr + unat len \<longrightarrow>
         (\<exists>pa. translate s v = Some pa \<and> pa \<noteq> 0) \<and> user_page s writable v)), s)"
proof -
  let ?L = "0x800000000000 :: nat"
  have lim: "unat USER_ADDR_LIMIT = ?L" by (simp add: USER_ADDR_LIMIT_def)
  consider "addr \<ge> USER_ADDR_LIMIT" | "addr < USER_ADDR_LIMIT" "len = 0"
    | "addr < USER_ADDR_LIMIT" "len \<noteq> 0" "?L < unat addr + unat len"
    | "addr < USER_ADDR_LIMIT" "len \<noteq> 0" "unat addr + unat len \<le> ?L" by fastforce
  then show ?thesis
  proof cases
    case 1
    then show ?thesis by (simp add: user_mem_check_def word_le_nat_alt lim)
  next
    case 2
    then show ?thesis by (simp add: user_mem_check_def word_less_nat_alt word_le_nat_alt lim)
  next
    case 3
    have "addr + len < addr \<or> addr + len > USER_ADDR_LIMIT"
    proof (cases "unat addr + unat len < 2 ^ 64")
      case True
      then have "unat (addr + len) = unat addr + unat len" by (simp add: unat_word_ariths)
      then show ?thesis using 3 by (simp add: word_less_nat_alt lim)
    next
      case False
      then have "unat (addr + len) = unat addr + unat len - 2 ^ 64"
        using unsigned_less [of addr, where 'a = nat] unsigned_less [of len, where 'a = nat]
        by (simp add: unat_word_ariths mod_if)
      moreover have "unat len < 2 ^ 64" using unsigned_less [of len, where 'a = nat] by simp
      ultimately have "unat (addr + len) < unat addr" using False by linarith
      then show ?thesis by (simp add: word_less_nat_alt)
    qed
    with 3 show ?thesis by (auto simp: user_mem_check_def word_less_nat_alt word_le_nat_alt lim)
  next
    case 4
    then have end_eq: "unat (addr + len) = unat addr + unat len" by (simp add: unat_word_ariths)
    have pos: "\<not> addr + len < addr" "\<not> addr + len > USER_ADDR_LIMIT" "unat (addr + len) \<le> ?L"
      using 4 by (simp_all add: word_less_nat_alt end_eq lim)
    have low: "\<forall>v. pages_in (page_of addr) (addr + len) v \<longrightarrow> low_walk s v"
      using assms(3) 4 by (auto simp: word_less_nat_alt end_eq lim)
    note m = check_mapped_loop_low [OF assms(1,2) page_of_idem pos(3) low]
      and f = check_flags_loop_low [OF assms(1) page_of_idem pos(3) low]
    define A where "A \<longleftrightarrow> (\<forall>v. pages_in (page_of addr) (addr + len) v \<longrightarrow> (\<exists>pa. translate s v = Some pa \<and> pa \<noteq> 0))"
    define B where "B \<longleftrightarrow> (\<forall>v. pages_in (page_of addr) (addr + len) v \<longrightarrow> user_page s writable v)"
    have "\<not> addr \<ge> USER_ADDR_LIMIT" using 4(1) by simp
    then have chk: "user_mem_check addr len writable s = Some (A \<and> B, s)"
      using 4(2) pos(1,2) m [folded A_def] f [of writable, folded B_def] by (simp add: user_mem_check_def Let_def)
    show ?thesis
      unfolding chk A_def B_def using 4 by (auto simp: word_less_nat_alt word_le_nat_alt end_eq lim)
  qed
qed

section \<open>Unmapping\<close>

lemma walk_level_map_level:
  assumes "table_get p i s = Some e" "present e"
  shows "walk_level p i s = map_level p i fl s"
  using assms by (simp add: walk_level_def map_level_def)

lemma walk_to_pt_kernel:
  fixes s :: "'a paging_state_scheme"
  assumes ks: "kernel_space s" and x: "heap_region x"
  shows "walk_to_pt (new_pml4 s) (x + HIGHER_HALF_BASE) s =
    walk_level (k_pd s + HIGHER_HALF_BASE) (pt_index 21 (x + HIGHER_HALF_BASE)) s"
proof -
  note k = kernel_spaceD [OF ks] and km = kernel_mappedD [OF kernel_spaceD(1) [OF ks]]
  have ix: "pt_index 39 (x + HIGHER_HALF_BASE) = 511" "pt_index 30 (x + HIGHER_HALF_BASE) = 510"
    using higher_half_index(1,2) [OF heap_region_index(2) [OF x]] .
  have i: "(511 :: u64) < 512" "(510 :: u64) < 512" by simp_all
  have l1: "walk_level (k_pml4 s + HIGHER_HALF_BASE) 511 s = Some (Inr (k_pdpt s + HIGHER_HALF_BASE, s))"
    using walk_level_low [OF k(1) page_of_idem k(2) i(1)] km(4,7,8) by simp
  have l2: "walk_level (k_pdpt s + HIGHER_HALF_BASE) 510 s = Some (Inr (k_pd s + HIGHER_HALF_BASE, s))"
    using walk_level_low [OF k(1) km(1,4) i(2)] km(5,9,10) by simp
  show ?thesis
    unfolding walk_to_pt_def k(3) ix l1 bind.bind_lunit sum.case prod.case l2 ..
qed

text \<open>
  C27. \<open>paging_unmap_page\<close> removes exactly one page of the kernel half: afterwards every access to the
  page faults, every other page of the region translates as before, and unmapping a page that
  was not mapped leaves all translations alone.
\<close>

theorem paging_unmap_page_unmaps:
  fixes s :: "'a paging_state_scheme"
  assumes ks: "kernel_space s" and x: "heap_region x"
  shows "\<exists>t. paging_unmap_page (x + HIGHER_HALF_BASE) s = Some t \<and> kernel_space t \<and>
    (\<forall>y. heap_region y \<longrightarrow> translate t (y + HIGHER_HALF_BASE) =
       (if page_of y = page_of x then None else translate s (y + HIGHER_HALF_BASE)))"
proof -
  note k = kernel_spaceD [OF ks] and km = kernel_mappedD [OF kernel_spaceD(1) [OF ks]]
  let ?i = "pt_index 21 (x + HIGHER_HALF_BASE)"
  have i: "0 < ?i" "?i < 512" using heap_region_index(1) [OF x] by simp_all
  have "unat (new_pml4 s) \<noteq> 0" using k(2) unfolding k(3) by (simp add: unat_higher_half)
  then have nz: "new_pml4 s \<noteq> 0" by auto
  note get = window_entry(1) [OF k(1) km(2,5) i(2)]
  show ?thesis
  proof (cases "pd_used s ?i")
    case True
    then have pr: "present (k_entry s (k_pd s) ?i)" by (simp add: pd_used_def)
    obtain v t p where l: "map_level (k_pd s + HIGHER_HALF_BASE) ?i 0 s = Some (Inr (v, t))" "pt_linked s ?i v t p"
      using map_level_pd_present [OF ks True] by blast
    note w = pt_entry_written [OF ks x l(2), where e = 0]
    let ?u = "t\<lparr>mem := store64 (entry_at p (pt_index 12 (x + HIGHER_HALF_BASE))) 0 (mem t)\<rparr>"
    have "paging_unmap_page (x + HIGHER_HALF_BASE) s = Some ?u"
      unfolding paging_unmap_page_def walk_to_pt_kernel [OF ks x] walk_level_map_level [OF get pr, of 0] l(1)
      using nz w(1) by (simp add: paging_invalidate_page_def)
    with w(2,3) show ?thesis by auto
  next
    case False
    then have np: "\<not> present (k_entry s (k_pd s) ?i)" using i by (simp add: pd_used_def)
    then have "walk_level (k_pd s + HIGHER_HALF_BASE) ?i s = Some (Inl s)"
      unfolding walk_level_def get by simp
    then have "paging_unmap_page (x + HIGHER_HALF_BASE) s = Some s"
      unfolding paging_unmap_page_def walk_to_pt_kernel [OF ks x] using nz by simp
    moreover have "translate s (y + HIGHER_HALF_BASE) = None" if "heap_region y" "page_of y = page_of x" for y
    proof -
      have "pt_index 21 (y + HIGHER_HALF_BASE) = ?i"
        using same_page_index [of x y] that x by (simp add: heap_region_def)
      with np show ?thesis
        unfolding kernel_walk [OF k(1) heap_region_index(2) [OF that(1)]] by simp
    qed
    ultimately show ?thesis using ks by auto
  qed
qed

section \<open>User address spaces\<close>

lemma mmu_walk_root:
  "load64 m (entry_at (page_of c) (pt_index 39 va)) = load64 m (entry_at (page_of c') (pt_index 39 va)) \<Longrightarrow>
    mmu_walk m c va = mmu_walk m c' va"
  unfolding mmu_walk_def entry_at_def by simp

lemma kernel_mapped_switch:
  assumes "kernel_mapped s" "page_aligned p" "p \<notin> {k_pdpt s, k_pd s, k_pt s}"
    "k_entry s p 511 = k_entry s (k_pml4 s) 511"
  shows "kernel_mapped (s\<lparr>cr3 := p\<rparr>)"
  using assms unfolding kernel_mapped_def by auto

lemma user_memset:
  assumes "kernel_mapped s" "page_aligned f" "f \<notin> ktables s" "f \<noteq> 0x1FF000"
  obtains v m where "virt_for_phys f s = Some (v, s\<lparr>mem := m\<rparr>)"
    "memset v 0 4096 (s\<lparr>mem := m\<rparr>) = Some (s\<lparr>mem := zero_page f m\<rparr>)"
    "kernel_mapped (s\<lparr>mem := zero_page f m\<rparr>)" "shows_table (s\<lparr>mem := zero_page f m\<rparr>) v f"
    "\<And>q j. page_aligned q \<Longrightarrow> j < 512 \<Longrightarrow> q \<noteq> k_pt s \<Longrightarrow> load64 m (entry_at q j) = k_entry s q j"
    "\<And>a. page_of a \<notin> ktables s \<Longrightarrow> m a = mem s a"
proof -
  obtain v m where v: "virt_for_phys f s = Some (v, s\<lparr>mem := m\<rparr>)" "kernel_mapped (s\<lparr>mem := m\<rparr>)"
    "shows_table (s\<lparr>mem := m\<rparr>) v f" "m = mem s \<or> m = store64 (entry_at (k_pt s) 511) (f OR rw_flags) (mem s)"
    by (rule virt_for_phys_eq [OF assms(1,2,4)])
  let ?s = "s\<lparr>mem := m\<rparr>"
  have i511: "(511 :: u64) < 512" by simp
  note km = kernel_mappedD [OF assms(1)]
  have bk: "backed ?s v f"
    unfolding backed_def
  proof (intro conjI allI impI)
    show "page_aligned f" by (rule assms(2))
    fix off :: u64 assume off: "off < 4096"
    consider (win) "v = f + HIGHER_HALF_BASE" "unat f < 0x1FF000"
      | (scr) "v = SCRATCH_VA" "page_of (k_entry ?s (k_pt ?s) 511) = f" "present (k_entry ?s (k_pt ?s) 511)"
      using v(3) by (auto simp: shows_table_def)
    then have "translate ?s (v + off) = Some (f + off) \<and> walk_tables (mem ?s) (cr3 ?s) (v + off) = ktables ?s"
    proof cases
      case win
      then show ?thesis using window_page [OF v(2) assms(2) _ off] by simp
    next
      case scr
      then show ?thesis using scratch_walk [OF v(2) off] by (simp add: Let_def)
    qed
    then show "translate ?s (v + off) = Some (f + off)" "f \<notin> walk_tables (mem ?s) (cr3 ?s) (v + off)"
      using assms(3) by auto
  qed
  have z: "memset v 0 4096 ?s = Some (s\<lparr>mem := zero_page f m\<rparr>)" using memset_page [OF bk] by simp
  have "kernel_mapped (?s\<lparr>mem := zero_page f m\<rparr>)"
    by (rule kernel_mapped_cong [OF v(2)]) (use assms(3) in \<open>auto simp: zero_page_def\<close>)
  then have km2: "kernel_mapped (s\<lparr>mem := zero_page f m\<rparr>)" by simp
  have "load64 (zero_page f m) (entry_at (k_pt s) 511) = load64 m (entry_at (k_pt s) 511)"
    using load64_zero_page [OF assms(2) km(3) i511] assms(3) by (auto simp: entry_at_def ktables_def)
  then have sh: "shows_table (s\<lparr>mem := zero_page f m\<rparr>) v f" using v(3) by (simp add: shows_table_def)
  have "load64 m (entry_at q j) = k_entry s q j" if "page_aligned q" "j < 512" "q \<noteq> k_pt s" for q j
    using v(4) that load64_entry_store [OF km(3) that(1) i511 that(2)] by auto
  moreover have "m a = mem s a" if "page_of a \<notin> ktables s" for a
    using v(4) that store_outside [OF km(3) i511, of a] by (auto simp: ktables_def)
  ultimately show ?thesis using v(1) z km2 sh that by blast
qed

text \<open>The new top-level table: empty but for the kernel's entry.\<close>

lemma paging_create_user_space_new:
  fixes s :: "'a paging_state_scheme"
  assumes ks: "kernel_space s" and ne: "pmm_avail s \<noteq> {}"
  obtains f t n b m where "paging_create_user_space s = Some (f, t)" "t = s\<lparr>mem := m, bitmap := b, used_frames := n\<rparr>"
    "f \<in> pmm_avail s" "pmm_avail t = pmm_avail s - {f}" "pmm_ready t" "kernel_mapped t"
    "\<forall>j<512. k_entry t f j = (if j = 511 then k_entry t (k_pml4 t) 511 else 0)"
    "\<forall>a. (page_of a \<notin> ktables s \<or> unat f < 0x200000) \<and> page_of a \<noteq> f \<longrightarrow> mem t a = mem s a"
proof -
  note k = kernel_spaceD [OF ks] and km = kernel_mappedD [OF kernel_spaceD(1) [OF ks]]
  obtain f u where fu: "pmm_alloc_frame s = (f, u)" by fastforce
  have f: "f \<noteq> 0" "f \<in> pmm_avail s" "pmm_avail u = pmm_avail s - {f}" "pmm_ready u"
    using pmm.alloc_cases [OF k(4) fu] ne by auto
  obtain b n where u: "u = s\<lparr>bitmap := b, used_frames := n\<rparr>"
    using pmm_alloc_frame_eq [of s] unfolding fu snd_conv by (rule bitmap_eqE)
  have uk: "kernel_mapped u" "ktables u = ktables s" and same: "mem u = mem s" "cr3 u = cr3 s" "syms u = syms s"
    using kernel_mapped_same [of u s] k(1) by (simp_all add: u)
  have fal: "page_aligned f" by (rule avail_aligned [OF k(4) f(2)])
  have fk: "f \<notin> ktables u" "f \<noteq> 0x1FF000" using f(2) k(5,6) uk(2) by auto
  obtain v m where v: "virt_for_phys f u = Some (v, u\<lparr>mem := m\<rparr>)"
    "memset v 0 4096 (u\<lparr>mem := m\<rparr>) = Some (u\<lparr>mem := zero_page f m\<rparr>)"
    "kernel_mapped (u\<lparr>mem := zero_page f m\<rparr>)" "shows_table (u\<lparr>mem := zero_page f m\<rparr>) v f"
    "\<And>q j. page_aligned q \<Longrightarrow> j < 512 \<Longrightarrow> q \<noteq> k_pt u \<Longrightarrow> load64 m (entry_at q j) = k_entry u q j"
    "\<And>a. page_of a \<notin> ktables u \<Longrightarrow> m a = mem u a"
    by (rule user_memset [OF uk(1) fal fk]) blast
  let ?w = "u\<lparr>mem := zero_page f m\<rparr>" and ?e = "k_entry s (k_pml4 s) 511"
  let ?t = "u\<lparr>mem := store64 (entry_at f 511) ?e (zero_page f m)\<rparr>"
  have i: "(511 :: u64) < 512" by simp
  have ne: "f \<noteq> k_pml4 s" "k_pml4 s \<noteq> k_pt s" using fk(1) km(16) same by (auto simp: ktables_def)
  have zent: "load64 (zero_page f m) (entry_at q j) = (if q = f then 0 else load64 m (entry_at q j))"
    if "page_aligned q" "j < 512" for q j
    using load64_zero_page [OF fal that] by (simp only: entry_at_def)
  have pe: "k_entry ?w (k_pml4 ?w) 511 = ?e"
    using zent [of "k_pml4 s" 511] v(5) [of "k_pml4 s" 511] ne i same by simp
  have low: "unat (k_pml4 ?w) < 0x1FF000" "k_pml4 ?w < 0x200000" using k(2) same by (simp_all add: word_less_nat_alt)
  note get = window_entry(1) [OF v(3) page_of_idem low(1) i, unfolded pe]
  note st = shows_table_entry(2) [OF v(3) fal v(4) i, of ?e]
  have create: "paging_create_user_space s = Some (f, ?t)"
    using f(1) v(1,2) low(2) get st
    by (simp add: paging_create_user_space_def fu PMM_FRAME_SIZE_def paging_read_cr3_def virt_for_phys_def [of "k_pml4 u"])
  have tent: "load64 (store64 (entry_at f 511) ?e (zero_page f m)) (entry_at q j) =
      (if q = f then if j = 511 then ?e else 0 else load64 m (entry_at q j))" if "page_aligned q" "j < 512" for q j
    using load64_entry_store [OF fal that(1) i that(2)] zent [OF that] by auto
  have "\<not> protected_entry ?w f 511" using fk(1) by (auto simp: protected_entry_def ktables_def)
  then have kt: "kernel_mapped ?t" using kernel_mapped_store [OF v(3) fal i, of ?e] by simp
  have "k_entry ?t (k_pml4 ?t) 511 = ?e" using tent [of "k_pml4 s" 511] ne v(5) [of "k_pml4 s" 511] i same by simp
  then have ent: "k_entry ?t f j = (if j = 511 then k_entry ?t (k_pml4 ?t) 511 else 0)" if "j < 512" for j
    using tent [OF fal that] by simp
  have "m = mem u" if "unat f < 0x200000"
  proof -
    have "u = u\<lparr>mem := m\<rparr>" using v(1) that by (simp add: virt_for_phys_def word_less_nat_alt)
    from arg_cong [where f = mem, OF this] show ?thesis by simp
  qed
  then have out: "mem ?t a = mem s a" if "page_of a \<notin> ktables s \<or> unat f < 0x200000" "page_of a \<noteq> f" for a
    using store_outside [OF fal i that(2)] v(6) [of a] that uk(2) same(1) by (auto simp: zero_page_def)
  have "?t = s\<lparr>mem := store64 (entry_at f 511) ?e (zero_page f m), bitmap := b, used_frames := n\<rparr>" by (simp add: u)
  moreover have "pmm_avail ?t = pmm_avail s - {f}" "pmm_ready ?t" using f(3,4) by simp_all
  ultimately show ?thesis by (rule that [OF create _ f(2) _ _ kt]) (use ent out in blast)+
qed

text \<open>
  C28. \<open>paging_create_user_space\<close> returns 0 and changes nothing when no frame is left. Otherwise it
  returns a frame that was free and now is not, and after loading it into CR3 the kernel half
  translates exactly as before, the window of the kernel works, and every address of the lower
  half faults.
\<close>

theorem paging_create_user_space_shares_kernel:
  fixes s :: "'a paging_state_scheme"
  assumes ks: "kernel_space s"
  shows "if pmm_avail s = {} then paging_create_user_space s = Some (0, s)
    else \<exists>pa t. paging_create_user_space s = Some (pa, t) \<and> pa \<in> pmm_avail s \<and>
      pmm_avail t = pmm_avail s - {pa} \<and> kernel_mapped (t\<lparr>cr3 := pa\<rparr>) \<and>
      (\<forall>va. translate (t\<lparr>cr3 := pa\<rparr>) va = (if pt_index 39 va = 511 then translate t va else None))"
proof (cases "pmm_avail s = {}")
  case True
  then show ?thesis using pmm.alloc_empty [OF kernel_spaceD(4) [OF ks] True] by (simp add: paging_create_user_space_def)
next
  case False
  note km = kernel_mappedD [OF kernel_spaceD(1) [OF ks]]
  obtain f t n b m where t: "paging_create_user_space s = Some (f, t)" "t = s\<lparr>mem := m, bitmap := b, used_frames := n\<rparr>"
    "f \<in> pmm_avail s" "pmm_avail t = pmm_avail s - {f}" "pmm_ready t" "kernel_mapped t"
    "\<forall>j<512. k_entry t f j = (if j = 511 then k_entry t (k_pml4 t) 511 else 0)"
    "\<forall>a. (page_of a \<notin> ktables s \<or> unat f < 0x200000) \<and> page_of a \<noteq> f \<longrightarrow> mem t a = mem s a"
    by (rule paging_create_user_space_new [OF ks False])
  have fal: "page_aligned f" by (rule avail_aligned [OF kernel_spaceD(4) [OF ks] t(3)])
  have "ktables t = ktables s" by (simp add: t(2) ktables_def)
  then have "f \<notin> ktables t" using kernel_spaceD(5) [OF ks] t(3) by auto
  then have "kernel_mapped (t\<lparr>cr3 := f\<rparr>)"
    using kernel_mapped_switch [OF t(6) fal] t(7) by (auto simp: ktables_def)
  moreover have "translate (t\<lparr>cr3 := f\<rparr>) va = (if pt_index 39 va = 511 then translate t va else None)" for va
  proof (cases "pt_index 39 va = 511")
    case True
    then have "load64 (mem t) (entry_at (page_of f) (pt_index 39 va)) = load64 (mem t) (entry_at (page_of (cr3 t)) (pt_index 39 va))"
      using t(7) by (simp add: fal)
    from mmu_walk_root [OF this] have "translate (t\<lparr>cr3 := f\<rparr>) va = translate t va" by simp
    with True show ?thesis by simp
  next
    case False
    then have "k_entry (t\<lparr>cr3 := f\<rparr>) f (pt_index 39 va) = 0" using t(7) by simp
    then show ?thesis using False fal unfolding mmu_walk_def entry_at_def [symmetric] by simp
  qed
  ultimately show ?thesis using t(1,3,4) False by auto
qed

section \<open>The properties on the sample kernel\<close>

lemma init_low_walk:
  fixes s :: "'a paging_state_scheme"
  assumes "tables_placed s" "\<forall>p\<in>set (static_tables (syms s)). unat p < 0x1FF000" "paging_init s = Some t"
  shows "low_walk t va"
proof -
  let ?y = "syms s"
  have d: "distinct (static_tables ?y)" and al: "\<forall>p\<in>set (static_tables ?y). page_aligned p"
    using assms(1) by (simp_all add: tables_placed_def window_def)
  have teq: "t = s\<lparr>mem := init_memory ?y (mem s), new_pml4 := sym_pml4_new ?y, cr3 := frame_of (sym_pml4_new ?y)\<rparr>"
    using assms(3) paging_init_eq [OF assms(1)] by simp
  have als: "page_aligned (frame_of (sym_pml4_new ?y))" "page_aligned (frame_of (sym_pdpt_id ?y))"
    "page_aligned (frame_of (sym_pdpt_hi ?y))" "page_aligned (frame_of (sym_pd_id ?y))"
    "page_aligned (frame_of (sym_pd_hi ?y))" "page_aligned (frame_of (sym_pt_hi_kernel ?y))"
    "page_aligned (frame_of (sym_pt_id_0 ?y))" "page_aligned (frame_of (sym_pt_id_1 ?y))"
    using al by (simp_all add: static_tables_def)
  have lows: "unat (frame_of (sym_pml4_new ?y)) < 0x1FF000" "unat (frame_of (sym_pdpt_id ?y)) < 0x1FF000"
    "unat (frame_of (sym_pdpt_hi ?y)) < 0x1FF000" "unat (frame_of (sym_pd_id ?y)) < 0x1FF000"
    "unat (frame_of (sym_pd_hi ?y)) < 0x1FF000" "unat (frame_of (sym_pt_hi_kernel ?y)) < 0x1FF000"
    "unat (frame_of (sym_pt_id_0 ?y)) < 0x1FF000" "unat (frame_of (sym_pt_id_1 ?y)) < 0x1FF000"
    using assms(2) by (simp_all add: static_tables_def)
  note ent = init_memory_entries [OF d al, folded entry_at_def]
  have "k_pml4 t = frame_of (sym_pml4_new ?y)" "mem t = init_memory ?y (mem s)" using als(1) by (simp_all add: teq)
  then show ?thesis
    unfolding low_walk_def Let_def
    by (cases "pt_index 39 va = 0"; cases "pt_index 39 va = 511"; cases "pt_index 30 va = 0";
        cases "pt_index 30 va = 510"; cases "pt_index 21 va = 0"; cases "pt_index 21 va = 1")
      (simp_all add: ent als lows no_ps)
qed

lemma walk_sample:
  obtains t where "paging_init paging_sample = Some t" "kernel_space t" "pmm_avail t \<noteq> {}"
    "kernel_mapped t" "\<forall>va. low_walk t va" "new_pml4 t \<noteq> 0"
proof -
  obtain t where t: "paging_init paging_sample = Some t" "kernel_space t" "pmm_avail t \<noteq> {}" by (rule kernel_sample)
  have "new_pml4 t = sym_pml4_new boot_syms"
    using t(1) paging_init_eq [OF paging_sample_placed(1)] by auto
  then have "new_pml4 t \<noteq> 0" by (simp add: boot_syms_def HIGHER_HALF_BASE_def)
  with t kernel_spaceD(1) [OF t(2)] init_low_walk [OF paging_sample_placed(1,2) t(1)] show ?thesis using that by blast
qed

theorem paging_virt_to_phys_agrees_witness:
  "\<exists>t. paging_init paging_sample = Some t \<and>
     paging_virt_to_phys 0x1234 t = Some (case translate t 0x1234 of None \<Rightarrow> 0 | Some pa \<Rightarrow> pa, t)"
proof -
  obtain t where "paging_init paging_sample = Some t" "kernel_mapped t" "\<forall>va. low_walk t va" "new_pml4 t \<noteq> 0"
    using walk_sample by blast
  then show ?thesis using paging_virt_to_phys_agrees [of t "0x1234"] by blast
qed

theorem user_mem_check_exact_witness:
  "\<exists>t. paging_init paging_sample = Some t \<and> user_mem_check 0x400000 0 True t = Some (True, t) \<and>
     user_mem_check 0x7FFFFFFFFFFF 2 True t = Some (False, t)"
proof -
  obtain t where t: "paging_init paging_sample = Some t" "kernel_mapped t" "\<forall>va. low_walk t va" "new_pml4 t \<noteq> 0"
    using walk_sample by blast
  then have "\<forall>v. page_aligned v \<and> v < USER_ADDR_LIMIT \<longrightarrow> low_walk t v" by blast
  note exact = user_mem_check_exact [OF t(2,4) this]
  show ?thesis using t(1) exact [of "0x400000" 0 True] exact [of "0x7FFFFFFFFFFF" 2 True] by simp
qed

theorem paging_unmap_page_unmaps_witness:
  "\<exists>t u. paging_init paging_sample = Some t \<and> paging_unmap_page 0xFFFFFFFF80300000 t = Some u \<and>
     translate u 0xFFFFFFFF80300008 = None"
proof -
  obtain t where t: "paging_init paging_sample = Some t" "kernel_space t" by (rule walk_sample)
  have x: "heap_region 0x300000" "heap_region 0x300008" by (simp_all add: heap_region_def)
  have va: "(0x300000 :: u64) + HIGHER_HALF_BASE = 0xFFFFFFFF80300000" "(0x300008 :: u64) + HIGHER_HALF_BASE = 0xFFFFFFFF80300008"
    by (simp_all add: HIGHER_HALF_BASE_def)
  have pg: "page_of 0x300008 = page_of 0x300000" by (simp add: page_of_def del: and_neg_4096)
  obtain u where u: "paging_unmap_page (0x300000 + HIGHER_HALF_BASE) t = Some u"
    "\<forall>y. heap_region y \<longrightarrow> translate u (y + HIGHER_HALF_BASE) =
       (if page_of y = page_of 0x300000 then None else translate t (y + HIGHER_HALF_BASE))"
    using paging_unmap_page_unmaps [OF t(2) x(1)] by blast
  from u(2) x(2) pg have "translate u (0x300008 + HIGHER_HALF_BASE) = None" by presburger
  with u(1) t(1) show ?thesis unfolding va by blast
qed

theorem paging_create_user_space_shares_kernel_witness:
  "\<exists>t pa u. paging_init paging_sample = Some t \<and> paging_create_user_space t = Some (pa, u) \<and>
     pa \<in> pmm_avail t \<and> kernel_mapped (u\<lparr>cr3 := pa\<rparr>)"
proof -
  obtain t where t: "paging_init paging_sample = Some t" "kernel_space t" "pmm_avail t \<noteq> {}" by (rule walk_sample)
  then show ?thesis using paging_create_user_space_shares_kernel [OF t(2)] by auto
qed

end
