(* ===== verification/Prism_Heap.thy ===== *)
theory Prism_Heap
  imports Prism_Walk
begin

text \<open>
  The kernel heap: \<^verbatim>\<open>mm/heap.c\<close>. A block at address \<open>b\<close> has its size at \<open>b\<close>, its magic
  number at \<open>b + 8\<close> and, when it is free, the pointer to the next free block at \<open>b + 16\<close>; all
  three are words of mapped memory, read and written through the translation in force. A result
  0 is the null pointer. The two list searches may run forever on a cyclic list and are
  partial; an access outside mapped memory does not return either.
\<close>

record heap_state = paging_state +
  heap_start :: u64
  heap_end :: u64
  heap_used_bytes :: u64
  free_list :: u64

definition HEAP_START :: u64 where "HEAP_START = 0xFFFFFFFF80200000"
definition HEAP_MAGIC :: u64 where "HEAP_MAGIC = 0xDEADBEEFCAFEBABE"
definition BLOCK_HEADER_SIZE :: u64 where "BLOCK_HEADER_SIZE = 8 * 2"
definition MIN_BLOCK_SIZE :: u64 where "MIN_BLOCK_SIZE = BLOCK_HEADER_SIZE + 8 * 2"

section \<open>Fields of a block\<close>

abbreviation block_size :: "u64 \<Rightarrow> 'a machine_scheme \<Rightarrow> u64 option" where
  "block_size b \<equiv> kload64 b"
abbreviation block_magic :: "u64 \<Rightarrow> 'a machine_scheme \<Rightarrow> u64 option" where
  "block_magic b \<equiv> kload64 (b + 8)"
abbreviation block_next :: "u64 \<Rightarrow> 'a machine_scheme \<Rightarrow> u64 option" where
  "block_next b \<equiv> kload64 (b + 16)"
abbreviation set_size :: "u64 \<Rightarrow> u64 \<Rightarrow> 'a machine_scheme \<Rightarrow> 'a machine_scheme option" where
  "set_size b \<equiv> kstore64 b"
abbreviation set_magic :: "u64 \<Rightarrow> u64 \<Rightarrow> 'a machine_scheme \<Rightarrow> 'a machine_scheme option" where
  "set_magic b \<equiv> kstore64 (b + 8)"
abbreviation set_next :: "u64 \<Rightarrow> u64 \<Rightarrow> 'a machine_scheme \<Rightarrow> 'a machine_scheme option" where
  "set_next b \<equiv> kstore64 (b + 16)"

section \<open>Growing the heap\<close>

definition align_up :: "u64 \<Rightarrow> u64 \<Rightarrow> u64" where
  "align_up val align = (val + align - 1) AND NOT (align - 1)"

primrec heap_extend_loop :: "nat \<Rightarrow> 'a heap_state_scheme \<Rightarrow> (int \<times> 'a heap_state_scheme) option" where
  "heap_extend_loop 0 s = Some (0, s)"
| "heap_extend_loop (Suc n) s =
     (let (frame, s) = pmm_alloc_frame s in
      if frame = 0 then Some (- 1, s)
      else do { (result, s) \<leftarrow> paging_map_page (heap_end s) frame (PAGE_PRESENT OR PAGE_WRITABLE OR PAGE_USER) s;
                if result \<noteq> 0 then Some (- 1, pmm_free_frame frame s)
                else do { s \<leftarrow> memset (heap_end s) 0 PMM_FRAME_SIZE s;
                          heap_extend_loop n (s\<lparr>heap_end := heap_end s + PMM_FRAME_SIZE\<rparr>) } })"

definition heap_extend :: "u64 \<Rightarrow> 'a heap_state_scheme \<Rightarrow> (int \<times> 'a heap_state_scheme) option" where
  "heap_extend pages s = heap_extend_loop (unat pages) s"

definition heap_init :: "'a heap_state_scheme \<Rightarrow> (int \<times> 'a heap_state_scheme) option" where
  "heap_init s =
     (let s = kprint (cstr (''Heap: Initializing...'' @ [CHR 0x0A])) s;
          s = s\<lparr>heap_start := HEAP_START, heap_end := HEAP_START\<rparr>
      in do { (r, s) \<leftarrow> heap_extend 4 s;
              if r \<noteq> 0
              then Some (- 1, kprint (cstr (''Heap: ERROR - Cannot allocate initial pages!'' @ [CHR 0x0A])) s)
              else do { s \<leftarrow> Some (s\<lparr>free_list := heap_start s\<rparr>);
                        s \<leftarrow> set_size (free_list s) (heap_end s - heap_start s - BLOCK_HEADER_SIZE) s;
                        s \<leftarrow> set_magic (free_list s) 0 s;
                        s \<leftarrow> set_next (free_list s) 0 s;
                        Some (0, kprint (cstr (''Heap: Ready (16 KiB initial)'' @ [CHR 0x0A])) s) } })"

section \<open>Allocation\<close>

definition split_block :: "u64 \<Rightarrow> u64 \<Rightarrow> 'a heap_state_scheme \<Rightarrow> 'a heap_state_scheme option" where
  "split_block block needed s =
     do { sz \<leftarrow> block_size block s;
          if sz \<ge> needed + MIN_BLOCK_SIZE then
            let new_free = block + BLOCK_HEADER_SIZE + needed in
            do { sz \<leftarrow> block_size block s;
                 s \<leftarrow> set_size new_free (sz - needed - BLOCK_HEADER_SIZE) s;
                 s \<leftarrow> set_magic new_free 0 s;
                 nxt \<leftarrow> block_next block s;
                 s \<leftarrow> set_next new_free nxt s;
                 s \<leftarrow> set_size block needed s;
                 set_next block new_free s }
          else Some s }"

text \<open>What happens to the first block that fits.\<close>

definition take_block :: "u64 \<Rightarrow> u64 \<Rightarrow> u64 \<Rightarrow> 'a heap_state_scheme \<Rightarrow> (u64 \<times> 'a heap_state_scheme) option" where
  "take_block prev cur sz s =
     do { s \<leftarrow> split_block cur sz s;
          nxt \<leftarrow> block_next cur s;
          s \<leftarrow> (if prev \<noteq> 0 then set_next prev nxt s else Some (s\<lparr>free_list := nxt\<rparr>));
          s \<leftarrow> set_magic cur HEAP_MAGIC s;
          Some (cur + BLOCK_HEADER_SIZE,
                s\<lparr>heap_used_bytes := heap_used_bytes s + (sz + BLOCK_HEADER_SIZE)\<rparr>) }"

text \<open>The first-fit search. \<open>None\<close> inside the result is the end of the list.\<close>

partial_function (option) kmalloc_search ::
  "u64 \<Rightarrow> u64 \<Rightarrow> u64 \<Rightarrow> 'a heap_state_scheme \<Rightarrow> (u64 \<times> 'a heap_state_scheme) option option" where
  "kmalloc_search prev cur sz s =
     (if cur = 0 then Some None
      else do { m \<leftarrow> block_magic cur s;
                z \<leftarrow> block_size cur s;
                if m = 0 \<and> z \<ge> sz then map_option Some (take_block prev cur sz s)
                else do { nxt \<leftarrow> block_next cur s; kmalloc_search cur nxt sz s } })"

definition add_region :: "u64 \<Rightarrow> 'a heap_state_scheme \<Rightarrow> 'a heap_state_scheme option" where
  "add_region pages_needed s =
     (let new_region = heap_end s - pages_needed * PMM_FRAME_SIZE in
      do { s \<leftarrow> set_size new_region (pages_needed * PMM_FRAME_SIZE - BLOCK_HEADER_SIZE) s;
           s \<leftarrow> set_magic new_region 0 s;
           s \<leftarrow> set_next new_region (free_list s) s;
           Some (s\<lparr>free_list := new_region\<rparr>) })"

partial_function (option) kmalloc ::
  "u64 \<Rightarrow> 'a heap_state_scheme \<Rightarrow> (u64 \<times> 'a heap_state_scheme) option" where
  "kmalloc sz s =
     (if sz = 0 then Some (0, s)
      else let sz = align_up sz 8 in
      do { r \<leftarrow> kmalloc_search 0 (free_list s) sz s;
           case r of Some res \<Rightarrow> Some res
           | None \<Rightarrow>
               let pages_needed = (sz + BLOCK_HEADER_SIZE + PMM_FRAME_SIZE - 1) div PMM_FRAME_SIZE in
               do { (e, s) \<leftarrow> heap_extend pages_needed s;
                    if e \<noteq> 0 then Some (0, s)
                    else do { s \<leftarrow> add_region pages_needed s; kmalloc sz s } } })"

definition kmalloc_aligned :: "u64 \<Rightarrow> u64 \<Rightarrow> 'a heap_state_scheme \<Rightarrow> (u64 \<times> 'a heap_state_scheme) option" where
  "kmalloc_aligned sz align s =
     do { (raw, s) \<leftarrow> kmalloc (sz + align + BLOCK_HEADER_SIZE) s;
          if raw = 0 then Some (0, s)
          else let aligned = align_up raw align in
               if aligned = raw then Some (raw, s) else Some (aligned, s) }"

section \<open>Release\<close>

partial_function (option) kfree_find ::
  "u64 \<Rightarrow> u64 \<Rightarrow> u64 \<Rightarrow> 'a heap_state_scheme \<Rightarrow> (u64 \<times> u64) option" where
  "kfree_find prev cur block s =
     (if cur \<noteq> 0 \<and> cur < block
      then do { nxt \<leftarrow> block_next cur s; kfree_find cur nxt block s }
      else Some (prev, cur))"

text \<open>Linking a block between two neighbours in the list, the first of which may be missing.\<close>

definition kfree_insert :: "u64 \<Rightarrow> u64 \<Rightarrow> u64 \<Rightarrow> 'a heap_state_scheme \<Rightarrow> 'a heap_state_scheme option" where
  "kfree_insert prev block cur s =
     do { s \<leftarrow> set_next block cur s;
          if prev \<noteq> 0 then set_next prev block s else Some (s\<lparr>free_list := block\<rparr>) }"

text \<open>Merging a block with its successor in the list when the two are adjacent.\<close>

definition coalesce :: "u64 \<Rightarrow> u64 \<Rightarrow> 'a heap_state_scheme \<Rightarrow> 'a heap_state_scheme option" where
  "coalesce low high s =
     do { z \<leftarrow> block_size low s;
          if low + BLOCK_HEADER_SIZE + z = high then
            do { z \<leftarrow> block_size low s;
                 zh \<leftarrow> block_size high s;
                 s \<leftarrow> set_size low (z + (BLOCK_HEADER_SIZE + zh)) s;
                 nxt \<leftarrow> block_next high s;
                 set_next low nxt s }
          else Some s }"

definition kfree :: "u64 \<Rightarrow> 'a heap_state_scheme \<Rightarrow> 'a heap_state_scheme option" where
  "kfree ptr s =
     (if ptr = 0 then Some s
      else let block = ptr - BLOCK_HEADER_SIZE in
      do { m \<leftarrow> block_magic block s;
           if m \<noteq> HEAP_MAGIC then Some s
           else do { s \<leftarrow> set_magic block 0 s;
                     z \<leftarrow> block_size block s;
                     s \<leftarrow> Some (s\<lparr>heap_used_bytes := heap_used_bytes s - (z + BLOCK_HEADER_SIZE)\<rparr>);
                     (prev, cur) \<leftarrow> kfree_find 0 (free_list s) block s;
                     s \<leftarrow> kfree_insert prev block cur s;
                     s \<leftarrow> (if cur \<noteq> 0 then coalesce block cur s else Some s);
                     if prev \<noteq> 0 then coalesce prev block s else Some s } })"

definition heap_used :: "'a heap_state_scheme \<Rightarrow> u64" where
  "heap_used s = heap_used_bytes s"

definition heap_size :: "'a heap_state_scheme \<Rightarrow> u64" where
  "heap_size s = heap_end s - heap_start s"

end
