(* ===== verification/Prism_Heapmem.thy ===== *)
theory Prism_Heapmem
  imports Prism_Heap
begin

text \<open>
  The memory of the kernel heap. Every page between \<open>heap_start\<close> and \<open>heap_end\<close> is backed by a
  frame of its own that holds no page table and is not free, so the heap is a store of words in
  which a write changes the word it addresses and nothing else; growing the heap keeps that and
  the words already there.
\<close>

section \<open>Frames that hold data\<close>

definition data_frame :: "'a paging_state_scheme \<Rightarrow> u64 \<Rightarrow> bool" where
  "data_frame s f \<longleftrightarrow> page_aligned f \<and> f \<notin> ktables s \<and> f \<notin> pmm_avail s \<and>
     (\<forall>i. pd_used s i \<longrightarrow> pd_table s i \<noteq> f)"

lemma region_walk:
  assumes "kernel_space s" "heap_region x"
  shows "translate s (x + HIGHER_HALF_BASE) =
    (if pd_used s (pt_index 21 (x + HIGHER_HALF_BASE)) then
       let e = k_entry s (pd_table s (pt_index 21 (x + HIGHER_HALF_BASE))) (pt_index 12 (x + HIGHER_HALF_BASE)) in
       if present e then Some (page_of e OR (x AND 0xFFF)) else None
     else None)"
proof -
  let ?i = "pt_index 21 (x + HIGHER_HALF_BASE)"
  have "pd_used s ?i \<longleftrightarrow> present (k_entry s (k_pd s) ?i)"
    using heap_region_index(1) [OF assms(2)] by (simp add: pd_used_def)
  then show ?thesis
    using kernel_walk [OF kernel_spaceD(1) [OF assms(1)] heap_region_index(2) [OF assms(2)]]
      kernel_spaceD(7) [OF assms(1), of ?i] by (auto simp: Let_def)
qed

lemma offset_or_inject:
  assumes "page_aligned f" "page_aligned g" "f OR (x AND 0xFFF) = g OR (x AND 0xFFF)"
  shows "f = g"
proof -
  have "page_of (x AND 0xFFF) = 0" by (simp add: word_unat_eq_iff unat_page_of unat_page_offset)
  then have "page_of (f OR (x AND 0xFFF)) = f" "page_of (g OR (x AND 0xFFF)) = g" using assms(1,2) by (simp_all add: page_of_or)
  then show ?thesis by (metis assms(3))
qed

lemma same_page_translate:
  assumes "kernel_space s" "heap_region x" "heap_region y" "page_of y = page_of x"
    "translate s (x + HIGHER_HALF_BASE) = Some (f OR (x AND 0xFFF))" "page_aligned f"
  shows "translate s (y + HIGHER_HALF_BASE) = Some (f OR (y AND 0xFFF))"
proof -
  have ix: "pt_index 21 (y + HIGHER_HALF_BASE) = pt_index 21 (x + HIGHER_HALF_BASE)"
    "pt_index 12 (y + HIGHER_HALF_BASE) = pt_index 12 (x + HIGHER_HALF_BASE)"
    using same_page_index [OF heap_region_index(2) [OF assms(2)] heap_region_index(2) [OF assms(3)]] assms(4) by auto
  show ?thesis
    using assms(5) offset_or_inject [OF page_of_idem assms(6)]
    unfolding region_walk [OF assms(1,2)] region_walk [OF assms(1,3)] ix Let_def
    by (auto split: if_splits)
qed

lemma region_tables:
  assumes "kernel_space s" "heap_region x" "translate s (x + HIGHER_HALF_BASE) \<noteq> None" "data_frame s f"
  shows "f \<notin> walk_tables (mem s) (cr3 s) (x + HIGHER_HALF_BASE)"
proof -
  have "pd_used s (pt_index 21 (x + HIGHER_HALF_BASE))"
    using assms(3) unfolding region_walk [OF assms(1,2)] by (auto split: if_splits)
  then show ?thesis
    using assms(4) unfolding kernel_walk_tables [OF kernel_spaceD(1) [OF assms(1)] heap_region_index(2) [OF assms(2)]]
    by (auto simp: data_frame_def ktables_def)
qed

text \<open>Writing to a data frame leaves the kernel's mapping alone.\<close>

lemma data_write:
  fixes s :: "'a paging_state_scheme"
  assumes ks: "kernel_space s" and f: "data_frame s f" and m: "\<And>a. page_of a \<noteq> f \<Longrightarrow> m a = mem s a"
  shows "kernel_space (s\<lparr>mem := m\<rparr>)"
    "pd_used (s\<lparr>mem := m\<rparr>) i = pd_used s i" "pd_used s i \<Longrightarrow> pd_table (s\<lparr>mem := m\<rparr>) i = pd_table s i"
    "heap_region y \<Longrightarrow> translate (s\<lparr>mem := m\<rparr>) (y + HIGHER_HALF_BASE) = translate s (y + HIGHER_HALF_BASE)"
    "data_frame (s\<lparr>mem := m\<rparr>) g = data_frame s g"
proof -
  note k = kernel_spaceD [OF ks] and km = kernel_mappedD [OF kernel_spaceD(1) [OF ks]]
  have ent: "load64 m (entry_at q j) = k_entry s q j" if "page_aligned q" "q \<noteq> f" "j < 512" for q j
    by (rule load64_entry_cong) (use that m in auto)
  have fk: "k_pml4 s \<noteq> f" "k_pdpt s \<noteq> f" "k_pd s \<noteq> f" "k_pt s \<noteq> f"
    using f by (auto simp: data_frame_def ktables_def)
  have pd: "load64 m (entry_at (k_pd s) j) = k_entry s (k_pd s) j" if "j < 512" for j by (rule ent [OF km(2) fk(3) that])
  have "kernel_mapped (s\<lparr>mem := m\<rparr>)"
    using k(1) ent [OF page_of_idem fk(1)] ent [OF km(1) fk(2)] ent [OF km(2) fk(3)] ent [OF km(3) fk(4)] less_511
    by (simp add: kernel_mapped_def)
  then show ks': "kernel_space (s\<lparr>mem := m\<rparr>)"
    by (rule kernel_space_cong [OF ks]) (use pd k(4) in simp_all)
  show used: "pd_used (s\<lparr>mem := m\<rparr>) i = pd_used s i" for i using pd [of i] by (auto simp: pd_used_def)
  show tab: "pd_table (s\<lparr>mem := m\<rparr>) i = pd_table s i" if "pd_used s i" for i
    using pd [of i] that by (simp add: pd_used_def)
  show "data_frame (s\<lparr>mem := m\<rparr>) g = data_frame s g"
    using used tab by (auto simp: data_frame_def)
  assume y: "heap_region y"
  let ?i = "pt_index 21 (y + HIGHER_HALF_BASE)" and ?j = "pt_index 12 (y + HIGHER_HALF_BASE)"
  have "load64 m (entry_at (pd_table s ?i) ?j) = k_entry s (pd_table s ?i) ?j" if "pd_used s ?i"
    using f that by (intro ent) (auto simp: data_frame_def)
  then show "translate (s\<lparr>mem := m\<rparr>) (y + HIGHER_HALF_BASE) = translate s (y + HIGHER_HALF_BASE)"
    using pd [of ?i] unfolding region_walk [OF ks y] region_walk [OF ks' y] used by (simp add: Let_def)
qed

section \<open>The heap as a store of words\<close>

text \<open>The addresses of the heap, and those at which it holds words.\<close>

definition heap_addr :: "'a heap_state_scheme \<Rightarrow> u64 \<Rightarrow> bool" where
  "heap_addr s a \<longleftrightarrow> unat (heap_start s) \<le> unat a \<and> unat a < unat (heap_end s)"

definition heap_words :: "'a heap_state_scheme \<Rightarrow> u64 set" where
  "heap_words s = {a. heap_addr s a \<and> unat a mod 8 = 0}"

definition heap_mapped :: "'a heap_state_scheme \<Rightarrow> bool" where
  "heap_mapped s \<longleftrightarrow> kernel_space s \<and> heap_start s = HEAP_START \<and> page_aligned (heap_end s) \<and>
     unat HEAP_START \<le> unat (heap_end s) \<and> unat (heap_end s) \<le> unat HIGHER_HALF_BASE + 0x40000000 \<and>
     (\<forall>a. heap_addr s a \<longrightarrow> (\<exists>f. translate s a = Some (f OR (a AND 0xFFF)) \<and> data_frame s f)) \<and>
     (\<forall>a b. heap_addr s a \<and> heap_addr s b \<and> page_of a \<noteq> page_of b \<longrightarrow>
        page_of (the (translate s a)) \<noteq> page_of (the (translate s b)))"

lemma heap_mappedD:
  assumes "heap_mapped s"
  shows "kernel_space s" "heap_start s = HEAP_START" "page_aligned (heap_end s)"
    "unat HEAP_START \<le> unat (heap_end s)" "unat (heap_end s) \<le> unat HIGHER_HALF_BASE + 0x40000000"
    "heap_addr s a \<Longrightarrow> \<exists>f. translate s a = Some (f OR (a AND 0xFFF)) \<and> data_frame s f"
    "heap_addr s a \<Longrightarrow> heap_addr s b \<Longrightarrow> page_of a \<noteq> page_of b \<Longrightarrow>
      page_of (the (translate s a)) \<noteq> page_of (the (translate s b))"
  using assms unfolding heap_mapped_def by blast+

lemma heap_region_addr:
  assumes "unat HEAP_START \<le> unat a" "unat a < unat HIGHER_HALF_BASE + 0x40000000"
  shows "heap_region (a - HIGHER_HALF_BASE)"
proof -
  have "HIGHER_HALF_BASE \<le> a"
    using assms by (simp add: word_le_nat_alt HIGHER_HALF_BASE_def HEAP_START_def)
  then have "unat (a - HIGHER_HALF_BASE) = unat a - unat HIGHER_HALF_BASE" by (simp add: unat_sub)
  then show ?thesis using assms unfolding heap_region_def by (simp add: HIGHER_HALF_BASE_def HEAP_START_def) linarith
qed

lemma heap_addr_region: "heap_mapped s \<Longrightarrow> heap_addr s a \<Longrightarrow> heap_region (a - HIGHER_HALF_BASE)"
  using heap_mappedD(2,5) [of s] by (intro heap_region_addr) (auto simp: heap_addr_def)

lemma page_of_higher_half: "page_of (x + HIGHER_HALF_BASE) = page_of x + HIGHER_HALF_BASE"
  unfolding page_of_minus higher_half_offset by simp

lemma page_of_data [simp]: "page_aligned f \<Longrightarrow> page_of (f OR (a AND 0xFFF)) = f"
  using page_of_plus [of f "a AND 0xFFF"] or_offset [of f "a AND 0xFFF"]
  by (simp add: word_less_nat_alt unat_page_offset)

text \<open>The slot of a page at which an aligned word lies.\<close>

definition word_slot :: "u64 \<Rightarrow> u64" where
  "word_slot a = of_nat (unat a mod 4096 div 8)"

lemma word_slot_less [simp]: "word_slot a < 512"
proof -
  have "unat a mod 4096 div 8 < 512" by (simp add: less_mult_imp_div_less)
  then show ?thesis by (simp add: word_slot_def word_less_nat_alt unat_of_nat)
qed

lemma unat_word_slot: "unat (word_slot a) = unat a mod 4096 div 8"
proof -
  have "unat a mod 4096 div 8 < 512" by (simp add: less_mult_imp_div_less)
  then show ?thesis by (simp add: word_slot_def unat_of_nat)
qed

lemma word_place:
  assumes "unat a mod 8 = 0" "page_aligned f"
  shows "f OR (a AND 0xFFF) = slot f (word_slot a)"
proof -
  have off: "a AND 0xFFF < 4096" by (simp add: word_less_nat_alt unat_page_offset)
  have "unat a mod 4096 mod 8 = 0" using assms(1) by (simp add: mod_mod_cancel)
  then have "8 * (unat a mod 4096 div 8) = unat a mod 4096" by (intro dvd_mult_div_cancel mod_0_imp_dvd)
  then have "unat (8 * word_slot a) = unat (a AND 0xFFF)"
    using slot_offset(1) [of "word_slot a" 0] by (simp add: unat_word_slot unat_page_offset)
  then have "8 * word_slot a = a AND 0xFFF" by (rule word_unat_eq_iff [THEN iffD2])
  then show ?thesis using or_offset [OF assms(2) off] by simp
qed

lemma word_slot_inject:
  assumes "unat a mod 8 = 0" "unat b mod 8 = 0" "page_of a = page_of b" "word_slot a = word_slot b"
  shows "a = b"
proof -
  have "a = page_of a OR (a AND 0xFFF)" "b = page_of b OR (b AND 0xFFF)" by (simp_all add: page_split)
  then show ?thesis using word_place [OF assms(1), of "page_of a"] word_place [OF assms(2), of "page_of b"] assms(3,4) by simp
qed

lemma heap_addr_mem [simp]: "heap_addr (s\<lparr>mem := m\<rparr>) = heap_addr s"
  by (simp add: heap_addr_def fun_eq_iff)

lemma heap_words_mem [simp]: "heap_words (s\<lparr>mem := m\<rparr>) = heap_words s"
  by (simp add: heap_words_def)

lemma heap_write:
  fixes s :: "'a heap_state_scheme"
  assumes hm: "heap_mapped s" and f: "data_frame s f" and m: "\<And>a. page_of a \<noteq> f \<Longrightarrow> m a = mem s a"
  shows "heap_mapped (s\<lparr>mem := m\<rparr>)" "heap_addr s a \<Longrightarrow> translate (s\<lparr>mem := m\<rparr>) a = translate s a"
proof -
  note h = heap_mappedD [OF hm] and w = data_write [OF heap_mappedD(1) [OF hm] f m]
  show tr: "translate (s\<lparr>mem := m\<rparr>) a = translate s a" if "heap_addr s a" for a
    using w(4) [OF _ heap_addr_region [OF hm that]] by simp
  show "heap_mapped (s\<lparr>mem := m\<rparr>)"
    unfolding heap_mapped_def
  proof (intro conjI allI impI)
    show "kernel_space (s\<lparr>mem := m\<rparr>)" using w(1) by simp
    show "\<exists>f. translate (s\<lparr>mem := m\<rparr>) a = Some (f OR (a AND 0xFFF)) \<and> data_frame (s\<lparr>mem := m\<rparr>) f"
      if "heap_addr (s\<lparr>mem := m\<rparr>) a" for a
      using h(6) [of a] tr [of a] w(5) that by auto
    show "page_of (the (translate (s\<lparr>mem := m\<rparr>) a)) \<noteq> page_of (the (translate (s\<lparr>mem := m\<rparr>) b))"
      if "heap_addr (s\<lparr>mem := m\<rparr>) a \<and> heap_addr (s\<lparr>mem := m\<rparr>) b \<and> page_of a \<noteq> page_of b" for a b
      using h(7) [of a b] tr [of a] tr [of b] that by simp
  qed (use h in simp_all)
qed

text \<open>
  The frames that belong to no page table, no page of the heap and are not free: the memory of others. An operation
  spares them if it leaves their contents alone and takes none of them.
\<close>

definition foreign :: "'a heap_state_scheme \<Rightarrow> u64 \<Rightarrow> bool" where
  "foreign s f \<longleftrightarrow> data_frame s f \<and> (\<forall>a. heap_addr s a \<longrightarrow> page_of (the (translate s a)) \<noteq> f)"

definition spares :: "'a heap_state_scheme \<Rightarrow> 'a heap_state_scheme \<Rightarrow> bool" where
  "spares s t \<longleftrightarrow> (\<forall>f. foreign s f \<longrightarrow> foreign t f) \<and> (\<forall>a. foreign s (page_of a) \<longrightarrow> mem t a = mem s a)"

lemma spares_refl [simp]: "spares s s"
  by (simp add: spares_def)

lemma spares_trans [trans]: "spares s t \<Longrightarrow> spares t u \<Longrightarrow> spares s u"
  by (simp add: spares_def)

lemma heap_write_spares:
  fixes s :: "'a heap_state_scheme"
  assumes hm: "heap_mapped s" and f: "data_frame s f" "\<not> foreign s f" and m: "\<And>a. page_of a \<noteq> f \<Longrightarrow> m a = mem s a"
  shows "spares s (s\<lparr>mem := m\<rparr>)"
proof -
  have "foreign (s\<lparr>mem := m\<rparr>) g = foreign s g" for g
    using heap_write(2) [OF hm f(1) m] data_write(5) [OF heap_mappedD(1) [OF hm] f(1) m] by (auto simp: foreign_def)
  moreover have "m a = mem s a" if "foreign s (page_of a)" for a using m [of a] that f(2) by auto
  ultimately show ?thesis by (simp add: spares_def)
qed

lemma heap_word_place:
  assumes "heap_mapped s" "a \<in> heap_words s"
  obtains f where "translate s a = Some (slot f (word_slot a))" "data_frame s f" "page_aligned f"
proof -
  have a: "heap_addr s a" "unat a mod 8 = 0" using assms(2) by (auto simp: heap_words_def)
  obtain f where f: "translate s a = Some (f OR (a AND 0xFFF))" "data_frame s f" using heap_mappedD(6) [OF assms(1) a(1)] by blast
  then have "page_aligned f" by (simp add: data_frame_def)
  with f word_place [OF a(2)] that show ?thesis by simp
qed

lemma heap_store:
  fixes s :: "'a heap_state_scheme"
  assumes hm: "heap_mapped s" and a: "a \<in> heap_words s"
  shows "\<exists>m. kstore64 a v s = Some (s\<lparr>mem := m\<rparr>) \<and> heap_mapped (s\<lparr>mem := m\<rparr>) \<and> spares s (s\<lparr>mem := m\<rparr>) \<and>
    (\<forall>b \<in> heap_words s. kload64 b (s\<lparr>mem := m\<rparr>) = (if b = a then Some v else kload64 b s))"
proof -
  obtain f where f: "translate s a = Some (slot f (word_slot a))" "data_frame s f" "page_aligned f"
    by (rule heap_word_place [OF hm a])
  define m where "m = store64 (slot f (word_slot a)) v (mem s)"
  have out: "m x = mem s x" if "page_of x \<noteq> f" for x using store64_other_page [OF f(3)] that by (simp add: m_def)
  note w = heap_write [OF hm f(2) out]
  have "kload64 b (s\<lparr>mem := m\<rparr>) = (if b = a then Some v else kload64 b s)" if b: "b \<in> heap_words s" for b
  proof -
    obtain g where g: "translate s b = Some (slot g (word_slot b))" "page_aligned g"
      using heap_word_place [OF hm b] by blast
    have ha: "heap_addr s a" "heap_addr s b" "unat a mod 8 = 0" "unat b mod 8 = 0" using a b by (auto simp: heap_words_def)
    have ld: "load64 m (slot g (word_slot b)) = (if f = g \<and> word_slot a = word_slot b then v else load64 (mem s) (slot g (word_slot b)))"
      using load64_slot_store64 [OF f(3) g(2)] by (simp add: m_def)
    have "f = g \<Longrightarrow> page_of a = page_of b"
      using heap_mappedD(7) [OF hm ha(1,2)] f(1,3) g by auto
    then have "f = g \<and> word_slot a = word_slot b \<longleftrightarrow> b = a"
      using word_slot_inject [OF ha(3,4)] f(1,3) g by (metis option.inject page_of_slot word_slot_less)
    moreover have "translate (s\<lparr>mem := m\<rparr>) b = translate s b" using w(2) [OF _ ha(2)] by simp
    ultimately show ?thesis using g(1) ld by (auto simp: kload64_def)
  qed
  moreover have "kstore64 a v s = Some (s\<lparr>mem := m\<rparr>)" using f(1) by (simp add: kstore64_def m_def)
  moreover have "spares s (s\<lparr>mem := m\<rparr>)"
  proof (rule heap_write_spares [OF hm f(2) _ out])
    have "heap_addr s a" using a by (simp add: heap_words_def)
    then show "\<not> foreign s f" using f(1,3) by (auto simp: foreign_def)
  qed
  ultimately show ?thesis using w(1) by blast
qed

text \<open>Words of the heap were written.\<close>

definition heap_wrote :: "'a heap_state_scheme \<Rightarrow> 'a heap_state_scheme \<Rightarrow> bool" where
  "heap_wrote s t \<longleftrightarrow> mem_eq s t \<and> spares s t"

lemma heap_wrote_refl [simp]: "heap_wrote s s"
  by (simp add: heap_wrote_def)

lemma heap_wrote_trans [trans]: "heap_wrote s t \<Longrightarrow> heap_wrote t u \<Longrightarrow> heap_wrote s u"
  using mem_eq_trans spares_trans by (auto simp: heap_wrote_def)

interpretation kheap: word_store heap_mapped heap_words kload64 kstore64 heap_wrote
proof
  fix s t u :: "'a heap_state_scheme" and a b v :: u64
  show "heap_wrote s s" by simp
  show "heap_wrote s t \<Longrightarrow> heap_wrote t u \<Longrightarrow> heap_wrote s u" by (rule heap_wrote_trans)
  assume s: "heap_mapped s" "a \<in> heap_words s"
  show "kload64 a s \<noteq> None" using heap_word_place [OF s] by (metis kload64_def option.distinct(1) option.simps(9))
  show "kstore64 a v s \<noteq> None" using heap_store [OF s, of v] by auto
  assume t: "kstore64 a v s = Some t"
  show "heap_mapped t \<and> heap_words t = heap_words s" using heap_store [OF s, of v] t by auto
  show "b \<in> heap_words s \<Longrightarrow> kload64 b t = (if b = a then Some v else kload64 b s)"
    using heap_store [OF s, of v] t by auto
  show "heap_wrote s t" using heap_store [OF s, of v] t by (auto simp: heap_wrote_def mem_eq_def)
qed

abbreviation hview :: "'a heap_state_scheme \<Rightarrow> u64 \<Rightarrow> u64" where
  "hview \<equiv> kheap.view"

section \<open>Growing the heap\<close>

text \<open>Mapping a page keeps the frames that hold data and what is in them.\<close>

definition page_mapped :: "u64 \<Rightarrow> u64 \<Rightarrow> 'a paging_state_scheme \<Rightarrow> 'a paging_state_scheme \<Rightarrow> bool" where
  "page_mapped x f s t \<longleftrightarrow>
     t = s\<lparr>mem := mem t, bitmap := bitmap t, used_frames := used_frames t\<rparr> \<and> kernel_space t \<and>
     (\<exists>p. pmm_avail t = pmm_avail s - {p}) \<and>
     (\<forall>y. heap_region y \<longrightarrow> translate t (y + HIGHER_HALF_BASE) =
        (if page_of y = page_of x then Some (f OR (y AND 0xFFF)) else translate s (y + HIGHER_HALF_BASE))) \<and>
     (\<forall>g. data_frame s g \<longrightarrow> data_frame t g) \<and>
     (\<forall>a. data_frame s (page_of a) \<longrightarrow> mem t a = mem s a)"

lemma map_page_data:
  fixes s :: "'a paging_state_scheme"
  assumes ks: "kernel_space s" and x: "heap_region x" and fl: "page_of fl = 0" "present fl"
    and some: "pd_used s (pt_index 21 (x + HIGHER_HALF_BASE)) \<or> pmm_avail s \<noteq> {}"
  shows "\<exists>t. paging_map_page (x + HIGHER_HALF_BASE) phys fl s = Some (0, t) \<and> page_mapped x (page_of phys) s t"
proof -
  let ?i = "pt_index 21 (x + HIGHER_HALF_BASE)" and ?j = "pt_index 12 (x + HIGHER_HALF_BASE)"
  obtain v t p u where l: "pt_linked s ?i v t p"
    "u = t\<lparr>mem := store64 (entry_at p ?j) (page_of phys OR fl) (mem t)\<rparr>"
    "paging_map_page (x + HIGHER_HALF_BASE) phys fl s = Some (0, u)"
    using paging_map_page_linked [OF ks x fl some] by blast
  note w = pt_entry_written(2,3) [OF ks x l(1), where e = "page_of phys OR fl", folded l(2)]
  note L = l(1) [unfolded pt_linked_def]
  have e: "present (page_of phys OR fl)" "page_of (page_of phys OR fl) = page_of phys"
    unfolding present_or using fl by (simp_all add: page_of_or)
  obtain mt b n where teq: "t = s\<lparr>mem := mt, bitmap := b, used_frames := n\<rparr>" using L by blast
  have ueq: "s\<lparr>mem := mem u, bitmap := b, used_frames := n\<rparr> = u" by (simp add: l(2) teq)
  have av: "pmm_avail u = pmm_avail s - {p}" using L by (simp add: l(2))
  have pal: "page_aligned p" using L by auto
  have same: "syms u = syms s" "cr3 u = cr3 s" by (simp_all add: l(2) teq)
  have kt: "ktables u = ktables s" by (simp add: ktables_def same)
  have kt': "ktables t = ktables s" by (simp add: teq ktables_def)
  have p: "p \<notin> ktables s" using kernel_spaceD(8) [of t ?i] L kt' by auto
  have kpd: "page_aligned (k_pd s)" "k_pd s \<in> ktables s"
    using kernel_mappedD(2) [OF kernel_spaceD(1) [OF ks]] by (simp_all add: ktables_def)
  have pdu: "k_entry u (k_pd s) j = k_entry t (k_pd s) j" if "j < 512" for j
    using load64_entry_store [OF pal kpd(1) _ that] p kpd(2) unfolding l(2) by auto
  have out: "mem u a = mem s a" if "data_frame s (page_of a)" for a
  proof -
    have "page_of a \<noteq> p" "page_of a \<notin> ktables s"
      using that L by (auto simp: data_frame_def split: if_splits)
    then show ?thesis
      using L store_outside [OF pal, of ?j a] unfolding l(2) by (simp add: entry_at_def)
  qed
  have df: "data_frame u g" if g: "data_frame s g" for g
  proof -
    have "pd_table u j \<noteq> g" if u: "pd_used u j" for j
    proof (cases "j = ?i")
      case True
      have "pd_table t ?i = p" "syms t = syms s" using L by (blast, simp add: teq)
      then have "pd_table u ?i = p" using pdu [of ?i] same by simp
      then show ?thesis using g L True by (auto simp: data_frame_def split: if_splits)
    next
      case False
      have "k_entry u (k_pd u) j = k_entry s (k_pd s) j"
        using L False u pdu [of j] same by (simp add: pd_used_def)
      then show ?thesis using g u by (simp add: data_frame_def pd_used_def)
    qed
    then show ?thesis using g av kt by (auto simp: data_frame_def)
  qed
  have "page_mapped x (page_of phys) s u"
    unfolding page_mapped_def using ueq w e df out av L by (auto simp: l(2) teq)
  with l(3) show ?thesis by blast
qed

lemma heap_mapped_avail:
  fixes s :: "'a heap_state_scheme"
  assumes t_def: "t = s\<lparr>bitmap := b, used_frames := n\<rparr>" and hm: "heap_mapped s" and r: "pmm_ready t" "pmm_avail t \<subseteq> pmm_avail s"
  shows "heap_mapped t" "hview t = hview s" "data_frame s g \<Longrightarrow> data_frame t g" "spares s t"
proof -
  note h = heap_mappedD [OF hm]
  have ks: "kernel_space t"
    using kernel_mapped_same(1) [of t s] kernel_spaceD(1) [OF h(1)] r
    by (intro kernel_space_cong [OF h(1)]) (simp_all add: t_def)
  have ad: "heap_addr t = heap_addr s" by (simp add: t_def heap_addr_def fun_eq_iff)
  show df: "data_frame s g \<Longrightarrow> data_frame t g" for g
    using r(2) by (auto simp: data_frame_def ktables_def pd_used_def t_def)
  have "heap_words t = heap_words s" by (simp add: heap_words_def ad)
  then show "hview t = hview s" by (simp add: kheap.view_def kload64_def t_def fun_eq_iff)
  have tr: "translate t a = translate s a" for a by (simp add: t_def)
  show "heap_mapped t"
    unfolding heap_mapped_def ad tr using ks h df by (simp add: t_def) meson
  show "spares s t" using df unfolding spares_def foreign_def ad tr by (simp add: t_def)
qed

text \<open>The page that begins at the end of the heap.\<close>

lemma heap_end_page:
  assumes "page_aligned e" "unat e + 4096 \<le> unat HIGHER_HALF_BASE + 0x40000000"
  shows "unat (e + 4096) = unat e + 4096" "page_aligned (e + 4096)"
    "unat a < unat e \<Longrightarrow> page_of a \<noteq> e" "unat e \<le> unat a \<Longrightarrow> unat a < unat e + 4096 \<Longrightarrow> page_of a = e"
proof -
  show u: "unat (e + 4096) = unat e + 4096"
    using assms(2) by (subst unat_plus_if') (simp add: HIGHER_HALF_BASE_def)
  show "page_aligned (e + 4096)" unfolding page_aligned_iff u using assms(1) by (simp add: page_aligned_iff)
  show "unat a < unat e \<Longrightarrow> page_of a \<noteq> e" using unat_page_of [of a] by auto
  assume a: "unat e \<le> unat a" "unat a < unat e + 4096"
  define d where "d = unat a - unat e"
  have "unat a = unat e + d" "d < 4096" using a by (auto simp: d_def)
  moreover have "(unat e + d) mod 4096 = d" using assms(1) \<open>d < 4096\<close> by (simp add: page_aligned_iff mod_add_eq [symmetric, of "unat e"])
  ultimately have "unat (page_of a) = unat e" by (simp add: unat_page_of)
  then show "page_of a = e" by (simp add: word_unat_eq_iff)
qed

lemma load64_page_cong:
  assumes "page_aligned g" "\<And>a. page_of a = g \<Longrightarrow> m' a = m a"
  shows "load64 m' (slot g (word_slot b)) = load64 m (slot g (word_slot b))"
  by (rule load64_table_cong [OF assms(2,1)]) simp_all

abbreviation heap_flags :: u64 where
  "heap_flags \<equiv> PAGE_PRESENT OR PAGE_WRITABLE OR PAGE_USER"

lemma heap_flags: "page_of heap_flags = 0" "present heap_flags"
  by (simp add: page_of_or, simp add: present_or)

abbreviation heap_room :: "'a heap_state_scheme \<Rightarrow> nat \<Rightarrow> bool" where
  "heap_room s n \<equiv> unat (heap_end s) + n \<le> unat HIGHER_HALF_BASE + 0x40000000"

text \<open>Once the frame is mapped at the end of the heap and cleared, the heap is one page longer and
  holds the words it held.\<close>

lemma heap_page_added:
  fixes s :: "'a heap_state_scheme"
  assumes hm: "heap_mapped s" and room: "heap_room s 4096" and f: "data_frame s f"
    and own: "\<And>a. heap_addr s a \<Longrightarrow> page_of (the (translate s a)) \<noteq> f"
    and pm: "page_mapped (heap_end s - HIGHER_HALF_BASE) f s t"
  defines "u \<equiv> t\<lparr>mem := zero_page f (mem t), heap_end := heap_end s + 4096\<rparr>"
  shows "memset (heap_end s) 0 PMM_FRAME_SIZE t = Some (t\<lparr>mem := zero_page f (mem t)\<rparr>)"
    "heap_mapped u" "hview u = hview s" "foreign s g \<Longrightarrow> g \<noteq> f \<Longrightarrow> foreign u g"
    "foreign s (page_of a) \<Longrightarrow> page_of a \<noteq> f \<Longrightarrow> mem u a = mem s a"
proof -
  let ?e = "heap_end s"
  note h = heap_mappedD [OF hm] and e = heap_end_page [OF heap_mappedD(3) [OF hm] room]
  note P = pm [unfolded page_mapped_def]
  obtain m b n where t: "t = s\<lparr>mem := m, bitmap := b, used_frames := n\<rparr>" and ks: "kernel_space t" using P by blast
  have tr: "\<And>y. heap_region y \<Longrightarrow> translate t (y + HIGHER_HALF_BASE) =
       (if page_of y = page_of (heap_end s - HIGHER_HALF_BASE) then Some (f OR (y AND 0xFFF))
        else translate s (y + HIGHER_HALF_BASE))"
    and df: "\<And>g. data_frame s g \<Longrightarrow> data_frame t g" using P by blast+
  have data: "\<And>a. data_frame s (page_of a) \<Longrightarrow> m a = mem s a" using P by (simp add: t)
  have mt: "mem t = m" by (simp add: t)
  have fal: "page_aligned f" using f by (simp add: data_frame_def)
  have reg: "heap_region (a - HIGHER_HALF_BASE)" if "unat HEAP_START \<le> unat a" "unat a < unat ?e + 4096" for a
    using that room by (intro heap_region_addr) auto
  have pg: "page_of (a - HIGHER_HALF_BASE) = page_of (?e - HIGHER_HALF_BASE) \<longleftrightarrow> page_of a = ?e" for a
    using page_of_higher_half [of "a - HIGHER_HALF_BASE"] page_of_higher_half [of "?e - HIGHER_HALF_BASE"] h(3)
    by (metis add_right_cancel diff_add_cancel)
  have off: "(a - HIGHER_HALF_BASE) AND 0xFFF = a AND 0xFFF" for a
    using higher_half_offset [of "a - HIGHER_HALF_BASE"] by simp
  have tra: "translate t a = (if page_of a = ?e then Some (f OR (a AND 0xFFF)) else translate s a)"
    if "unat HEAP_START \<le> unat a" "unat a < unat ?e + 4096" for a
    using tr [OF reg [OF that]] by (simp add: pg off)
  have eo: "unat (?e + o') = unat ?e + unat o'" "page_of (?e + o') = ?e" "(?e + o') AND 0xFFF = o'" if "o' < 4096" for o'
    using page_plus_offset_no_wrap [OF h(3) that] page_of_plus [OF h(3) that] plus_offset_and [OF h(3) that] by simp_all
  have bk: "backed t ?e f"
    unfolding backed_def
  proof (intro conjI allI impI fal)
    fix o' :: u64 assume o: "o' < 4096"
    have b: "unat HEAP_START \<le> unat (?e + o')" "unat (?e + o') < unat ?e + 4096"
      using h(4) o eo(1) [OF o] by (simp_all add: word_less_nat_alt)
    show tr': "translate t (?e + o') = Some (f + o')" using tra [OF b] eo(2,3) [OF o] or_offset [OF fal o] by simp
    show "f \<notin> walk_tables (mem t) (cr3 t) (?e + o')"
      using region_tables [OF ks reg [OF b] _ df [OF f]] tr' by simp
  qed
  show "memset ?e 0 PMM_FRAME_SIZE t = Some (t\<lparr>mem := zero_page f (mem t)\<rparr>)"
    using memset_page [OF bk] by (simp add: PMM_FRAME_SIZE_def t)
  have zp: "zero_page f m a = mem t a" if "page_of a \<noteq> f" for a using that by (simp add: zero_page_def t)
  note w = data_write [OF ks df [OF f] zp]
  have ueq: "u = t\<lparr>mem := zero_page f m, heap_end := ?e + 4096\<rparr>" by (simp add: u_def mt)
  have au: "heap_addr u a \<longleftrightarrow> heap_addr s a \<or> (unat ?e \<le> unat a \<and> unat a < unat ?e + 4096)" for a
    using h(2,4) e(1) by (auto simp: heap_addr_def ueq t)
  have hs: "unat HEAP_START \<le> unat a \<and> unat a < unat ?e + 4096" if "heap_addr u a" for a
    using that h(2,4) unfolding au by (auto simp: heap_addr_def)
  have tru: "translate u a = (if page_of a = ?e then Some (f OR (a AND 0xFFF)) else translate s a)" if "heap_addr u a" for a
    using w(4) [OF _ reg, of a] tra [of a] hs [OF that] by (simp add: ueq)
  have old: "page_of a \<noteq> ?e \<Longrightarrow> heap_addr s a" if "heap_addr u a" for a using that e(4) unfolding au by auto
  have dfu: "data_frame u g" if "data_frame s g" for g
    using w(5) [OF _, of g] df [OF that] by (simp add: ueq data_frame_def ktables_def pd_used_def pmm_avail_def frames_free_def frames_marked_def bitmap_test_def)
  show hmu: "heap_mapped u"
    unfolding heap_mapped_def
  proof (intro conjI allI impI)
    show "kernel_space u"
      using w(1) by (intro kernel_space_cong [OF w(1)])
        (simp_all add: ueq kernel_mapped_def kernel_space_def ktables_def pmm_ready_def pmm_inv_def pmm_avail_def
          frames_free_def frames_used_def frames_marked_def bitmap_test_def)
    show "heap_start u = HEAP_START" "page_aligned (heap_end u)" "unat HEAP_START \<le> unat (heap_end u)"
      "unat (heap_end u) \<le> unat HIGHER_HALF_BASE + 0x40000000"
      using h(2,4) e(1,2) room by (simp_all add: ueq t)
    fix a
    show "\<exists>g. translate u a = Some (g OR (a AND 0xFFF)) \<and> data_frame u g" if a: "heap_addr u a"
    proof (cases "page_of a = ?e")
      case False
      with h(6) [OF old [OF a False]] tru [OF a] dfu show ?thesis by auto
    qed (use tru [OF a] dfu [OF f] in auto)
    fix b'
    assume ab: "heap_addr u a \<and> heap_addr u b' \<and> page_of a \<noteq> page_of b'"
    then have eqs: "translate u a = (if page_of a = ?e then Some (f OR (a AND 0xFFF)) else translate s a)"
      "translate u b' = (if page_of b' = ?e then Some (f OR (b' AND 0xFFF)) else translate s b')" using tru by auto
    consider "page_of a = ?e" "page_of b' \<noteq> ?e" | "page_of a \<noteq> ?e" "page_of b' = ?e" | "page_of a \<noteq> ?e" "page_of b' \<noteq> ?e"
      using ab by (cases "page_of a = ?e"; cases "page_of b' = ?e") simp_all
    then show "page_of (the (translate u a)) \<noteq> page_of (the (translate u b'))"
    proof cases
      case 1
      then show ?thesis using own [OF old, of b'] ab fal unfolding eqs by auto
    next
      case 2
      then show ?thesis using own [OF old, of a] ab fal unfolding eqs by auto
    next
      case 3
      then show ?thesis using h(7) [OF old [of a] old [of b']] ab unfolding eqs by auto
    qed
  qed
  have lw: "kload64 a u = (if a \<in> heap_words s then kload64 a s else Some 0)" if "a \<in> heap_words u" for a
  proof -
    have a: "heap_addr u a" "unat a mod 8 = 0" using that by (auto simp: heap_words_def)
    show ?thesis
    proof (cases "page_of a = ?e")
      case True
      have "a \<notin> heap_words s" using e(3) [of a] True by (auto simp: heap_words_def heap_addr_def)
      moreover have "translate u a = Some (slot f (word_slot a))" using tru [OF a(1)] True word_place [OF a(2) fal] by simp
      moreover have "load64 (zero_page f m) (slot f (word_slot a)) = 0" using load64_zero_page [OF fal fal] by simp
      ultimately show ?thesis by (simp add: kload64_def ueq)
    next
      case False
      have hs: "a \<in> heap_words s" using old [OF a(1) False] a(2) by (simp add: heap_words_def)
      obtain g where g: "translate s a = Some (slot g (word_slot a))" "data_frame s g" "page_aligned g"
        by (rule heap_word_place [OF hm hs])
      have "g \<noteq> f" using own [OF old [OF a(1) False]] g(1,3) by auto
      then have "load64 (zero_page f m) (slot g (word_slot a)) = load64 (mem s) (slot g (word_slot a))"
        using data g(2) by (intro load64_page_cong g(3)) (auto simp: zero_page_def)
      moreover have "translate u a = Some (slot g (word_slot a))" using tru [OF a(1)] False g(1) by simp
      ultimately show ?thesis using hs g(1) by (simp add: kload64_def ueq)
    qed
  qed
  have sub: "heap_words s \<subseteq> heap_words u" using au by (auto simp: heap_words_def)
  show "hview u = hview s"
    using lw sub by (auto simp: kheap.view_def fun_eq_iff)
  show "foreign u g" if g: "foreign s g" "g \<noteq> f"
    unfolding foreign_def
  proof (intro conjI allI impI)
    show "data_frame u g" using dfu g by (simp add: foreign_def)
    fix a assume a: "heap_addr u a"
    show "page_of (the (translate u a)) \<noteq> g"
      using tru [OF a] old [OF a] g fal by (cases "page_of a = ?e") (auto simp: foreign_def)
  qed
  show "mem u a = mem s a" if "foreign s (page_of a)" "page_of a \<noteq> f"
    using data [of a] that by (auto simp: ueq zero_page_def foreign_def)
qed

text \<open>What growing the heap may change.\<close>

definition heap_eq :: "'a heap_state_scheme \<Rightarrow> 'a heap_state_scheme \<Rightarrow> bool" where
  "heap_eq s t \<longleftrightarrow> t = s\<lparr>mem := mem t, bitmap := bitmap t, used_frames := used_frames t, heap_end := heap_end t\<rparr>"

lemma heap_eqI: "t = s\<lparr>mem := m, bitmap := b, used_frames := n, heap_end := e\<rparr> \<Longrightarrow> heap_eq s t"
  by (simp add: heap_eq_def)

lemma heap_eqE:
  assumes "heap_eq s t"
  obtains m b n e where "t = s\<lparr>mem := m, bitmap := b, used_frames := n, heap_end := e\<rparr>"
  using assms unfolding heap_eq_def by blast

lemma heap_eq_refl [simp]: "heap_eq s s"
  by (simp add: heap_eq_def)

lemma heap_eq_trans [trans]: "heap_eq s t \<Longrightarrow> heap_eq t u \<Longrightarrow> heap_eq s u"
  by (elim heap_eqE) (rule heap_eqI, simp)

lemma heap_eqD:
  assumes "heap_eq s t"
  shows "heap_start t = heap_start s" "free_list t = free_list s" "heap_used_bytes t = heap_used_bytes s" "syms t = syms s"
    "cr3 t = cr3 s"
  by (rule heap_eqE [OF assms], simp)+

text \<open>The frames that an operation takes: at most two for every page by which the heap grows, one for the page and one for a table.\<close>

definition spends :: "'a heap_state_scheme \<Rightarrow> 'a heap_state_scheme \<Rightarrow> bool" where
  "spends s t \<longleftrightarrow> unat (heap_end s) \<le> unat (heap_end t) \<and> pmm_avail t \<subseteq> pmm_avail s \<and>
     card (pmm_avail s) \<le> card (pmm_avail t) + 2 * ((unat (heap_end t) - unat (heap_end s)) div 4096)"

lemma spends_refl [simp]: "spends s s"
  by (simp add: spends_def)

lemma spends_trans [trans]:
  assumes "spends s t" "spends t u"
  shows "spends s u"
proof -
  obtain i j where ij: "unat (heap_end t) = unat (heap_end s) + i" "unat (heap_end u) = unat (heap_end s) + (i + j)"
    using assms by (auto simp: spends_def le_iff_add)
  have "i div 4096 + j div 4096 \<le> (i + j) div 4096" by (simp add: div_add1_eq [of i j])
  then show ?thesis using assms unfolding spends_def ij by auto
qed

lemma spends_same: "heap_end t = heap_end s \<Longrightarrow> pmm_avail t = pmm_avail s \<Longrightarrow> spends s t"
  by (simp add: spends_def)

text \<open>The heap after an attempt to grow it by \<open>n\<close> bytes.\<close>

definition heap_grown :: "'a heap_state_scheme \<Rightarrow> nat \<Rightarrow> 'a heap_state_scheme \<Rightarrow> bool" where
  "heap_grown s n t \<longleftrightarrow> heap_mapped t \<and> hview t = hview s \<and> heap_eq s t \<and> spares s t \<and> spends s t \<and>
     unat (heap_end t) = unat (heap_end s) + n"

lemma heap_extend_step:
  fixes s :: "'a heap_state_scheme"
  assumes hm: "heap_mapped s" and room: "heap_room s 4096"
  shows "(\<exists>t. heap_extend_loop (Suc n) s = heap_extend_loop n t \<and> heap_grown s 4096 t \<and>
      card (pmm_avail s) \<le> card (pmm_avail t) + 2) \<or>
    (\<exists>t. heap_extend_loop (Suc n) s = Some (- 1, t) \<and> heap_grown s 0 t \<and> card (pmm_avail s) \<le> 1)"
proof -
  note h = heap_mappedD [OF hm] and k = kernel_spaceD [OF heap_mappedD(1) [OF hm]]
  obtain f u where fu: "pmm_alloc_frame s = (f, u)" by fastforce
  obtain b n' where u: "u = s\<lparr>bitmap := b, used_frames := n'\<rparr>"
    using pmm_alloc_frame_eq [of s] unfolding fu snd_conv by (rule bitmap_eqE)
  show ?thesis
  proof (cases "pmm_avail s = {}")
    case True
    then have "f = 0" "u = s" using pmm.alloc_empty [OF k(4)] fu by auto
    then show ?thesis using True hm fu by (auto simp: heap_grown_def)
  next
    case False
    have f: "f \<noteq> 0" "f \<in> pmm_avail s" "pmm_avail u = pmm_avail s - {f}" "pmm_ready u" "pmm_managed u = pmm_managed s"
      using pmm.alloc_cases [OF k(4) fu] False by auto
    note a = heap_mapped_avail [OF u hm f(4)]
    have hu: "heap_mapped u" "hview u = hview s" and dfu: "\<And>g. data_frame s g \<Longrightarrow> data_frame u g" using a f(3) by auto
    have df: "data_frame u f"
      using f(2,3) k(5) kernel_spaceD(10) [OF h(1)] avail_aligned [OF k(4) f(2)]
      by (auto simp: data_frame_def u ktables_def pd_used_def)
    have own: "page_of (the (translate u a)) \<noteq> f" if "heap_addr u a" for a
      using h(6) [of a] that f(2) by (auto simp: u heap_addr_def data_frame_def)
    have end_u: "heap_end u = heap_end s" by (simp add: u)
    let ?x = "heap_end u - HIGHER_HALF_BASE"
    have x: "heap_region ?x" "?x + HIGHER_HALF_BASE = heap_end u"
      using h(4) room by (simp_all add: end_u heap_region_addr)
    show ?thesis
    proof (cases "pd_used u (pt_index 21 (?x + HIGHER_HALF_BASE)) \<or> pmm_avail u \<noteq> {}")
      case True
      have pf: "page_of f = f" using df by (simp add: data_frame_def)
      obtain t where t: "paging_map_page (heap_end u) f heap_flags u = Some (0, t)" "page_mapped ?x f u t"
        using map_page_data [OF heap_mappedD(1) [OF hu(1)] x(1) heap_flags True, of f] by (auto simp: x(2) pf)
      have room_u: "heap_room u 4096" using room by (simp add: end_u)
      note g = heap_page_added [OF hu(1) room_u df own t(2)]
      note P = t(2) [unfolded page_mapped_def]
      obtain m b2 n2 where teq: "t = u\<lparr>mem := m, bitmap := b2, used_frames := n2\<rparr>" using P by blast
      obtain p where p: "pmm_avail t = pmm_avail u - {p}" using P by blast
      let ?w = "t\<lparr>mem := zero_page f (mem t), heap_end := heap_end u + 4096\<rparr>"
      have lp: "heap_extend_loop (Suc n) s = heap_extend_loop n ?w"
        using fu f(1) t(1) g(1) by (simp add: PMM_FRAME_SIZE_def teq)
      have "spares s ?w"
      proof -
        have ne: "g \<noteq> f" if "foreign s g" for g using that f(2) by (auto simp: foreign_def data_frame_def)
        have fu: "foreign u g" if "foreign s g" for g using a(4) f(3) that by (auto simp: spares_def)
        show ?thesis
          unfolding spares_def
        proof (intro conjI allI impI)
          show "foreign ?w g" if "foreign s g" for g using g(4) [OF _ fu [OF that] ne [OF that]] by simp
          show "mem ?w x = mem s x" if "foreign s (page_of x)" for x
            using g(5) [OF _ fu [OF that] ne [OF that]] by (simp add: u)
        qed
      qed
      moreover have cd: "card (pmm_avail s) \<le> card (pmm_avail ?w) + 2" and sub: "pmm_avail ?w \<subseteq> pmm_avail s"
      proof -
        have e: "pmm_avail ?w = pmm_avail s - {f, p}" using p f(3)
          by (simp add: pmm_avail_def frames_free_def frames_marked_def bitmap_test_def) auto
        show "pmm_avail ?w \<subseteq> pmm_avail s" unfolding e by blast
        show "card (pmm_avail s) \<le> card (pmm_avail ?w) + 2"
          unfolding e using card_insert_le_m1 [of 2 "{p}"] diff_card_le_card_Diff [of "{f, p}" "pmm_avail s"]
          by (cases "f = p") auto
      qed
      moreover have "spends s ?w" using cd sub heap_end_page(1) [OF h(3) room] by (simp add: spends_def end_u)
      ultimately have "heap_grown s 4096 ?w"
        using g(2,3) hu(2) heap_end_page(1) [OF h(3) room]
        by (simp add: heap_grown_def heap_eq_def teq u)
      with lp cd show ?thesis by blast
    next
      case False
      have "paging_map_page (heap_end u) f heap_flags u = Some (- 1, u)"
        using paging_map_page_cases [OF heap_mappedD(1) [OF hu(1)] x(1) heap_flags, of f] False by (simp add: x(2))
      then have lp: "heap_extend_loop (Suc n) s = Some (- 1, pmm_free_frame f u)" using fu f(1) by simp
      have man: "f \<in> pmm_managed u" using pmm.avail_managed [OF k(4)] f(2,5) by auto
      obtain b2 n2 where w: "pmm_free_frame f u = u\<lparr>bitmap := b2, used_frames := n2\<rparr>"
        using pmm_free_frame_eq [of u f] by (rule bitmap_eqE)
      have av: "pmm_avail (pmm_free_frame f u) = pmm_avail s"
        using pmm.release_avail [OF f(4) man f(1)] f(2,3) by auto
      have weq: "pmm_free_frame f u = s\<lparr>bitmap := b2, used_frames := n2\<rparr>" by (simp add: w) (simp add: u)
      have "heap_grown s 0 (pmm_free_frame f u)"
        using heap_mapped_avail(1,2,4) [OF weq hm pmm.release_inv [OF f(4,1) man]] av spends_same [of "pmm_free_frame f u" s]
        by (simp add: heap_grown_def heap_eq_def weq)
      moreover have "card (pmm_avail s) \<le> 1" using False f(2,3) by (auto simp: subset_singleton_iff card_le_Suc0_iff_eq)
      ultimately show ?thesis using lp by blast
    qed
  qed
qed

lemma heap_grown_trans: "heap_grown s m t \<Longrightarrow> heap_grown t n u \<Longrightarrow> heap_grown s (m + n) u"
  using heap_eq_trans spares_trans spends_trans by (auto simp: heap_grown_def)

lemma heap_extend_loop_spec:
  fixes s :: "'a heap_state_scheme"
  assumes "heap_mapped s" "heap_room s (4096 * n)"
  shows "\<exists>r t k. heap_extend_loop n s = Some (r, t) \<and> heap_grown s (4096 * k) t \<and>
    (r = 0 \<and> k = n \<or> r = - 1 \<and> k < n \<and> card (pmm_avail s) < 2 * n)"
  using assms
proof (induction n arbitrary: s)
  case 0
  then show ?case by (auto simp: heap_grown_def)
next
  case (Suc n)
  have room: "heap_room s 4096" using Suc.prems(2) by simp
  from heap_extend_step [OF Suc.prems(1) room, of n] show ?case
  proof
    assume "\<exists>t. heap_extend_loop (Suc n) s = heap_extend_loop n t \<and> heap_grown s 4096 t \<and>
      card (pmm_avail s) \<le> card (pmm_avail t) + 2"
    then obtain t where t: "heap_extend_loop (Suc n) s = heap_extend_loop n t" "heap_grown s 4096 t"
      "card (pmm_avail s) \<le> card (pmm_avail t) + 2" by blast
    have "heap_mapped t" "heap_room t (4096 * n)" using t(2) Suc.prems(2) by (auto simp: heap_grown_def)
    from Suc.IH [OF this] obtain r u k where u: "heap_extend_loop n t = Some (r, u)" "heap_grown t (4096 * k) u"
      "r = 0 \<and> k = n \<or> r = - 1 \<and> k < n \<and> card (pmm_avail t) < 2 * n" by blast
    have "heap_grown s (4096 * Suc k) u" using heap_grown_trans [OF t(2) u(2)] by simp
    with t u show ?thesis by (intro exI [of _ r] exI [of _ u] exI [of _ "Suc k"]) auto
  next
    assume "\<exists>t. heap_extend_loop (Suc n) s = Some (- 1, t) \<and> heap_grown s 0 t \<and> card (pmm_avail s) \<le> 1"
    then obtain t where t: "heap_extend_loop (Suc n) s = Some (- 1, t)" "heap_grown s 0 t" "card (pmm_avail s) \<le> 1" by blast
    then show ?thesis by (intro exI [of _ "- 1"] exI [of _ t] exI [of _ 0]) auto
  qed
qed

text \<open>
  Growing the heap by \<open>pages\<close> pages, as long as it stays inside the gigabyte of kernel
  addresses that its page directory covers: \<open>heap_extend\<close> returns 0 with the heap longer by
  exactly these pages, or -1 with the heap longer by fewer, and it can only fail when fewer than two free frames
  per page (one for the page, one for a page table) were left. Either way every word of the heap keeps its
  value, the new pages read as zero, and each page of the heap still has a frame of its own.
\<close>

theorem heap_extend_grows:
  fixes s :: "'a heap_state_scheme"
  assumes "heap_mapped s" "heap_room s (4096 * unat pages)"
  shows "\<exists>r t k. heap_extend pages s = Some (r, t) \<and> heap_grown s (4096 * k) t \<and>
    (r = 0 \<and> k = unat pages \<or> r = - 1 \<and> k < unat pages \<and> card (pmm_avail s) < 2 * unat pages)"
  unfolding heap_extend_def by (rule heap_extend_loop_spec [OF assms])

section \<open>Changes that leave the memory of the heap alone\<close>

definition heap_same :: "'a heap_state_scheme \<Rightarrow> 'a heap_state_scheme \<Rightarrow> bool" where
  "heap_same s t \<longleftrightarrow> mem t = mem s \<and> cr3 t = cr3 s \<and> syms t = syms s \<and> new_pml4 t = new_pml4 s \<and>
     bitmap t = bitmap s \<and> total_frames t = total_frames s \<and> used_frames t = used_frames s \<and>
     heap_start t = heap_start s \<and> heap_end t = heap_end s"

lemma heap_same_mapped:
  assumes "heap_same s t"
  shows "heap_mapped t = heap_mapped s" "hview t = hview s" "heap_words t = heap_words s" "pmm_avail t = pmm_avail s"
proof -
  note t = assms [unfolded heap_same_def]
  show pm: "pmm_avail t = pmm_avail s"
    using t by (simp_all add: pmm_avail_def frames_free_def frames_marked_def bitmap_test_def)
  have rd: "pmm_ready t = pmm_ready s"
    using t by (simp_all add: pmm_ready_def pmm_inv_def frames_used_def frames_marked_def bitmap_test_def)
  have pd: "pd_used t = pd_used s" "data_frame t = data_frame s"
    by (intro ext, use t in \<open>simp add: pd_used_def data_frame_def ktables_def pm\<close>)+
  show w: "heap_words t = heap_words s" using t by (simp add: heap_words_def heap_addr_def)
  then show "hview t = hview s" by (intro ext, use t in \<open>simp add: kheap.view_def kload64_def\<close>)
  have "kernel_space t = kernel_space s"
    unfolding kernel_space_def pm rd pd using t by (simp add: kernel_mapped_def ktables_def)
  then show "heap_mapped t = heap_mapped s"
    unfolding heap_mapped_def pd using t by (simp add: heap_addr_def)
qed

lemma heap_same_foreign:
  assumes "heap_same s t"
  shows "foreign t f = foreign s f" "spares s t" "spends s t"
proof -
  note e = assms [unfolded heap_same_def] and av = heap_same_mapped(4) [OF assms]
  have "data_frame t g = data_frame s g" for g using e av by (simp add: data_frame_def ktables_def pd_used_def)
  then show "foreign t f = foreign s f" for f using e by (simp add: foreign_def heap_addr_def)
  then show "spares s t" using e by (simp add: spares_def)
  show "spends s t" using e av by (intro spends_same) simp_all
qed

lemma heap_same_both:
  assumes "heap_same s s'" "heap_same t t'"
  shows "spares s' t' = spares s t" "spends s' t' = spends s t"
  using assms heap_same_foreign(1) [OF assms(1)] heap_same_foreign(1) [OF assms(2)] heap_same_mapped(4) [OF assms(1)] heap_same_mapped(4) [OF assms(2)]
  by (simp_all add: spares_def spends_def heap_same_def)

lemma heap_same_refl [simp]: "heap_same s s"
  by (simp add: heap_same_def)

lemma heap_same_trans: "heap_same s t \<Longrightarrow> heap_same t u \<Longrightarrow> heap_same s u"
  by (simp add: heap_same_def)

lemma heap_same_update [simp]:
  "heap_same s (t\<lparr>free_list := p\<rparr>) = heap_same s t" "heap_same s (t\<lparr>heap_used_bytes := n\<rparr>) = heap_same s t"
  by (simp_all add: heap_same_def)

lemma heap_mapped_update [simp]:
  "heap_mapped (s\<lparr>free_list := p\<rparr>) = heap_mapped s" "hview (s\<lparr>free_list := p\<rparr>) = hview s"
  "heap_words (s\<lparr>free_list := p\<rparr>) = heap_words s"
  "heap_mapped (s\<lparr>heap_used_bytes := n\<rparr>) = heap_mapped s" "hview (s\<lparr>heap_used_bytes := n\<rparr>) = hview s"
  "heap_words (s\<lparr>heap_used_bytes := n\<rparr>) = heap_words s"
  using heap_same_mapped [of s "s\<lparr>free_list := p\<rparr>"] heap_same_mapped [of s "s\<lparr>heap_used_bytes := n\<rparr>"] by simp_all

lemma vga_heap_same: "vga_eq s t \<Longrightarrow> heap_same s t"
  by (erule vga_eqE) (simp add: heap_same_def)

end
