(* ===== verification/Prism_Blocks.thy ===== *)
theory Prism_Blocks
  imports Prism_Heap
begin

text \<open>
  The blocks of the heap (\<^verbatim>\<open>mm/heap.c\<close>) as a matter of the contents of memory \<open>w\<close> alone: free
  blocks are chained from the head of the free list, free and allocated blocks are disjoint and
  inside the heap. The four changes that allocation and release are made of (split, unlink, link, merge)
  keep that, and the contents of the allocated blocks.
\<close>

section \<open>Chains of blocks\<close>

text \<open>The blocks on the way from pointer \<open>p\<close> to pointer \<open>q\<close>.\<close>

fun seg :: "(u64 \<Rightarrow> u64) \<Rightarrow> u64 \<Rightarrow> u64 list \<Rightarrow> u64 \<Rightarrow> bool" where
  "seg w p [] q \<longleftrightarrow> p = q"
| "seg w p (b # bs) q \<longleftrightarrow> p = b \<and> b \<noteq> 0 \<and> seg w (w (b + 16)) bs q"

lemma seg_append: "seg w p (xs @ ys) q \<longleftrightarrow> (\<exists>r. seg w p xs r \<and> seg w r ys q)"
  by (induction xs arbitrary: p) auto

lemma seg_cong: "(\<And>b. b \<in> set xs \<Longrightarrow> w' (b + 16) = w (b + 16)) \<Longrightarrow> seg w' p xs q = seg w p xs q"
  by (induction xs arbitrary: p) auto

lemma seg_head: "seg w p xs 0 \<Longrightarrow> p = (case xs of [] \<Rightarrow> 0 | b # bs \<Rightarrow> b)"
  by (cases xs) auto

lemma seg_unique: "seg w p xs 0 \<Longrightarrow> seg w p ys 0 \<Longrightarrow> xs = ys"
proof (induction xs arbitrary: p ys)
  case Nil
  then show ?case by (cases ys) auto
next
  case (Cons x xs)
  then show ?case by (cases ys) auto
qed

text \<open>Redirecting the last link.\<close>

lemma seg_redirect:
  assumes "seg w p (xs @ [b]) r" "b \<notin> set xs"
  shows "seg (w(b + 16 := q)) p (xs @ [b]) q"
proof -
  have "seg (w(b + 16 := q)) p xs b" using assms by (subst seg_cong [where w = w]) (auto simp: seg_append)
  then show ?thesis using assms(1) by (auto simp: seg_append)
qed

section \<open>Blocks\<close>

definition block_end :: "(u64 \<Rightarrow> u64) \<Rightarrow> u64 \<Rightarrow> nat" where
  "block_end w b = unat b + 16 + unat (w b)"

definition good_block :: "(u64 \<Rightarrow> u64) \<Rightarrow> nat \<Rightarrow> nat \<Rightarrow> u64 \<Rightarrow> bool" where
  "good_block w lo hi b \<longleftrightarrow> lo \<le> unat b \<and> unat b mod 8 = 0 \<and> unat (w b) mod 8 = 0 \<and> 8 \<le> unat (w b) \<and>
     block_end w b \<le> hi"

definition apart :: "(u64 \<Rightarrow> u64) \<Rightarrow> u64 \<Rightarrow> u64 \<Rightarrow> bool" where
  "apart w b c \<longleftrightarrow> block_end w b \<le> unat c \<or> block_end w c \<le> unat b"

definition blocks_ok :: "(u64 \<Rightarrow> u64) \<Rightarrow> nat \<Rightarrow> nat \<Rightarrow> u64 set \<Rightarrow> bool" where
  "blocks_ok w lo hi B \<longleftrightarrow> 0 < lo \<and> hi < 2 ^ 64 \<and> (\<forall>b\<in>B. good_block w lo hi b) \<and>
     (\<forall>b\<in>B. \<forall>c\<in>B. b \<noteq> c \<longrightarrow> apart w b c)"

lemma blocks_okD:
  assumes "blocks_ok w lo hi B" "b \<in> B"
  shows "0 < lo" "hi < 2 ^ 64" "good_block w lo hi b" "c \<in> B \<Longrightarrow> b \<noteq> c \<Longrightarrow> apart w b c"
  using assms by (auto simp: blocks_ok_def)

text \<open>Addresses inside a block do not wrap around.\<close>

lemma block_addr:
  assumes "blocks_ok w lo hi B" "b \<in> B"
  shows "k < 16 + unat (w b) \<Longrightarrow> unat (b + of_nat k) = unat b + k" "unat b + 16 + unat (w b) \<le> hi"
    "unat (b + 8) = unat b + 8" "unat (b + 16) = unat b + 16" "b \<noteq> 0" "8 \<le> unat (w b)"
proof -
  note d = blocks_okD [OF assms, unfolded good_block_def block_end_def]
  show h: "unat b + 16 + unat (w b) \<le> hi" and z: "8 \<le> unat (w b)" using d(3) by auto
  have hi: "hi < 18446744073709551616" using d(2) by simp
  show nw: "unat (b + of_nat k) = unat b + k" if "k < 16 + unat (w b)" for k
  proof -
    have "unat b + k < 18446744073709551616" using that h hi by linarith
    then show ?thesis by (simp add: unat_plus_if' unat_of_nat)
  qed
  show "unat (b + 8) = unat b + 8" using nw [of 8] by simp
  show "unat (b + 16) = unat b + 16" using nw [of 16] z by simp
  show "b \<noteq> 0" using d(1,3) by auto
qed

text \<open>The header words of different blocks are different.\<close>

lemma headers_differ:
  assumes "blocks_ok w lo hi B" "b \<in> B" "c \<in> B"
  shows "b + 8 \<noteq> c" "b + 16 \<noteq> c" "b + 16 \<noteq> c + 8" "b + 8 \<noteq> c + 16"
proof -
  note b = block_addr(3,4,6) [OF assms(1,2)] and c = block_addr(3,4,6) [OF assms(1,3)]
  have "b = c \<or> unat b + 24 \<le> unat c \<or> unat c + 24 \<le> unat b"
    using blocks_okD(4) [OF assms] b(3) c(3) by (auto simp: apart_def block_end_def)
  then show "b + 8 \<noteq> c" "b + 16 \<noteq> c" "b + 16 \<noteq> c + 8" "b + 8 \<noteq> c + 16"
    using b c by (auto simp: word_unat_eq_iff)
qed

lemma blocks_ok_cong:
  assumes "blocks_ok w lo hi B" "C \<subseteq> B" "\<And>b. b \<in> C \<Longrightarrow> w' b = w b"
  shows "blocks_ok w' lo hi C"
  unfolding blocks_ok_def
proof (intro conjI ballI impI)
  show "0 < lo" "hi < 2 ^ 64" using assms(1) by (auto simp: blocks_ok_def)
  show "good_block w' lo hi b" if "b \<in> C" for b
    using blocks_okD(3) [OF assms(1), of b] assms(2,3) that by (auto simp: good_block_def block_end_def)
  show "apart w' b c" if "b \<in> C" "c \<in> C" "b \<noteq> c" for b c
    using blocks_okD(4) [OF assms(1), of b c] assms(2,3) that by (auto simp: apart_def block_end_def)
qed

lemma blocks_ok_field:
  assumes "blocks_ok w lo hi B" "b \<in> B" "k = 8 \<or> k = 16"
  shows "blocks_ok (w(b + k := v)) lo hi B"
  using headers_differ [OF assms(1,2)] assms(3) by (intro blocks_ok_cong [OF assms(1)]) auto

lemma blocks_ok_longer: "blocks_ok w lo hi B \<Longrightarrow> hi \<le> hi' \<Longrightarrow> hi' < 2 ^ 64 \<Longrightarrow> blocks_ok w lo hi' B"
  by (force simp: blocks_ok_def good_block_def)

section \<open>Shape of the heap\<close>

text \<open>\<open>F\<close> are the free blocks in the order of the list from \<open>fl\<close>, \<open>A\<close> the allocated ones.\<close>

definition heap_shape :: "(u64 \<Rightarrow> u64) \<Rightarrow> nat \<Rightarrow> nat \<Rightarrow> u64 \<Rightarrow> u64 list \<Rightarrow> u64 set \<Rightarrow> bool" where
  "heap_shape w lo hi fl F A \<longleftrightarrow> blocks_ok w lo hi (set F \<union> A) \<and> seg w fl F 0 \<and> distinct F \<and>
     (\<forall>b\<in>set F. w (b + 8) = 0) \<and> (\<forall>b\<in>A. w (b + 8) = HEAP_MAGIC)"

lemma heap_shapeD:
  assumes "heap_shape w lo hi fl F A"
  shows "blocks_ok w lo hi (set F \<union> A)" "seg w fl F 0" "distinct F"
    "b \<in> set F \<Longrightarrow> w (b + 8) = 0" "b \<in> A \<Longrightarrow> w (b + 8) = HEAP_MAGIC" "set F \<inter> A = {}"
proof -
  show "blocks_ok w lo hi (set F \<union> A)" "seg w fl F 0" "distinct F"
    and f: "b \<in> set F \<Longrightarrow> w (b + 8) = 0" and a: "b \<in> A \<Longrightarrow> w (b + 8) = HEAP_MAGIC" for b
    using assms by (auto simp: heap_shape_def)
  show "set F \<inter> A = {}" using f a by (force simp: HEAP_MAGIC_def)
qed

text \<open>Making \<open>q\<close> follow the blocks \<open>xs\<close>: in the last of them, or in the list head.\<close>

definition relink :: "(u64 \<Rightarrow> u64) \<Rightarrow> u64 list \<Rightarrow> u64 \<Rightarrow> u64 \<Rightarrow> u64" where
  "relink w xs q = (if xs = [] then w else w(last xs + 16 := q))"

definition rehead :: "u64 \<Rightarrow> u64 list \<Rightarrow> u64 \<Rightarrow> u64" where
  "rehead fl xs q = (if xs = [] then q else fl)"

lemma seg_relink:
  assumes "seg w fl xs r" "distinct xs"
  shows "seg (relink w xs q) (rehead fl xs q) xs q"
proof (cases xs rule: rev_cases)
  case (snoc ys b)
  then show ?thesis using seg_redirect [of w fl ys b r q] assms by (simp add: relink_def rehead_def)
qed (simp add: rehead_def)

lemma relink_apply: "relink w xs q a = (if xs \<noteq> [] \<and> a = last xs + 16 then q else w a)"
  by (simp add: relink_def)

lemma relink_other:
  assumes "blocks_ok w lo hi B" "set xs \<subseteq> B" "b \<in> B"
  shows "relink w xs q b = w b" "relink w xs q (b + 8) = w (b + 8)"
    "xs = [] \<or> b \<noteq> last xs \<Longrightarrow> relink w xs q (b + 16) = w (b + 16)"
proof -
  have l: "last xs \<in> B" if "xs \<noteq> []" using assms(2) that by auto
  show "relink w xs q b = w b" "relink w xs q (b + 8) = w (b + 8)"
    "xs = [] \<or> b \<noteq> last xs \<Longrightarrow> relink w xs q (b + 16) = w (b + 16)"
    using headers_differ [OF assms(1) l assms(3)] by (auto simp: relink_apply)
qed

lemma unlink_shape:
  assumes "heap_shape w lo hi fl (xs @ c # ys) A"
  shows "heap_shape ((relink w xs (w (c + 16)))(c + 8 := HEAP_MAGIC)) lo hi (rehead fl xs (w (c + 16))) (xs @ ys) (insert c A)"
proof -
  note h = heap_shapeD [OF assms]
  let ?B = "set (xs @ c # ys) \<union> A" and ?r = "relink w xs (w (c + 16))"
  let ?w = "?r(c + 8 := HEAP_MAGIC)"
  have B: "set (xs @ ys) \<union> insert c A = ?B" by auto
  have sub: "set xs \<subseteq> ?B" by auto
  note other = relink_other [OF h(1) sub, where q = "w (c + 16)"]
  have c: "c \<in> ?B" "c \<notin> set xs" "c \<notin> set ys" "c \<notin> A" using h(3,6) by auto
  note hd = headers_differ [OF h(1) c(1)]
  have ok: "blocks_ok ?w lo hi ?B"
    using other(1) hd(1) by (intro blocks_ok_cong [OF h(1)]) auto
  obtain r where r: "seg w fl xs r" "seg w r (c # ys) 0" using h(2) by (auto simp: seg_append)
  have "seg ?w (rehead fl xs (w (c + 16))) xs (w (c + 16))"
    using seg_relink [OF r(1), of "w (c + 16)"] h(3) hd(4)
    by (subst seg_cong [where w = ?r]) (auto simp: )
  moreover have "seg ?w (w (c + 16)) ys 0"
    using r(2) other(3) h(3) hd(4) by (subst seg_cong [where w = w]) (auto dest: last_in_set)
  ultimately have sg: "seg ?w (rehead fl xs (w (c + 16))) (xs @ ys) 0" by (auto simp: seg_append)
  show ?thesis
    unfolding heap_shape_def B
    using ok sg h(3,4,5) other(2) c(2,3) by auto
qed

lemma link_shape:
  assumes "heap_shape w lo hi fl (xs @ ys) A" "c \<in> A"
    and q: "q = (case ys of [] \<Rightarrow> 0 | b # bs \<Rightarrow> b)"
  shows "heap_shape (relink (w(c + 8 := 0, c + 16 := q)) xs c) lo hi (rehead fl xs c) (xs @ c # ys) (A - {c})"
proof -
  note h = heap_shapeD [OF assms(1)]
  let ?B = "set (xs @ ys) \<union> A" and ?v = "w(c + 8 := 0, c + 16 := q)"
  let ?w = "relink ?v xs c"
  have B: "set (xs @ c # ys) \<union> (A - {c}) = ?B" using assms(2) by auto
  have c: "c \<in> ?B" "c \<notin> set xs" "c \<notin> set ys" using assms(2) h(6) by auto
  note hd = headers_differ [OF h(1) c(1)]
  have okv: "blocks_ok ?v lo hi ?B"
    by (intro blocks_ok_field blocks_ok_field [OF h(1)]) (use c in auto)
  have sub: "set xs \<subseteq> ?B" by auto
  note other = relink_other [OF okv sub, where q = c]
  have ok: "blocks_ok ?w lo hi ?B" using other(1) by (intro blocks_ok_cong [OF okv]) auto
  obtain r where r: "seg w fl xs r" "seg w r ys 0" using h(2) by (auto simp: seg_append)
  have "seg ?v fl xs r" using r(1) c(2) hd(4) headers_differ(4) [OF h(1) c(1)] by (subst seg_cong [where w = w]) auto
  then have s1: "seg ?w (rehead fl xs c) xs c" using seg_relink [of ?v fl xs r c] h(3) by auto
  have lx: "xs = [] \<or> b \<noteq> last xs" if "b \<in> insert c (set ys)" for b
    using that c h(3) by (auto dest: last_in_set)
  have vy: "?v (b + 16) = w (b + 16)" if "b \<in> set ys" for b using that c(3) hd(4) by auto
  have "?w (b + 16) = w (b + 16)" if "b \<in> set ys" for b using other(3) [of b] lx [of b] vy [OF that] that by simp
  then have "seg ?w r ys 0 = seg w r ys 0" by (rule seg_cong)
  moreover have "r = q" using r(2) q by (auto dest: seg_head)
  moreover have "?w (c + 16) = q" using other(3) [OF c(1)] lx [of c] by simp
  ultimately have "seg ?w c (c # ys) 0" using r(2) block_addr(5) [OF h(1) c(1)] by simp
  with s1 have sg: "seg ?w (rehead fl xs c) (xs @ c # ys) 0" by (auto simp: seg_append)
  have m: "?w (b + 8) = (if b = c then 0 else w (b + 8))" if "b \<in> ?B" for b
    using other(2) [OF that] headers_differ(3) [OF h(1) c(1) that] by auto
  show ?thesis
    unfolding heap_shape_def B
    using ok sg h(3,4,5) c m by auto
qed

text \<open>An address inside a block is no header word of another block.\<close>

lemma inside_other:
  assumes "blocks_ok w lo hi B" "c \<in> B" "b \<in> B" "b \<noteq> c" "unat c \<le> unat a" "unat a < block_end w c"
  shows "a \<noteq> b" "a \<noteq> b + 8" "a \<noteq> b + 16"
proof -
  note b = block_addr(3,4,6) [OF assms(1,3)]
  have "unat a < unat b \<or> unat b + 24 \<le> unat a"
    using blocks_okD(4) [OF assms(1,2,3)] assms(4-6) b(3) by (auto simp: apart_def block_end_def)
  then show "a \<noteq> b" "a \<noteq> b + 8" "a \<noteq> b + 16" using b(1,2) by (auto simp: word_unat_eq_iff)
qed

lemma split_geometry:
  assumes "blocks_ok w lo hi B" "c \<in> B" "unat n + 32 \<le> unat (w c)"
  defines "nf \<equiv> c + 16 + n"
  shows "unat nf = unat c + 16 + unat n" "unat (nf + 8) = unat nf + 8" "unat (nf + 16) = unat nf + 16"
    "unat (w c - n - 16) = unat (w c) - unat n - 16" "unat nf + 16 + unat (w c - n - 16) = block_end w c"
proof -
  note a = block_addr(1) [OF assms(1,2)]
  have nf: "nf + of_nat k = c + of_nat (16 + unat n + k)" for k by (simp add: nf_def)
  show u: "unat nf = unat c + 16 + unat n"
    using a [of "16 + unat n"] assms(3) nf [of 0] by simp
  show "unat (nf + 8) = unat nf + 8" "unat (nf + 16) = unat nf + 16"
    using a [of "16 + unat n + 8"] a [of "16 + unat n + 16"] assms(3) nf [of 8] nf [of 16] u
    by (simp_all add: ac_simps)
  have "n \<le> w c" using assms(3) by (simp add: word_le_nat_alt)
  then have un: "unat (w c - n) = unat (w c) - unat n" by (simp add: unat_sub)
  then have "16 \<le> w c - n" using assms(3) by (simp add: word_le_nat_alt)
  then show sz: "unat (w c - n - 16) = unat (w c) - unat n - 16" by (simp add: unat_sub un)
  show "unat nf + 16 + unat (w c - n - 16) = block_end w c"
    unfolding u sz block_end_def using assms(3) by simp
qed

definition split_words :: "u64 \<Rightarrow> u64 \<Rightarrow> (u64 \<Rightarrow> u64) \<Rightarrow> u64 \<Rightarrow> u64" where
  "split_words c n w = (let nf = c + 16 + n in
     w(nf := w c - n - 16, nf + 8 := 0, nf + 16 := w (c + 16), c := n, c + 16 := nf))"

lemma split_words_eq:
  assumes "blocks_ok w lo hi B" "c \<in> B" "unat n + 32 \<le> unat (w c)" "8 \<le> unat n"
  defines "nf \<equiv> c + 16 + n"
  shows "split_words c n w c = n" "split_words c n w (c + 8) = w (c + 8)" "split_words c n w (c + 16) = nf"
    "split_words c n w nf = w c - n - 16" "split_words c n w (nf + 8) = 0" "split_words c n w (nf + 16) = w (c + 16)"
    "\<And>a. a \<notin> {c, c + 16, nf, nf + 8, nf + 16} \<Longrightarrow> split_words c n w a = w a"
    "\<And>b. b \<in> B \<Longrightarrow> b \<noteq> c \<Longrightarrow> split_words c n w b = w b \<and> split_words c n w (b + 8) = w (b + 8) \<and>
      split_words c n w (b + 16) = w (b + 16)"
proof -
  note g = split_geometry [OF assms(1-3), folded nf_def] and c = block_addr(3,4) [OF assms(1,2)]
  have ne: "nf \<noteq> c" "nf \<noteq> c + 8" "nf \<noteq> c + 16" "nf + 8 \<noteq> c" "nf + 8 \<noteq> c + 8" "nf + 8 \<noteq> c + 16"
    "nf + 16 \<noteq> c" "nf + 16 \<noteq> c + 8" "nf + 16 \<noteq> c + 16" "nf + 16 \<noteq> nf" "nf + 8 \<noteq> nf" "nf + 16 \<noteq> nf + 8"
    using g(1-3) c assms(4) unfolding word_unat_eq_iff by simp_all
  show "split_words c n w c = n" "split_words c n w (c + 8) = w (c + 8)" "split_words c n w (c + 16) = nf"
    "split_words c n w nf = w c - n - 16" "split_words c n w (nf + 8) = 0" "split_words c n w (nf + 16) = w (c + 16)"
    using ne ne [symmetric] by (simp_all add: split_words_def Let_def flip: nf_def)
  show out: "\<And>a. a \<notin> {c, c + 16, nf, nf + 8, nf + 16} \<Longrightarrow> split_words c n w a = w a"
    by (simp add: split_words_def Let_def flip: nf_def)
  fix b assume b: "b \<in> B" "b \<noteq> c"
  have in_c: "unat c \<le> unat a \<and> unat a < block_end w c" if "a \<in> {c, c + 8, c + 16, nf, nf + 8, nf + 16}" for a
    using that g c assms(3) by (auto simp: block_end_def)
  have "a \<noteq> b" "a \<noteq> b + 8" "a \<noteq> b + 16" if "a \<in> {c, c + 8, c + 16, nf, nf + 8, nf + 16}" for a
    using inside_other [OF assms(1,2) b, of a] in_c [OF that] by auto
  then show "split_words c n w b = w b \<and> split_words c n w (b + 8) = w (b + 8) \<and> split_words c n w (b + 16) = w (b + 16)"
    by (intro conjI out) blast+
qed

lemma split_blocks_ok:
  assumes "blocks_ok w lo hi B" "c \<in> B" "unat n + 32 \<le> unat (w c)" "8 \<le> unat n" "unat n mod 8 = 0"
  shows "blocks_ok (split_words c n w) lo hi (insert (c + 16 + n) B)"
proof -
  let ?nf = "c + 16 + n" and ?w = "split_words c n w"
  note g = split_geometry [OF assms(1-3)] and e = split_words_eq [OF assms(1-4)]
  note d = blocks_okD [OF assms(1,2)]
  have ends: "block_end ?w c = unat ?nf" "block_end ?w ?nf = block_end w c"
    using g(1,5) e(1,4) by (simp_all add: block_end_def)
  have other: "block_end ?w b = block_end w b" "?w b = w b" if "b \<in> B" "b \<noteq> c" for b
    using e(8) [OF that] by (simp_all add: block_end_def)
  have wc: "unat (w c) mod 8 = 0" "unat c mod 8 = 0" "lo \<le> unat c" "block_end w c \<le> hi" using d(3) by (auto simp: good_block_def)
  have gc: "good_block ?w lo hi c"
    using wc assms e(1) ends(1) g(1,5) by (simp add: good_block_def)
  have "(unat c + 16 + unat n) mod 8 = 0" using wc(2) assms(5) by presburger
  moreover have "(unat (w c) - unat n - 16) mod 8 = 0" using wc(1) assms(3,5)
    by (metis diff_diff_left dvd_diff_nat dvd_imp_mod_0 dvd_refl mod_0_imp_dvd mod_add_self2 dvd_add mult_2 numeral_Bit0)
  ultimately have gn: "good_block ?w lo hi ?nf"
    using wc assms(3) e(4) ends(2) g(1,4) by (simp add: good_block_def)
  have ap: "apart ?w c ?nf" using ends by (simp add: apart_def)
  have apo: "apart ?w c b \<and> apart ?w ?nf b" if "b \<in> B" "b \<noteq> c" for b
    using d(4) [OF that(1)] that(2) other [OF that] ends g(1,5) by (auto simp: apart_def)
  show ?thesis
    unfolding blocks_ok_def
  proof (intro conjI ballI impI)
    show "0 < lo" "hi < 2 ^ 64" by (rule d)+
    show "good_block ?w lo hi b" if "b \<in> insert ?nf B" for b
      using that gc gn blocks_okD(3) [OF assms(1), of b] other [of b]
      by (cases "b = c") (auto simp: good_block_def)
    fix b b' assume bb: "b \<in> insert ?nf B" "b' \<in> insert ?nf B" "b \<noteq> b'"
    have sym: "apart ?w x y = apart ?w y x" for x y by (auto simp: apart_def)
    have "apart ?w b b'" if "b \<in> B" "b' \<in> B" "b \<noteq> c" "b' \<noteq> c"
      using blocks_okD(4) [OF assms(1) that(1,2) bb(3)] other that by (auto simp: apart_def)
    then show "apart ?w b b'" using bb ap apo sym by (metis insertE)
  qed
qed

lemma split_shape:
  assumes "heap_shape w lo hi fl (xs @ c # ys) A" "unat n + 32 \<le> unat (w c)" "8 \<le> unat n" "unat n mod 8 = 0"
  shows "heap_shape (split_words c n w) lo hi fl (xs @ c # (c + 16 + n) # ys) A"
proof -
  let ?nf = "c + 16 + n" and ?w = "split_words c n w" and ?B = "set (xs @ c # ys) \<union> A"
  note h = heap_shapeD [OF assms(1)]
  have c: "c \<in> ?B" "c \<notin> set xs" "c \<notin> set ys" "c \<notin> A" using h(3,6) by auto
  note e = split_words_eq [OF h(1) c(1) assms(2,3)]
  have B: "set (xs @ c # ?nf # ys) \<union> A = insert ?nf ?B" by auto
  have ok: "blocks_ok ?w lo hi (insert ?nf ?B)" by (rule split_blocks_ok [OF h(1) c(1) assms(2-4)])
  have g: "unat c < unat ?nf" "unat ?nf < block_end w c"
    using split_geometry(1,5) [OF h(1) c(1) assms(2)] assms(2) by (auto simp: block_end_def)
  have ne: "?nf \<noteq> c" using g(1) by (metis less_irrefl)
  have new: "?nf \<notin> ?B" using inside_other(1) [OF h(1) c(1) _ ne, of ?nf] g less_imp_le_nat [OF g(1)] by blast
  obtain r where r: "seg w fl xs r" "seg w r (c # ys) 0" using h(2) by (auto simp: seg_append)
  have "seg ?w fl xs r" using r(1) e(8) c(2) by (subst seg_cong [where w = w]) auto
  moreover have "seg ?w (w (c + 16)) ys 0" using r(2) e(8) c(3) by (subst seg_cong [where w = w]) auto
  moreover have "?nf \<noteq> 0" using g by auto
  ultimately have sg: "seg ?w fl (xs @ c # ?nf # ys) 0" using r(2) e(3,6) by (auto simp: seg_append)
  show ?thesis
    unfolding heap_shape_def B
  proof (intro conjI ballI)
    show "distinct (xs @ c # ?nf # ys)" using h(3) new by auto
    fix b
    show "?w (b + 8) = 0" if "b \<in> set (xs @ c # ?nf # ys)"
      using that e(2,5,8) h(4) [of b] h(4) [of c] by (cases "b = c"; cases "b = ?nf") auto
    show "?w (b + 8) = HEAP_MAGIC" if "b \<in> A" using that e(8) [of b] h(5) c(4) by auto
  qed (use ok sg in auto)
qed

definition merge_words :: "u64 \<Rightarrow> u64 \<Rightarrow> (u64 \<Rightarrow> u64) \<Rightarrow> u64 \<Rightarrow> u64" where
  "merge_words b c w = w(b := w b + (16 + w c), b + 16 := w (c + 16))"

lemma merge_shape:
  assumes "heap_shape w lo hi fl (xs @ b # c # ys) A" "b + 16 + w b = c"
  shows "heap_shape (merge_words b c w) lo hi fl (xs @ b # ys) A"
proof -
  let ?w = "merge_words b c w" and ?B = "set (xs @ b # c # ys) \<union> A" and ?C = "set (xs @ b # ys) \<union> A"
  note h = heap_shapeD [OF assms(1)]
  have bc: "b \<in> ?B" "c \<in> ?B" "b \<noteq> c" "b \<notin> set xs" "b \<notin> set ys" "b \<notin> A" "c \<notin> ?C" using h(3,6) by auto
  note B = block_addr [OF h(1) bc(1)] and C = block_addr [OF h(1) bc(2)]
  have uc: "unat c = block_end w b"
  proof -
    have "unat b + 16 + unat (w b) < 18446744073709551616" using B(2) blocks_okD(2) [OF h(1) bc(1)] by simp
    then show ?thesis unfolding assms(2) [symmetric] block_end_def by (simp add: unat_plus_if')
  qed
  have uz: "unat (w b + (16 + w c)) = unat (w b) + 16 + unat (w c)"
    using C(2) blocks_okD(2) [OF h(1) bc(1)] uc by (simp add: unat_plus_if' block_end_def)
  have sub: "?C \<subseteq> ?B" by auto
  have other: "?w d = w d" "?w (d + 8) = w (d + 8)" "?w (d + 16) = w (d + 16)" if "d \<in> ?C" "d \<noteq> b" for d
    using headers_differ [OF h(1) bc(1), of d] headers_differ [OF h(1) _ bc(1), of d] that sub by (auto simp: merge_words_def)
  have wb: "?w b = w b + (16 + w c)" "?w (b + 8) = w (b + 8)" "?w (b + 16) = w (c + 16)"
    using headers_differ [OF h(1) bc(1,1)] by (simp_all add: merge_words_def)
  have eb: "block_end ?w b = block_end w c" using uc uz wb by (simp add: block_end_def)
  have ends: "block_end ?w d = block_end w d" if "d \<in> ?C" "d \<noteq> b" for d using other [OF that] by (simp add: block_end_def)
  have gd: "good_block ?w lo hi d" if "d \<in> ?C" for d
  proof (cases "d = b")
    case True
    have "unat (w b) mod 8 = 0" "unat (w c) mod 8 = 0" "block_end w c \<le> hi" "lo \<le> unat b" "unat b mod 8 = 0"
      using blocks_okD(3) [OF h(1) bc(1)] blocks_okD(3) [OF h(1) bc(2)] by (simp_all add: good_block_def)
    moreover have "(unat (w b) + 16 + unat (w c)) mod 8 = 0" using calculation(1,2) by presburger
    ultimately show ?thesis using True uz eb wb(1) B(6) by (simp add: good_block_def)
  next
    case False
    then show ?thesis
      using blocks_okD(3) [OF h(1), of d] other [OF that False] ends [OF that False] sub that by (auto simp: good_block_def)
  qed
  have ab: "apart ?w b d \<and> apart ?w d b" if "d \<in> ?C" "d \<noteq> b" for d
  proof -
    have "apart w b d" "apart w c d"
      using blocks_okD(4) [OF h(1) bc(1), of d] blocks_okD(4) [OF h(1) bc(2), of d] that sub bc(7) by auto
    moreover have "unat d < block_end w d" by (simp add: block_end_def)
    moreover have "unat b < block_end w b" by (simp add: block_end_def)
    ultimately show ?thesis using uc eb ends [OF that] by (auto simp: apart_def)
  qed
  have "blocks_ok ?w lo hi ?C"
    unfolding blocks_ok_def
  proof (intro conjI ballI impI)
    show "0 < lo" "hi < 2 ^ 64" by (rule blocks_okD [OF h(1) bc(1)])+
    show "good_block ?w lo hi d" if "d \<in> ?C" for d by (rule gd [OF that])
    fix d d' assume dd: "d \<in> ?C" "d' \<in> ?C" "d \<noteq> d'"
    show "apart ?w d d'"
    proof (cases "d = b \<or> d' = b")
      case False
      then show ?thesis using blocks_okD(4) [OF h(1), of d d'] dd sub ends by (auto simp: apart_def)
    qed (use dd ab in auto)
  qed
  moreover have "seg ?w fl (xs @ b # ys) 0"
  proof -
    obtain r where r: "seg w fl xs r" "seg w r (b # c # ys) 0" using h(2) by (auto simp: seg_append)
    have "seg ?w fl xs r" using r(1) other(3) bc(4) by (subst seg_cong [where w = w]) auto
    moreover have "seg ?w (w (c + 16)) ys 0" using r(2) other(3) bc(5) by (subst seg_cong [where w = w]) auto
    ultimately show ?thesis using r(2) wb(3) by (auto simp: seg_append)
  qed
  moreover have "?w (d + 8) = w (d + 8)" if "d \<in> ?C" for d using other(2) [OF that] wb(2) by (cases "d = b") auto
  ultimately show ?thesis
    unfolding heap_shape_def using h(3-5) by auto
qed

section \<open>Contents of allocated blocks\<close>

text \<open>Every word of the blocks \<open>A\<close>, header included, is as it was.\<close>

definition keeps :: "(u64 \<Rightarrow> u64) \<Rightarrow> (u64 \<Rightarrow> u64) \<Rightarrow> u64 set \<Rightarrow> bool" where
  "keeps w w' A \<longleftrightarrow> (\<forall>b\<in>A. \<forall>a. unat b \<le> unat a \<and> unat a < block_end w b \<longrightarrow> w' a = w a)"

lemma keeps_refl [simp]: "keeps w w A"
  by (simp add: keeps_def)

lemma keeps_subset: "keeps w w' A \<Longrightarrow> A' \<subseteq> A \<Longrightarrow> keeps w w' A'"
  by (auto simp: keeps_def)

lemma keeps_trans: "keeps w w' A \<Longrightarrow> keeps w' w'' A \<Longrightarrow> keeps w w'' A"
proof -
  assume k: "keeps w w' A" "keeps w' w'' A"
  have "block_end w' b = block_end w b" if "b \<in> A" for b
    using k(1) that by (simp add: keeps_def block_end_def)
  with k show ?thesis by (auto simp: keeps_def)
qed

lemma keeps_inside:
  assumes ok: "blocks_ok w lo hi B" and A: "A \<subseteq> B"
    and d: "\<And>a. w' a \<noteq> w a \<Longrightarrow> \<exists>d\<in>B - A. unat d \<le> unat a \<and> unat a < block_end w d"
  shows "keeps w w' A"
  unfolding keeps_def
proof (intro ballI allI impI)
  fix b a :: u64 assume b: "b \<in> A" "unat b \<le> unat a \<and> unat a < block_end w b"
  show "w' a = w a"
  proof (rule ccontr)
    assume "w' a \<noteq> w a"
    then obtain d where "d \<in> B" "d \<notin> A" "unat d \<le> unat a" "unat a < block_end w d" using d by auto
    moreover from this b have "apart w b d" using blocks_okD(4) [OF ok, of b d] A by auto
    ultimately show False using b(2) by (auto simp: apart_def)
  qed
qed

lemma header_inside:
  assumes "blocks_ok w lo hi B" "b \<in> B" "k \<in> {0, 8, 16}"
  shows "unat b \<le> unat (b + k)" "unat (b + k) < block_end w b"
  using block_addr [OF assms(1,2)] assms(3) by (auto simp: block_end_def)

lemma unlink_keeps:
  assumes "heap_shape w lo hi fl (xs @ c # ys) A"
  shows "keeps w ((relink w xs q)(c + 8 := v)) A"
proof -
  note h = heap_shapeD [OF assms]
  show ?thesis
  proof (rule keeps_inside [OF h(1)])
    fix a assume "((relink w xs q)(c + 8 := v)) a \<noteq> w a"
    then consider "a = c + 8" | "xs \<noteq> []" "a = last xs + 16" by (auto simp: relink_apply split: if_splits)
    then show "\<exists>d\<in>(set (xs @ c # ys) \<union> A) - A. unat d \<le> unat a \<and> unat a < block_end w d"
    proof cases
      case 1
      then show ?thesis using header_inside [OF h(1), of c 8] h(6) by (intro bexI [of _ c]) auto
    next
      case 2
      then have "last xs \<in> set xs" "last xs \<notin> A" using h(6) by (auto dest: last_in_set)
      with 2 show ?thesis using header_inside [OF h(1), of "last xs" 16] by (intro bexI [of _ "last xs"]) auto
    qed
  qed auto
qed

lemma link_keeps:
  assumes "heap_shape w lo hi fl (xs @ ys) A" "c \<in> A"
  shows "keeps w (relink (w(c + 8 := 0, c + 16 := q)) xs c) (A - {c})"
proof -
  note h = heap_shapeD [OF assms(1)]
  show ?thesis
  proof (rule keeps_inside [OF h(1)])
    fix a assume "relink (w(c + 8 := 0, c + 16 := q)) xs c a \<noteq> w a"
    then consider "a = c + 8" | "a = c + 16" | "xs \<noteq> []" "a = last xs + 16" by (auto simp: relink_apply split: if_splits)
    then show "\<exists>d\<in>(set (xs @ ys) \<union> A) - (A - {c}). unat d \<le> unat a \<and> unat a < block_end w d"
    proof cases
      case 3
      then have "last xs \<in> set xs" "last xs \<notin> A" using h(6) by (auto dest: last_in_set)
      with 3 show ?thesis using header_inside [OF h(1), of "last xs" 16] by (intro bexI [of _ "last xs"]) auto
    qed (use header_inside [OF h(1), of c] assms(2) in \<open>auto intro!: bexI [of _ c]\<close>)
  qed auto
qed

lemma split_keeps:
  assumes "heap_shape w lo hi fl (xs @ c # ys) A" "unat n + 32 \<le> unat (w c)" "8 \<le> unat n"
  shows "keeps w (split_words c n w) A"
proof -
  note h = heap_shapeD [OF assms(1)]
  have c: "c \<in> set (xs @ c # ys) \<union> A" "c \<notin> A" using h(6) by auto
  note e = split_words_eq(7) [OF h(1) c(1) assms(2,3)] and g = split_geometry [OF h(1) c(1) assms(2)]
  show ?thesis
  proof (rule keeps_inside [OF h(1)])
    fix a assume "split_words c n w a \<noteq> w a"
    then have "a \<in> {c, c + 16, c + 16 + n, c + 16 + n + 8, c + 16 + n + 16}" using e by blast
    then have "unat c \<le> unat a \<and> unat a < block_end w c"
      using g block_addr(3,4) [OF h(1) c(1)] assms(2) by (auto simp: block_end_def)
    then show "\<exists>d\<in>(set (xs @ c # ys) \<union> A) - A. unat d \<le> unat a \<and> unat a < block_end w d"
      using c by (intro bexI [of _ c]) auto
  qed auto
qed

lemma merge_keeps:
  assumes "heap_shape w lo hi fl F A" "b \<in> set F"
  shows "keeps w (merge_words b c w) A"
proof -
  note h = heap_shapeD [OF assms(1)]
  have b: "b \<in> set F \<union> A" "b \<notin> A" using h(6) assms(2) by auto
  show ?thesis
  proof (rule keeps_inside [OF h(1)])
    fix a assume "merge_words b c w a \<noteq> w a"
    then have "a = b + 0 \<or> a = b + 16" by (auto simp: merge_words_def split: if_splits)
    then have "unat b \<le> unat a \<and> unat a < block_end w b"
      using header_inside [OF h(1) b(1), of 0] header_inside [OF h(1) b(1), of 16] by auto
    then show "\<exists>d\<in>(set F \<union> A) - A. unat d \<le> unat a \<and> unat a < block_end w d"
      using b by (intro bexI [of _ b]) auto
  qed simp
qed

end
