(* ===== verification/Prism_Freelist.thy ===== *)
theory Prism_Freelist
  imports Prism_Heapmem Prism_Blocks
begin

text \<open>
  Correctness of the heap allocator (\<^verbatim>\<open>kmalloc\<close> and \<^verbatim>\<open>kfree\<close> of
  \<^verbatim>\<open>mm/heap.c\<close>): run on a heap whose memory is a store of words, the code performs the
  changes of the block structure, so every allocation is a block of its own and every
  release gives back exactly its bytes.
\<close>

section \<open>The code on the contents of the heap\<close>

text \<open>
  \<open>heap_at s w fl us t\<close>: state \<open>t\<close> is \<open>s\<close> except that the heap holds the words \<open>w\<close>, the free list
  starts at \<open>fl\<close> and \<open>us\<close> bytes are counted as used.
\<close>

definition heap_at :: "'a heap_state_scheme \<Rightarrow> (u64 \<Rightarrow> u64) \<Rightarrow> u64 \<Rightarrow> u64 \<Rightarrow> 'a heap_state_scheme \<Rightarrow> bool" where
  "heap_at s w fl us t \<longleftrightarrow> t = s\<lparr>mem := mem t, free_list := fl, heap_used_bytes := us\<rparr> \<and> heap_mapped t \<and> hview t = w \<and> spares s t"

lemma heap_at_self: "heap_mapped s \<Longrightarrow> heap_at s (hview s) (free_list s) (heap_used_bytes s) s"
  by (simp add: heap_at_def)

lemma heap_at_fields:
  assumes "heap_at s w fl us t"
  shows "free_list t = fl" "heap_used_bytes t = us" "heap_end t = heap_end s" "heap_start t = heap_start s"
    "heap_words t = heap_words s" "heap_mapped t" "hview t = w"
proof -
  obtain m where t: "t = s\<lparr>mem := m, free_list := fl, heap_used_bytes := us\<rparr>" using assms by (auto simp: heap_at_def)
  show "free_list t = fl" "heap_used_bytes t = us" "heap_end t = heap_end s" "heap_start t = heap_start s"
    "heap_words t = heap_words s" by (simp_all add: t)
  show "heap_mapped t" "hview t = w" using assms by (simp_all add: heap_at_def)
qed

lemma heap_at_load:
  assumes "heap_at s w fl us t" "a \<in> heap_words s"
  shows "kload64 a t = Some (w a)"
  using kheap.get_view [of t a] heap_at_fields [OF assms(1)] assms(2) by simp

lemma heap_at_store:
  assumes "heap_at s w fl us t" "a \<in> heap_words s"
  shows "\<exists>u. kstore64 a v t = Some u \<and> heap_at s (w(a := v)) fl us u"
proof -
  note f = heap_at_fields [OF assms(1)]
  obtain u where u: "kstore64 a v t = Some u" "heap_mapped u" "hview u = w(a := v)" "heap_wrote t u"
    using kheap.put_view [of t a] f assms(2) by metis
  obtain m where "u = t\<lparr>mem := m\<rparr>" using u(4) by (auto simp: heap_wrote_def elim: mem_eqE)
  moreover obtain m' where "t = s\<lparr>mem := m', free_list := fl, heap_used_bytes := us\<rparr>" using assms(1) by (auto simp: heap_at_def)
  ultimately have "u = s\<lparr>mem := mem u, free_list := fl, heap_used_bytes := us\<rparr>" by simp
  moreover have "spares s u" using assms(1) u(4) spares_trans by (auto simp: heap_at_def heap_wrote_def)
  ultimately show ?thesis using u by (auto simp: heap_at_def)
qed

lemma spares_update [simp]:
  "spares s (t\<lparr>free_list := p\<rparr>) = spares s t" "spares s (t\<lparr>heap_used_bytes := n\<rparr>) = spares s t"
  using heap_same_foreign(1) [of t "t\<lparr>free_list := p\<rparr>"] heap_same_foreign(1) [of t "t\<lparr>heap_used_bytes := n\<rparr>"]
  by (simp_all add: spares_def)

lemma heap_at_head: "heap_at s w fl us t \<Longrightarrow> heap_at s w p us (t\<lparr>free_list := p\<rparr>)"
  unfolding heap_at_def by (elim conjE, intro conjI) (erule ssubst, simp_all)

lemma heap_at_used: "heap_at s w fl us t \<Longrightarrow> heap_at s w fl n (t\<lparr>heap_used_bytes := n\<rparr>)"
  unfolding heap_at_def by (elim conjE, intro conjI) (erule ssubst, simp_all)

text \<open>What the operations of the heap may change.\<close>

definition heap_frame :: "'a heap_state_scheme \<Rightarrow> 'a heap_state_scheme \<Rightarrow> bool" where
  "heap_frame s t \<longleftrightarrow> t = s\<lparr>mem := mem t, bitmap := bitmap t, used_frames := used_frames t, heap_end := heap_end t,
     free_list := free_list t, heap_used_bytes := heap_used_bytes t\<rparr> \<and> spares s t \<and> spends s t"

lemma heap_frameD:
  assumes "heap_frame s t"
  shows "spares s t" "spends s t"
  using assms by (simp_all add: heap_frame_def)

lemma heap_frameE:
  assumes "heap_frame s t"
  obtains m b n e fl us where
    "t = s\<lparr>mem := m, bitmap := b, used_frames := n, heap_end := e, free_list := fl, heap_used_bytes := us\<rparr>"
  using assms unfolding heap_frame_def by blast

lemma heap_frame_refl [simp]: "heap_frame s s"
  by (simp add: heap_frame_def)

lemma heap_frame_trans [trans]: "heap_frame s t \<Longrightarrow> heap_frame t u \<Longrightarrow> heap_frame s u"
proof -
  assume a: "heap_frame s t" and b: "heap_frame t u"
  have "spares s u" "spends s u"
    using spares_trans [OF heap_frameD(1) [OF a] heap_frameD(1) [OF b]] spends_trans [OF heap_frameD(2) [OF a] heap_frameD(2) [OF b]] by simp_all
  with a b show ?thesis by (elim heap_frameE) (simp add: heap_frame_def)
qed

lemma heap_at_frame: "heap_at s w fl us t \<Longrightarrow> heap_frame s t"
proof -
  assume "heap_at s w fl us t"
  then obtain m where "t = s\<lparr>mem := m, free_list := fl, heap_used_bytes := us\<rparr>" "spares s t"
    unfolding heap_at_def by blast
  moreover from this have "spends s t"
    by (intro spends_same) (simp_all add: pmm_avail_def frames_free_def frames_marked_def bitmap_test_def)
  ultimately show ?thesis by (simp add: heap_frame_def)
qed

lemma heap_grown_frame: "heap_grown s n t \<Longrightarrow> heap_frame s t"
  unfolding heap_grown_def by (elim conjE heap_eqE) (simp add: heap_frame_def)

text \<open>The header words of blocks are words of the heap.\<close>

abbreviation lo_of :: "'a heap_state_scheme \<Rightarrow> nat" where "lo_of s \<equiv> unat (heap_start s)"
abbreviation hi_of :: "'a heap_state_scheme \<Rightarrow> nat" where "hi_of s \<equiv> unat (heap_end s)"

lemma block_words:
  assumes "blocks_ok w (lo_of s) (hi_of s) B" "b \<in> B"
  shows "b \<in> heap_words s" "b + 8 \<in> heap_words s" "b + 16 \<in> heap_words s"
proof -
  note a = block_addr [OF assms] and g = blocks_okD(3) [OF assms, unfolded good_block_def]
  have "(unat b + 8) mod 8 = 0" "(unat b + 16) mod 8 = 0" using g by presburger+
  then show "b \<in> heap_words s" "b + 8 \<in> heap_words s" "b + 16 \<in> heap_words s"
    using a g by (auto simp: heap_words_def heap_addr_def block_end_def)
qed

lemma split_test:
  assumes "unat n + 32 < 2 ^ 64"
  shows "n + MIN_BLOCK_SIZE \<le> z \<longleftrightarrow> unat n + 32 \<le> unat z"
  using assms by (simp add: word_le_nat_alt unat_plus_if' MIN_BLOCK_SIZE_def BLOCK_HEADER_SIZE_def)

lemma split_block_at:
  assumes at: "heap_at s w fl us t" and ok: "blocks_ok w (lo_of s) (hi_of s) B" "c \<in> B"
    and n: "unat n + 32 < 2 ^ 64" "8 \<le> unat n" "unat n mod 8 = 0"
  shows "\<exists>u. split_block c n t = Some u \<and> heap_at s (if unat n + 32 \<le> unat (w c) then split_words c n w else w) fl us u"
proof (cases "unat n + 32 \<le> unat (w c)")
  case False
  then show ?thesis
    using at heap_at_load [OF at block_words(1) [OF ok]] split_test [OF n(1)] by (auto simp: split_block_def)
next
  case True
  let ?nf = "c + 16 + n"
  have ok': "blocks_ok (split_words c n w) (lo_of s) (hi_of s) (insert ?nf B)" by (rule split_blocks_ok [OF ok True n(2,3)])
  note c = block_words [OF ok] and nf = block_words [OF ok' insertI1]
  have ne: "c + 16 \<noteq> ?nf" "c + 16 \<noteq> ?nf + 8"
    using headers_differ [OF ok' insertI2 [OF ok(2)] insertI1] by auto
  obtain t1 where t1: "kstore64 ?nf (w c - n - 16) t = Some t1" "heap_at s (w(?nf := w c - n - 16)) fl us t1"
    using heap_at_store [OF at nf(1)] by blast
  obtain t2 where t2: "kstore64 (?nf + 8) 0 t1 = Some t2" "heap_at s (w(?nf := w c - n - 16, ?nf + 8 := 0)) fl us t2"
    using heap_at_store [OF t1(2) nf(2)] by blast
  obtain t3 where t3: "kstore64 (?nf + 16) (w (c + 16)) t2 = Some t3"
    "heap_at s (w(?nf := w c - n - 16, ?nf + 8 := 0, ?nf + 16 := w (c + 16))) fl us t3"
    using heap_at_store [OF t2(2) nf(3)] by blast
  obtain t4 where t4: "kstore64 c n t3 = Some t4"
    "heap_at s (w(?nf := w c - n - 16, ?nf + 8 := 0, ?nf + 16 := w (c + 16), c := n)) fl us t4"
    using heap_at_store [OF t3(2) c(1)] by blast
  obtain t5 where t5: "kstore64 (c + 16) ?nf t4 = Some t5" "heap_at s (split_words c n w) fl us t5"
    using heap_at_store [OF t4(2) c(3), of ?nf] unfolding split_words_def Let_def by blast
  have ld: "kload64 (c + 16) t2 = Some (w (c + 16))" using heap_at_load [OF t2(2) c(3)] ne by simp
  have "split_block c n t = Some t5"
    using t1(1) t2(1) t3(1) t4(1) t5(1) heap_at_load [OF at c(1)] ld split_test [OF n(1)] True
    by (simp add: split_block_def BLOCK_HEADER_SIZE_def)
  then show ?thesis using True t5(2) by auto
qed

section \<open>Allocation\<close>

abbreviation first_of :: "u64 list \<Rightarrow> u64" where
  "first_of bs \<equiv> (case bs of [] \<Rightarrow> 0 | b # _ \<Rightarrow> b)"

abbreviation last_of :: "u64 list \<Rightarrow> u64" where
  "last_of bs \<equiv> (if bs = [] then 0 else last bs)"

lemma seg_next:
  assumes "seg w fl (xs @ b # ys) 0"
  shows "w (b + 16) = first_of ys" "b \<noteq> 0"
  using assms seg_head [of w "w (b + 16)" ys] by (auto simp: seg_append)

text \<open>The search passes the blocks that are too small.\<close>

lemma kmalloc_search_skips:
  assumes at: "heap_at s w fl us t" and sh: "heap_shape w (lo_of s) (hi_of s) fl (ps @ zs @ rest) A"
    and small: "\<forall>b\<in>set zs. unat (w b) < unat n"
  shows "kmalloc_search (last_of ps) (first_of (zs @ rest)) n t = kmalloc_search (last_of (ps @ zs)) (first_of rest) n t"
  using sh small
proof (induction zs arbitrary: ps)
  case Nil
  then show ?case by simp
next
  case (Cons z zs)
  note h = heap_shapeD [OF Cons.prems(1)]
  have z: "z \<in> set (ps @ (z # zs) @ rest) \<union> A" by simp
  note wd = block_words [OF h(1) z]
  have "kmalloc_search (last_of ps) z n t = kmalloc_search z (first_of (zs @ rest)) n t"
    using heap_at_load [OF at wd(1)] heap_at_load [OF at wd(2)] heap_at_load [OF at wd(3)] h(4) [of z]
      seg_next [of w fl ps z "zs @ rest"] h(2) Cons.prems(2)
    by (subst kmalloc_search.simps) (simp add: word_le_nat_alt)
  also have "\<dots> = kmalloc_search (last_of (ps @ [z])) (first_of (zs @ rest)) n t" by simp
  also have "\<dots> = kmalloc_search (last_of ((ps @ [z]) @ zs)) (first_of rest) n t"
    using Cons.prems by (intro Cons.IH) simp_all
  finally show ?case by simp
qed

text \<open>The words of the heap after the block \<open>c\<close> behind the blocks \<open>xs\<close> was taken, and the list head.\<close>

definition take_words :: "u64 list \<Rightarrow> u64 \<Rightarrow> u64 \<Rightarrow> (u64 \<Rightarrow> u64) \<Rightarrow> u64 \<Rightarrow> u64" where
  "take_words xs c n w =
     (let v = (if unat n + 32 \<le> unat (w c) then split_words c n w else w)
      in (relink v xs (v (c + 16)))(c + 8 := HEAP_MAGIC))"

lemma take_block_at:
  assumes at: "heap_at s w fl us t" and sh: "heap_shape w (lo_of s) (hi_of s) fl (xs @ c # ys) A"
    and n: "unat n + 32 < 2 ^ 64" "8 \<le> unat n" "unat n mod 8 = 0" "unat n \<le> unat (w c)"
  shows "\<exists>u fl' F'. take_block (last_of xs) c n t = Some (c + 16, u) \<and>
    heap_at s (take_words xs c n w) fl' (us + (n + 16)) u \<and>
    heap_shape (take_words xs c n w) (lo_of s) (hi_of s) fl' F' (insert c A) \<and>
    keeps w (take_words xs c n w) A \<and> take_words xs c n w c = (if unat n + 32 \<le> unat (w c) then n else w c) \<and>
    (unat n + 32 \<le> unat (w c) \<longrightarrow> c + 16 + n \<in> set F' \<and> take_words xs c n w (c + 16 + n) = w c - n - 16)"
proof -
  let ?split = "unat n + 32 \<le> unat (w c)"
  define v where "v = (if ?split then split_words c n w else w)"
  define ys' where "ys' = (if ?split then (c + 16 + n) # ys else ys)"
  note h = heap_shapeD [OF sh]
  have c: "c \<in> set (xs @ c # ys) \<union> A" by simp
  obtain t1 where t1: "split_block c n t = Some t1" "heap_at s v fl us t1"
    using split_block_at [OF at h(1) c n(1-3)] unfolding v_def by blast
  have shv: "heap_shape v (lo_of s) (hi_of s) fl (xs @ c # ys') A"
    using split_shape [OF sh _ n(2,3)] sh by (simp add: v_def ys'_def)
  have kv: "keeps w v A" using split_keeps [OF sh _ n(2)] by (simp add: v_def)
  note hv = heap_shapeD [OF shv]
  have cv: "c \<in> set (xs @ c # ys') \<union> A" and sub: "set xs \<subseteq> set (xs @ c # ys') \<union> A" by auto
  note cw = block_words [OF hv(1) cv]
  let ?w = "(relink v xs (v (c + 16)))(c + 8 := HEAP_MAGIC)" and ?fl = "rehead fl xs (v (c + 16))"
  have w: "?w = take_words xs c n w" by (simp add: take_words_def v_def Let_def)
  have "\<exists>t2. (if last_of xs \<noteq> 0 then kstore64 (last_of xs + 16) (v (c + 16)) t1 else Some (t1\<lparr>free_list := v (c + 16)\<rparr>)) = Some t2 \<and>
      heap_at s (relink v xs (v (c + 16))) ?fl us t2"
  proof (cases "xs = []")
    case True
    then show ?thesis using heap_at_head [OF t1(2), of "v (c + 16)"] by (simp add: relink_def rehead_def)
  next
    case False
    then have l: "last xs \<in> set (xs @ c # ys') \<union> A" by simp
    show ?thesis
      using heap_at_store [OF t1(2) block_words(3) [OF hv(1) l], of "v (c + 16)"] False block_addr(5) [OF hv(1) l]
      by (simp add: relink_def rehead_def)
  qed
  then obtain t2 where t2: "(if last_of xs \<noteq> 0 then kstore64 (last_of xs + 16) (v (c + 16)) t1 else Some (t1\<lparr>free_list := v (c + 16)\<rparr>)) = Some t2"
    "heap_at s (relink v xs (v (c + 16))) ?fl us t2" by blast
  obtain t3 where t3: "kstore64 (c + 8) HEAP_MAGIC t2 = Some t3" "heap_at s ?w ?fl us t3"
    using heap_at_store [OF t2(2) cw(2)] by blast
  let ?u = "t3\<lparr>heap_used_bytes := us + (n + 16)\<rparr>"
  have run: "take_block (last_of xs) c n t = Some (c + 16, ?u)"
    using t1(1) heap_at_load [OF t1(2) cw(3)] t2(1) t3(1) heap_at_fields(2) [OF t3(2)]
    by (simp add: take_block_def BLOCK_HEADER_SIZE_def)
  have "keeps w ?w A" using keeps_trans [OF kv unlink_keeps [OF shv]] .
  moreover have "?w c = (if ?split then n else w c)"
    using relink_other(1) [OF hv(1) sub cv, of "v (c + 16)"] headers_differ(1) [OF hv(1) cv cv]
      split_words_eq(1) [OF h(1) c _ n(2)] by (auto simp: v_def)
  moreover have "c + 16 + n \<in> set (xs @ ys') \<and> ?w (c + 16 + n) = w c - n - 16" if sp: ?split
  proof -
    have nf: "c + 16 + n \<in> set (xs @ c # ys') \<union> A" "c + 16 + n \<in> set (xs @ ys')" using sp by (simp_all add: ys'_def)
    have "?w (c + 16 + n) = v (c + 16 + n)"
      using relink_other(1) [OF hv(1) sub nf(1), of "v (c + 16)"] headers_differ(1) [OF hv(1) cv nf(1)] by simp
    then show ?thesis using nf(2) sp split_words_eq(4) [OF h(1) c sp n(2)] by (simp add: v_def)
  qed
  ultimately show ?thesis
    using run heap_at_used [OF t3(2)] unlink_shape [OF shv] unfolding w
    by (intro exI [of _ ?u] exI [of _ ?fl] exI [of _ "xs @ ys'"]) simp
qed

section \<open>Alignment\<close>

lemma unat_align_down: "unat ((x :: u64) AND NOT (mask k)) = unat x div 2 ^ k * 2 ^ k"
proof -
  have "x = (x AND NOT (mask k)) OR (x AND mask k)"
    by (metis and.commute bit.conj_disj_distrib bit.disj_cancel_left bit.conj_one_right)
  also have "\<dots> = (x AND NOT (mask k)) + (x AND mask k)"
    using word_plus_and_or [of "x AND NOT (mask k)" "x AND mask k"] by (simp add: ac_simps)
  finally have "x AND NOT (mask k) = x - (x AND mask k)" by (simp add: algebra_simps)
  moreover have "x AND mask k \<le> x" by (simp add: word_le_nat_alt word_and_mask_mod)
  ultimately show ?thesis by (simp add: unat_sub word_and_mask_mod minus_mod_eq_div_mult)
qed

lemma align_up_pow2:
  assumes "k < 64" "unat v + 2 ^ k \<le> 2 ^ 64"
  shows "unat v \<le> unat (align_up v (push_bit k 1)) \<and> unat (align_up v (push_bit k 1)) mod 2 ^ k = 0 \<and>
    unat (align_up v (push_bit k 1)) < unat v + 2 ^ k"
proof -
  have m: "push_bit k 1 - 1 = (mask k :: u64)" by (simp add: mask_eq_exp_minus_1 push_bit_eq_mult)
  have p: "1 \<le> (2 :: nat) ^ k" by simp
  have "(2 :: nat) ^ k < 2 ^ 64" using assms(1) by (intro power_strict_increasing) simp_all
  then have "unat (of_nat (2 ^ k - 1) :: u64) = 2 ^ k - 1" by (simp only: unat_of_nat) simp
  then have um: "unat (mask k :: u64) = 2 ^ k - 1" by (simp add: mask_eq_exp_minus_1 of_nat_diff)
  have "unat v + (2 ^ k - 1) < 2 ^ 64" using assms(2) p by linarith
  then have u: "unat (v + mask k) = unat v + (2 ^ k - 1)" by (simp add: unat_plus_if' um)
  have a: "align_up v (push_bit k 1) = (v + mask k) AND NOT (mask k)"
    unfolding align_up_def m [symmetric] by (simp add: algebra_simps)
  let ?x = "unat v + (2 ^ k - 1)"
  have x: "?x = ?x div 2 ^ k * 2 ^ k + ?x mod 2 ^ k" "?x mod 2 ^ k < 2 ^ k" by (rule div_mult_mod_eq [symmetric], simp)
  have "unat v \<le> ?x div 2 ^ k * 2 ^ k" "?x div 2 ^ k * 2 ^ k < unat v + 2 ^ k" using x p by linarith+
  then show ?thesis unfolding a unat_align_down u by simp
qed

text \<open>
  \<open>align_up\<close> rounds up to the least multiple of a power of two that is not below its argument,
  as long as that multiple is within 64 bits.
\<close>

theorem align_up_least:
  assumes "k < 64" "unat v + 2 ^ k \<le> 2 ^ 64"
  shows "unat v \<le> unat (align_up v (push_bit k 1)) \<and> unat (align_up v (push_bit k 1)) mod 2 ^ k = 0 \<and>
    unat (align_up v (push_bit k 1)) < unat v + 2 ^ k"
  by (rule align_up_pow2 [OF assms])

theorem align_up_least_witness:
  "(3 :: nat) < 64 \<and> unat (13 :: u64) + 2 ^ 3 \<le> 2 ^ 64 \<and> unat (13 :: u64) \<le> unat (align_up 13 (push_bit 3 1)) \<and>
    unat (align_up 13 (push_bit 3 1)) mod 2 ^ 3 = 0 \<and> unat (align_up 13 (push_bit 3 1)) < unat (13 :: u64) + 2 ^ 3"
  using align_up_least [of 3 13] by simp

lemma align_up_8:
  assumes "unat v + 8 \<le> 2 ^ 64"
  shows "unat v \<le> unat (align_up v 8)" "unat (align_up v 8) mod 8 = 0" "unat (align_up v 8) < unat v + 8"
  using align_up_pow2 [of 3 v] assms by (simp_all add: push_bit_eq_mult)

lemma align_up_8_idem:
  assumes "unat v + 8 \<le> 2 ^ 64" "unat v mod 8 = 0"
  shows "align_up v 8 = v"
proof -
  note a = align_up_8 [OF assms(1)]
  obtain i j where "unat v = 8 * i" "unat (align_up v 8) = 8 * j" using assms(2) a(2) by (metis mod_0_imp_dvd dvdE)
  with a(1,3) have "unat (align_up v 8) = unat v" by simp
  then show ?thesis by (simp add: word_unat_eq_iff)
qed

section \<open>The allocator invariant and its operations\<close>

text \<open>The heap with exactly the blocks \<open>A\<close> allocated.\<close>

definition heap_ok :: "'a heap_state_scheme \<Rightarrow> u64 set \<Rightarrow> bool" where
  "heap_ok s A \<longleftrightarrow> heap_mapped s \<and> (\<exists>F. heap_shape (hview s) (lo_of s) (hi_of s) (free_list s) F A)"

lemma heap_at_ok:
  assumes "heap_at s w fl us t" "heap_shape w (lo_of s) (hi_of s) fl F A"
  shows "heap_ok t A"
  using heap_at_fields [OF assms(1)] assms(2) by (auto simp: heap_ok_def)

text \<open>A successful allocation of \<open>n\<close> bytes at \<open>p\<close>.\<close>

definition allocated :: "'a heap_state_scheme \<Rightarrow> u64 set \<Rightarrow> u64 \<Rightarrow> u64 \<Rightarrow> 'a heap_state_scheme \<Rightarrow> bool" where
  "allocated s A n p t \<longleftrightarrow> heap_ok t (insert (p - 16) A) \<and> p - 16 \<notin> A \<and> p \<noteq> 0 \<and> unat p mod 8 = 0 \<and>
     unat n \<le> unat (hview t (p - 16)) \<and> keeps (hview s) (hview t) A \<and> heap_frame s t"

text \<open>How a free block becomes the allocated one: it is split if the rest is large enough for a block,
  and the bytes asked for and a header are counted as used.\<close>

definition block_taken :: "'a heap_state_scheme \<Rightarrow> u64 \<Rightarrow> u64 \<Rightarrow> 'a heap_state_scheme \<Rightarrow> bool" where
  "block_taken s n p t \<longleftrightarrow> (\<exists>F. seg (hview s) (free_list s) F 0 \<and> p - 16 \<in> set F) \<and>
     hview t (p - 16) = (if unat n + 32 \<le> unat (hview s (p - 16)) then n else hview s (p - 16)) \<and>
     (unat n + 32 \<le> unat (hview s (p - 16)) \<longrightarrow>
       (\<exists>F b. seg (hview t) (free_list t) F 0 \<and> b \<in> set F \<and> hview t b = hview s (p - 16) - n - 16)) \<and>
     heap_used_bytes t = heap_used_bytes s + (n + 16) \<and> heap_end t = heap_end s"

text \<open>Some block of the free list holds \<open>n\<close> bytes.\<close>

definition fits :: "'a heap_state_scheme \<Rightarrow> u64 \<Rightarrow> bool" where
  "fits s n \<longleftrightarrow> (\<exists>F. seg (hview s) (free_list s) F 0 \<and> (\<exists>b\<in>set F. unat n \<le> unat (hview s b)))"

lemma fits_iff:
  assumes "heap_shape (hview s) lo hi (free_list s) F A"
  shows "fits s n \<longleftrightarrow> (\<exists>b\<in>set F. unat n \<le> unat (hview s b))"
  using heap_shapeD(2) [OF assms] seg_unique by (metis fits_def)

text \<open>The size that \<open>kmalloc\<close> looks for.\<close>

definition request :: "u64 \<Rightarrow> bool" where
  "request n \<longleftrightarrow> 8 \<le> unat n \<and> unat n mod 8 = 0 \<and> unat n < 0x40000000"

lemma take_block_allocates:
  assumes hm: "heap_mapped s" and sh: "heap_shape (hview s) (lo_of s) (hi_of s) (free_list s) (xs @ c # ys) A"
    and n: "request n" "unat n \<le> unat (hview s c)"
  shows "\<exists>u. take_block (last_of xs) c n s = Some (c + 16, u) \<and> allocated s A n (c + 16) u \<and>
    block_taken s n (c + 16) u"
proof -
  have n': "unat n + 32 < 2 ^ 64" "8 \<le> unat n" "unat n mod 8 = 0" using n(1) by (auto simp: request_def)
  obtain u fl' F' where u: "take_block (last_of xs) c n s = Some (c + 16, u)"
    "heap_at s (take_words xs c n (hview s)) fl' (heap_used_bytes s + (n + 16)) u"
    "heap_shape (take_words xs c n (hview s)) (lo_of s) (hi_of s) fl' F' (insert c A)"
    "keeps (hview s) (take_words xs c n (hview s)) A"
    "take_words xs c n (hview s) c = (if unat n + 32 \<le> unat (hview s c) then n else hview s c)"
    "unat n + 32 \<le> unat (hview s c) \<longrightarrow> c + 16 + n \<in> set F' \<and> take_words xs c n (hview s) (c + 16 + n) = hview s c - n - 16"
    using take_block_at [OF heap_at_self [OF hm] sh n' n(2)] by blast
  note f = heap_at_fields [OF u(2)]
  have c: "c \<in> set (xs @ c # ys) \<union> A" "c \<notin> A" using heap_shapeD(6) [OF sh] by auto
  note b = block_addr [OF heap_shapeD(1) [OF sh] c(1)] and g = blocks_okD(3) [OF heap_shapeD(1) [OF sh] c(1), unfolded good_block_def]
  have "unat (c + 16) mod 8 = 0" unfolding b(4) using g by presburger
  moreover have "c + 16 \<noteq> 0" using b(4) by auto
  ultimately have "allocated s A n (c + 16) u"
    using heap_at_ok [OF u(2,3)] c(2) u(4,5) n(2) f(7) heap_at_frame [OF u(2)] by (simp add: allocated_def)
  moreover have "\<exists>F b. seg (hview u) (free_list u) F 0 \<and> b \<in> set F \<and> hview u b = hview s c - n - 16" if "unat n + 32 \<le> unat (hview s c)"
    using heap_shapeD(2) [OF u(3)] u(6) f that by (intro exI [of _ F'] exI [of _ "c + 16 + n"]) simp
  then have "block_taken s n (c + 16) u"
    unfolding block_taken_def using heap_shapeD(2) [OF sh] f(2,3,7) u(5) by (intro conjI exI [of _ "xs @ c # ys"]) simp_all
  ultimately show ?thesis using u(1) by blast
qed

lemma kmalloc_search_takes:
  assumes hm: "heap_mapped s" and sh: "heap_shape (hview s) (lo_of s) (hi_of s) (free_list s) F A" and n: "request n"
  shows "if \<exists>b\<in>set F. unat n \<le> unat (hview s b)
    then \<exists>p u. kmalloc_search 0 (free_list s) n s = Some (Some (p, u)) \<and> allocated s A n p u \<and> block_taken s n p u
    else kmalloc_search 0 (free_list s) n s = Some None"
proof (cases "\<exists>b\<in>set F. unat n \<le> unat (hview s b)")
  case True
  then obtain xs c ys where F: "F = xs @ c # ys" "unat n \<le> unat (hview s c)" "\<forall>b\<in>set xs. \<not> unat n \<le> unat (hview s b)"
    by (elim split_list_first_propE) auto
  have sh': "heap_shape (hview s) (lo_of s) (hi_of s) (free_list s) ([] @ xs @ (c # ys)) A" using sh F(1) by simp
  note h = heap_shapeD [OF sh]
  have c: "c \<in> set F \<union> A" "c \<in> set F" using F(1) by auto
  note wd = block_words [OF h(1) c(1)] and at = heap_at_self [OF hm]
  obtain u where u: "take_block (last_of xs) c n s = Some (c + 16, u)" "allocated s A n (c + 16) u" "block_taken s n (c + 16) u"
    using take_block_allocates [OF hm sh [unfolded F(1)] n F(2)] by blast
  have "kmalloc_search 0 (free_list s) n s = kmalloc_search (last_of xs) c n s"
    using kmalloc_search_skips [OF at sh', of n] F(3) seg_head [OF h(2)] F(1) by (auto simp: not_le)
  also have "\<dots> = Some (Some (c + 16, u))"
    using heap_at_load [OF at wd(1)] heap_at_load [OF at wd(2)] h(4) [OF c(2)] F(2) u(1) block_addr(5) [OF h(1) c(1)]
    by (subst kmalloc_search.simps) (simp add: word_le_nat_alt)
  finally show ?thesis using True u(2,3) by auto
next
  case False
  have sh': "heap_shape (hview s) (lo_of s) (hi_of s) (free_list s) ([] @ F @ []) A" using sh by simp
  have "kmalloc_search 0 (free_list s) n s = kmalloc_search (last_of F) 0 n s"
    using kmalloc_search_skips [OF heap_at_self [OF hm] sh', of n] False seg_head [OF heap_shapeD(2) [OF sh]] by (auto simp: not_le)
  also have "\<dots> = Some None" by (subst kmalloc_search.simps) simp
  finally show ?thesis using False by simp
qed

text \<open>A new block at the end of the heap, in front of the list.\<close>

lemma region_shape:
  assumes sh: "heap_shape w lo hi fl F A" and e: "unat e = hi" "lo \<le> hi" "hi mod 8 = 0" "0 < lo"
    and z: "unat z mod 8 = 0" "8 \<le> unat z" "hi + 16 + unat z = hi'" "hi' < 2 ^ 64"
  defines "w' \<equiv> w(e := z, e + 8 := 0, e + 16 := fl)"
  shows "heap_shape w' lo hi' e (e # F) A" "keeps w w' A"
proof -
  note h = heap_shapeD [OF sh]
  have u: "unat (e + 8) = unat e + 8" "unat (e + 16) = unat e + 16"
    using z(2-4) e(1) by (simp_all add: unat_plus_if')
  have out: "w' a = w a" if "unat a < hi" for a
    using that e(1) u by (auto simp: w'_def)
  have hd: "unat b + 24 \<le> hi \<and> block_end w b \<le> hi" if "b \<in> set F \<union> A" for b
    using block_addr(2,6) [OF h(1) that] by (simp add: block_end_def)
  have old: "w' b = w b" "w' (b + 8) = w (b + 8)" "w' (b + 16) = w (b + 16)" if "b \<in> set F \<union> A" for b
    using hd [OF that] block_addr(3,4) [OF h(1) that] by (simp_all add: out)
  have new: "w' e = z" "w' (e + 8) = 0" "w' (e + 16) = fl" by (simp_all add: w'_def)
  have en: "e \<notin> set F \<union> A" using hd [of e] e(1) by auto
  have ends: "block_end w' b = block_end w b" if "b \<in> set F \<union> A" for b using old [OF that] by (simp add: block_end_def)
  have ee: "block_end w' e = hi'" using new e(1) z(3) by (simp add: block_end_def)
  have good: "good_block w' lo hi' b" if "b \<in> insert e (set F \<union> A)" for b
  proof (cases "b = e")
    case True
    then show ?thesis using e z new ee by (simp add: good_block_def)
  next
    case False
    then have b: "b \<in> set F \<union> A" using that by blast
    then show ?thesis
      using blocks_okD(3) [OF h(1) b] old(1) [OF b] ends [OF b] hd [OF b] z(3) by (auto simp: good_block_def)
  qed
  have ap: "apart w' b c" if "b \<in> insert e (set F \<union> A)" "c \<in> insert e (set F \<union> A)" "b \<noteq> c" for b c
    using that blocks_okD(4) [OF h(1), of b c] ends [of b] ends [of c] hd [of b] hd [of c] e(1)
    by (cases "b = e"; cases "c = e") (auto simp: apart_def)
  have "blocks_ok w' lo hi' (set (e # F) \<union> A)" unfolding blocks_ok_def using e(4) z(4) good ap by simp
  moreover have "seg w' e (e # F) 0"
    using h(2) new(3) old(3) seg_cong [of F w' w fl 0] e(1,2,4) by auto
  ultimately show "heap_shape w' lo hi' e (e # F) A"
    unfolding heap_shape_def using h(3-5) en new(2) old(2) by auto
  show "keeps w w' A"
    unfolding keeps_def
  proof (intro ballI allI impI)
    fix b a :: u64 assume "b \<in> A" "unat b \<le> unat a \<and> unat a < block_end w b"
    then show "w' a = w a" using hd [of b] by (intro out) auto
  qed
qed

text \<open>The number of pages for a request, and the block they make.\<close>

lemma pages_needed:
  assumes "request n"
  defines "pages \<equiv> (n + BLOCK_HEADER_SIZE + PMM_FRAME_SIZE - 1) div PMM_FRAME_SIZE"
  shows "unat pages = (unat n + 4111) div 4096" "unat (pages * PMM_FRAME_SIZE) = unat pages * 4096"
    "unat (pages * PMM_FRAME_SIZE - BLOCK_HEADER_SIZE) = unat pages * 4096 - 16"
    "unat n + 16 \<le> unat pages * 4096" "1 \<le> unat pages" "unat pages * 4096 \<le> unat n + 4111"
proof -
  have n: "unat n < 0x40000000" "8 \<le> unat n" using assms(1) by (auto simp: request_def)
  have "pages = (n + 4111) div 4096" by (simp add: pages_def BLOCK_HEADER_SIZE_def PMM_FRAME_SIZE_def add.commute)
  moreover have "unat (n + 4111) = unat n + 4111" using n by (simp add: unat_plus_if')
  ultimately show p: "unat pages = (unat n + 4111) div 4096" by (simp add: unat_div)
  have "unat n + 4111 < 4096 * unat pages + 4096" "unat pages * 4096 \<le> unat n + 4111"
    unfolding p using dividend_less_div_times [of 4096 "unat n + 4111"] by (simp_all add: mult.commute)
  then show q: "unat n + 16 \<le> unat pages * 4096" "unat pages * 4096 \<le> unat n + 4111" by linarith+
  show m: "unat (pages * PMM_FRAME_SIZE) = unat pages * 4096"
    using q(2) n by (simp add: PMM_FRAME_SIZE_def unat_word_ariths)
  have "BLOCK_HEADER_SIZE \<le> pages * PMM_FRAME_SIZE" using q(1) m by (simp add: word_le_nat_alt BLOCK_HEADER_SIZE_def)
  then show "unat (pages * PMM_FRAME_SIZE - BLOCK_HEADER_SIZE) = unat pages * 4096 - 16"
    by (simp add: unat_sub m BLOCK_HEADER_SIZE_def)
  show "1 \<le> unat pages" using q(1) by linarith
qed

lemma add_region_at:
  fixes s t :: "'a heap_state_scheme"
  assumes ok: "heap_mapped s" "heap_shape (hview s) (lo_of s) (hi_of s) (free_list s) F A"
    and gr: "heap_grown s (4096 * unat pages) t"
    and pg: "1 \<le> unat pages" "unat (pages * PMM_FRAME_SIZE) = unat pages * 4096"
      "unat (pages * PMM_FRAME_SIZE - BLOCK_HEADER_SIZE) = unat pages * 4096 - 16"
  shows "\<exists>u. add_region pages t = Some u \<and> heap_mapped u \<and>
    heap_shape (hview u) (lo_of u) (hi_of u) (free_list u) (heap_end s # F) A \<and> keeps (hview s) (hview u) A \<and>
    hview u (heap_end s) = pages * PMM_FRAME_SIZE - BLOCK_HEADER_SIZE \<and> heap_frame s u \<and> heap_end u = heap_end t"
proof -
  let ?e = "heap_end s" and ?z = "pages * PMM_FRAME_SIZE - BLOCK_HEADER_SIZE"
  note g = gr [unfolded heap_grown_def] and h = heap_mappedD [OF ok(1)]
  have same: "heap_start t = heap_start s" "free_list t = free_list s" "heap_used_bytes t = heap_used_bytes s"
    using g heap_eqD by auto
  have "heap_end t = ?e + pages * PMM_FRAME_SIZE"
    using g pg(2) unsigned_less [of "heap_end t", where 'a = nat] by (simp add: word_unat_eq_iff unat_plus_if')
  then have reg: "heap_end t - pages * PMM_FRAME_SIZE = ?e" by simp
  have hi: "hi_of t < 2 ^ 64" using unsigned_less [of "heap_end t", where 'a = nat] by simp
  have "unat ?e mod 4096 mod 8 = unat ?e mod 8" by (rule mod_mod_cancel) simp
  then have al: "unat ?e mod 8 = 0" using h(3) by (simp add: page_aligned_iff)
  have "unat pages * 4096 - 16 = 8 * (512 * unat pages - 2)" by simp
  then have zm: "(unat pages * 4096 - 16) mod 8 = 0" by (simp only: mod_mult_self1_is_0)
  have zs: "unat ?z mod 8 = 0" "8 \<le> unat ?z" "hi_of s + 16 + unat ?z = hi_of t"
    using zm pg(1,3) g by simp_all
  have lo: "lo_of s \<le> hi_of s" "0 < lo_of s" using h(2,4) by (simp_all add: HEAP_START_def)
  note rs = region_shape [OF ok(2) refl lo(1) al lo(2) zs hi]
  have wd: "?e \<in> heap_words t" "?e + 8 \<in> heap_words t" "?e + 16 \<in> heap_words t"
    using block_words [of _ t "set (?e # F) \<union> A" ?e] heap_shapeD(1) [OF rs(1)] same(1) by auto
  have at: "heap_at t (hview s) (free_list s) (heap_used_bytes s) t" using heap_at_self [of t] g same by simp
  obtain t1 where t1: "kstore64 ?e ?z t = Some t1" "heap_at t ((hview s)(?e := ?z)) (free_list s) (heap_used_bytes s) t1"
    using heap_at_store [OF at wd(1)] by blast
  obtain t2 where t2: "kstore64 (?e + 8) 0 t1 = Some t2" "heap_at t ((hview s)(?e := ?z, ?e + 8 := 0)) (free_list s) (heap_used_bytes s) t2"
    using heap_at_store [OF t1(2) wd(2)] by blast
  obtain t3 where t3: "kstore64 (?e + 16) (free_list s) t2 = Some t3"
    "heap_at t ((hview s)(?e := ?z, ?e + 8 := 0, ?e + 16 := free_list s)) (free_list s) (heap_used_bytes s) t3"
    using heap_at_store [OF t2(2) wd(3)] by blast
  let ?u = "t3\<lparr>free_list := ?e\<rparr>"
  have "add_region pages t = Some ?u"
    using t1(1) t2(1) t3(1) heap_at_fields(1) [OF t2(2)] unfolding add_region_def Let_def reg by simp
  moreover note f = heap_at_fields [OF heap_at_head [OF t3(2), of ?e]]
  have "hview ?u ?e = ?z" unfolding f(7) by simp
  moreover have "heap_frame s ?u"
    using heap_grown_frame [OF gr] heap_at_frame [OF heap_at_head [OF t3(2), of ?e]] by (rule heap_frame_trans)
  ultimately show ?thesis using f rs same by (intro exI [of _ ?u]) simp
qed

lemma request_align:
  assumes "0 < unat sz" "unat sz < 0x3FFFFFF8"
  shows "request (align_up sz 8)" "unat sz \<le> unat (align_up sz 8)"
proof -
  have b: "unat sz + 8 \<le> 2 ^ 64" using assms(2) by simp
  note a = align_up_8 [OF b]
  obtain j where "unat (align_up sz 8) = 8 * j" using a(2) by (metis mod_0_imp_dvd dvdE)
  then show "request (align_up sz 8)" using a assms by (auto simp: request_def)
  show "unat sz \<le> unat (align_up sz 8)" by (rule a(1))
qed

lemma request_idem: "request n \<Longrightarrow> align_up n 8 = n \<and> n \<noteq> 0"
  by (auto simp: request_def intro: align_up_8_idem)

lemma allocated_weaken: "allocated s A n p t \<Longrightarrow> unat m \<le> unat n \<Longrightarrow> allocated s A m p t"
  by (auto simp: allocated_def)

lemma allocated_from: "keeps (hview s) (hview s') A \<Longrightarrow> heap_frame s s' \<Longrightarrow> allocated s' A n p t \<Longrightarrow> allocated s A n p t"
  using keeps_trans heap_frame_trans by (auto simp: allocated_def)

text \<open>When nothing fits: the heap grows, and the new region serves the request.\<close>

lemma kmalloc_extends:
  fixes s :: "'a heap_state_scheme"
  assumes ok: "heap_mapped s" "heap_shape (hview s) (lo_of s) (hi_of s) (free_list s) F A" and n: "request n"
    and small: "\<forall>b\<in>set F. unat (hview s b) < unat n" and room: "heap_room s (unat n + 4111)"
  shows "\<exists>p t. kmalloc n s = Some (p, t) \<and>
    (p = 0 \<and> heap_ok t A \<and> hview t = hview s \<and> heap_frame s t \<and> card (pmm_avail s) < 2 * ((unat n + 4111) div 4096) \<or> allocated s A n p t) \<and>
    unat (heap_end t) \<le> unat (heap_end s) + (unat n + 4111)"
proof -
  let ?pages = "(n + BLOCK_HEADER_SIZE + PMM_FRAME_SIZE - 1) div PMM_FRAME_SIZE"
  note pg = pages_needed [OF n] and i = request_idem [OF n]
  have r: "heap_room s (4096 * unat ?pages)" using room pg(6) by linarith
  obtain e t k where e: "heap_extend ?pages s = Some (e, t)" "heap_grown s (4096 * k) t"
    "e = 0 \<and> k = unat ?pages \<or> e = - 1 \<and> k < unat ?pages \<and> card (pmm_avail s) < 2 * unat ?pages"
    using heap_extend_loop_spec [OF ok(1) r] unfolding heap_extend_def by blast
  have none: "kmalloc_search 0 (free_list s) n s = Some None"
    using kmalloc_search_takes [OF ok n] small by (auto simp: not_le split: if_splits)
  show ?thesis
  proof (cases "e = 0")
    case False
    have "kmalloc n s = Some (0, t)"
      by (subst kmalloc.simps) (use none e(1) i False in simp)
    moreover have "heap_ok t A"
    proof -
      note g = e(2) [unfolded heap_grown_def]
      have eq: "heap_start t = heap_start s" "free_list t = free_list s" using g heap_eqD by auto
      have "blocks_ok (hview s) (lo_of s) (hi_of t) (set F \<union> A)"
        by (rule blocks_ok_longer [OF heap_shapeD(1) [OF ok(2)]])
          (use g unsigned_less [of "heap_end t", where 'a = nat] in simp_all)
      then show ?thesis using ok(2) g eq by (auto simp: heap_ok_def heap_shape_def)
    qed
    moreover have "unat (heap_end t) \<le> unat (heap_end s) + (unat n + 4111)" using e(2,3) False pg(6) by (auto simp: heap_grown_def)
    ultimately show ?thesis using e(2,3) False pg(1) heap_grown_frame [OF e(2)] by (auto simp: heap_grown_def)
  next
    case True
    then have g: "heap_grown s (4096 * unat ?pages) t" using e(2,3) by auto
    obtain u where u: "add_region ?pages t = Some u" "heap_mapped u"
      "heap_shape (hview u) (lo_of u) (hi_of u) (free_list u) (heap_end s # F) A" "keeps (hview s) (hview u) A"
      "hview u (heap_end s) = ?pages * PMM_FRAME_SIZE - BLOCK_HEADER_SIZE" "heap_frame s u" "heap_end u = heap_end t"
      using add_region_at [OF ok g pg(5,2,3)] by blast
    have "unat n \<le> unat (hview u (heap_end s))" unfolding u(5) pg(3) using pg(4) by linarith
    then obtain p v where p: "kmalloc_search 0 (free_list u) n u = Some (Some (p, v))" "allocated u A n p v" "heap_end v = heap_end u"
      using kmalloc_search_takes [OF u(2,3) n] by (auto simp: block_taken_def split: if_splits)
    have "kmalloc n u = Some (p, v)" by (subst kmalloc.simps) (use p(1) i in simp)
    then have "kmalloc n s = Some (p, v)"
      by (subst kmalloc.simps) (use none e(1) i True u(1) in simp)
    moreover have "unat (heap_end v) \<le> unat (heap_end s) + (unat n + 4111)" using g pg(6) u(7) p(3) by (auto simp: heap_grown_def)
    ultimately show ?thesis using allocated_from [OF u(4,6) p(2)] by blast
  qed
qed

lemma kmalloc_align: "sz \<noteq> 0 \<Longrightarrow> request (align_up sz 8) \<Longrightarrow> kmalloc sz s = kmalloc (align_up sz 8) s"
  by (subst (1 2) kmalloc.simps) (simp add: request_idem)

lemma kmalloc_cases:
  fixes s :: "'a heap_state_scheme"
  assumes ok: "heap_ok s A" and sz: "0 < unat sz" and room: "heap_room s (unat sz + 4118)"
  shows "\<exists>p t. kmalloc sz s = Some (p, t) \<and>
    (p = 0 \<and> \<not> fits s (align_up sz 8) \<and> heap_ok t A \<and> hview t = hview s \<and> heap_frame s t \<and> card (pmm_avail s) < 2 * ((unat sz + 4118) div 4096) \<or>
     allocated s A sz p t) \<and> unat (heap_end t) \<le> unat (heap_end s) + (unat sz + 4118)"
proof -
  obtain F where F: "heap_mapped s" "heap_shape (hview s) (lo_of s) (hi_of s) (free_list s) F A"
    using ok by (auto simp: heap_ok_def)
  have small: "unat sz < 0x3FFFFFF8" using room heap_mappedD(4) [OF F(1)] by (simp add: HEAP_START_def HIGHER_HALF_BASE_def)
  note n = request_align [OF sz small]
  have "unat (align_up sz 8) < unat sz + 8" using align_up_8(3) [of sz] small by simp
  then have le: "unat (align_up sz 8) + 4111 \<le> unat sz + 4118" by simp
  have "\<exists>p t. kmalloc (align_up sz 8) s = Some (p, t) \<and>
    (p = 0 \<and> \<not> fits s (align_up sz 8) \<and> heap_ok t A \<and> hview t = hview s \<and> heap_frame s t \<and> card (pmm_avail s) < 2 * ((unat sz + 4118) div 4096) \<or>
     allocated s A (align_up sz 8) p t) \<and> unat (heap_end t) \<le> unat (heap_end s) + (unat sz + 4118)"
  proof (cases "\<exists>b\<in>set F. unat (align_up sz 8) \<le> unat (hview s b)")
    case True
    then obtain p u where p: "kmalloc_search 0 (free_list s) (align_up sz 8) s = Some (Some (p, u))" "allocated s A (align_up sz 8) p u"
      "heap_end u = heap_end s"
      using kmalloc_search_takes [OF F n(1)] by (auto simp: block_taken_def)
    have "kmalloc (align_up sz 8) s = Some (p, u)" by (subst kmalloc.simps) (use p(1) request_idem [OF n(1)] in simp)
    then show ?thesis using p(2,3) by auto
  next
    case False
    have "heap_room s (unat (align_up sz 8) + 4111)" using room le by linarith
    moreover have "(unat (align_up sz 8) + 4111) div 4096 \<le> (unat sz + 4118) div 4096" using le by (rule div_le_mono)
    moreover have "\<not> fits s (align_up sz 8)" using fits_iff [OF F(2)] False by simp
    moreover obtain p t where "kmalloc (align_up sz 8) s = Some (p, t)"
      "p = 0 \<and> heap_ok t A \<and> hview t = hview s \<and> heap_frame s t \<and> card (pmm_avail s) < 2 * ((unat (align_up sz 8) + 4111) div 4096) \<or>
        allocated s A (align_up sz 8) p t" "unat (heap_end t) \<le> unat (heap_end s) + (unat (align_up sz 8) + 4111)"
      using kmalloc_extends [OF F n(1)] False calculation(1) by (fastforce simp: not_le)
    ultimately show ?thesis using le by (intro exI [of _ p] exI [of _ t]) auto
  qed
  moreover have "sz \<noteq> 0" using sz by auto
  ultimately show ?thesis
    using kmalloc_align [OF _ n(1), of s] allocated_weaken [OF _ n(2), of s A] by auto
qed

text \<open>
  C3. \<open>kmalloc\<close> in a well-formed heap always returns. Either it returns an aligned pointer to a new
  block that holds at least the requested bytes, lies inside the heap and overlaps no other
  block, free or allocated, and the heap is well formed with exactly this block more; or it returns
  null with the same blocks, which can only happen when no free block is large enough and fewer than
  two free frames for every page of the request were left. In both cases every word of every allocated block is unchanged, and
  nothing changes but memory, the frame allocator and the variables of the heap.
\<close>

theorem kmalloc_allocates:
  fixes s :: "'a heap_state_scheme"
  assumes "heap_ok s A" "0 < unat sz" "heap_room s (unat sz + 4118)"
  shows "\<exists>p t. kmalloc sz s = Some (p, t) \<and>
    (if p = 0 then \<not> fits s (align_up sz 8) \<and> heap_ok t A \<and> hview t = hview s \<and> heap_frame s t \<and> card (pmm_avail s) < 2 * ((unat sz + 4118) div 4096)
     else heap_ok t (insert (p - 16) A) \<and> p - 16 \<notin> A \<and> unat p mod 8 = 0 \<and>
       unat sz \<le> unat (hview t (p - 16)) \<and> keeps (hview s) (hview t) A \<and> heap_frame s t)"
proof -
  obtain p t where p: "kmalloc sz s = Some (p, t)"
    "p = 0 \<and> \<not> fits s (align_up sz 8) \<and> heap_ok t A \<and> hview t = hview s \<and> heap_frame s t \<and> card (pmm_avail s) < 2 * ((unat sz + 4118) div 4096) \<or> allocated s A sz p t"
    using kmalloc_cases [OF assms] by blast
  then show ?thesis by (intro exI [of _ p] exI [of _ t]) (auto simp: allocated_def)
qed

section \<open>Using an allocated block\<close>

lemma data_words:
  assumes ok: "heap_ok s A" "b \<in> A" and a: "unat b + 16 \<le> unat a" "unat a < block_end (hview s) b" "unat a mod 8 = 0"
  shows "a \<in> heap_words s"
proof -
  obtain F where F: "heap_shape (hview s) (lo_of s) (hi_of s) (free_list s) F A" using ok(1) by (auto simp: heap_ok_def)
  have b: "b \<in> set F \<union> A" using ok(2) by simp
  show ?thesis
    using blocks_okD(3) [OF heap_shapeD(1) [OF F] b] a by (auto simp: good_block_def heap_words_def heap_addr_def)
qed

lemma data_write_shape:
  assumes sh: "heap_shape w lo hi fl F A" and b: "b \<in> A"
    and d: "\<And>a. w' a \<noteq> w a \<Longrightarrow> unat b + 16 \<le> unat a \<and> unat a < block_end w b"
  shows "heap_shape w' lo hi fl F A" "keeps w w' (A - {b})"
proof -
  note h = heap_shapeD [OF sh]
  have bb: "b \<in> set F \<union> A" using b by simp
  have self: "w' b = w b" "w' (b + 8) = w (b + 8)" using d [of b] d [of "b + 8"] block_addr(3) [OF h(1) bb] by auto
  have other: "w' c = w c" "w' (c + 8) = w (c + 8)" "w' (c + 16) = w (c + 16)" if c: "c \<in> set F \<union> A" "c \<noteq> b" for c
  proof -
    have "w' a = w a" if "a = c \<or> a = c + 8 \<or> a = c + 16" for a
      using inside_other [OF h(1) bb c, of a] d [of a] that by fastforce
    then show "w' c = w c" "w' (c + 8) = w (c + 8)" "w' (c + 16) = w (c + 16)" by blast+
  qed
  have sz: "w' c = w c" "w' (c + 8) = w (c + 8)" if "c \<in> set F \<union> A" for c
    using self other [OF that] by (cases "c = b"; simp)+
  have "blocks_ok w' lo hi (set F \<union> A)" using sz(1) by (intro blocks_ok_cong [OF h(1)]) auto
  moreover have "seg w' fl F 0" using h(2,6) b other(3) by (subst seg_cong [where w = w]) auto
  ultimately show "heap_shape w' lo hi fl F A" unfolding heap_shape_def using h(3-5) sz(2) by auto
  show "keeps w w' (A - {b})"
  proof (rule keeps_inside [OF h(1)])
    fix a assume "w' a \<noteq> w a"
    from d [OF this] b show "\<exists>d\<in>(set F \<union> A) - (A - {b}). unat d \<le> unat a \<and> unat a < block_end w d"
      by (intro bexI [of _ b]) auto
  qed auto
qed

section \<open>Release\<close>

text \<open>The addresses that a set of blocks covers.\<close>

definition covered :: "(u64 \<Rightarrow> u64) \<Rightarrow> u64 set \<Rightarrow> nat set" where
  "covered w B = (\<Union>b\<in>B. {unat b ..< block_end w b})"

lemma covered_cong: "(\<And>b. b \<in> B \<Longrightarrow> w' b = w b) \<Longrightarrow> covered w' B = covered w B"
  by (simp add: covered_def block_end_def)

lemma merge_covered:
  assumes "heap_shape w lo hi fl (xs @ b # c # ys) A" "b + 16 + w b = c"
  shows "covered (merge_words b c w) (set (xs @ b # ys)) = covered w (set (xs @ b # c # ys))"
proof -
  let ?w = "merge_words b c w"
  note h = heap_shapeD [OF assms(1)] and h' = heap_shapeD [OF merge_shape [OF assms]]
  have b: "b \<in> set (xs @ b # c # ys) \<union> A" and b': "b \<in> set (xs @ b # ys) \<union> A" and c: "c \<in> set (xs @ b # c # ys) \<union> A" by simp_all
  have "?w d = w d" if "d \<in> set xs \<union> set ys" for d
    using headers_differ(2) [OF h(1) b, of d] that h(3) by (auto simp: merge_words_def)
  then have rest: "covered ?w (set xs \<union> set ys) = covered w (set xs \<union> set ys)" by (rule covered_cong)
  have lt: "unat (b + 16 + w b) = unat b + 16 + unat (w b)"
    using block_addr(2) [OF h(1) b] blocks_okD(2) [OF h(1) b] by (simp add: unat_plus_if')
  have wb: "?w b = w b + (16 + w c)" by (simp add: merge_words_def)
  have "unat (w b + (16 + w c)) = unat (w b) + 16 + unat (w c)"
    using block_addr(2) [OF h(1) c] blocks_okD(2) [OF h(1) b] lt assms(2) by (simp add: unat_plus_if')
  then have "{unat b ..< block_end ?w b} = {unat b ..< block_end w b} \<union> {unat c ..< block_end w c}"
    using lt assms(2) wb by (auto simp: block_end_def)
  then show ?thesis using rest by (auto simp: covered_def)
qed

lemma coalesce_at:
  assumes at: "heap_at s w fl us t" and sh: "heap_shape w (lo_of s) (hi_of s) fl (xs @ b # c # ys) A"
  shows "\<exists>u w' zs. coalesce b c t = Some u \<and> heap_at s w' fl us u \<and> zs \<in> {ys, c # ys} \<and>
    heap_shape w' (lo_of s) (hi_of s) fl (xs @ b # zs) A \<and> keeps w w' A \<and>
    covered w' (set (xs @ b # zs)) = covered w (set (xs @ b # c # ys))"
proof -
  note h = heap_shapeD [OF sh]
  have b: "b \<in> set (xs @ b # c # ys) \<union> A" and c: "c \<in> set (xs @ b # c # ys) \<union> A" by simp_all
  note bw = block_words [OF h(1) b] and cw = block_words [OF h(1) c]
  note ld = heap_at_load [OF at bw(1)] heap_at_load [OF at cw(1)]
  show ?thesis
  proof (cases "b + 16 + w b = c")
    case False
    then have "coalesce b c t = Some t" using ld(1) by (simp add: coalesce_def BLOCK_HEADER_SIZE_def)
    then show ?thesis using at sh by (intro exI [of _ t] exI [of _ w] exI [of _ "c # ys"]) simp
  next
    case True
    obtain t1 where t1: "kstore64 b (w b + (16 + w c)) t = Some t1" "heap_at s (w(b := w b + (16 + w c))) fl us t1"
      using heap_at_store [OF at bw(1)] by blast
    have "c + 16 \<noteq> b" using headers_differ(2) [OF h(1) c b] .
    then have ld2: "kload64 (c + 16) t1 = Some (w (c + 16))" using heap_at_load [OF t1(2) cw(3)] by simp
    obtain t2 where t2: "kstore64 (b + 16) (w (c + 16)) t1 = Some t2" "heap_at s (merge_words b c w) fl us t2"
      using heap_at_store [OF t1(2) bw(3), of "w (c + 16)"] unfolding merge_words_def by blast
    have "coalesce b c t = Some t2" using True ld ld2 t1(1) t2(1) by (simp add: coalesce_def BLOCK_HEADER_SIZE_def)
    then show ?thesis
      using t2(2) merge_shape [OF sh True] merge_keeps [OF sh, of b c] merge_covered [OF sh True]
      by (intro exI [of _ t2] exI [of _ "merge_words b c w"] exI [of _ ys]) simp
  qed
qed

lemma kfree_find_walk:
  assumes "heap_at s w fl us t" "seg w p ys 0" "\<forall>c\<in>set ys. c + 16 \<in> heap_words s"
  shows "kfree_find prev p b t =
    Some (if takeWhile (\<lambda>c. c < b) ys = [] then prev else last (takeWhile (\<lambda>c. c < b) ys), first_of (dropWhile (\<lambda>c. c < b) ys))"
  using assms(2,3)
proof (induction ys arbitrary: p prev)
  case Nil
  then show ?case by (subst kfree_find.simps) simp
next
  case (Cons y ys)
  have "kload64 (y + 16) t = Some (w (y + 16))" using heap_at_load [OF assms(1)] Cons.prems(2) by simp
  moreover have "kfree_find y (w (y + 16)) b t =
      Some (if takeWhile (\<lambda>c. c < b) ys = [] then y else last (takeWhile (\<lambda>c. c < b) ys), first_of (dropWhile (\<lambda>c. c < b) ys))"
    using Cons.prems by (intro Cons.IH) auto
  ultimately show ?case using Cons.prems(1) by (subst kfree_find.simps) auto
qed

lemma kfree_insert_at:
  assumes at: "heap_at s (w(b + 8 := 0)) fl us t" and sh: "heap_shape w (lo_of s) (hi_of s) fl (xs @ ys) A" and b: "b \<in> A"
  shows "\<exists>u w'. kfree_insert (last_of xs) b (first_of ys) t = Some u \<and> heap_at s w' (rehead fl xs b) us u \<and>
    heap_shape w' (lo_of s) (hi_of s) (rehead fl xs b) (xs @ b # ys) (A - {b}) \<and> keeps w w' (A - {b}) \<and>
    covered w' (set (xs @ b # ys)) = covered w (set (xs @ ys)) \<union> {unat b ..< block_end w b}"
proof -
  note h = heap_shapeD [OF sh]
  have bb: "b \<in> set (xs @ ys) \<union> A" using b by simp
  note bw = block_words [OF h(1) bb]
  let ?v = "w(b + 8 := 0, b + 16 := first_of ys)" and ?w = "relink (w(b + 8 := 0, b + 16 := first_of ys)) xs b"
  obtain t1 where t1: "kstore64 (b + 16) (first_of ys) t = Some t1" "heap_at s ?v fl us t1"
    using heap_at_store [OF at bw(3)] by blast
  have "\<exists>u. (if last_of xs \<noteq> 0 then kstore64 (last_of xs + 16) b t1 else Some (t1\<lparr>free_list := b\<rparr>)) = Some u \<and>
      heap_at s ?w (rehead fl xs b) us u"
  proof (cases "xs = []")
    case True
    then show ?thesis using heap_at_head [OF t1(2), of b] by (simp add: relink_def rehead_def)
  next
    case False
    then have l: "last xs \<in> set (xs @ ys) \<union> A" by simp
    show ?thesis
      using heap_at_store [OF t1(2) block_words(3) [OF h(1) l], of b] False block_addr(5) [OF h(1) l]
      by (simp add: relink_def rehead_def)
  qed
  then obtain u where u: "(if last_of xs \<noteq> 0 then kstore64 (last_of xs + 16) b t1 else Some (t1\<lparr>free_list := b\<rparr>)) = Some u"
    "heap_at s ?w (rehead fl xs b) us u" by blast
  have run: "kfree_insert (last_of xs) b (first_of ys) t = Some u" using t1(1) u(1) by (simp add: kfree_insert_def)
  note sh' = link_shape [OF sh b refl]
  have okv: "blocks_ok ?v (lo_of s) (hi_of s) (set (xs @ ys) \<union> A)"
    by (intro blocks_ok_field blocks_ok_field [OF h(1)]) (use bb in auto)
  have sub: "set xs \<subseteq> set (xs @ ys) \<union> A" by auto
  have "?w c = w c" if "c \<in> set (xs @ ys) \<union> A" for c
    using relink_other(1) [OF okv sub that, of b] headers_differ(1,2) [OF h(1) bb that] by auto
  then have "covered ?w (set (xs @ b # ys)) = covered w (set (xs @ b # ys))" using bb by (intro covered_cong) auto
  also have "\<dots> = covered w (set (xs @ ys)) \<union> {unat b ..< block_end w b}" by (auto simp: covered_def)
  finally show ?thesis using run u(2) sh' link_keeps [OF sh b] by blast
qed

text \<open>The two merges that follow the insertion.\<close>

lemma kfree_merges:
  assumes at: "heap_at s w fl us t" and sh: "heap_shape w (lo_of s) (hi_of s) fl (xs @ b # ys) A"
  shows "\<exists>t1 u w' F'. (if first_of ys \<noteq> 0 then coalesce b (first_of ys) t else Some t) = Some t1 \<and>
    (if last_of xs \<noteq> 0 then coalesce (last_of xs) b t1 else Some t1) = Some u \<and> heap_at s w' fl us u \<and>
    heap_shape w' (lo_of s) (hi_of s) fl F' A \<and> keeps w w' A \<and> covered w' (set F') = covered w (set (xs @ b # ys))"
proof -
  have nz: "c \<noteq> 0" if "c \<in> set (xs @ b # ys)" for c
    using block_addr(5) [OF heap_shapeD(1) [OF sh]] that by auto
  have "\<exists>t1 w1 zs. (if first_of ys \<noteq> 0 then coalesce b (first_of ys) t else Some t) = Some t1 \<and> heap_at s w1 fl us t1 \<and>
    heap_shape w1 (lo_of s) (hi_of s) fl (xs @ b # zs) A \<and> keeps w w1 A \<and> covered w1 (set (xs @ b # zs)) = covered w (set (xs @ b # ys))"
  proof (cases ys)
    case Nil
    then show ?thesis using at sh by (intro exI [of _ t] exI [of _ w] exI [of _ "[]"]) simp
  next
    case (Cons c cs)
    then show ?thesis using coalesce_at [OF at sh [unfolded Cons]] nz [of c] by auto
  qed
  then obtain t1 w1 zs where t1: "(if first_of ys \<noteq> 0 then coalesce b (first_of ys) t else Some t) = Some t1"
    "heap_at s w1 fl us t1" "heap_shape w1 (lo_of s) (hi_of s) fl (xs @ b # zs) A" "keeps w w1 A"
    "covered w1 (set (xs @ b # zs)) = covered w (set (xs @ b # ys))" by blast
  have "\<exists>u w' F'. (if last_of xs \<noteq> 0 then coalesce (last_of xs) b t1 else Some t1) = Some u \<and> heap_at s w' fl us u \<and>
    heap_shape w' (lo_of s) (hi_of s) fl F' A \<and> keeps w1 w' A \<and> covered w' (set F') = covered w1 (set (xs @ b # zs))"
  proof (cases xs rule: rev_cases)
    case Nil
    then show ?thesis using t1(2,3) by (intro exI [of _ t1] exI [of _ w1] exI [of _ "b # zs"]) simp
  next
    case (snoc qs p)
    have sh2: "heap_shape w1 (lo_of s) (hi_of s) fl (qs @ p # b # zs) A" using t1(3) snoc by simp
    obtain u w' zs' where u: "coalesce p b t1 = Some u" "heap_at s w' fl us u"
      "heap_shape w' (lo_of s) (hi_of s) fl (qs @ p # zs') A" "keeps w1 w' A"
      "covered w' (set (qs @ p # zs')) = covered w1 (set (qs @ p # b # zs))"
      using coalesce_at [OF t1(2) sh2] by blast
    have "set (qs @ p # b # zs) = set (xs @ b # zs)" by (auto simp: snoc)
    with u nz [of p] snoc show ?thesis by (intro exI [of _ u] exI [of _ w'] exI [of _ "qs @ p # zs'"]) simp
  qed
  then obtain u w' F' where u: "(if last_of xs \<noteq> 0 then coalesce (last_of xs) b t1 else Some t1) = Some u" "heap_at s w' fl us u"
    "heap_shape w' (lo_of s) (hi_of s) fl F' A" "keeps w1 w' A" "covered w' (set F') = covered w1 (set (xs @ b # zs))" by blast
  show ?thesis
    by (rule exI [of _ t1], rule exI [of _ u], rule exI [of _ w'], rule exI [of _ F'])
      (use t1(1,5) u keeps_trans [OF t1(4) u(4)] in simp)
qed

lemma kfree_spec:
  fixes s :: "'a heap_state_scheme"
  assumes hm: "heap_mapped s" and sh: "heap_shape (hview s) (lo_of s) (hi_of s) (free_list s) F A" and b: "b \<in> A"
  shows "\<exists>t F'. kfree (b + 16) s = Some t \<and> heap_mapped t \<and>
    heap_shape (hview t) (lo_of t) (hi_of t) (free_list t) F' (A - {b}) \<and> keeps (hview s) (hview t) (A - {b}) \<and>
    covered (hview t) (set F') = covered (hview s) (set F) \<union> {unat b ..< block_end (hview s) b} \<and>
    heap_used_bytes t = heap_used_bytes s - (hview s b + 16)"
proof -
  let ?w = "hview s" and ?us = "heap_used_bytes s - (hview s b + 16)"
  note h = heap_shapeD [OF sh] and at = heap_at_self [OF hm]
  have bb: "b \<in> set F \<union> A" using b by simp
  note bw = block_words [OF h(1) bb]
  define xs ys where "xs = takeWhile (\<lambda>c. c < b) F" and "ys = dropWhile (\<lambda>c. c < b) F"
  have F: "F = xs @ ys" by (simp add: xs_def ys_def)
  obtain t1 where t1: "kstore64 (b + 8) 0 s = Some t1" "heap_at s (?w(b + 8 := 0)) (free_list s) (heap_used_bytes s) t1"
    using heap_at_store [OF at bw(2)] by blast
  have z: "kload64 b t1 = Some (?w b)" using heap_at_load [OF t1(2) bw(1)] by simp
  let ?t = "t1\<lparr>heap_used_bytes := ?us\<rparr>"
  have t2: "heap_at s (?w(b + 8 := 0)) (free_list s) ?us ?t" by (rule heap_at_used [OF t1(2)])
  have nx: "c + 16 \<in> heap_words s" "(?w(b + 8 := 0)) (c + 16) = ?w (c + 16)" if "c \<in> set F" for c
    using block_words(3) [OF h(1), of c] headers_differ(4) [OF h(1) bb, of c] that by auto
  have "seg (?w(b + 8 := 0)) (free_list s) F 0" using h(2) nx(2) by (subst seg_cong [where w = ?w]) auto
  then have find: "kfree_find 0 (free_list ?t) b ?t = Some (last_of xs, first_of ys)"
    using kfree_find_walk [OF t2, of _ F 0 b] nx(1) heap_at_fields(1) [OF t2] by (simp add: xs_def ys_def)
  obtain u w1 where u: "kfree_insert (last_of xs) b (first_of ys) ?t = Some u" "heap_at s w1 (rehead (free_list s) xs b) ?us u"
    "heap_shape w1 (lo_of s) (hi_of s) (rehead (free_list s) xs b) (xs @ b # ys) (A - {b})" "keeps ?w w1 (A - {b})"
    "covered w1 (set (xs @ b # ys)) = covered ?w (set (xs @ ys)) \<union> {unat b ..< block_end ?w b}"
    using kfree_insert_at [OF t2 sh [unfolded F] b] by blast
  obtain v1 v w2 F' where v: "(if first_of ys \<noteq> 0 then coalesce b (first_of ys) u else Some u) = Some v1"
    "(if last_of xs \<noteq> 0 then coalesce (last_of xs) b v1 else Some v1) = Some v"
    "heap_at s w2 (rehead (free_list s) xs b) ?us v" "heap_shape w2 (lo_of s) (hi_of s) (rehead (free_list s) xs b) F' (A - {b})"
    "keeps w1 w2 (A - {b})" "covered w2 (set F') = covered w1 (set (xs @ b # ys))"
    using kfree_merges [OF u(2,3)] by blast
  have nz: "b + 16 \<noteq> 0" using block_addr(4) [OF h(1) bb] by auto
  have us: "heap_used_bytes t1 = heap_used_bytes s" using heap_at_fields(2) [OF t1(2)] .
  have run: "kfree (b + 16) s = Some v"
    using nz t1(1) z find u(1) v(1,2) heap_at_load [OF at bw(2)] h(5) [OF b] us
    by (simp add: kfree_def BLOCK_HEADER_SIZE_def)
  note f = heap_at_fields [OF v(3)]
  show ?thesis
    using run f v(4,6) u(5) keeps_trans [OF u(4) v(5)] F by (intro exI [of _ v] exI [of _ F']) simp
qed

text \<open>
  C10. \<open>kfree\<close> of an allocated block always returns; the heap is well formed with exactly this block
  less, the free blocks cover exactly the bytes they covered before and those of the block, so
  nothing is lost or shared when neighbours are merged, and every word of every other
  allocated block is unchanged.
\<close>

theorem kfree_releases:
  fixes s :: "'a heap_state_scheme"
  assumes "heap_mapped s" "heap_shape (hview s) (lo_of s) (hi_of s) (free_list s) F A" "b \<in> A"
  shows "\<exists>t F'. kfree (b + 16) s = Some t \<and> heap_ok t (A - {b}) \<and>
    seg (hview t) (free_list t) F' 0 \<and> keeps (hview s) (hview t) (A - {b}) \<and>
    covered (hview t) (set F') = covered (hview s) (set F) \<union> {unat b ..< block_end (hview s) b}"
  using kfree_spec [OF assms] heap_shapeD(2) unfolding heap_ok_def by metis

text \<open>
  Releasing the null pointer or a block that is free already, as by a double release, returns and
  changes nothing.
\<close>

theorem kfree_ignores:
  fixes s :: "'a heap_state_scheme"
  assumes "heap_mapped s" "heap_shape (hview s) (lo_of s) (hi_of s) (free_list s) F A" "b \<in> set F"
  shows "kfree 0 s = Some s \<and> kfree (b + 16) s = Some s"
proof -
  note h = heap_shapeD [OF assms(2)]
  have b: "b \<in> set F \<union> A" using assms(3) by simp
  have "kload64 (b + 8) s = Some 0"
    using heap_at_load [OF heap_at_self [OF assms(1)] block_words(2) [OF h(1) b]] h(4) [OF assms(3)] by simp
  moreover have "b + 16 \<noteq> 0" using block_addr(4) [OF h(1) b] by auto
  ultimately show ?thesis by (simp add: kfree_def BLOCK_HEADER_SIZE_def HEAP_MAGIC_def)
qed

lemma kmalloc_fits:
  fixes s :: "'a heap_state_scheme"
  assumes "heap_ok s A" "0 < unat sz" "unat sz < 0x3FFFFFF8" "fits s (align_up sz 8)"
  shows "\<exists>p t. kmalloc sz s = Some (p, t) \<and> allocated s A (align_up sz 8) p t \<and> block_taken s (align_up sz 8) p t"
proof -
  obtain F where F: "heap_mapped s" "heap_shape (hview s) (lo_of s) (hi_of s) (free_list s) F A"
    using assms(1) by (auto simp: heap_ok_def)
  note n = request_align [OF assms(2,3)]
  obtain p t where p: "kmalloc_search 0 (free_list s) (align_up sz 8) s = Some (Some (p, t))"
    "allocated s A (align_up sz 8) p t" "block_taken s (align_up sz 8) p t"
    using kmalloc_search_takes [OF F n(1)] assms(4) fits_iff [OF F(2)] by auto
  have nz: "sz \<noteq> 0" using assms(2) by auto
  have km: "kmalloc sz s = Some (p, t)" by (subst kmalloc.simps) (use p(1) nz in simp)
  show ?thesis using km p(2,3) by blast
qed


end
