(* ===== verification/Prism_Heapinit.thy ===== *)
theory Prism_Heapinit
  imports Prism_Freelist
begin

text \<open>
  \<^verbatim>\<open>heap_init\<close> of \<^verbatim>\<open>mm/heap.c\<close> establishes the invariant of the heap, and
  the heap of a small machine on which the properties of the allocator are exercised.
\<close>

section \<open>The initial heap\<close>

lemma empty_heap_mapped:
  assumes "kernel_space s"
  shows "heap_mapped (s\<lparr>heap_start := HEAP_START, heap_end := HEAP_START\<rparr>)"
proof -
  let ?t = "s\<lparr>heap_start := HEAP_START, heap_end := HEAP_START\<rparr>"
  have "kernel_space ?t"
    using assms kernel_spaceD(1,4) [OF assms]
    by (intro kernel_space_cong [OF assms])
      (simp_all add: kernel_mapped_def ktables_def pmm_ready_def pmm_inv_def pmm_avail_def
        frames_free_def frames_used_def frames_marked_def bitmap_test_def)
  moreover have "\<not> heap_addr ?t a" for a by (simp add: heap_addr_def)
  ultimately show ?thesis
    by (simp add: heap_mapped_def page_aligned_iff) (simp add: HEAP_START_def HIGHER_HALF_BASE_def)
qed

lemma first_block_shape:
  assumes "w e = z" "w (e + 8) = 0" "w (e + 16) = 0" "unat e = lo" "0 < lo" "lo mod 8 = 0"
    "unat z mod 8 = 0" "8 \<le> unat z" "lo + 16 + unat z = hi" "hi < 2 ^ 64"
  shows "heap_shape w lo hi e [e] {}"
  using assms by (auto simp: heap_shape_def blocks_ok_def good_block_def block_end_def)

lemma kernel_space_same:
  assumes "heap_same s t"
  shows "kernel_space t = kernel_space s"
proof -
  note t = assms [unfolded heap_same_def] and av = heap_same_mapped(4) [OF assms]
  have rd: "pmm_ready t = pmm_ready s"
    using t by (simp add: pmm_ready_def pmm_inv_def frames_used_def frames_marked_def bitmap_test_def)
  have pd: "pd_used t = pd_used s" by (intro ext) (use t in \<open>simp add: pd_used_def\<close>)
  show ?thesis unfolding kernel_space_def av rd pd using t by (simp add: kernel_mapped_def ktables_def)
qed

lemma heap_ok_same:
  assumes "heap_same s t" "free_list t = free_list s"
  shows "heap_ok t A = heap_ok s A" "fits t n = fits s n"
  using heap_same_mapped [OF assms(1)] assms by (auto simp: heap_ok_def fits_def heap_same_def)

text \<open>One free block over the whole heap.\<close>

definition one_block :: "'a heap_state_scheme \<Rightarrow> bool" where
  "one_block s \<longleftrightarrow> seg (hview s) (free_list s) [HEAP_START] 0 \<and> hview s HEAP_START = 16368"

lemma one_block_fits: "one_block s \<Longrightarrow> unat n \<le> 16368 \<Longrightarrow> fits s n"
  unfolding one_block_def fits_def by (intro exI [of _ "[HEAP_START]"]) simp

lemma one_block_same:
  assumes "heap_same s t" "free_list t = free_list s"
  shows "one_block t = one_block s"
  using heap_same_mapped(2) [OF assms(1)] assms(2) by (simp add: one_block_def)

text \<open>The variables of the components above the heap, and the environment, stay as they were.\<close>

definition dev_same :: "'a heap_state_scheme \<Rightarrow> 'a heap_state_scheme \<Rightarrow> bool" where
  "dev_same s t \<longleftrightarrow> irq_handlers t = irq_handlers s \<and> kbd_buffer t = kbd_buffer s \<and> kbd_head t = kbd_head s \<and>
     kbd_tail t = kbd_tail s \<and> kbd_lshift t = kbd_lshift s \<and> kbd_rshift t = kbd_rshift s"

lemma dev_same_trans: "dev_same s t \<Longrightarrow> dev_same t u \<Longrightarrow> dev_same s u"
  by (simp add: dev_same_def)

definition rest_same :: "'a heap_state_scheme \<Rightarrow> 'a heap_state_scheme \<Rightarrow> bool" where
  "rest_same s t \<longleftrightarrow> io_in t = io_in s \<and> syms t = syms s \<and> heap_state.more t = heap_state.more s \<and> dev_same s t"

lemma rest_same_frame: "heap_frame s t \<Longrightarrow> rest_same s t"
  by (erule heap_frameE) (simp add: rest_same_def dev_same_def)

lemma rest_same_vga: "vga_eq s t \<Longrightarrow> rest_same s t"
  by (erule vga_eqE) (simp add: rest_same_def dev_same_def)

lemma rest_same_trans: "rest_same s t \<Longrightarrow> rest_same t u \<Longrightarrow> rest_same s u"
  by (simp add: rest_same_def dev_same_def)

text \<open>What setting up the heap takes: at most eight free frames; the frames that hold neither tables nor free memory keep their contents.\<close>

definition heap_fresh :: "'a heap_state_scheme \<Rightarrow> 'a heap_state_scheme \<Rightarrow> bool" where
  "heap_fresh s t \<longleftrightarrow> pmm_avail t \<subseteq> pmm_avail s \<and> card (pmm_avail s) \<le> card (pmm_avail t) + 8 \<and>
     (\<forall>f. data_frame s f \<longrightarrow> foreign t f) \<and> (\<forall>a. data_frame s (page_of a) \<longrightarrow> mem t a = mem s a)"

text \<open>Setting up the block that spans a heap of four fresh pages.\<close>

lemma first_block_at:
  fixes t :: "'a heap_state_scheme"
  assumes hm: "heap_mapped t" and e: "unat (heap_end t) = unat HEAP_START + 16384"
  shows "\<exists>u. do { s \<leftarrow> Some (t\<lparr>free_list := heap_start t\<rparr>);
               s \<leftarrow> set_size (free_list s) (heap_end s - heap_start s - BLOCK_HEADER_SIZE) s;
               s \<leftarrow> set_magic (free_list s) 0 s;
               set_next (free_list s) 0 s } = Some u \<and>
    heap_ok u {} \<and> one_block u \<and> heap_end u = heap_end t \<and> heap_same (t\<lparr>mem := mem u\<rparr>) u \<and>
    heap_used_bytes u = heap_used_bytes t \<and> heap_frame t u"
proof -
  let ?s = "HEAP_START" and ?t = "t\<lparr>free_list := heap_start t\<rparr>"
  note h = heap_mappedD [OF hm]
  have z: "heap_end t - HEAP_START - BLOCK_HEADER_SIZE = 16368"
  proof -
    have "heap_end t = HEAP_START + 16384" using e by (simp add: word_unat_eq_iff HEAP_START_def)
    then show ?thesis by (simp add: BLOCK_HEADER_SIZE_def)
  qed
  have wd: "?s \<in> heap_words t" "?s + 8 \<in> heap_words t" "?s + 16 \<in> heap_words t"
    using e h(2) by (simp_all add: heap_words_def heap_addr_def HEAP_START_def)
  have at: "heap_at t (hview t) ?s (heap_used_bytes t) ?t"
    using heap_at_head [OF heap_at_self [OF hm], of ?s] h(2) by simp
  obtain t1 where t1: "kstore64 ?s 16368 ?t = Some t1" "heap_at t ((hview t)(?s := 16368)) ?s (heap_used_bytes t) t1"
    using heap_at_store [OF at wd(1)] by blast
  obtain t2 where t2: "kstore64 (?s + 8) 0 t1 = Some t2" "heap_at t ((hview t)(?s := 16368, ?s + 8 := 0)) ?s (heap_used_bytes t) t2"
    using heap_at_store [OF t1(2) wd(2)] by blast
  let ?w = "(hview t)(?s := 16368, ?s + 8 := 0, ?s + 16 := 0)"
  obtain t3 where t3: "kstore64 (?s + 16) 0 t2 = Some t3" "heap_at t ?w ?s (heap_used_bytes t) t3"
    using heap_at_store [OF t2(2) wd(3)] by blast
  have sh: "heap_shape ?w (lo_of t) (hi_of t) ?s [?s] {}"
    by (rule first_block_shape [where z = 16368]) (use e h(2) in \<open>simp_all add: HEAP_START_def\<close>)
  note f = heap_at_fields [OF t3(2)]
  have "one_block t3" unfolding one_block_def f by (simp add: HEAP_START_def)
  moreover have "heap_same (t\<lparr>mem := mem t3\<rparr>) t3"
  proof -
    obtain m where "t3 = t\<lparr>mem := m, free_list := ?s, heap_used_bytes := heap_used_bytes t\<rparr>"
      using t3(2) unfolding heap_at_def by blast
    then show ?thesis by (simp add: heap_same_def)
  qed
  ultimately show ?thesis
    using heap_at_frame [OF t3(2)] t1(1) t2(1) t3(1) heap_at_fields(1) [OF t1(2)] heap_at_fields(1) [OF t2(2)] heap_at_ok [OF t3(2) sh] f h(2) z
    by (intro exI [of _ t3]) simp
qed

lemma heap_init_spec:
  fixes s :: "'a heap_state_scheme"
  assumes ks: "kernel_space s"
  shows "\<exists>r t. heap_init s = Some (r, t) \<and>
    (r = 0 \<and> heap_ok t {} \<and> one_block t \<and> heap_size t = 16384 \<and> heap_used_bytes t = heap_used_bytes s \<and> rest_same s t \<and> heap_fresh s t \<or>
     r = - 1 \<and> card (pmm_avail s) < 8)"
proof -
  let ?msg = "cstr (''Heap: Initializing...'' @ [CHR 0x0A])" and ?done = "cstr (''Heap: Ready (16 KiB initial)'' @ [CHR 0x0A])"
  let ?s1 = "(kprint ?msg s)\<lparr>heap_start := HEAP_START, heap_end := HEAP_START\<rparr>"
  have v: "heap_same s (kprint ?msg s)" using vga_heap_same kprint_vga_eq by blast
  have kk: "kernel_space (kprint ?msg s)" using kernel_space_same [OF v] ks by simp
  have hm: "heap_mapped ?s1" using empty_heap_mapped [OF kk] .
  have av: "pmm_avail ?s1 = pmm_avail s"
    using heap_same_mapped(4) [OF v] by (simp add: pmm_avail_def frames_free_def frames_marked_def bitmap_test_def)
  have us: "heap_used_bytes ?s1 = heap_used_bytes s"
    using kprint_vga_eq [of s ?msg] by (auto elim!: vga_eqE)
  have room: "heap_room ?s1 (4096 * 4)" by (simp add: HEAP_START_def HIGHER_HALF_BASE_def)
  obtain r t k where t: "heap_extend_loop 4 ?s1 = Some (r, t)" "heap_grown ?s1 (4096 * k) t"
    "r = 0 \<and> k = 4 \<or> r = - 1 \<and> k < 4 \<and> card (pmm_avail ?s1) < 2 * 4"
    using heap_extend_loop_spec [OF hm room] by blast
  have ext: "heap_extend 4 ?s1 = Some (r, t)" using t(1) by (simp add: heap_extend_def)
  show ?thesis
  proof (cases "r = 0")
    case True
    then have g: "heap_mapped t" "unat (heap_end t) = unat HEAP_START + 16384" "heap_eq ?s1 t" using t(2,3) by (auto simp: heap_grown_def)
    obtain u where u: "do { s \<leftarrow> Some (t\<lparr>free_list := heap_start t\<rparr>);
               s \<leftarrow> set_size (free_list s) (heap_end s - heap_start s - BLOCK_HEADER_SIZE) s;
               s \<leftarrow> set_magic (free_list s) 0 s;
               set_next (free_list s) 0 s } = Some u" "heap_ok u {}" "one_block u" "heap_end u = heap_end t"
      "heap_same (t\<lparr>mem := mem u\<rparr>) u" "heap_used_bytes u = heap_used_bytes t" "heap_frame t u"
      using first_block_at [OF g(1,2)] by blast
    let ?u = "kprint ?done u"
    have w: "heap_same u ?u" "free_list ?u = free_list u" "heap_used_bytes ?u = heap_used_bytes u"
      using vga_heap_same [OF kprint_vga_eq] kprint_vga_eq [of u ?done] by (blast, auto elim!: vga_eqE)
    have "heap_init s = Some (0, ?u)"
      using ext True u(1) unfolding heap_init_def Let_def by (auto simp: bind_eq_Some_conv)
    moreover have "heap_size ?u = 16384"
    proof -
      have "heap_end ?u = HEAP_START + 16384" using w(1) u(4) g(2) by (simp add: heap_same_def word_unat_eq_iff HEAP_START_def)
      moreover have "heap_start ?u = HEAP_START" using w(1) u(5) heap_mappedD(2) [OF g(1)] by (simp add: heap_same_def)
      ultimately show ?thesis by (simp add: heap_size_def)
    qed
    moreover have "rest_same s ?u"
    proof -
      have r1: "rest_same s ?s1" using rest_same_vga [OF kprint_vga_eq [of s ?msg]] by (simp add: rest_same_def dev_same_def)
      note r2 = rest_same_trans [OF r1 rest_same_frame [OF heap_grown_frame [OF t(2)]]]
      show ?thesis by (rule rest_same_trans [OF rest_same_trans [OF r2 rest_same_frame [OF u(7)]] rest_same_vga [OF kprint_vga_eq]])
    qed
    moreover have "heap_fresh s ?u"
    proof -
      have fr: "spares ?s1 u" "spends ?s1 u"
        using heap_frameD [OF heap_frame_trans [OF heap_grown_frame [OF t(2)] u(7)]] by simp_all
      have df: "foreign ?s1 f" if "data_frame s f" for f
      proof -
        have "data_frame ?s1 f"
          unfolding data_frame_def av using that v by (simp add: data_frame_def heap_same_def ktables_def pd_used_def)
        then show ?thesis by (auto simp: foreign_def heap_addr_def)
      qed
      have "mem (kprint ?msg s) = mem s" using v by (simp add: heap_same_def)
      then have "mem u a = mem s a" if "data_frame s (page_of a)" for a
        using fr(1) df [OF that] by (simp add: spares_def)
      moreover have "card (pmm_avail s) \<le> card (pmm_avail u) + 8" "pmm_avail u \<subseteq> pmm_avail s"
        using fr(2) av u(4) g(2) by (simp_all add: spends_def HEAP_START_def)
      ultimately show ?thesis
        unfolding heap_fresh_def using heap_same_foreign(1) [OF w(1)] heap_same_mapped(4) [OF w(1)] w(1) df fr(1)
        by (simp add: spares_def heap_same_def)
    qed
    ultimately show ?thesis using heap_ok_same [OF w(1,2)] one_block_same [OF w(1,2)] u(2,3,6) w(3) heap_eqD(3) [OF g(3)] us by auto
  next
    case False
    then show ?thesis using ext t(3) av unfolding heap_init_def Let_def by auto
  qed
qed

text \<open>
  C24. \<open>heap_init\<close> on a kernel whose mapping is in order always returns: 0 with a well-formed heap of 16
  KiB in which nothing is allocated and one free block of 16368 bytes spans the heap, or -1, and then fewer
  than eight frames were free.
\<close>

theorem heap_init_ready:
  fixes s :: "'a heap_state_scheme"
  assumes "kernel_space s"
  shows "\<exists>r t. heap_init s = Some (r, t) \<and>
    (if r = 0 then heap_ok t {} \<and> one_block t \<and> heap_size t = 16384 else r = - 1 \<and> card (pmm_avail s) < 8)"
proof -
  obtain r t where "heap_init s = Some (r, t)"
    "r = 0 \<and> heap_ok t {} \<and> one_block t \<and> heap_size t = 16384 \<and> heap_used_bytes t = heap_used_bytes s \<and> rest_same s t \<or>
      r = - 1 \<and> card (pmm_avail s) < 8"
    using heap_init_spec [OF assms] by blast
  then show ?thesis by (intro exI [of _ r] exI [of _ t]) auto
qed

section \<open>A small machine\<close>

text \<open>Machines that agree with \<open>paging_sample\<close> on memory and on the frame allocator.\<close>

definition like_sample :: "'a paging_state_scheme \<Rightarrow> bool" where
  "like_sample s \<longleftrightarrow> mem s = mem paging_sample \<and> cr3 s = cr3 paging_sample \<and> syms s = boot_syms \<and>
     bitmap s = bitmap pmm_sample \<and> total_frames s = 64 \<and> used_frames s = 4"

lemma sample_avail:
  assumes "like_sample s"
  shows "pmm_avail s = pmm_avail paging_sample" "60 \<le> card (pmm_avail s)"
proof -
  have f: "frames_free s = frames_free pmm_sample" "frames_free paging_sample = frames_free pmm_sample"
    using pmm_fields_determine(2) [of s] pmm_fields_determine(2) [of paging_sample] assms by (simp_all add: like_sample_def)
  then show "pmm_avail s = pmm_avail paging_sample" by (simp add: pmm_avail_def)
  let ?F = "of_nat ` {4..<64} :: u64 set"
  have u: "unat (of_nat k :: u64) = k" if "k < 64" for k using that by (simp add: unat_of_nat)
  have "?F \<subseteq> frames_free pmm_sample"
    using u by (fastforce simp: frames_free_def pmm_sample_marked word_less_nat_alt word_unat_eq_iff)
  then have "PMM_FRAME_TO_ADDR ` ?F \<subseteq> pmm_avail s"
    unfolding pmm_avail_def f(1) by (rule image_mono)
  then have "card (PMM_FRAME_TO_ADDR ` ?F) \<le> card (pmm_avail s)"
    by (intro card_mono pmm.finite_avail)
  moreover have "inj_on PMM_FRAME_TO_ADDR ?F"
  proof (rule inj_onI)
    fix x y assume xy: "x \<in> ?F" "y \<in> ?F" "PMM_FRAME_TO_ADDR x = PMM_FRAME_TO_ADDR y"
    have "x \<le> MAX_FRAMES" "y \<le> MAX_FRAMES" using xy(1,2) u by (auto simp: MAX_FRAMES_def word_le_nat_alt)
    then show "x = y" using xy(3) unat_frame_to_addr [of x] unat_frame_to_addr [of y] by (simp add: word_unat_eq_iff)
  qed
  moreover have "inj_on (of_nat :: nat \<Rightarrow> u64) {4..<64}" using u by (metis atLeastLessThan_iff inj_onI)
  ultimately show "60 \<le> card (pmm_avail s)" by (simp add: card_image)
qed

lemma sample_paging:
  fixes s :: "'a paging_state_scheme"
  assumes "like_sample s"
  shows "\<exists>t. paging_init s = Some t \<and> kernel_space t \<and> 60 \<le> card (pmm_avail t) \<and>
    t = s\<lparr>mem := mem t, new_pml4 := new_pml4 t, cr3 := cr3 t\<rparr>"
proof -
  note l = assms [unfolded like_sample_def]
  have pl: "tables_placed s" using paging_sample_placed(1) l by (simp add: tables_placed_def window_def)
  moreover have "pmm_ready s" using l by (intro pmm_fields_determine(1)) simp_all
  ultimately have "\<exists>t. paging_init s = Some t \<and> kernel_space t \<and> pmm_avail t = pmm_avail s"
    using paging_sample_placed(2,4,5) l sample_avail(1) [OF assms] by (intro init_kernel_space) simp_all
  then show ?thesis using sample_avail(2) [OF assms] paging_init_eq [OF pl] by auto
qed

lemma sample_heap:
  fixes s :: "'a heap_state_scheme"
  assumes "like_sample s"
  shows "\<exists>t u. paging_init s = Some t \<and> kernel_space t \<and> heap_init t = Some (0, u) \<and> heap_ok u {} \<and> one_block u \<and>
    heap_size u = 16384 \<and> heap_used_bytes u = heap_used_bytes s \<and> rest_same s u"
proof -
  obtain t where t: "paging_init s = Some t" "kernel_space t" "60 \<le> card (pmm_avail t)"
    and eq: "t = s\<lparr>mem := mem t, new_pml4 := new_pml4 t, cr3 := cr3 t\<rparr>" using sample_paging [OF assms] by blast
  have us: "heap_used_bytes t = heap_used_bytes s" "rest_same s t" by (subst eq, simp add: rest_same_def dev_same_def)+
  obtain r u where "heap_init t = Some (r, u)"
    "r = 0 \<and> heap_ok u {} \<and> one_block u \<and> heap_size u = 16384 \<and> heap_used_bytes u = heap_used_bytes t \<and> rest_same t u \<or>
      r = - 1 \<and> card (pmm_avail t) < 8"
    using heap_init_spec [OF t(2)] by blast
  with t us rest_same_trans [OF us(2)] show ?thesis by (intro exI [of _ t] exI [of _ u]) auto
qed

definition heap_sample :: heap_state where
  "heap_sample = paging_state.extend paging_sample (heap_state.fields 0 0 0 0)"

lemma heap_sample_like: "like_sample heap_sample" "heap_used_bytes heap_sample = 0"
  by (simp_all add: like_sample_def heap_sample_def heap_state.defs paging_sample_def paging_boot_defs)

theorem heap_init_ready_witness:
  "\<exists>t u. paging_init heap_sample = Some t \<and> heap_init t = Some (0, u) \<and> heap_ok u {} \<and> heap_size u = 16384"
proof -
  obtain t where t: "paging_init heap_sample = Some t" "kernel_space t" "60 \<le> card (pmm_avail t)"
    using sample_paging [OF heap_sample_like(1)] by blast
  with heap_init_ready [OF t(2)] show ?thesis by (auto split: if_splits)
qed

theorem heap_extend_grows_witness:
  "\<exists>t u v r. paging_init heap_sample = Some t \<and> heap_init t = Some (0, u) \<and> heap_extend 1 u = Some (r, v) \<and> heap_mapped v"
proof -
  obtain t u where u: "paging_init heap_sample = Some t" "heap_init t = Some (0, u)" "heap_ok u {}" "heap_size u = 16384"
    using sample_heap [OF heap_sample_like(1)] by blast
  have hm: "heap_mapped u" using u(3) by (simp add: heap_ok_def)
  have "heap_end u = HEAP_START + 16384" using u(4) heap_mappedD(2) [OF hm] by (simp add: heap_size_def algebra_simps)
  then have "heap_room u (4096 * unat (1 :: u64))" by (simp add: HEAP_START_def HIGHER_HALF_BASE_def)
  from heap_extend_grows [OF hm this] u show ?thesis by (auto simp: heap_grown_def)
qed

lemma sample_kmalloc:
  "\<exists>t u p v. paging_init heap_sample = Some t \<and> heap_init t = Some (0, u) \<and> kmalloc 100 u = Some (p, v) \<and> p \<noteq> 0 \<and>
     heap_ok v {p - 16}"
proof -
  obtain t u where u: "paging_init heap_sample = Some t" "heap_init t = Some (0, u)" "heap_ok u {}" "one_block u" "heap_size u = 16384"
    using sample_heap [OF heap_sample_like(1)] by blast
  have "heap_end u = HEAP_START + 16384"
    using u(3,5) heap_mappedD(2) [of u] by (simp add: heap_size_def heap_ok_def algebra_simps)
  then have room: "heap_room u (unat (100 :: u64) + 4118)" by (simp add: HEAP_START_def HIGHER_HALF_BASE_def)
  have "fits u (align_up 100 8)" by (rule one_block_fits [OF u(4)]) (simp add: align_up_def)
  with kmalloc_cases [OF u(3) _ room] u(1,2) show ?thesis by (auto simp: allocated_def)
qed

theorem kmalloc_allocates_witness:
  "\<exists>t u p v. paging_init heap_sample = Some t \<and> heap_init t = Some (0, u) \<and> kmalloc 100 u = Some (p, v) \<and> p \<noteq> 0 \<and>
     heap_ok v {p - 16} \<and> unat p mod 8 = 0 \<and> 100 \<le> unat (hview v (p - 16))"
proof -
  obtain t u where u: "paging_init heap_sample = Some t" "heap_init t = Some (0, u)" "heap_ok u {}" "one_block u" "heap_size u = 16384"
    using sample_heap [OF heap_sample_like(1)] by blast
  have "heap_end u = HEAP_START + 16384"
    using u(3,5) heap_mappedD(2) [of u] by (simp add: heap_size_def heap_ok_def algebra_simps)
  then have room: "heap_room u (unat (100 :: u64) + 4118)" by (simp add: HEAP_START_def HIGHER_HALF_BASE_def)
  have "fits u (align_up 100 8)" by (rule one_block_fits [OF u(4)]) (simp add: align_up_def)
  with kmalloc_allocates [OF u(3) _ room] u(1,2) show ?thesis by (auto split: if_splits)
qed


theorem kfree_releases_witness:
  "\<exists>t u p v w. paging_init heap_sample = Some t \<and> heap_init t = Some (0, u) \<and> kmalloc 100 u = Some (p, v) \<and> p \<noteq> 0 \<and>
     heap_ok v {p - 16} \<and> kfree p v = Some w \<and> heap_ok w {}"
proof -
  obtain t u p v where u: "paging_init heap_sample = Some t" "heap_init t = Some (0, u)" "kmalloc 100 u = Some (p, v)"
    "p \<noteq> 0" "heap_ok v {p - 16}"
    using sample_kmalloc by blast
  obtain F where "heap_mapped v" "heap_shape (hview v) (lo_of v) (hi_of v) (free_list v) F {p - 16}"
    using u(5) by (auto simp: heap_ok_def)
  from kfree_releases [OF this singletonI] obtain w where "kfree (p - 16 + 16) v = Some w" "heap_ok w ({p - 16} - {p - 16})" by blast
  with u show ?thesis by auto
qed

theorem kfree_ignores_witness:
  "\<exists>t u. paging_init heap_sample = Some t \<and> heap_init t = Some (0, u) \<and> kfree 0 u = Some u \<and> kfree (HEAP_START + 16) u = Some u"
proof -
  obtain t u where u: "paging_init heap_sample = Some t" "heap_init t = Some (0, u)" "heap_ok u {}" "one_block u"
    using sample_heap [OF heap_sample_like(1)] by blast
  obtain F where F: "heap_mapped u" "heap_shape (hview u) (lo_of u) (hi_of u) (free_list u) F {}"
    using u(3) by (auto simp: heap_ok_def)
  have "F = [HEAP_START]" using heap_shapeD(2) [OF F(2)] u(4) seg_unique by (auto simp: one_block_def)
  then have "HEAP_START \<in> set F" by simp
  from kfree_ignores [OF F this] u(1,2) show ?thesis by auto
qed

end
