(* ===== verification/Prism_Task.thy ===== *)
theory Prism_Task
  imports Prism_Heapinit
begin

text \<open>
  Tasks and the round-robin scheduler: \<^verbatim>\<open>task/task.c\<close>, \<^verbatim>\<open>task/task.h\<close> and
  \<^verbatim>\<open>task/switch.s\<close>. A pointer to a task is its index in the static table, the null pointer is
  \<open>None\<close>. Stacks are memory: the initial frame of a task and the frame that a context switch saves
  are words written through the translation in force. The registers are those at the call of
  \<open>context_switch\<close>; \<open>reg_rip\<close> is the address to which the call returns.
\<close>

section \<open>State\<close>

datatype task_state_t = TASK_DEAD | TASK_READY | TASK_RUNNING | TASK_BLOCKED

record task_t =
  t_pid :: u64
  t_state :: task_state_t
  t_stack_pointer :: u64
  t_kernel_stack :: u64
  t_time_slice :: u64
  t_next :: "nat option"
  t_ring :: u8
  t_cr3 :: u64
  t_user_rip :: u64
  t_user_rsp :: u64
  t_user_rflags :: u64

record task_state = heap_state +
  task_table :: "task_t list"
  next_pid :: u64
  current_task :: "nat option"
  ready_head :: "nat option"
  ready_tail :: "nat option"

definition TASK_STACK_SIZE :: u64 where "TASK_STACK_SIZE = 8192"
definition MAX_TASKS :: nat where "MAX_TASKS = 32"
definition TIME_SLICE :: u64 where "TIME_SLICE = 10"

definition zero_task :: task_t where
  "zero_task = \<lparr>t_pid = 0, t_state = TASK_DEAD, t_stack_pointer = 0, t_kernel_stack = 0, t_time_slice = 0,
     t_next = None, t_ring = 0, t_cr3 = 0, t_user_rip = 0, t_user_rsp = 0, t_user_rflags = 0\<rparr>"

abbreviation task_at :: "'a task_state_scheme \<Rightarrow> nat \<Rightarrow> task_t" where
  "task_at s i \<equiv> task_table s ! i"

definition set_task :: "nat \<Rightarrow> (task_t \<Rightarrow> task_t) \<Rightarrow> 'a task_state_scheme \<Rightarrow> 'a task_state_scheme" where
  "set_task i f s = s\<lparr>task_table := (task_table s)[i := f (task_at s i)]\<rparr>"

section \<open>The ready list\<close>

text \<open>\<open>None\<close> is the dereference of a null tail, which only a list with a head and no tail could cause.\<close>

definition ready_list_add :: "nat \<Rightarrow> 'a task_state_scheme \<Rightarrow> 'a task_state_scheme option" where
  "ready_list_add t s =
     (let s = set_task t (\<lambda>k. k\<lparr>t_next := None\<rparr>) s in
      if ready_head s = None then Some (s\<lparr>ready_head := Some t, ready_tail := Some t\<rparr>)
      else case ready_tail s of
        None \<Rightarrow> None
      | Some l \<Rightarrow> Some ((set_task l (\<lambda>k. k\<lparr>t_next := Some t\<rparr>) s)\<lparr>ready_tail := Some t\<rparr>))"

definition ready_list_pop :: "'a task_state_scheme \<Rightarrow> nat option \<times> 'a task_state_scheme" where
  "ready_list_pop s =
     (case ready_head s of
        None \<Rightarrow> (None, s)
      | Some t \<Rightarrow>
          let s = s\<lparr>ready_head := t_next (task_at s t)\<rparr>;
              s = (if ready_head s = None then s\<lparr>ready_tail := None\<rparr> else s)
          in (Some t, set_task t (\<lambda>k. k\<lparr>t_next := None\<rparr>) s))"

section \<open>Stacks\<close>

definition push :: "u64 \<Rightarrow> 'a cpu_state_scheme \<Rightarrow> 'a cpu_state_scheme option" where
  "push v s =
     (let sp = reg_rsp (regs s) - 8 in
      do { s \<leftarrow> kstore64 sp v s; Some (s\<lparr>regs := (regs s)\<lparr>reg_rsp := sp\<rparr>\<rparr>) })"

definition pop :: "'a cpu_state_scheme \<Rightarrow> (u64 \<times> 'a cpu_state_scheme) option" where
  "pop s =
     do { v \<leftarrow> kload64 (reg_rsp (regs s)) s;
          Some (v, s\<lparr>regs := (regs s)\<lparr>reg_rsp := reg_rsp (regs s) + 8\<rparr>\<rparr>) }"

text \<open>The call pushes the return address; the code of \<^verbatim>\<open>switch.s\<close> pushes the flags and the
  registers that a function must preserve.\<close>

definition save_regs :: "'a task_state_scheme \<Rightarrow> 'a task_state_scheme option" where
  "save_regs s =
     do { s \<leftarrow> push (reg_rip (regs s)) s;
          s \<leftarrow> push (reg_rflags (regs s)) s;
          s \<leftarrow> push (reg_rbp (regs s)) s;
          s \<leftarrow> push (reg_rbx (regs s)) s;
          s \<leftarrow> push (reg_r12 (regs s)) s;
          s \<leftarrow> push (reg_r13 (regs s)) s;
          s \<leftarrow> push (reg_r14 (regs s)) s;
          push (reg_r15 (regs s)) s }"

text \<open>The pops, and the return to the address on top of the stack.\<close>

definition load_regs :: "'a task_state_scheme \<Rightarrow> 'a task_state_scheme option" where
  "load_regs s =
     do { (v, s) \<leftarrow> pop s; let s = s\<lparr>regs := (regs s)\<lparr>reg_r15 := v\<rparr>\<rparr>;
          (v, s) \<leftarrow> pop s; let s = s\<lparr>regs := (regs s)\<lparr>reg_r14 := v\<rparr>\<rparr>;
          (v, s) \<leftarrow> pop s; let s = s\<lparr>regs := (regs s)\<lparr>reg_r13 := v\<rparr>\<rparr>;
          (v, s) \<leftarrow> pop s; let s = s\<lparr>regs := (regs s)\<lparr>reg_r12 := v\<rparr>\<rparr>;
          (v, s) \<leftarrow> pop s; let s = s\<lparr>regs := (regs s)\<lparr>reg_rbx := v\<rparr>\<rparr>;
          (v, s) \<leftarrow> pop s; let s = s\<lparr>regs := (regs s)\<lparr>reg_rbp := v\<rparr>\<rparr>;
          (v, s) \<leftarrow> pop s; let s = s\<lparr>regs := (regs s)\<lparr>reg_rflags := v\<rparr>\<rparr>;
          (v, s) \<leftarrow> pop s; Some (s\<lparr>regs := (regs s)\<lparr>reg_rip := v\<rparr>\<rparr>) }"

definition context_switch :: "nat \<Rightarrow> u64 \<Rightarrow> 'a task_state_scheme \<Rightarrow> 'a task_state_scheme option" where
  "context_switch old new_sp s =
     do { s \<leftarrow> save_regs s;
          let s = set_task old (\<lambda>k. k\<lparr>t_stack_pointer := reg_rsp (regs s)\<rparr>) s;
          load_regs (s\<lparr>regs := (regs s)\<lparr>reg_rsp := new_sp\<rparr>\<rparr>) }"

text \<open>\<open>*(--sp) = v\<close> for a list of values.\<close>

primrec put_down :: "u64 list \<Rightarrow> u64 \<Rightarrow> 'a machine_scheme \<Rightarrow> (u64 \<times> 'a machine_scheme) option" where
  "put_down [] sp s = Some (sp, s)"
| "put_down (v # vs) sp s = do { s \<leftarrow> kstore64 (sp - 8) v s; put_down vs (sp - 8) s }"

definition initial_frame :: "u64 \<Rightarrow> u64 list" where
  "initial_frame entry = [entry, 0x200, 0, 0, 0, 0, 0, 0]"

section \<open>Creating tasks\<close>

definition kinit_task :: "'a task_state_scheme \<Rightarrow> 'a task_state_scheme option" where
  "kinit_task s =
     (let s = s\<lparr>task_table := replicate MAX_TASKS zero_task\<rparr>;
          s = set_task 0 (\<lambda>k. k\<lparr>t_pid := next_pid s, t_state := TASK_RUNNING, t_kernel_stack := 0,
                t_stack_pointer := 0, t_time_slice := TIME_SLICE, t_ring := 0, t_cr3 := 0\<rparr>) s;
          s = s\<lparr>next_pid := next_pid s + 1, current_task := Some 0\<rparr>;
          s = set_task 1 (\<lambda>k. k\<lparr>t_pid := next_pid s, t_state := TASK_READY, t_time_slice := TIME_SLICE\<rparr>) s;
          s = s\<lparr>next_pid := next_pid s + 1\<rparr>
      in do { (stack, s) \<leftarrow> kmalloc TASK_STACK_SIZE s;
              let s = set_task 1 (\<lambda>k. k\<lparr>t_kernel_stack := stack\<rparr>) s;
              (sp, s) \<leftarrow> put_down (initial_frame (sym_idle_entry (syms s))) (stack + TASK_STACK_SIZE) s;
              let s = set_task 1 (\<lambda>k. k\<lparr>t_stack_pointer := sp\<rparr>) s;
              s \<leftarrow> ready_list_add 1 s;
              klog LOG_INFO (cstr ''Task: scheduler initialized (boot=1 idle=2)'' @ [10]) s })"

definition find_slot :: "'a task_state_scheme \<Rightarrow> nat option" where
  "find_slot s = List.find (\<lambda>i. t_state (task_at s i) = TASK_DEAD) [0..<MAX_TASKS]"

definition task_create :: "u64 \<Rightarrow> 'a task_state_scheme \<Rightarrow> (nat option \<times> 'a task_state_scheme) option" where
  "task_create entry s =
     (case find_slot s of
        None \<Rightarrow> Some (None, s)
      | Some t \<Rightarrow>
          do { (stack, s) \<leftarrow> kmalloc TASK_STACK_SIZE s;
               if stack = 0 then Some (None, s)
               else do { (sp, s) \<leftarrow> put_down (initial_frame entry) (stack + TASK_STACK_SIZE) s;
                         let s = set_task t (\<lambda>k. k\<lparr>t_pid := next_pid s, t_state := TASK_READY, t_kernel_stack := stack,
                               t_stack_pointer := sp, t_time_slice := TIME_SLICE, t_ring := 0, t_cr3 := 0, t_next := None\<rparr>) s;
                         let s = s\<lparr>next_pid := next_pid s + 1\<rparr>;
                         s \<leftarrow> ready_list_add t s;
                         s \<leftarrow> klog_hex LOG_DEBUG (cstr ''task_create pid='') (t_pid (task_at s t)) s;
                         Some (Some t, s) } })"

definition task_create_user ::
  "u64 \<Rightarrow> u64 \<Rightarrow> u64 \<Rightarrow> u64 \<Rightarrow> 'a task_state_scheme \<Rightarrow> (nat option \<times> 'a task_state_scheme) option" where
  "task_create_user user_rip user_rsp user_rflags cr3' s =
     (case find_slot s of
        None \<Rightarrow> Some (None, s)
      | Some t \<Rightarrow>
          do { (stack, s) \<leftarrow> kmalloc TASK_STACK_SIZE s;
               if stack = 0 then Some (None, s)
               else do { (sp, s) \<leftarrow> put_down (initial_frame (sym_enter_user_mode (syms s))) (stack + TASK_STACK_SIZE) s;
                         let s = set_task t (\<lambda>k. k\<lparr>t_pid := next_pid s, t_state := TASK_READY, t_kernel_stack := stack,
                               t_stack_pointer := sp, t_time_slice := TIME_SLICE, t_ring := 3, t_cr3 := cr3',
                               t_user_rip := user_rip, t_user_rsp := user_rsp, t_user_rflags := user_rflags, t_next := None\<rparr>) s;
                         let s = s\<lparr>next_pid := next_pid s + 1\<rparr>;
                         s \<leftarrow> ready_list_add t s;
                         s \<leftarrow> klog_hex LOG_INFO (cstr ''task_create_user pid='') (t_pid (task_at s t)) s;
                         Some (Some t, s) } })"

section \<open>Scheduling\<close>

text \<open>The part of \<open>schedule\<close> before the context switch: the tasks to switch from and to, or \<open>None\<close>
  inside the result when \<open>schedule\<close> returns early.\<close>

definition schedule_next :: "'a task_state_scheme \<Rightarrow> ((nat \<times> nat) option \<times> 'a task_state_scheme) option" where
  "schedule_next s =
     (case current_task s of
        None \<Rightarrow> Some (None, s)
      | Some old \<Rightarrow>
          (case ready_list_pop s of
             (None, s) \<Rightarrow> Some (None, s)
           | (Some nxt, s) \<Rightarrow>
               do { s \<leftarrow> (if t_state (task_at s old) = TASK_RUNNING
                         then ready_list_add old (set_task old (\<lambda>k. k\<lparr>t_state := TASK_READY, t_time_slice := TIME_SLICE\<rparr>) s)
                         else Some s);
                    let s = set_task nxt (\<lambda>k. k\<lparr>t_state := TASK_RUNNING, t_time_slice := TIME_SLICE\<rparr>) (s\<lparr>current_task := Some nxt\<rparr>);
                    let s = (if t_ring (task_at s nxt) = 3 then tss_set_rsp0 (t_kernel_stack (task_at s nxt) + TASK_STACK_SIZE) s else s);
                    Some (Some (old, nxt), s) }))"

text \<open>The flag of the result is true when a context switch took place: the call has then not returned, and
  execution continues at the instruction pointer of the state.\<close>

definition schedule :: "'a task_state_scheme \<Rightarrow> (bool \<times> 'a task_state_scheme) option" where
  "schedule s =
     do { (r, s) \<leftarrow> schedule_next s;
          case r of None \<Rightarrow> Some (False, s)
          | Some (old, nxt) \<Rightarrow> do { s \<leftarrow> context_switch old (t_stack_pointer (task_at s nxt)) s; Some (True, s) } }"

definition task_yield :: "'a task_state_scheme \<Rightarrow> (bool \<times> 'a task_state_scheme) option" where
  "task_yield s =
     (case current_task s of
        None \<Rightarrow> Some (False, s)
      | Some c \<Rightarrow>
          if t_state (task_at s c) \<noteq> TASK_RUNNING then Some (False, s)
          else do { s \<leftarrow> ready_list_add c (set_task c (\<lambda>k. k\<lparr>t_state := TASK_READY, t_time_slice := TIME_SLICE\<rparr>) s);
                    schedule s })"

definition task_current :: "'a task_state_scheme \<Rightarrow> nat option" where
  "task_current s = current_task s"

end
