(* ===== verification/Prism_Sched.thy ===== *)
theory Prism_Sched
  imports Prism_Task
begin

text \<open>
  The scheduler of \<^verbatim>\<open>task/task.c\<close> as a queue: the linked ready list is a first-in first-out queue of
  tasks, and a scheduling decision rotates the running task and the ready ones by one place, so that every ready
  task gets its turn.
\<close>

section \<open>The ready list as a queue\<close>

text \<open>The tasks on the way from a pointer to the end of the list.\<close>

fun links :: "task_t list \<Rightarrow> nat option \<Rightarrow> nat list \<Rightarrow> bool" where
  "links T p [] \<longleftrightarrow> p = None"
| "links T p (i # is) \<longleftrightarrow> p = Some i \<and> i < length T \<and> links T (t_next (T ! i)) is"

fun follow :: "nat \<Rightarrow> task_t list \<Rightarrow> nat option \<Rightarrow> nat list" where
  "follow 0 T p = []"
| "follow (Suc n) T None = []"
| "follow (Suc n) T (Some i) = i # follow n T (t_next (T ! i))"

lemma links_follow: "links T p xs \<Longrightarrow> length xs \<le> n \<Longrightarrow> follow n T p = xs"
proof (induction xs arbitrary: p n)
  case Nil
  then show ?case by (cases n) auto
next
  case (Cons x xs)
  then show ?case by (cases n) auto
qed

lemma links_bound: "links T p xs \<Longrightarrow> i \<in> set xs \<Longrightarrow> i < length T"
  by (induction xs arbitrary: p) auto

lemma links_cong:
  assumes "length T' = length T" "\<And>i. i \<in> set xs \<Longrightarrow> t_next (T' ! i) = t_next (T ! i)"
  shows "links T' p xs = links T p xs"
  using assms(2) by (induction xs arbitrary: p) (auto simp: assms(1))

lemma links_skip: "x \<notin> set xs \<Longrightarrow> links (T[x := k]) p xs = links T p xs"
  by (induction xs arbitrary: p) auto

lemma links_append:
  assumes "links T p (xs @ [l])" "distinct (xs @ [l])" "x < length T" "x \<notin> set (xs @ [l])"
    "t_next (T ! x) = None"
  shows "links (T[l := (T ! l)\<lparr>t_next := Some x\<rparr>]) p (xs @ [l, x])"
  using assms(1,2,4)
proof (induction xs arbitrary: p)
  case Nil
  then show ?case using assms(3,5) by (auto simp: nth_list_update)
next
  case (Cons y ys)
  then show ?case by (auto simp: nth_list_update)
qed

definition ready_elems :: "'a task_state_scheme \<Rightarrow> nat list" where
  "ready_elems s = follow MAX_TASKS (task_table s) (ready_head s)"

definition ready_inv :: "'a task_state_scheme \<Rightarrow> bool" where
  "ready_inv s \<longleftrightarrow> length (task_table s) = MAX_TASKS \<and> links (task_table s) (ready_head s) (ready_elems s) \<and>
     distinct (ready_elems s) \<and> ready_tail s = (if ready_elems s = [] then None else Some (last (ready_elems s)))"

lemma ready_invI:
  assumes "length (task_table s) = MAX_TASKS" "links (task_table s) (ready_head s) xs" "distinct xs"
    "ready_tail s = (if xs = [] then None else Some (last xs))"
  shows "ready_inv s" "ready_elems s = xs"
proof -
  have "set xs \<subseteq> {..<MAX_TASKS}" using links_bound [OF assms(2)] assms(1) by auto
  then have "length xs \<le> MAX_TASKS" using card_mono [of "{..<MAX_TASKS}" "set xs"] distinct_card [OF assms(3)] by simp
  then show e: "ready_elems s = xs" using links_follow [OF assms(2)] by (simp add: ready_elems_def)
  show "ready_inv s" using assms by (simp add: ready_inv_def e)
qed

text \<open>Only the links and the two ends of the list matter.\<close>

lemma ready_inv_cong:
  assumes "length (task_table t) = length (task_table s)" "\<And>i. t_next (task_at t i) = t_next (task_at s i)"
    "ready_head t = ready_head s" "ready_tail t = ready_tail s" "ready_inv s"
  shows "ready_inv t" "ready_elems t = ready_elems s"
proof -
  note r = assms(5) [unfolded ready_inv_def]
  have "links (task_table t) (ready_head t) (ready_elems s)"
    using r links_cong [OF assms(1,2)] assms(3) by simp
  then show "ready_inv t" "ready_elems t = ready_elems s"
    using ready_invI [of t "ready_elems s"] r assms(1,4) by auto
qed

lemma ready_list_add_spec:
  assumes "ready_inv s" "x < MAX_TASKS" "x \<notin> set (ready_elems s)"
  shows "\<exists>t. ready_list_add x s = Some t \<and> ready_inv t \<and> ready_elems t = ready_elems s @ [x] \<and>
    t = s\<lparr>task_table := task_table t, ready_head := ready_head t, ready_tail := ready_tail t\<rparr> \<and>
    (\<forall>i. \<exists>n. task_at t i = (task_at s i)\<lparr>t_next := n\<rparr>)"
proof -
  note r = assms(1) [unfolded ready_inv_def]
  let ?T = "(task_table s)[x := (task_at s x)\<lparr>t_next := None\<rparr>]"
  have len: "length ?T = MAX_TASKS" "x < length (task_table s)" using r assms(2) by simp_all
  have lk: "links ?T (ready_head s) (ready_elems s)"
    using r links_skip [OF assms(3)] by simp
  have nx: "\<exists>n. ?T ! i = (task_at s i)\<lparr>t_next := n\<rparr>" for i
    using len(2) by (cases "i = x") (auto intro: exI [of _ "t_next (task_at s i)"])
  show ?thesis
  proof (cases "ready_elems s" rule: rev_cases)
    case Nil
    let ?t = "s\<lparr>task_table := ?T, ready_head := Some x, ready_tail := Some x\<rparr>"
    have "ready_list_add x s = Some ?t" using lk Nil by (simp add: ready_list_add_def set_task_def Let_def)
    moreover have "links ?T (Some x) [x]" using len by simp
    ultimately show ?thesis using ready_invI [of ?t "[x]"] Nil len nx by (intro exI [of _ ?t]) simp
  next
    case (snoc ys l)
    have l: "ready_tail s = Some l" "l < length ?T" using r snoc links_bound [OF lk, of l] by auto
    have hd: "ready_head s \<noteq> None" using lk snoc by (cases ys) auto
    let ?U = "?T[l := (?T ! l)\<lparr>t_next := Some x\<rparr>]"
    let ?t = "s\<lparr>task_table := ?U, ready_tail := Some x\<rparr>"
    have run: "ready_list_add x s = Some ?t"
      using hd l by (auto simp: ready_list_add_def set_task_def Let_def)
    have "links ?U (ready_head s) (ys @ [l, x])"
      using links_append [of ?T "ready_head s" ys l x] lk snoc r assms(3) len by simp
    then have inv: "ready_inv ?t" "ready_elems ?t = ready_elems s @ [x]"
      using ready_invI [of ?t "ys @ [l, x]"] r len snoc assms(3) by auto
    have "\<exists>n. ?U ! i = (task_at s i)\<lparr>t_next := n\<rparr>" for i
    proof (cases "i = l")
      case True
      obtain n where "?T ! l = (task_at s l)\<lparr>t_next := n\<rparr>" using nx by blast
      then show ?thesis using True l(2) by (intro exI [of _ "Some x"]) simp
    next
      case False
      then show ?thesis using nx [of i] by simp
    qed
    with run inv show ?thesis by (intro exI [of _ ?t]) simp
  qed
qed

lemma ready_list_pop_spec:
  assumes "ready_inv s"
  shows "case ready_elems s of
      [] \<Rightarrow> ready_list_pop s = (None, s)
    | x # xs \<Rightarrow> \<exists>t. ready_list_pop s = (Some x, t) \<and> ready_inv t \<and> ready_elems t = xs \<and>
        t = s\<lparr>task_table := task_table t, ready_head := ready_head t, ready_tail := ready_tail t\<rparr> \<and>
        (\<forall>i. \<exists>n. task_at t i = (task_at s i)\<lparr>t_next := n\<rparr>)"
proof (cases "ready_elems s")
  case Nil
  then show ?thesis using assms by (simp add: ready_inv_def ready_list_pop_def)
next
  case (Cons x xs)
  note r = assms [unfolded ready_inv_def]
  have x: "ready_head s = Some x" "x < length (task_table s)" "links (task_table s) (t_next (task_at s x)) xs"
    "x \<notin> set xs" "distinct xs" using r Cons by auto
  let ?T = "(task_table s)[x := (task_at s x)\<lparr>t_next := None\<rparr>]"
  have lk: "links ?T (t_next (task_at s x)) xs"
    using x(3) links_skip [OF x(4)] by simp
  have e: "t_next (task_at s x) = None \<longleftrightarrow> xs = []" using x(3) by (cases xs) auto
  let ?t = "s\<lparr>task_table := ?T, ready_head := t_next (task_at s x), ready_tail := (if xs = [] then None else ready_tail s)\<rparr>"
  have "ready_list_pop s = (Some x, ?t)"
    using x(1) e by (auto simp: ready_list_pop_def set_task_def Let_def)
  moreover have "ready_inv ?t" "ready_elems ?t = xs"
    using ready_invI [of ?t xs] r Cons lk x(5) by auto
  moreover have "\<exists>n. ?T ! i = (task_at s i)\<lparr>t_next := n\<rparr>" for i
    using x(2) by (cases "i = x") (auto intro: exI [of _ "t_next (task_at s i)"])
  ultimately show ?thesis unfolding Cons list.case by (intro exI [of _ ?t]) simp
qed

interpretation ready: linked_fifo ready_inv ready_elems "\<lambda>i. i < MAX_TASKS" ready_list_add ready_list_pop
proof
  fix q :: "'a task_state_scheme" and x :: nat and xs
  assume q: "ready_inv q"
  show "x < MAX_TASKS \<Longrightarrow> x \<notin> set (ready_elems q) \<Longrightarrow>
      \<exists>q'. ready_list_add x q = Some q' \<and> ready_inv q' \<and> ready_elems q' = ready_elems q @ [x]"
    using ready_list_add_spec [OF q] by blast
  show "ready_elems q = [] \<Longrightarrow> ready_list_pop q = (None, q)" using ready_list_pop_spec [OF q] by simp
  show "ready_elems q = x # xs \<Longrightarrow> fst (ready_list_pop q) = Some x \<and> ready_elems (snd (ready_list_pop q)) = xs"
    using ready_list_pop_spec [OF q] by auto
  show "ready_inv (snd (ready_list_pop q))" using ready_list_pop_spec [OF q] q by (auto split: list.splits)
  show "distinct (ready_elems q)" using q by (simp add: ready_inv_def)
  show "x \<in> set (ready_elems q) \<Longrightarrow> x < MAX_TASKS" using q links_bound [of "task_table q" "ready_head q" "ready_elems q" x] by (simp add: ready_inv_def)
qed

section \<open>Scheduling decisions\<close>

text \<open>One task runs, the tasks of the list are ready and no other is running.\<close>

definition sched_inv :: "'a task_state_scheme \<Rightarrow> bool" where
  "sched_inv s \<longleftrightarrow> ready_inv s \<and>
     (\<exists>c. current_task s = Some c \<and> c < MAX_TASKS \<and> c \<notin> set (ready_elems s) \<and>
        (\<forall>i<MAX_TASKS. (t_state (task_at s i) = TASK_RUNNING) = (i = c))) \<and>
     (\<forall>i\<in>set (ready_elems s). t_state (task_at s i) = TASK_READY)"

text \<open>The running task, followed by the ready ones in the order of the list.\<close>

definition sched_order :: "'a task_state_scheme \<Rightarrow> nat list" where
  "sched_order s = the (current_task s) # ready_elems s"

lemma set_task_simps [simp]:
  "length (task_table (set_task i f s)) = length (task_table s)"
  "ready_head (set_task i f s) = ready_head s" "ready_tail (set_task i f s) = ready_tail s"
  "current_task (set_task i f s) = current_task s" "next_pid (set_task i f s) = next_pid s"
  "i < length (task_table s) \<Longrightarrow> task_at (set_task i f s) j = (if j = i then f (task_at s i) else task_at s j)"
  by (simp_all add: set_task_def)

lemma ready_inv_set_task:
  assumes "ready_inv s" "\<And>k. t_next (f k) = t_next k"
  shows "ready_inv (set_task i f s)" "ready_elems (set_task i f s) = ready_elems s"
proof -
  have "t_next (task_at (set_task i f s) j) = t_next (task_at s j)" for j
    using assms(2) by (cases "i < length (task_table s)"; cases "j = i") (auto simp: set_task_def list_update_beyond)
  then show "ready_inv (set_task i f s)" "ready_elems (set_task i f s) = ready_elems s"
    using ready_inv_cong [of "set_task i f s" s] assms(1) by simp_all
qed

text \<open>What a decision does: the next task runs with a fresh time slice, the old one is ready at the end of the list.\<close>

definition switched :: "'a task_state_scheme \<Rightarrow> nat \<Rightarrow> nat \<Rightarrow> 'a task_state_scheme \<Rightarrow> bool" where
  "switched s c x t \<longleftrightarrow>
     t = s\<lparr>task_table := task_table t, current_task := Some x, ready_head := ready_head t, ready_tail := ready_tail t,
           tss_value := tss_value t\<rparr> \<and>
     tss_rsp0 (tss_value t) = (if t_ring (task_at s x) = 3 then t_kernel_stack (task_at s x) + TASK_STACK_SIZE else tss_rsp0 (tss_value s)) \<and>
     (\<forall>i. \<exists>n. task_at t i = (if i = x then (task_at s i)\<lparr>t_state := TASK_RUNNING, t_time_slice := TIME_SLICE, t_next := n\<rparr>
               else if i = c then (task_at s i)\<lparr>t_state := TASK_READY, t_time_slice := TIME_SLICE, t_next := n\<rparr>
               else (task_at s i)\<lparr>t_next := n\<rparr>))"

lemma switchedE:
  assumes "switched s c x t"
  obtains T h l v where "t = s\<lparr>task_table := T, current_task := Some x, ready_head := h, ready_tail := l, tss_value := v\<rparr>"
  using assms unfolding switched_def by blast

lemma schedule_next_spec:
  assumes inv: "sched_inv s" and c: "current_task s = Some c" and x: "ready_elems s = x # xs"
  shows "\<exists>t. schedule_next s = Some (Some (c, x), t) \<and> sched_inv t \<and> ready_elems t = xs @ [c] \<and> switched s c x t"
proof -
  have r: "ready_inv s" "c < MAX_TASKS" "c \<notin> set (ready_elems s)"
    and run: "\<And>i. i < MAX_TASKS \<Longrightarrow> (t_state (task_at s i) = TASK_RUNNING) = (i = c)"
    and rdy: "\<And>i. i \<in> set (ready_elems s) \<Longrightarrow> t_state (task_at s i) = TASK_READY"
    using inv c by (auto simp: sched_inv_def)
  have len: "length (task_table s) = MAX_TASKS" using r(1) by (simp add: ready_inv_def)
  have xm: "x < MAX_TASKS" "x \<noteq> c" "x \<notin> set xs" using ready.elems_valid [OF r(1)] ready.elems_distinct [OF r(1)] r(3) x by auto
  obtain s1 where s1: "ready_list_pop s = (Some x, s1)" "ready_inv s1" "ready_elems s1 = xs"
    "s1 = s\<lparr>task_table := task_table s1, ready_head := ready_head s1, ready_tail := ready_tail s1\<rparr>"
    "\<And>i. \<exists>n. task_at s1 i = (task_at s i)\<lparr>t_next := n\<rparr>"
    using ready_list_pop_spec [OF r(1)] x by auto
  have st1: "t_state (task_at s1 i) = t_state (task_at s i)" for i
  proof -
    obtain n where "task_at s1 i = (task_at s i)\<lparr>t_next := n\<rparr>" using s1(5) by blast
    then show ?thesis by simp
  qed
  have len1: "length (task_table s1) = MAX_TASKS" using s1(2) by (simp add: ready_inv_def)
  let ?f = "\<lambda>k. k\<lparr>t_state := TASK_READY, t_time_slice := TIME_SLICE\<rparr>" and ?g = "\<lambda>k. k\<lparr>t_state := TASK_RUNNING, t_time_slice := TIME_SLICE\<rparr>"
  let ?s2 = "set_task c ?f s1"
  have s2: "ready_inv ?s2" "ready_elems ?s2 = xs" using ready_inv_set_task [OF s1(2), of ?f c] s1(3) by simp_all
  obtain s3 where s3: "ready_list_add c ?s2 = Some s3" "ready_inv s3" "ready_elems s3 = xs @ [c]"
    "s3 = ?s2\<lparr>task_table := task_table s3, ready_head := ready_head s3, ready_tail := ready_tail s3\<rparr>"
    "\<And>i. \<exists>n. task_at s3 i = (task_at ?s2 i)\<lparr>t_next := n\<rparr>"
    using ready_list_add_spec [OF s2(1) r(2)] s2(2) r(3) x by auto
  have len3: "length (task_table s3) = MAX_TASKS" using s3(2) by (simp add: ready_inv_def)
  let ?s4 = "set_task x ?g (s3\<lparr>current_task := Some x\<rparr>)"
  let ?s5 = "if t_ring (task_at ?s4 x) = 3 then tss_set_rsp0 (t_kernel_stack (task_at ?s4 x) + TASK_STACK_SIZE) ?s4 else ?s4"
  have next_run: "schedule_next s = Some (Some (c, x), ?s5)"
    using c s1(1) st1 [of c] run [OF r(2)] s3(1) by (simp add: schedule_next_def Let_def)
  have tab: "\<exists>n. task_at ?s5 i = (if i = x then (task_at s i)\<lparr>t_state := TASK_RUNNING, t_time_slice := TIME_SLICE, t_next := n\<rparr>
               else if i = c then (task_at s i)\<lparr>t_state := TASK_READY, t_time_slice := TIME_SLICE, t_next := n\<rparr>
               else (task_at s i)\<lparr>t_next := n\<rparr>)" for i
  proof -
    obtain n m where nm: "task_at s3 i = (task_at ?s2 i)\<lparr>t_next := n\<rparr>" "task_at s1 i = (task_at s i)\<lparr>t_next := m\<rparr>" using s3(5) s1(5) by blast
    have "task_at ?s5 i = (if i = x then ?g (task_at s3 i) else task_at s3 i)"
      using len3 xm(1) by (simp add: tss_set_rsp0_def)
    moreover have "task_at ?s2 i = (if i = c then ?f (task_at s1 i) else task_at s1 i)" using len1 r(2) by simp
    ultimately show ?thesis using nm xm(2) by (intro exI [of _ n]) auto
  qed
  have st5: "t_state (task_at ?s5 i) = (if i = x then TASK_RUNNING else if i = c then TASK_READY else t_state (task_at s i))" for i
    using tab [of i] by (auto split: if_splits)
  have same: "ready_inv ?s5" "ready_elems ?s5 = xs @ [c]" "current_task ?s5 = Some x"
  proof -
    have "ready_inv (s3\<lparr>current_task := Some x\<rparr>)" "ready_elems (s3\<lparr>current_task := Some x\<rparr>) = xs @ [c]"
      using ready_inv_cong [of "s3\<lparr>current_task := Some x\<rparr>" s3] s3(2,3) by simp_all
    from ready_inv_set_task [OF this(1), of ?g x] this(2) have i4: "ready_inv ?s4" "ready_elems ?s4 = xs @ [c]" by simp_all
    show "ready_inv ?s5" "ready_elems ?s5 = xs @ [c]" "current_task ?s5 = Some x"
      using ready_inv_cong [of ?s5 ?s4] i4 by (simp_all add: tss_set_rsp0_def)
  qed
  have inv5: "sched_inv ?s5"
    unfolding sched_inv_def same(2)
    using same st5 xm r(2,3) x run rdy by auto
  have xn: "\<exists>n. task_at ?s4 x = (task_at s x)\<lparr>t_state := TASK_RUNNING, t_time_slice := TIME_SLICE, t_next := n\<rparr>"
    using tab [of x] by (auto simp: tss_set_rsp0_def split: if_splits)
  obtain T1 h1 l1 where e1: "s1 = s\<lparr>task_table := T1, ready_head := h1, ready_tail := l1\<rparr>" using s1(4) by blast
  obtain T3 h3 l3 where e3: "s3 = ?s2\<lparr>task_table := T3, ready_head := h3, ready_tail := l3\<rparr>" using s3(4) by blast
  have "switched s c x ?s5"
    unfolding switched_def
  proof (intro conjI allI)
    show "?s5 = s\<lparr>task_table := task_table ?s5, current_task := Some x, ready_head := ready_head ?s5, ready_tail := ready_tail ?s5,
        tss_value := tss_value ?s5\<rparr>"
      by (simp add: e1 e3 set_task_def tss_set_rsp0_def)
    show "tss_rsp0 (tss_value ?s5) = (if t_ring (task_at s x) = 3 then t_kernel_stack (task_at s x) + TASK_STACK_SIZE else tss_rsp0 (tss_value s))"
    proof -
      obtain n where n: "task_at ?s4 x = (task_at s x)\<lparr>t_state := TASK_RUNNING, t_time_slice := TIME_SLICE, t_next := n\<rparr>" using xn by blast
      have v: "tss_value ?s4 = tss_value s" by (simp add: e1 e3 set_task_def)
      show ?thesis unfolding n using v by (simp add: tss_set_rsp0_def)
    qed
  qed (rule tab)
  with next_run inv5 same(2) show ?thesis by blast
qed

text \<open>Decisions in a row, as the timer causes them.\<close>

primrec decisions :: "nat \<Rightarrow> 'a task_state_scheme \<Rightarrow> 'a task_state_scheme option" where
  "decisions 0 s = Some s"
| "decisions (Suc n) s = do { s \<leftarrow> decisions n s; (r, s) \<leftarrow> schedule_next s; Some s }"

lemma schedule_next_rotates:
  assumes "sched_inv s"
  shows "\<exists>r t. schedule_next s = Some (r, t) \<and> sched_inv t \<and> sched_order t = rotate1 (sched_order s)"
proof -
  obtain c where c: "current_task s = Some c" using assms by (auto simp: sched_inv_def)
  show ?thesis
  proof (cases "ready_elems s")
    case Nil
    have "ready_inv s" using assms by (simp add: sched_inv_def)
    then have "schedule_next s = Some (None, s)" using ready.pop_empty [of s] Nil c by (simp add: schedule_next_def)
    then show ?thesis using assms Nil by (simp add: sched_order_def)
  next
    case (Cons x xs)
    obtain t where "schedule_next s = Some (Some (c, x), t)" "sched_inv t" "ready_elems t = xs @ [c]" "switched s c x t"
      using schedule_next_spec [OF assms c Cons] by blast
    moreover from this have "current_task t = Some x" by (auto elim: switchedE)
    ultimately show ?thesis using c Cons by (simp add: sched_order_def)
  qed
qed

lemma decisions_rotate:
  assumes "sched_inv s"
  shows "\<exists>t. decisions n s = Some t \<and> sched_inv t \<and> sched_order t = rotate n (sched_order s)"
proof (induction n)
  case 0
  then show ?case using assms by simp
next
  case (Suc n)
  then obtain t where t: "decisions n s = Some t" "sched_inv t" "sched_order t = rotate n (sched_order s)" by blast
  obtain r u where "schedule_next t = Some (r, u)" "sched_inv u" "sched_order u = rotate1 (sched_order t)"
    using schedule_next_rotates [OF t(2)] by blast
  with t show ?case by auto
qed

text \<open>
  C8. Round robin: scheduling decisions always succeed, rotate the running task and the ready tasks
  by one place each and keep the invariant that exactly one task is running and the listed ones are ready; so
  the ready task at place \<open>k\<close> of the list runs after \<open>k + 1\<close> decisions, and none starves.
\<close>

theorem schedule_round_robin:
  assumes "sched_inv s" "k < length (ready_elems s)"
  shows "\<exists>t. decisions (Suc k) s = Some t \<and> sched_inv t \<and> sched_order t = rotate (Suc k) (sched_order s) \<and>
    current_task t = Some (ready_elems s ! k)"
proof -
  obtain t where t: "decisions (Suc k) s = Some t" "sched_inv t" "sched_order t = rotate (Suc k) (sched_order s)"
    using decisions_rotate [OF assms(1)] by blast
  have "hd (sched_order t) = sched_order s ! Suc k"
    unfolding t(3) using assms(2) by (subst hd_rotate_conv_nth) (simp_all add: sched_order_def)
  then have "the (current_task t) = ready_elems s ! k" by (simp add: sched_order_def)
  moreover have "current_task t \<noteq> None" using t(2) by (auto simp: sched_inv_def)
  ultimately show ?thesis using t by auto
qed

end
