(* ===== verification/Prism_Switch.thy ===== *)
theory Prism_Switch
  imports Prism_Sched
begin

text \<open>
  Stacks and context switches (\<^verbatim>\<open>task/switch.s\<close>, the initial frames of \<^verbatim>\<open>task/task.c\<close>): a
  switch saves the registers of the old task in a frame on its stack and loads those of the new
  one, so a task resumes as it was left and a new task begins at its entry.
\<close>

section \<open>Words pushed on a stack\<close>

text \<open>The contents of memory after values were written downwards from \<open>sp\<close>.\<close>

primrec put_words :: "u64 \<Rightarrow> u64 list \<Rightarrow> (u64 \<Rightarrow> u64) \<Rightarrow> u64 \<Rightarrow> u64" where
  "put_words sp [] w = w"
| "put_words sp (v # vs) w = put_words (sp - 8) vs (w(sp - 8 := v))"

text \<open>The words of a frame of \<open>n\<close> values below \<open>sp\<close>.\<close>

primrec frame_cells :: "u64 \<Rightarrow> nat \<Rightarrow> u64 set" where
  "frame_cells sp 0 = {}"
| "frame_cells sp (Suc n) = insert (sp - 8) (frame_cells (sp - 8) n)"

lemma frame_cells_address: "a \<in> frame_cells sp n \<Longrightarrow> \<exists>k. 0 < k \<and> k \<le> n \<and> a = sp - 8 * of_nat k"
proof (induction n arbitrary: sp)
  case (Suc n)
  show ?case
  proof (cases "a = sp - 8")
    case True
    then show ?thesis by (intro exI [of _ 1]) simp
  next
    case False
    then obtain k where "0 < k" "k \<le> n" "a = sp - 8 - 8 * of_nat k" using Suc by auto
    then show ?thesis by (intro exI [of _ "Suc k"]) (simp add: algebra_simps)
  qed
qed simp

lemma put_words_other: "a \<notin> frame_cells sp (length vs) \<Longrightarrow> put_words sp vs w a = w a"
  by (induction vs arbitrary: sp w) auto

lemma put_words_nth:
  assumes "k < length vs" "length vs < 2 ^ 60"
  shows "put_words sp vs w (sp - 8 * of_nat (Suc k)) = vs ! k"
  using assms
proof (induction vs arbitrary: sp w k)
  case Nil
  then show ?case by simp
next
  case (Cons v vs)
  show ?case
  proof (cases k)
    case 0
    have "sp - 8 \<notin> frame_cells (sp - 8) (length vs)"
    proof
      assume "sp - 8 \<in> frame_cells (sp - 8) (length vs)"
      then obtain j where j: "0 < j" "j \<le> length vs" "8 * of_nat j = (0 :: u64)" by (auto dest!: frame_cells_address)
      have "unat (8 * of_nat j :: u64) = 8 * j"
        using j(2) Cons.prems(2) by (simp add: unat_word_ariths unat_of_nat)
      then show False using j(1,3) by simp
    qed
    then show ?thesis using 0 by (simp add: put_words_other)
  next
    case (Suc j)
    have "put_words (sp - 8) vs (w(sp - 8 := v)) (sp - 8 - 8 * of_nat (Suc j)) = vs ! j"
      using Cons.prems Suc by (intro Cons.IH) simp_all
    then show ?thesis using Suc by (simp add: algebra_simps)
  qed
qed

section \<open>The machine on a stack in the heap\<close>

definition stack_at :: "'a task_state_scheme \<Rightarrow> (u64 \<Rightarrow> u64) \<Rightarrow> cpu_regs \<Rightarrow> 'a task_state_scheme \<Rightarrow> bool" where
  "stack_at s w r t \<longleftrightarrow> t = s\<lparr>mem := mem t, regs := r\<rparr> \<and> heap_mapped t \<and> hview t = w"

lemma stack_at_self: "heap_mapped s \<Longrightarrow> stack_at s (hview s) (regs s) s"
  by (simp add: stack_at_def)

lemma stack_at_fields:
  assumes "stack_at s w r t"
  shows "regs t = r" "heap_words t = heap_words s" "heap_mapped t" "hview t = w" "task_table t = task_table s"
proof -
  obtain m where t: "t = s\<lparr>mem := m, regs := r\<rparr>" using assms by (auto simp: stack_at_def)
  show "regs t = r" "task_table t = task_table s" "heap_words t = heap_words s"
    by (simp_all add: t heap_words_def heap_addr_def)
  show "heap_mapped t" "hview t = w" using assms by (simp_all add: stack_at_def)
qed

lemma heap_same_task [simp]:
  fixes s :: "'a task_state_scheme"
  shows "heap_same s (s\<lparr>regs := r\<rparr>)" "heap_same s (set_task i f s)"
  by (simp_all add: heap_same_def set_task_def)

lemma heap_task_update [simp]:
  fixes s t :: "'a task_state_scheme"
  shows "heap_mapped (s\<lparr>regs := r\<rparr>) = heap_mapped s" "hview (s\<lparr>regs := r\<rparr>) = hview s" "heap_words (s\<lparr>regs := r\<rparr>) = heap_words s"
  "heap_mapped (set_task i f t) = heap_mapped t" "hview (set_task i f t) = hview t" "heap_words (set_task i f t) = heap_words t"
  using heap_same_mapped [OF heap_same_task(1) [of s r]] heap_same_mapped [OF heap_same_task(2) [of t i f]] by simp_all

lemma stack_at_regs:
  assumes "stack_at s w r t"
  shows "stack_at s w r' (t\<lparr>regs := r'\<rparr>)"
proof -
  obtain m where "t = s\<lparr>mem := m, regs := r\<rparr>" using assms by (auto simp: stack_at_def)
  then have "t\<lparr>regs := r'\<rparr> = s\<lparr>mem := mem (t\<lparr>regs := r'\<rparr>), regs := r'\<rparr>" by simp
  moreover have "heap_mapped (t\<lparr>regs := r'\<rparr>)" "hview (t\<lparr>regs := r'\<rparr>) = w" using stack_at_fields(3,4) [OF assms] by simp_all
  ultimately show ?thesis unfolding stack_at_def by blast
qed

lemma push_at:
  assumes "stack_at s w r t" "reg_rsp r - 8 \<in> heap_words s"
  shows "\<exists>u. push v t = Some u \<and> stack_at s (w(reg_rsp r - 8 := v)) (r\<lparr>reg_rsp := reg_rsp r - 8\<rparr>) u"
proof -
  note f = stack_at_fields [OF assms(1)]
  obtain u where u: "kstore64 (reg_rsp r - 8) v t = Some u" "heap_mapped u" "hview u = w(reg_rsp r - 8 := v)" "heap_wrote t u"
    using kheap.put_view [of t "reg_rsp r - 8"] f assms(2) by metis
  obtain m where um: "u = t\<lparr>mem := m\<rparr>" using u(4) by (auto simp: heap_wrote_def elim: mem_eqE)
  obtain m' where tm: "t = s\<lparr>mem := m', regs := r\<rparr>" using assms(1) by (auto simp: stack_at_def)
  let ?u = "u\<lparr>regs := (regs u)\<lparr>reg_rsp := reg_rsp r - 8\<rparr>\<rparr>"
  have "push v t = Some ?u" using u(1) f(1) by (simp add: push_def)
  moreover have "heap_mapped ?u" "hview ?u = w(reg_rsp r - 8 := v)" using u(2,3) by simp_all
  moreover have "?u = s\<lparr>mem := mem ?u, regs := r\<lparr>reg_rsp := reg_rsp r - 8\<rparr>\<rparr>" by (simp add: um tm)
  ultimately show ?thesis unfolding stack_at_def by blast
qed

lemma pop_at:
  assumes "stack_at s w r t" "reg_rsp r \<in> heap_words s"
  shows "\<exists>u. pop t = Some (w (reg_rsp r), u) \<and> stack_at s w (r\<lparr>reg_rsp := reg_rsp r + 8\<rparr>) u"
proof -
  note f = stack_at_fields [OF assms(1)]
  obtain m' where tm: "t = s\<lparr>mem := m', regs := r\<rparr>" using assms(1) by (auto simp: stack_at_def)
  have "kload64 (reg_rsp r) t = Some (w (reg_rsp r))" using kheap.get_view [of t "reg_rsp r"] f assms(2) by simp
  then have "pop t = Some (w (reg_rsp r), t\<lparr>regs := (regs t)\<lparr>reg_rsp := reg_rsp (regs t) + 8\<rparr>\<rparr>)" using f(1) by (simp add: pop_def)
  moreover have "stack_at s w (r\<lparr>reg_rsp := reg_rsp r + 8\<rparr>) (t\<lparr>regs := (regs t)\<lparr>reg_rsp := reg_rsp (regs t) + 8\<rparr>\<rparr>)"
    using stack_at_regs [OF assms(1)] f(1) by simp
  ultimately show ?thesis by blast
qed

lemma stack_at_task:
  assumes "stack_at s w r t"
  shows "stack_at (set_task i f s) w r (set_task i f t)"
proof -
  obtain m where "t = s\<lparr>mem := m, regs := r\<rparr>" using assms by (auto simp: stack_at_def)
  then have "set_task i f t = (set_task i f s)\<lparr>mem := mem (set_task i f t), regs := r\<rparr>" by (simp add: set_task_def)
  moreover have "heap_mapped (set_task i f t)" "hview (set_task i f t) = w" using stack_at_fields(3,4) [OF assms] by simp_all
  ultimately show ?thesis unfolding stack_at_def by blast
qed

section \<open>The context switch\<close>

text \<open>The registers in the order in which they are pushed, and a register file loaded from a frame.\<close>

definition frame_regs :: "cpu_regs \<Rightarrow> u64 list" where
  "frame_regs r = [reg_rip r, reg_rflags r, reg_rbp r, reg_rbx r, reg_r12 r, reg_r13 r, reg_r14 r, reg_r15 r]"

definition load_frame :: "(u64 \<Rightarrow> u64) \<Rightarrow> u64 \<Rightarrow> cpu_regs" where
  "load_frame w sp = \<lparr>reg_rip = w (sp + 56), reg_rsp = sp + 64, reg_rflags = w (sp + 48), reg_rbp = w (sp + 40),
     reg_rbx = w (sp + 32), reg_r12 = w (sp + 24), reg_r13 = w (sp + 16), reg_r14 = w (sp + 8), reg_r15 = w sp\<rparr>"

lemma save_regs_at:
  assumes at: "stack_at s w r t" and c: "frame_cells (reg_rsp r) 8 \<subseteq> heap_words s"
  shows "\<exists>u. save_regs t = Some u \<and>
    stack_at s (put_words (reg_rsp r) (frame_regs r) w) (r\<lparr>reg_rsp := reg_rsp r - 64\<rparr>) u"
proof -
  let ?p = "reg_rsp r"
  have cs: "?p - 8 \<in> heap_words s" "?p - 16 \<in> heap_words s" "?p - 24 \<in> heap_words s" "?p - 32 \<in> heap_words s"
    "?p - 40 \<in> heap_words s" "?p - 48 \<in> heap_words s" "?p - 56 \<in> heap_words s" "?p - 64 \<in> heap_words s"
    using c by (simp_all add: eval_nat_numeral)
  obtain t1 where t1: "push (reg_rip r) t = Some t1" "stack_at s (w(?p - 8 := reg_rip r)) (r\<lparr>reg_rsp := ?p - 8\<rparr>) t1"
    using push_at [OF at cs(1)] by blast
  obtain t2 where t2: "push (reg_rflags r) t1 = Some t2"
    "stack_at s (w(?p - 8 := reg_rip r, ?p - 16 := reg_rflags r)) (r\<lparr>reg_rsp := ?p - 16\<rparr>) t2"
    using push_at [OF t1(2)] cs(2) by fastforce
  obtain t3 where t3: "push (reg_rbp r) t2 = Some t3"
    "stack_at s (w(?p - 8 := reg_rip r, ?p - 16 := reg_rflags r, ?p - 24 := reg_rbp r)) (r\<lparr>reg_rsp := ?p - 24\<rparr>) t3"
    using push_at [OF t2(2)] cs(3) by fastforce
  obtain t4 where t4: "push (reg_rbx r) t3 = Some t4"
    "stack_at s (w(?p - 8 := reg_rip r, ?p - 16 := reg_rflags r, ?p - 24 := reg_rbp r, ?p - 32 := reg_rbx r)) (r\<lparr>reg_rsp := ?p - 32\<rparr>) t4"
    using push_at [OF t3(2)] cs(4) by fastforce
  obtain t5 where t5: "push (reg_r12 r) t4 = Some t5"
    "stack_at s (w(?p - 8 := reg_rip r, ?p - 16 := reg_rflags r, ?p - 24 := reg_rbp r, ?p - 32 := reg_rbx r, ?p - 40 := reg_r12 r))
      (r\<lparr>reg_rsp := ?p - 40\<rparr>) t5"
    using push_at [OF t4(2)] cs(5) by fastforce
  obtain t6 where t6: "push (reg_r13 r) t5 = Some t6"
    "stack_at s (w(?p - 8 := reg_rip r, ?p - 16 := reg_rflags r, ?p - 24 := reg_rbp r, ?p - 32 := reg_rbx r, ?p - 40 := reg_r12 r,
      ?p - 48 := reg_r13 r)) (r\<lparr>reg_rsp := ?p - 48\<rparr>) t6"
    using push_at [OF t5(2)] cs(6) by fastforce
  obtain t7 where t7: "push (reg_r14 r) t6 = Some t7"
    "stack_at s (w(?p - 8 := reg_rip r, ?p - 16 := reg_rflags r, ?p - 24 := reg_rbp r, ?p - 32 := reg_rbx r, ?p - 40 := reg_r12 r,
      ?p - 48 := reg_r13 r, ?p - 56 := reg_r14 r)) (r\<lparr>reg_rsp := ?p - 56\<rparr>) t7"
    using push_at [OF t6(2)] cs(7) by fastforce
  obtain t8 where t8: "push (reg_r15 r) t7 = Some t8"
    "stack_at s (put_words ?p (frame_regs r) w) (r\<lparr>reg_rsp := ?p - 64\<rparr>) t8"
    using push_at [OF t7(2), of "reg_r15 r"] cs(8) by (fastforce simp: frame_regs_def)
  have rg: "regs t = r" "regs t1 = r\<lparr>reg_rsp := ?p - 8\<rparr>" "regs t2 = r\<lparr>reg_rsp := ?p - 16\<rparr>" "regs t3 = r\<lparr>reg_rsp := ?p - 24\<rparr>"
    "regs t4 = r\<lparr>reg_rsp := ?p - 32\<rparr>" "regs t5 = r\<lparr>reg_rsp := ?p - 40\<rparr>" "regs t6 = r\<lparr>reg_rsp := ?p - 48\<rparr>" "regs t7 = r\<lparr>reg_rsp := ?p - 56\<rparr>"
    using stack_at_fields(1) at t1(2) t2(2) t3(2) t4(2) t5(2) t6(2) t7(2) by blast+
  show ?thesis using t1(1) t2(1) t3(1) t4(1) t5(1) t6(1) t7(1) t8 rg by (intro exI [of _ t8]) (simp add: save_regs_def)
qed

text \<open>One pop into a register.\<close>

lemma pop_into:
  assumes "stack_at s w r t" "reg_rsp r = q" "q \<in> heap_words s" "q + 8 = q'"
  shows "\<exists>u. pop t = Some (w q, u) \<and> regs u = r\<lparr>reg_rsp := q'\<rparr> \<and> (\<forall>r'. stack_at s w r' (u\<lparr>regs := r'\<rparr>))"
proof -
  obtain u where u: "pop t = Some (w q, u)" "stack_at s w (r\<lparr>reg_rsp := q + 8\<rparr>) u"
    using pop_at [OF assms(1)] assms(2,3) by blast
  then show ?thesis using stack_at_fields(1) [OF u(2)] stack_at_regs [OF u(2)] assms(4) by blast
qed

lemma load_regs_at:
  assumes at: "stack_at s w r t" and q: "reg_rsp r = q" "\<And>k. k < 8 \<Longrightarrow> q + 8 * of_nat k \<in> heap_words s"
  shows "\<exists>u. load_regs t = Some u \<and> stack_at s w (load_frame w q) u"
proof -
  have cs: "q \<in> heap_words s" "q + 8 \<in> heap_words s" "q + 16 \<in> heap_words s" "q + 24 \<in> heap_words s" "q + 32 \<in> heap_words s"
    "q + 40 \<in> heap_words s" "q + 48 \<in> heap_words s" "q + 56 \<in> heap_words s"
    using q(2) [of 0] q(2) [of 1] q(2) [of 2] q(2) [of 3] q(2) [of 4] q(2) [of 5] q(2) [of 6] q(2) [of 7] by simp_all
  let ?a = "r\<lparr>reg_rsp := q + 8, reg_r15 := w q\<rparr>"
  obtain t1 where t1: "pop t = Some (w q, t1)" "regs t1 = r\<lparr>reg_rsp := q + 8\<rparr>" "\<forall>r'. stack_at s w r' (t1\<lparr>regs := r'\<rparr>)"
    using pop_into [OF at q(1) cs(1) refl] by blast
  let ?b = "?a\<lparr>reg_rsp := q + 16, reg_r14 := w (q + 8)\<rparr>"
  obtain t2 where t2: "pop (t1\<lparr>regs := ?a\<rparr>) = Some (w (q + 8), t2)" "regs t2 = ?a\<lparr>reg_rsp := q + 16\<rparr>" "\<forall>r'. stack_at s w r' (t2\<lparr>regs := r'\<rparr>)"
    using pop_into [OF t1(3) [THEN spec, of ?a] _ cs(2), where q' = "q + 16"] by auto
  let ?c = "?b\<lparr>reg_rsp := q + 24, reg_r13 := w (q + 16)\<rparr>"
  obtain t3 where t3: "pop (t2\<lparr>regs := ?b\<rparr>) = Some (w (q + 16), t3)" "regs t3 = ?b\<lparr>reg_rsp := q + 24\<rparr>" "\<forall>r'. stack_at s w r' (t3\<lparr>regs := r'\<rparr>)"
    using pop_into [OF t2(3) [THEN spec, of ?b] _ cs(3), where q' = "q + 24"] by auto
  let ?d = "?c\<lparr>reg_rsp := q + 32, reg_r12 := w (q + 24)\<rparr>"
  obtain t4 where t4: "pop (t3\<lparr>regs := ?c\<rparr>) = Some (w (q + 24), t4)" "regs t4 = ?c\<lparr>reg_rsp := q + 32\<rparr>" "\<forall>r'. stack_at s w r' (t4\<lparr>regs := r'\<rparr>)"
    using pop_into [OF t3(3) [THEN spec, of ?c] _ cs(4), where q' = "q + 32"] by auto
  let ?e = "?d\<lparr>reg_rsp := q + 40, reg_rbx := w (q + 32)\<rparr>"
  obtain t5 where t5: "pop (t4\<lparr>regs := ?d\<rparr>) = Some (w (q + 32), t5)" "regs t5 = ?d\<lparr>reg_rsp := q + 40\<rparr>" "\<forall>r'. stack_at s w r' (t5\<lparr>regs := r'\<rparr>)"
    using pop_into [OF t4(3) [THEN spec, of ?d] _ cs(5), where q' = "q + 40"] by auto
  let ?f = "?e\<lparr>reg_rsp := q + 48, reg_rbp := w (q + 40)\<rparr>"
  obtain t6 where t6: "pop (t5\<lparr>regs := ?e\<rparr>) = Some (w (q + 40), t6)" "regs t6 = ?e\<lparr>reg_rsp := q + 48\<rparr>" "\<forall>r'. stack_at s w r' (t6\<lparr>regs := r'\<rparr>)"
    using pop_into [OF t5(3) [THEN spec, of ?e] _ cs(6), where q' = "q + 48"] by auto
  let ?g = "?f\<lparr>reg_rsp := q + 56, reg_rflags := w (q + 48)\<rparr>"
  obtain t7 where t7: "pop (t6\<lparr>regs := ?f\<rparr>) = Some (w (q + 48), t7)" "regs t7 = ?f\<lparr>reg_rsp := q + 56\<rparr>" "\<forall>r'. stack_at s w r' (t7\<lparr>regs := r'\<rparr>)"
    using pop_into [OF t6(3) [THEN spec, of ?f] _ cs(7), where q' = "q + 56"] by auto
  obtain t8 where t8: "pop (t7\<lparr>regs := ?g\<rparr>) = Some (w (q + 56), t8)" "regs t8 = ?g\<lparr>reg_rsp := q + 64\<rparr>" "\<forall>r'. stack_at s w r' (t8\<lparr>regs := r'\<rparr>)"
    using pop_into [OF t7(3) [THEN spec, of ?g] _ cs(8), where q' = "q + 64"] by auto
  have "(regs t8)\<lparr>reg_rip := w (q + 56)\<rparr> = load_frame w q" unfolding t8(2) by (simp add: load_frame_def)
  then show ?thesis
    using t1(1,2) t2(1,2) t3(1,2) t4(1,2) t5(1,2) t6(1,2) t7(1,2) t8(1,3)
    by (intro exI [of _ "t8\<lparr>regs := load_frame w q\<rparr>"]) (simp add: load_regs_def)
qed

lemma context_switch_at:
  fixes s :: "'a task_state_scheme"
  assumes hm: "heap_mapped s" and save: "frame_cells (reg_rsp (regs s)) 8 \<subseteq> heap_words s"
    and load: "\<And>k. k < 8 \<Longrightarrow> q + 8 * of_nat k \<in> heap_words s"
  defines "w \<equiv> put_words (reg_rsp (regs s)) (frame_regs (regs s)) (hview s)"
  shows "\<exists>t. context_switch old q s = Some t \<and>
    stack_at (set_task old (\<lambda>k. k\<lparr>t_stack_pointer := reg_rsp (regs s) - 64\<rparr>) s) w (load_frame w q) t"
proof -
  obtain u where u: "save_regs s = Some u" "stack_at s w ((regs s)\<lparr>reg_rsp := reg_rsp (regs s) - 64\<rparr>) u"
    using save_regs_at [OF stack_at_self [OF hm] save] unfolding w_def by blast
  have rg: "regs u = (regs s)\<lparr>reg_rsp := reg_rsp (regs s) - 64\<rparr>" by (rule stack_at_fields(1) [OF u(2)])
  let ?f = "\<lambda>k. k\<lparr>t_stack_pointer := reg_rsp (regs s) - 64\<rparr>"
  let ?v = "(set_task old ?f u)\<lparr>regs := (regs u)\<lparr>reg_rsp := q\<rparr>\<rparr>"
  have v: "stack_at (set_task old ?f s) w ((regs u)\<lparr>reg_rsp := q\<rparr>) ?v"
    by (rule stack_at_regs [OF stack_at_task [OF u(2)]])
  have ld: "\<And>k. k < 8 \<Longrightarrow> q + 8 * of_nat k \<in> heap_words (set_task old ?f s)" using load by simp
  obtain t where t: "load_regs ?v = Some t" "stack_at (set_task old ?f s) w (load_frame w q) t"
    using load_regs_at [OF v _ ld] by auto
  have rs: "regs (set_task old ?f u) = regs u" by (simp add: set_task_def)
  have "context_switch old q s = Some t" using u(1) t(1) rg rs by (simp add: context_switch_def)
  with t(2) show ?thesis by blast
qed

text \<open>A saved frame is read back as it was written.\<close>

lemma load_frame_saved:
  assumes "\<And>a. a \<in> frame_cells (reg_rsp r) 8 \<Longrightarrow> w' a = put_words (reg_rsp r) (frame_regs r) w a"
  shows "load_frame w' (reg_rsp r - 64) = r"
proof -
  let ?p = "reg_rsp r" and ?w = "put_words (reg_rsp r) (frame_regs r) w"
  have n: "?w (?p - 8 * of_nat (Suc k)) = frame_regs r ! k" if "k < 8" for k
    using put_words_nth [of k "frame_regs r"] that by (simp add: frame_regs_def)
  have "w' (?p - 8) = reg_rip r" "w' (?p - 16) = reg_rflags r" "w' (?p - 24) = reg_rbp r" "w' (?p - 32) = reg_rbx r"
    "w' (?p - 40) = reg_r12 r" "w' (?p - 48) = reg_r13 r" "w' (?p - 56) = reg_r14 r" "w' (?p - 64) = reg_r15 r"
    using assms n [of 0] n [of 1] n [of 2] n [of 3] n [of 4] n [of 5] n [of 6] n [of 7]
    by (simp_all add: eval_nat_numeral frame_regs_def)
  then show ?thesis by (simp add: load_frame_def algebra_simps)
qed

text \<open>
  C16. A task that is switched away resumes as it was: \<open>context_switch\<close> from a task whose stack is in the heap
  always returns, and whenever a later switch, from any task and state in which the eight words of
  the saved frame are still there, goes to the stack pointer it recorded, the processor has exactly the
  registers it had before: instruction pointer, stack pointer, flags and preserved registers.
\<close>

theorem context_switch_resumes:
  fixes s u :: "'a task_state_scheme"
  assumes s: "heap_mapped s" "frame_cells (reg_rsp (regs s)) 8 \<subseteq> heap_words s" "old < length (task_table s)"
    and q: "\<And>k. k < 8 \<Longrightarrow> q + 8 * of_nat k \<in> heap_words s"
    and t: "context_switch old q s = Some t"
    and u: "heap_mapped u" "heap_words s \<subseteq> heap_words u" "frame_cells (reg_rsp (regs u)) 8 \<subseteq> heap_words u"
    and keep: "\<And>a. a \<in> frame_cells (reg_rsp (regs s)) 8 \<Longrightarrow>
      put_words (reg_rsp (regs u)) (frame_regs (regs u)) (hview u) a = hview t a"
  shows "\<exists>v. context_switch other (t_stack_pointer (task_at t old)) u = Some v \<and> regs v = regs s"
proof -
  let ?p = "reg_rsp (regs s)"
  have at: "stack_at (set_task old (\<lambda>k. k\<lparr>t_stack_pointer := ?p - 64\<rparr>) s)
      (put_words ?p (frame_regs (regs s)) (hview s)) (load_frame (put_words ?p (frame_regs (regs s)) (hview s)) q) t"
    using context_switch_at [OF s(1,2) q, of old] t by auto
  have sp: "t_stack_pointer (task_at t old) = ?p - 64" using stack_at_fields(5) [OF at] s(3) by simp
  have ld: "?p - 64 + 8 * of_nat k \<in> heap_words u" if "k < 8" for k
  proof -
    have "k \<in> {0, 1, 2, 3, 4, 5, 6, 7}" using that by auto
    then have "?p - 64 + 8 * of_nat k \<in> frame_cells ?p 8" by (auto simp: eval_nat_numeral algebra_simps)
    then show ?thesis using s(2) u(2) by blast
  qed
  obtain v where v: "context_switch other (?p - 64) u = Some v"
    "regs v = load_frame (put_words (reg_rsp (regs u)) (frame_regs (regs u)) (hview u)) (?p - 64)"
    using context_switch_at [OF u(1,3) ld, of other] stack_at_fields(1) by blast
  have "load_frame (put_words (reg_rsp (regs u)) (frame_regs (regs u)) (hview u)) (?p - 64) = regs s"
    using keep stack_at_fields(4) [OF at] by (intro load_frame_saved) simp
  with v sp show ?thesis by simp
qed

end
