(* ===== verification/Prism_Newtask.thy ===== *)
theory Prism_Newtask
  imports Prism_Switch
begin

text \<open>
  Creation of tasks (\<^verbatim>\<open>task_create\<close>, \<^verbatim>\<open>task_create_user\<close> and \<^verbatim>\<open>kinit_task\<close> of
  \<^verbatim>\<open>task/task.c\<close>): a new task has a stack of its own in the heap whose initial frame makes
  the first switch to it begin at its entry, and it is queued behind the tasks that are ready.
\<close>

section \<open>The initial frame\<close>

lemma put_down_at:
  fixes s :: "'a heap_state_scheme"
  assumes "heap_mapped s" "frame_cells sp (length vs) \<subseteq> heap_words s"
  shows "\<exists>t. put_down vs sp s = Some (sp - 8 * of_nat (length vs), t) \<and> heap_mapped t \<and> hview t = put_words sp vs (hview s) \<and> heap_wrote s t"
  using assms
proof (induction vs arbitrary: sp s)
  case Nil
  then show ?case by simp
next
  case (Cons v vs)
  obtain u where u: "kstore64 (sp - 8) v s = Some u" "heap_mapped u" "heap_words u = heap_words s" "hview u = (hview s)(sp - 8 := v)" "heap_wrote s u"
    using kheap.put_view [of s "sp - 8"] Cons.prems by (metis frame_cells.simps(2) insert_subset length_Cons)
  have "frame_cells (sp - 8) (length vs) \<subseteq> heap_words u" using Cons.prems(2) u(3) by simp
  then obtain t where "put_down vs (sp - 8) u = Some (sp - 8 - 8 * of_nat (length vs), t)" "heap_mapped t"
    "hview t = put_words (sp - 8) vs (hview u)" "heap_wrote u t" using Cons.IH [OF u(2)] by blast
  with u heap_wrote_trans [of s u t] show ?case by (auto simp: algebra_simps)
qed

text \<open>The registers with which a new task begins.\<close>

definition start_regs :: "u64 \<Rightarrow> u64 \<Rightarrow> cpu_regs" where
  "start_regs entry tp = \<lparr>reg_rip = entry, reg_rsp = tp, reg_rflags = 0x200, reg_rbp = 0, reg_rbx = 0,
     reg_r12 = 0, reg_r13 = 0, reg_r14 = 0, reg_r15 = 0\<rparr>"

lemma mem_eq_heap_words: "mem_eq s t \<Longrightarrow> heap_words t = heap_words s"
  by (erule mem_eqE) simp

lemma heap_wrote_heap:
  assumes "heap_wrote s t"
  shows "free_list t = free_list s" "heap_start t = heap_start s" "heap_end t = heap_end s" "heap_words t = heap_words s"
    "heap_frame s t" "mem_eq s t"
proof -
  show m: "mem_eq s t" using assms by (simp add: heap_wrote_def)
  show "free_list t = free_list s" "heap_start t = heap_start s" "heap_end t = heap_end s" "heap_words t = heap_words s"
    by (rule mem_eqE [OF m], simp)+
  have "spares s t" using assms by (simp add: heap_wrote_def)
  moreover have "spends s t" using m by (elim mem_eqE) (simp add: spends_same)
  ultimately show "heap_frame s t" using m by (elim mem_eqE) (simp add: heap_frame_def)
qed

text \<open>The words in which the user of a block may keep data.\<close>

definition data_word :: "(u64 \<Rightarrow> u64) \<Rightarrow> u64 \<Rightarrow> u64 \<Rightarrow> bool" where
  "data_word w b a \<longleftrightarrow> unat b + 16 \<le> unat a \<and> unat a < block_end w b \<and> unat a mod 8 = 0"

lemma data_word_mapped: "heap_ok s A \<Longrightarrow> b \<in> A \<Longrightarrow> data_word (hview s) b a \<Longrightarrow> a \<in> heap_words s"
  by (rule data_words) (auto simp: data_word_def)

lemma data_word_apart:
  assumes "heap_ok s A" "b \<in> A" "c \<in> A" "b \<noteq> c" "data_word (hview s) b a"
  shows "\<not> data_word (hview s) c a"
proof -
  obtain F where "heap_shape (hview s) (lo_of s) (hi_of s) (free_list s) F A" using assms(1) by (auto simp: heap_ok_def)
  from blocks_okD(4) [OF heap_shapeD(1) [OF this], of b c] assms(2-5) show ?thesis by (auto simp: apart_def data_word_def)
qed

lemma keeps_data:
  assumes "keeps w w' A" "b \<in> A"
  shows "data_word w b a \<Longrightarrow> w' a = w a" "data_word w' b a = data_word w b a"
proof -
  have "w' b = w b" using assms by (simp add: keeps_def block_end_def)
  then show "data_word w' b a = data_word w b a" by (simp add: data_word_def block_end_def)
  show "data_word w b a \<Longrightarrow> w' a = w a" using assms by (auto simp: keeps_def data_word_def)
qed

lemma allocated_cells:
  assumes al: "allocated s A n p t" and j: "8 * j + 8 \<le> unat n"
  shows "data_word (hview t) (p - 16) (p + of_nat (8 * j))" "unat (p + of_nat (8 * j)) = unat p + 8 * j"
proof -
  note a = al [unfolded allocated_def]
  let ?b = "p - 16"
  obtain F where F: "heap_shape (hview t) (lo_of t) (hi_of t) (free_list t) F (insert ?b A)" using a by (auto simp: heap_ok_def)
  have bp: "unat (?b + of_nat k) = unat ?b + k" if "k < 16 + unat (hview t ?b)" for k
    by (rule block_addr(1) [OF heap_shapeD(1) [OF F] _ that]) simp
  have up: "unat p = unat ?b + 16" using bp [of 16] a j by simp
  then show o: "unat (p + of_nat (8 * j)) = unat p + 8 * j" using bp [of "16 + 8 * j"] a j by simp
  have "(unat p + 8 * j) mod 8 = 0" using a by (simp add: mod_add_left_eq [symmetric])
  then show "data_word (hview t) ?b (p + of_nat (8 * j))" using o up a j by (simp add: data_word_def block_end_def)
qed

lemma stack_filled:
  fixes s s' :: "'a heap_state_scheme"
  assumes al: "allocated s A TASK_STACK_SIZE p s'"
  shows "\<exists>t. put_down (initial_frame e) (p + TASK_STACK_SIZE) s' = Some (p + 8128, t) \<and> heap_wrote s' t \<and>
    heap_ok t (insert (p - 16) A) \<and> keeps (hview s) (hview t) A \<and> load_frame (hview t) (p + 8128) = start_regs e (p + 8192) \<and>
    (\<forall>k<8. data_word (hview t) (p - 16) (p + 8128 + 8 * of_nat k)) \<and> TASK_STACK_SIZE \<le> hview t (p - 16)"
proof -
  note a = al [unfolded allocated_def]
  let ?b = "p - 16"
  obtain F where F: "heap_mapped s'" "heap_shape (hview s') (lo_of s') (hi_of s') (free_list s') F (insert ?b A)"
    using a by (auto simp: heap_ok_def)
  note h = heap_shapeD [OF F(2)]
  have b: "?b \<in> insert ?b A" by simp
  have sz: "unat TASK_STACK_SIZE \<le> unat (hview s' ?b)" "unat TASK_STACK_SIZE = 8192" using a by (simp_all add: TASK_STACK_SIZE_def)
  have cell: "data_word (hview s') ?b (p + of_nat (8 * j))" if "j < 1024" for j
    using allocated_cells(1) [OF al] that by (simp add: TASK_STACK_SIZE_def)
  have cells: "frame_cells (p + 8192) 8 = (\<lambda>j. p + of_nat (8 * j)) ` {1016..<1024}"
    by (simp add: eval_nat_numeral atLeastLessThanSuc insert_commute algebra_simps)
  have ln: "length (initial_frame e) = 8" by (simp add: initial_frame_def)
  have sub: "frame_cells (p + 8192) (length (initial_frame e)) \<subseteq> heap_words s'"
    unfolding ln cells using data_word_mapped [OF _ b cell] a by (intro image_subsetI) simp
  obtain t where t: "put_down (initial_frame e) (p + 8192) s' = Some (p + 8192 - 8 * of_nat (length (initial_frame e)), t)"
    "heap_mapped t" "hview t = put_words (p + 8192) (initial_frame e) (hview s')" "heap_wrote s' t"
    using put_down_at [OF F(1) sub] by blast
  have chg: "unat ?b + 16 \<le> unat x \<and> unat x < block_end (hview s') ?b" if "hview t x \<noteq> hview s' x" for x
  proof -
    have "x \<in> frame_cells (p + 8192) 8"
      using put_words_other [of x "p + 8192" "initial_frame e" "hview s'"] that unfolding t(3) ln by blast
    then show ?thesis using cell unfolding cells by (auto simp: data_word_def)
  qed
  note sh = data_write_shape [OF F(2) b chg]
  note m = heap_wrote_heap [OF t(4)]
  have "heap_ok t (insert ?b A)" unfolding heap_ok_def using t(2) sh(1) m by auto
  moreover have "keeps (hview s) (hview t) A"
  proof -
    have "insert ?b A - {?b} = A" using a by auto
    then show ?thesis using keeps_trans [of "hview s" "hview s'" A "hview t"] a sh(2) by simp
  qed
  moreover have "load_frame (hview t) (p + 8192 - 64) = start_regs e (p + 8192)"
    using load_frame_saved [of "start_regs e (p + 8192)" "hview t" "hview s'"] t(3)
    by (simp add: start_regs_def frame_regs_def initial_frame_def)
  moreover have hd: "hview t ?b = hview s' ?b" using chg [of ?b] by fastforce
  moreover have "\<forall>k<8. data_word (hview t) ?b (p + 8128 + 8 * of_nat k)"
  proof (intro allI impI)
    fix k :: nat assume "k < 8"
    then show "data_word (hview t) ?b (p + 8128 + 8 * of_nat k)"
      using cell [of "1016 + k"] hd by (simp add: data_word_def block_end_def algebra_simps)
  qed
  moreover have "TASK_STACK_SIZE \<le> hview t ?b" using sz hd by (simp add: word_le_nat_alt)
  ultimately show ?thesis using t(1,4) by (intro exI [of _ t]) (simp add: TASK_STACK_SIZE_def initial_frame_def add.commute)
qed

section \<open>Joining the ready list\<close>

lemma sched_inv_cong:
  assumes "task_table t = task_table s" "current_task t = current_task s" "ready_head t = ready_head s" "ready_tail t = ready_tail s"
  shows "sched_inv t = sched_inv s" "ready_elems t = ready_elems s" "sched_order t = sched_order s" "find_slot t = find_slot s"
proof -
  show e: "ready_elems t = ready_elems s" using assms by (simp add: ready_elems_def)
  show "sched_inv t = sched_inv s" "sched_order t = sched_order s" "find_slot t = find_slot s"
    using assms unfolding sched_inv_def ready_inv_def sched_order_def find_slot_def e by simp_all
qed

text \<open>Task \<open>x\<close> becomes \<open>k\<close> and is the last of the list; the links apart, nothing else changes.\<close>

definition enlisted :: "'a task_state_scheme \<Rightarrow> nat \<Rightarrow> task_t \<Rightarrow> 'a task_state_scheme \<Rightarrow> bool" where
  "enlisted s x k t \<longleftrightarrow> sched_inv t \<and> ready_elems t = ready_elems s @ [x] \<and> current_task t = current_task s \<and>
     (\<exists>n. task_at t x = k\<lparr>t_next := n\<rparr>) \<and> (\<forall>i. i \<noteq> x \<longrightarrow> (\<exists>n. task_at t i = (task_at s i)\<lparr>t_next := n\<rparr>))"

lemma enlisted_cong:
  assumes "enlisted s x k t" "task_table u = task_table t" "current_task u = current_task t" "ready_head u = ready_head t" "ready_tail u = ready_tail t"
  shows "enlisted s x k u"
  using assms(1) sched_inv_cong [OF assms(2-5)] assms(2,3) by (simp add: enlisted_def)

lemma ready_inv_spare:
  assumes "ready_inv s" "x \<notin> set (ready_elems s)"
  shows "ready_inv (set_task x f s)" "ready_elems (set_task x f s) = ready_elems s"
proof -
  note r = assms(1) [unfolded ready_inv_def]
  have "links (task_table (set_task x f s)) (ready_head s) (ready_elems s)"
    using r links_skip [OF assms(2)] by (simp add: set_task_def)
  then show "ready_inv (set_task x f s)" "ready_elems (set_task x f s) = ready_elems s"
    using ready_invI [of "set_task x f s" "ready_elems s"] r by auto
qed

lemma enlist:
  assumes inv: "sched_inv s" and x: "x < MAX_TASKS" "t_state (task_at s x) = TASK_DEAD"
    and k: "t_state k = TASK_READY"
  shows "\<exists>T h l. ready_list_add x (set_task x (\<lambda>_. k) s) = Some (s\<lparr>task_table := T, ready_head := h, ready_tail := l\<rparr>) \<and>
    enlisted s x k (s\<lparr>task_table := T, ready_head := h, ready_tail := l\<rparr>)"
proof -
  obtain c where c: "ready_inv s" "current_task s = Some c" "c < MAX_TASKS" "c \<notin> set (ready_elems s)"
    and run: "\<And>i. i < MAX_TASKS \<Longrightarrow> (t_state (task_at s i) = TASK_RUNNING) = (i = c)"
    and rdy: "\<And>i. i \<in> set (ready_elems s) \<Longrightarrow> t_state (task_at s i) = TASK_READY"
    using inv by (auto simp: sched_inv_def)
  have xm: "x \<notin> set (ready_elems s)" "x \<noteq> c" using rdy [of x] run [of x] x by auto
  let ?s1 = "set_task x (\<lambda>_. k) s"
  note s1 = ready_inv_spare [OF c(1) xm(1), of "\<lambda>_. k"]
  obtain t where t: "ready_list_add x ?s1 = Some t" "ready_inv t" "ready_elems t = ready_elems s @ [x]"
    "t = ?s1\<lparr>task_table := task_table t, ready_head := ready_head t, ready_tail := ready_tail t\<rparr>"
    "\<And>i. \<exists>n. task_at t i = (task_at ?s1 i)\<lparr>t_next := n\<rparr>"
    using ready_list_add_spec [OF s1(1) x(1)] s1(2) xm(1) by auto
  have "length (task_table s) = MAX_TASKS" using c(1) by (simp add: ready_inv_def)
  then have at: "\<exists>n. task_at t i = (if i = x then k else task_at s i)\<lparr>t_next := n\<rparr>" for i
    using t(5) [of i] x(1) by simp
  have st: "t_state (task_at t i) = (if i = x then TASK_READY else t_state (task_at s i))" for i
  proof -
    obtain n where "task_at t i = (if i = x then k else task_at s i)\<lparr>t_next := n\<rparr>" using at by blast
    then show ?thesis using k by simp
  qed
  obtain T h l where e: "t = s\<lparr>task_table := T, ready_head := h, ready_tail := l\<rparr>" using t(4) by (auto simp: set_task_def)
  then have cur: "current_task t = Some c" using c(2) by simp
  have "sched_inv t" unfolding sched_inv_def t(3) using t(2) cur c(3,4) st xm run rdy by auto
  moreover have "\<exists>n. task_at t x = k\<lparr>t_next := n\<rparr>" using at [of x] by simp
  moreover have "\<exists>n. task_at t i = (task_at s i)\<lparr>t_next := n\<rparr>" if "i \<noteq> x" for i using at [of i] that by simp
  ultimately have "enlisted s x k t" using t(3) cur c(2) by (simp add: enlisted_def)
  then show ?thesis using t(1) e by blast
qed

lemma find_slot_Some:
  assumes "find_slot s = Some x"
  shows "x < MAX_TASKS" "t_state (task_at s x) = TASK_DEAD"
  using assms by (auto simp: find_slot_def find_Some_iff)

section \<open>Creating a task\<close>

text \<open>What the two creating functions share: the stack, its initial frame, the entry \<open>g pid stack sp\<close> of
  the table and the place in the list.\<close>

definition spawn ::
  "nat \<Rightarrow> (link_symbols \<Rightarrow> u64) \<Rightarrow> log_level \<Rightarrow> cstring \<Rightarrow> (u64 \<Rightarrow> u64 \<Rightarrow> u64 \<Rightarrow> task_t \<Rightarrow> task_t) \<Rightarrow> 'a task_state_scheme \<Rightarrow>
     (nat option \<times> 'a task_state_scheme) option" where
  "spawn x e lvl msg g s =
     do { (stack, s) \<leftarrow> kmalloc TASK_STACK_SIZE s;
          if stack = 0 then Some (None, s)
          else do { (sp, s) \<leftarrow> put_down (initial_frame (e (syms s))) (stack + TASK_STACK_SIZE) s;
                    let s = set_task x (g (next_pid s) stack sp) s;
                    let s = s\<lparr>next_pid := next_pid s + 1\<rparr>;
                    s \<leftarrow> ready_list_add x s;
                    s \<leftarrow> klog_hex lvl msg (t_pid (task_at s x)) s;
                    Some (Some x, s) } }"

definition kernel_task :: "u64 \<Rightarrow> u64 \<Rightarrow> u64 \<Rightarrow> task_t \<Rightarrow> task_t" where
  "kernel_task pid stack sp k = k\<lparr>t_pid := pid, t_state := TASK_READY, t_kernel_stack := stack,
     t_stack_pointer := sp, t_time_slice := TIME_SLICE, t_ring := 0, t_cr3 := 0, t_next := None\<rparr>"

definition user_task :: "u64 \<Rightarrow> u64 \<Rightarrow> u64 \<Rightarrow> u64 \<Rightarrow> u64 \<Rightarrow> u64 \<Rightarrow> u64 \<Rightarrow> task_t \<Rightarrow> task_t" where
  "user_task rip rsp rflags cr3' pid stack sp k = k\<lparr>t_pid := pid, t_state := TASK_READY, t_kernel_stack := stack,
     t_stack_pointer := sp, t_time_slice := TIME_SLICE, t_ring := 3, t_cr3 := cr3',
     t_user_rip := rip, t_user_rsp := rsp, t_user_rflags := rflags, t_next := None\<rparr>"

lemma task_create_spawn:
  "task_create entry s = (case find_slot s of None \<Rightarrow> Some (None, s) | Some x \<Rightarrow>
     spawn x (\<lambda>_. entry) LOG_DEBUG (cstr ''task_create pid='') kernel_task s)"
  unfolding task_create_def spawn_def kernel_task_def by (rule refl)

lemma task_create_user_spawn:
  "task_create_user rip rsp rflags cr3' s = (case find_slot s of None \<Rightarrow> Some (None, s) | Some x \<Rightarrow>
     spawn x sym_enter_user_mode LOG_INFO (cstr ''task_create_user pid='') (user_task rip rsp rflags cr3') s)"
  unfolding task_create_user_def spawn_def user_task_def by (rule refl)

text \<open>The outcome: entry \<open>k\<close> at place \<open>x\<close>, and the stack at \<open>p\<close>, a block that was not in use, holds
  the frame from which the task begins at \<open>e\<close>.\<close>

definition created :: "'a task_state_scheme \<Rightarrow> u64 set \<Rightarrow> nat \<Rightarrow> u64 \<Rightarrow> task_t \<Rightarrow> u64 \<Rightarrow> 'a task_state_scheme \<Rightarrow> bool" where
  "created s A x e k p t \<longleftrightarrow> enlisted s x k t \<and> next_pid t = next_pid s + 1 \<and> regs t = regs s \<and> io_in t = io_in s \<and> spares s t \<and> dev_same s t \<and>
     p - 16 \<notin> A \<and> heap_ok t (insert (p - 16) A) \<and> TASK_STACK_SIZE \<le> hview t (p - 16) \<and> keeps (hview s) (hview t) A \<and>
     load_frame (hview t) (p + 8128) = start_regs e (p + 8192) \<and> (\<forall>j<8. data_word (hview t) (p - 16) (p + 8128 + 8 * of_nat j))"

lemma created_log:
  assumes "created s A x e k p t" "io_eq t u"
  shows "created s A x e k p u"
proof -
  obtain l n where u: "u = t\<lparr>io_log := l, io_reads := n\<rparr>" using assms(2) by (auto elim: io_eqE)
  have "heap_same t u" by (simp add: u heap_same_def)
  note h = heap_same_mapped [OF this] heap_ok_same [OF this] spares_trans [OF _ heap_same_foreign(2) [OF this]]
  have "dev_same s t \<Longrightarrow> dev_same s u" by (simp add: u dev_same_def)
  then show ?thesis using assms(1) enlisted_cong [of s x k t u] h unfolding created_def by (simp add: u)
qed

lemma spawn_spec:
  fixes s :: "'a task_state_scheme"
  assumes ok: "heap_ok s A" "sched_inv s" "heap_room s 12310" "uart_live s" and x: "x < MAX_TASKS" "t_state (task_at s x) = TASK_DEAD"
    and g: "\<And>pid st sp k. t_state (g pid st sp k) = TASK_READY"
  shows "\<exists>r t. spawn x e lvl msg g s = Some (r, t) \<and>
    (r = None \<and> \<not> fits s TASK_STACK_SIZE \<and> card (pmm_avail s) < 6 \<and> heap_ok t A \<and> heap_frame s t \<or>
     r = Some x \<and> (\<exists>p. created s A x (e (syms s)) (g (next_pid s) p (p + 8128) (task_at s x)) p t)) \<and>
    spends s t \<and> unat (heap_end t) \<le> unat (heap_end s) + 12310 \<and> syms t = syms s"
proof -
  have al8: "align_up TASK_STACK_SIZE 8 = TASK_STACK_SIZE" by (simp add: align_up_def TASK_STACK_SIZE_def)
  obtain p s1 where km: "kmalloc TASK_STACK_SIZE s = Some (p, s1)"
    and room: "unat (heap_end s1) \<le> unat (heap_end s) + 12310"
    and cases: "p = 0 \<and> \<not> fits s TASK_STACK_SIZE \<and> heap_ok s1 A \<and> heap_frame s s1 \<and> card (pmm_avail s) < 6 \<or> allocated s A TASK_STACK_SIZE p s1"
    using kmalloc_cases [OF ok(1), of TASK_STACK_SIZE] ok(3) al8 by (auto simp: TASK_STACK_SIZE_def)
  show ?thesis
  proof (cases "p = 0")
    case True
    then have "heap_frame s s1" using cases by (auto simp: allocated_def)
    moreover from this have "syms s1 = syms s" by (rule heap_frameE) simp
    ultimately show ?thesis using True km cases room heap_frameD(2) by (auto simp: spawn_def allocated_def)
  next
    case False
    then have al: "allocated s A TASK_STACK_SIZE p s1" using cases by simp
    have fr: "heap_frame s s1" using al by (simp add: allocated_def)
    obtain s2 where s2: "put_down (initial_frame (e (syms s1))) (p + TASK_STACK_SIZE) s1 = Some (p + 8128, s2)" "heap_wrote s1 s2"
      "heap_ok s2 (insert (p - 16) A)" "keeps (hview s) (hview s2) A"
      "load_frame (hview s2) (p + 8128) = start_regs (e (syms s1)) (p + 8192)" "\<forall>k<8. data_word (hview s2) (p - 16) (p + 8128 + 8 * of_nat k)"
      "TASK_STACK_SIZE \<le> hview s2 (p - 16)"
      using stack_filled [OF al] by blast
    have sy: "syms s1 = syms s" by (rule heap_frameE [OF fr]) simp
    have fr2: "heap_frame s s2" using fr heap_wrote_heap(5) [OF s2(2)] heap_frame_trans by blast
    then obtain m b n en fl us where e2: "s2 = s\<lparr>mem := m, bitmap := b, used_frames := n, heap_end := en, free_list := fl, heap_used_bytes := us\<rparr>"
      by (rule heap_frameE)
    let ?k = "g (next_pid s) p (p + 8128) (task_at s x)"
    let ?s3 = "s2\<lparr>next_pid := next_pid s + 1\<rparr>"
    have si: "sched_inv ?s3" using ok(2) sched_inv_cong(1) [of ?s3 s] by (simp add: e2)
    obtain T h l where s4: "ready_list_add x (set_task x (\<lambda>_. ?k) ?s3) = Some (?s3\<lparr>task_table := T, ready_head := h, ready_tail := l\<rparr>)"
      "enlisted ?s3 x ?k (?s3\<lparr>task_table := T, ready_head := h, ready_tail := l\<rparr>)"
      using enlist [OF si x(1), of ?k] x(2) g by (auto simp: e2)
    let ?s4 = "?s3\<lparr>task_table := T, ready_head := h, ready_tail := l\<rparr>"
    have hs: "heap_same s2 ?s4" "free_list ?s4 = free_list s2" by (simp_all add: heap_same_def)
    have en: "enlisted s x ?k ?s4" using s4(2) sched_inv_cong(2) [of ?s3 s] by (simp add: enlisted_def e2)
    have sp4: "spares s ?s4" "spends s ?s4"
      using spares_trans [OF heap_frameD(1) [OF fr2] heap_same_foreign(2) [OF hs(1)]]
        spends_trans [OF heap_frameD(2) [OF fr2] heap_same_foreign(3) [OF hs(1)]] by simp_all
    have he: "heap_end ?s4 = heap_end s1" using heap_wrote_heap(3) [OF s2(2)] by simp
    have cr: "created s A x (e (syms s)) ?k p ?s4"
      unfolding created_def using al s2(3-7) sy en sp4(1) heap_same_mapped [OF hs(1)] heap_ok_same [OF hs]
      by (simp add: allocated_def e2 dev_same_def)
    have "uart_live ?s4" using ok(4) by (simp add: uart_live_def e2)
    then obtain u where u: "klog_hex lvl msg (t_pid (task_at ?s4 x)) ?s4 = Some u" "io_eq ?s4 u" using klog_hex_spec by blast
    have "(set_task x (g (next_pid s2) p (p + 8128)) s2)\<lparr>next_pid := next_pid s2 + 1\<rparr> = set_task x (\<lambda>_. ?k) ?s3"
      by (simp add: set_task_def e2)
    then have "spawn x e lvl msg g s = Some (Some x, u)"
      using km False s2(1) s4(1) u(1) by (simp add: spawn_def set_task_def)
    moreover have "heap_same ?s4 u" "heap_end u = heap_end ?s4" "syms u = syms s" using u(2) by (auto elim!: io_eqE simp: heap_same_def e2)
    then have "spends s u" "unat (heap_end u) \<le> unat (heap_end s) + 12310" "syms u = syms s"
      using spends_trans [OF sp4(2) heap_same_foreign(3)] he room by simp_all
    ultimately show ?thesis using created_log [OF cr u(2)] by blast
  qed
qed

section \<open>Running a task\<close>

lemma switched_next:
  assumes "switched s c x t"
  obtains n where "task_at t x = (task_at s x)\<lparr>t_state := TASK_RUNNING, t_time_slice := TIME_SLICE, t_next := n\<rparr>"
proof -
  note e = assms [unfolded switched_def, THEN conjunct2, THEN conjunct2, THEN spec, of x]
  show thesis using e that by (simp only: if_True simp_thms) blast
qed

text \<open>Only the tasks, memory, the registers and the stack of the task state segment change.\<close>

definition sched_frame :: "'a task_state_scheme \<Rightarrow> 'a task_state_scheme \<Rightarrow> bool" where
  "sched_frame s t \<longleftrightarrow> t = s\<lparr>task_table := task_table t, current_task := current_task t, ready_head := ready_head t,
     ready_tail := ready_tail t, tss_value := tss_value t, mem := mem t, regs := regs t\<rparr>"

lemma sched_frameE:
  assumes "sched_frame s t"
  obtains T c h l v m r where "t = s\<lparr>task_table := T, current_task := c, ready_head := h, ready_tail := l, tss_value := v, mem := m, regs := r\<rparr>"
  using assms unfolding sched_frame_def by blast

text \<open>The switch that follows a decision \<open>s1\<close> to leave task \<open>c\<close> for task \<open>x\<close>.\<close>

lemma schedule_after:
  fixes s s1 :: "'a task_state_scheme"
  assumes nx: "schedule_next s = Some (Some (c, x), s1)" and inv: "sched_inv s1" "c < MAX_TASKS"
    and e: "s1 = s\<lparr>task_table := T, current_task := Some x, ready_head := h, ready_tail := l, tss_value := v\<rparr>"
    and sp: "t_stack_pointer (task_at s1 x) = q"
    and hm: "heap_mapped s" "frame_cells (reg_rsp (regs s)) 8 \<subseteq> heap_words s" and ld: "\<And>k. k < 8 \<Longrightarrow> q + 8 * of_nat k \<in> heap_words s"
  defines "w \<equiv> put_words (reg_rsp (regs s)) (frame_regs (regs s)) (hview s)"
  shows "\<exists>t. schedule s = Some (True, t) \<and> sched_inv t \<and> sched_order t = x # ready_elems s1 \<and> heap_mapped t \<and> hview t = w \<and>
    regs t = load_frame w q \<and> task_at t c = (task_at s1 c)\<lparr>t_stack_pointer := reg_rsp (regs s) - 64\<rparr> \<and> tss_value t = v \<and>
    sched_frame s t"
proof -
  have hs: "heap_same s s1" by (simp add: e heap_same_def)
  note hp = heap_same_mapped [OF hs]
  have rg: "regs s1 = regs s" by (simp add: e)
  let ?f = "\<lambda>k. k\<lparr>t_stack_pointer := reg_rsp (regs s) - 64\<rparr>"
  obtain t where t: "context_switch c q s1 = Some t" "stack_at (set_task c ?f s1) w (load_frame w q) t"
    using context_switch_at [where s = s1 and old = c and q = q] hm ld hp unfolding w_def by (auto simp: rg)
  have len: "length (task_table s1) = MAX_TASKS" using inv(1) by (auto simp: sched_inv_def ready_inv_def)
  note f = stack_at_fields [OF t(2)]
  obtain m where tm: "t = (set_task c ?f s1)\<lparr>mem := m, regs := load_frame w q\<rparr>" using t(2) by (auto simp: stack_at_def)
  have "sched_inv (set_task c ?f s1)" "ready_elems (set_task c ?f s1) = ready_elems s1"
    using ready_inv_set_task [of s1 ?f c] inv len by (auto simp: sched_inv_def)
  then have "sched_inv t" "sched_order t = x # ready_elems s1"
    using sched_inv_cong [of t "set_task c ?f s1"] by (simp_all add: tm sched_order_def e)
  moreover have "task_at t c = (task_at s1 c)\<lparr>t_stack_pointer := reg_rsp (regs s) - 64\<rparr>" using len inv(2) by (simp add: tm)
  moreover have "tss_value t = v" by (simp add: tm set_task_def e)
  moreover have "sched_frame s t" by (simp add: sched_frame_def tm e set_task_def)
  ultimately show ?thesis using nx sp t(1) f(1,3,4) by (simp add: schedule_def)
qed

text \<open>The whole of \<open>schedule\<close>: the decision and the switch.\<close>

lemma schedule_switches:
  fixes s :: "'a task_state_scheme"
  assumes inv: "sched_inv s" "current_task s = Some c" "ready_elems s = x # xs"
    and hm: "heap_mapped s" "frame_cells (reg_rsp (regs s)) 8 \<subseteq> heap_words s"
    and ld: "\<And>k. k < 8 \<Longrightarrow> t_stack_pointer (task_at s x) + 8 * of_nat k \<in> heap_words s"
  defines "w \<equiv> put_words (reg_rsp (regs s)) (frame_regs (regs s)) (hview s)"
  shows "\<exists>t. schedule s = Some (True, t) \<and> sched_inv t \<and> sched_order t = x # xs @ [c] \<and> heap_mapped t \<and> hview t = w \<and>
    regs t = load_frame w (t_stack_pointer (task_at s x)) \<and> t_stack_pointer (task_at t c) = reg_rsp (regs s) - 64 \<and>
    tss_rsp0 (tss_value t) = (if t_ring (task_at s x) = 3 then t_kernel_stack (task_at s x) + TASK_STACK_SIZE else tss_rsp0 (tss_value s)) \<and>
    sched_frame s t"
proof -
  obtain s1 where s1: "schedule_next s = Some (Some (c, x), s1)" "sched_inv s1" "ready_elems s1 = xs @ [c]" "switched s c x s1"
    using schedule_next_spec [OF inv] by blast
  obtain T h l v where e: "s1 = s\<lparr>task_table := T, current_task := Some x, ready_head := h, ready_tail := l, tss_value := v\<rparr>"
    using s1(4) by (rule switchedE)
  obtain n where "task_at s1 x = (task_at s x)\<lparr>t_state := TASK_RUNNING, t_time_slice := TIME_SLICE, t_next := n\<rparr>"
    by (rule switched_next [OF s1(4)])
  then have sp: "t_stack_pointer (task_at s1 x) = t_stack_pointer (task_at s x)" by simp
  have c: "c < MAX_TASKS" using inv(1,2) by (auto simp: sched_inv_def)
  have "tss_value s1 = v" by (simp add: e)
  with schedule_after [OF s1(1,2) c e sp hm ld] s1(3,4) show ?thesis unfolding w_def by (auto simp: switched_def)
qed

lemma length_frame_regs: "length (frame_regs r) = 8"
  by (simp add: frame_regs_def)

lemma load_frame_cong:
  assumes "\<And>k. k < 8 \<Longrightarrow> w' (q + 8 * of_nat k) = w (q + 8 * of_nat k)"
  shows "load_frame w' q = load_frame w q"
  using assms [of 0] assms [of 1] assms [of 2] assms [of 3] assms [of 4] assms [of 5] assms [of 6] assms [of 7]
  by (simp add: load_frame_def)

text \<open>The frame that a switch would save is data of a block.\<close>

definition runs_on :: "u64 \<Rightarrow> 'a task_state_scheme \<Rightarrow> bool" where
  "runs_on b s \<longleftrightarrow> (\<forall>a\<in>frame_cells (reg_rsp (regs s)) 8. data_word (hview s) b a)"

lemma created_runs:
  fixes s t :: "'a task_state_scheme"
  assumes cr: "created s A x e k p t" and k: "t_stack_pointer k = p + 8128"
    and cur: "current_task s = Some c" "ready_elems s = []" and b: "b \<in> A" "runs_on b s"
  shows "\<exists>u. schedule t = Some (True, u) \<and> sched_inv u \<and> sched_order u = [x, c] \<and> regs u = start_regs e (p + 8192) \<and>
    load_frame (hview u) (t_stack_pointer (task_at u c)) = regs s \<and>
    tss_rsp0 (tss_value u) = (if t_ring k = 3 then t_kernel_stack k + TASK_STACK_SIZE else tss_rsp0 (tss_value t))"
proof -
  note c = cr [unfolded created_def enlisted_def]
  let ?q = "p + 8128" and ?r = "reg_rsp (regs s)" and ?A = "insert (p - 16) A"
  let ?w = "put_words ?r (frame_regs (regs s)) (hview t)"
  obtain n where n: "task_at t x = k\<lparr>t_next := n\<rparr>" using c by blast
  have hm: "heap_ok t ?A" "heap_mapped t" using c by (auto simp: heap_ok_def)
  have kp: "keeps (hview s) (hview t) A" using c by blast
  have sv: "data_word (hview t) b a" if "a \<in> frame_cells ?r 8" for a
    using keeps_data(2) [OF kp b(1)] b(2) that by (simp add: runs_on_def)
  have "frame_cells (reg_rsp (regs t)) 8 \<subseteq> heap_words t"
    using c sv data_word_mapped [OF hm(1), of b] b(1) by auto
  moreover have ld: "t_stack_pointer (task_at t x) + 8 * of_nat j \<in> heap_words t" if "j < 8" for j
    using c that data_word_mapped [OF hm(1), of "p - 16"] n k by simp
  ultimately obtain u where u: "schedule t = Some (True, u)" "sched_inv u" "sched_order u = [x, c]" "hview u = ?w"
    "regs u = load_frame ?w ?q" "t_stack_pointer (task_at u c) = ?r - 64"
    "tss_rsp0 (tss_value u) = (if t_ring k = 3 then t_kernel_stack k + TASK_STACK_SIZE else tss_rsp0 (tss_value t))"
    using schedule_switches [of t c x "[]"] c cur hm(2) n k by auto
  have "load_frame ?w ?q = load_frame (hview t) ?q"
  proof (rule load_frame_cong)
    fix j :: nat assume "j < 8"
    then have "data_word (hview t) (p - 16) (?q + 8 * of_nat j)" using c by blast
    then have "\<not> data_word (hview t) b (?q + 8 * of_nat j)" using data_word_apart [OF hm(1), of "p - 16" b] b(1) c by auto
    then have "?q + 8 * of_nat j \<notin> frame_cells ?r (length (frame_regs (regs s)))" unfolding length_frame_regs using sv by blast
    then show "?w (?q + 8 * of_nat j) = hview t (?q + 8 * of_nat j)" by (rule put_words_other)
  qed
  then have "regs u = start_regs e (p + 8192)" using u(5) c by simp
  moreover have "load_frame (hview u) (?r - 64) = regs s" unfolding u(4) by (rule load_frame_saved) simp
  ultimately show ?thesis using u by simp
qed

section \<open>Properties of task creation\<close>

text \<open>
  C23. \<open>task_create\<close> always returns. It yields the lowest free slot of the table, now a ready kernel
  task with the next process number, queued behind every other task, whose stack is a block of
  at least 8 KiB that was not in use, and whose saved frame is the entry function with interrupts enabled
  and the top of that stack; the stacks of other tasks and all other allocated memory are unchanged. It yields a null
  pointer, and changes neither the tasks nor the allocated memory, only when all 32 slots are in use, or
  no free block has 8 KiB and fewer than six frames were free.
\<close>

theorem task_create_queues:
  fixes s :: "'a task_state_scheme"
  assumes "heap_ok s A" "sched_inv s" "heap_room s 12310" "uart_live s"
  shows "\<exists>r t. task_create entry s = Some (r, t) \<and>
    (case r of
       None \<Rightarrow> (find_slot s = None \<or> \<not> fits s TASK_STACK_SIZE \<and> card (pmm_avail s) < 6) \<and> heap_ok t A \<and> heap_frame s t
     | Some x \<Rightarrow> find_slot s = Some x \<and>
         (\<exists>p. created s A x entry (kernel_task (next_pid s) p (p + 8128) (task_at s x)) p t))"
proof (cases "find_slot s")
  case None
  then show ?thesis using assms(1) by (simp add: task_create_def)
next
  case (Some x)
  have "t_state (kernel_task pid st sp k) = TASK_READY" for pid st sp k by (simp add: kernel_task_def)
  with spawn_spec [OF assms find_slot_Some [OF Some]]
  obtain r t where "spawn x (\<lambda>_. entry) LOG_DEBUG (cstr ''task_create pid='') kernel_task s = Some (r, t)"
    "r = None \<and> \<not> fits s TASK_STACK_SIZE \<and> card (pmm_avail s) < 6 \<and> heap_ok t A \<and> heap_frame s t \<or>
     r = Some x \<and> (\<exists>p. created s A x entry (kernel_task (next_pid s) p (p + 8128) (task_at s x)) p t)"
    by meson
  then show ?thesis using Some by (intro exI [of _ r] exI [of _ t]) (auto simp: task_create_spawn)
qed



section \<open>Starting the scheduler\<close>

text \<open>The entries of the boot task and the idle task.\<close>

definition boot_task :: "u64 \<Rightarrow> task_t" where
  "boot_task pid = zero_task\<lparr>t_pid := pid, t_state := TASK_RUNNING, t_time_slice := TIME_SLICE\<rparr>"

definition idle_task :: "u64 \<Rightarrow> u64 \<Rightarrow> task_t" where
  "idle_task pid stack = zero_task\<lparr>t_pid := pid, t_state := TASK_READY, t_time_slice := TIME_SLICE, t_kernel_stack := stack,
     t_stack_pointer := stack + 8128\<rparr>"

text \<open>The table after the start: two tasks and 30 free slots.\<close>

definition started :: "u64 \<Rightarrow> u64 \<Rightarrow> 'a task_state_scheme \<Rightarrow> bool" where
  "started pid stack t \<longleftrightarrow> task_table t = boot_task pid # idle_task (pid + 1) stack # replicate 30 zero_task \<and>
     current_task t = Some 0 \<and> ready_head t = Some 1 \<and> ready_tail t = Some 1 \<and> next_pid t = pid + 2"

lemma started_inv:
  assumes "started pid stack t"
  shows "sched_inv t" "sched_order t = [0, 1]" "find_slot t = Some 2"
proof -
  note st = assms [unfolded started_def]
  have at: "task_at t 1 = idle_task (pid + 1) stack" "task_at t 0 = boot_task pid" "\<And>i. 1 < i \<Longrightarrow> i < MAX_TASKS \<Longrightarrow> task_at t i = zero_task"
    using st by (auto simp: MAX_TASKS_def nth_Cons')
  have r: "ready_inv t" "ready_elems t = [1]"
    using ready_invI [of t "[1]"] st at(1) by (auto simp: MAX_TASKS_def idle_task_def zero_task_def)
  have "(t_state (task_at t i) = TASK_RUNNING) = (i = 0)" if "i < MAX_TASKS" for i
    using at that by (cases "i = 0"; cases "i = 1") (auto simp: idle_task_def boot_task_def zero_task_def)
  then show "sched_inv t" using r st at(1) by (auto simp: sched_inv_def MAX_TASKS_def idle_task_def)
  show "sched_order t = [0, 1]" using r st by (simp add: sched_order_def)
  have "[0..<MAX_TASKS] = 0 # 1 # 2 # [3..<MAX_TASKS]" by (simp add: MAX_TASKS_def upt_rec)
  then show "find_slot t = Some 2" using at(1,2) at(3) [of 2]
    by (simp add: find_slot_def idle_task_def boot_task_def zero_task_def MAX_TASKS_def)
qed

lemma allocated_set_task:
  fixes s t :: "'a task_state_scheme"
  assumes "allocated s A n p t"
  shows "allocated (set_task i f s) A n p (set_task i f t)"
proof -
  obtain m b u e fl us where "t = s\<lparr>mem := m, bitmap := b, used_frames := u, heap_end := e, free_list := fl, heap_used_bytes := us\<rparr>"
    using assms by (auto simp: allocated_def elim: heap_frameE)
  moreover have "spares (set_task i f s) (set_task i f t)" "spends (set_task i f s) (set_task i f t)"
    unfolding heap_same_both [OF heap_same_task(2) heap_same_task(2)] using assms heap_frameD [of s t] by (simp_all add: allocated_def)
  ultimately have "heap_frame (set_task i f s) (set_task i f t)" by (simp add: heap_frame_def set_task_def)
  moreover have "heap_ok (set_task i f t) B = heap_ok t B" for B
    by (rule heap_ok_same) (simp_all add: set_task_def heap_same_def)
  ultimately show ?thesis using assms by (simp add: allocated_def)
qed

lemma kinit_task_spec:
  fixes s :: "'a task_state_scheme"
  assumes "heap_ok s A" "ready_head s = None" "heap_room s 12310" "uart_live s"
    and mem: "fits s TASK_STACK_SIZE \<or> 6 \<le> card (pmm_avail s)"
  shows "\<exists>t p. kinit_task s = Some t \<and> started (next_pid s) p t \<and> sched_inv t \<and> sched_order t = [0, 1] \<and>
    p - 16 \<notin> A \<and> heap_ok t (insert (p - 16) A) \<and> keeps (hview s) (hview t) A \<and>
    load_frame (hview t) (p + 8128) = start_regs (sym_idle_entry (syms s)) (p + 8192) \<and>
    (\<forall>k<8. data_word (hview t) (p - 16) (p + 8128 + 8 * of_nat k)) \<and>
    spares s t \<and> spends s t \<and> unat (heap_end t) \<le> unat (heap_end s) + 12310 \<and> io_in t = io_in s \<and> syms t = syms s \<and> regs t = regs s \<and> dev_same s t"
proof -
  let ?T = "boot_task (next_pid s) # zero_task\<lparr>t_pid := next_pid s + 1, t_state := TASK_READY, t_time_slice := TIME_SLICE\<rparr> # replicate 30 zero_task"
  let ?s0 = "s\<lparr>task_table := ?T, next_pid := next_pid s + 2, current_task := Some 0\<rparr>"
  have hs: "heap_same s ?s0" "free_list ?s0 = free_list s" by (simp_all add: heap_same_def)
  note h0 = heap_same_mapped [OF hs(1)] heap_ok_same [OF hs]
  have al8: "align_up TASK_STACK_SIZE 8 = TASK_STACK_SIZE" by (simp add: align_up_def TASK_STACK_SIZE_def)
  obtain p s1 where km: "kmalloc TASK_STACK_SIZE ?s0 = Some (p, s1)" and al: "allocated ?s0 A TASK_STACK_SIZE p s1"
    and room: "unat (heap_end s1) \<le> unat (heap_end s) + 12310"
    using kmalloc_cases [of ?s0 A TASK_STACK_SIZE] assms(1,3) mem h0 al8 by (auto simp: TASK_STACK_SIZE_def)
  obtain m b n en fl us where e1: "s1 = ?s0\<lparr>mem := m, bitmap := b, used_frames := n, heap_end := en, free_list := fl, heap_used_bytes := us\<rparr>"
    using al by (auto simp: allocated_def elim: heap_frameE)
  let ?f = "\<lambda>k. k\<lparr>t_kernel_stack := p\<rparr>" and ?e = "sym_idle_entry (syms s)"
  have al1: "allocated (set_task 1 ?f ?s0) A TASK_STACK_SIZE p (set_task 1 ?f s1)"
    by (rule allocated_set_task [OF al])
  obtain s2 where s2: "put_down (initial_frame ?e) (p + TASK_STACK_SIZE) (set_task 1 ?f s1) = Some (p + 8128, s2)" "heap_wrote (set_task 1 ?f s1) s2"
    "heap_ok s2 (insert (p - 16) A)" "keeps (hview ?s0) (hview s2) A"
    "load_frame (hview s2) (p + 8128) = start_regs ?e (p + 8192)" "\<forall>k<8. data_word (hview s2) (p - 16) (p + 8128 + 8 * of_nat k)"
    using stack_filled [OF al1] by auto
  obtain m' where e2: "s2 = (set_task 1 ?f s1)\<lparr>mem := m'\<rparr>" using heap_wrote_heap(6) [OF s2(2)] by (rule mem_eqE)
  let ?t = "s2\<lparr>task_table := boot_task (next_pid s) # idle_task (next_pid s + 1) p # replicate 30 zero_task, ready_head := Some 1, ready_tail := Some 1\<rparr>"
  have "uart_live ?t" using assms(4) by (simp add: uart_live_def e1 e2 set_task_def)
  then obtain u where u: "klog LOG_INFO (cstr ''Task: scheduler initialized (boot=1 idle=2)'' @ [10]) ?t = Some u" "io_eq ?t u"
    using klog_spec by blast
  have tab: "replicate MAX_TASKS zero_task = zero_task # zero_task # replicate 30 zero_task" by (simp add: MAX_TASKS_def eval_nat_numeral)
  have bt: "zero_task\<lparr>t_pid := n, t_state := TASK_RUNNING, t_kernel_stack := 0, t_stack_pointer := 0, t_time_slice := TIME_SLICE,
      t_ring := 0, t_cr3 := 0\<rparr> = boot_task n" for n by (simp add: boot_task_def zero_task_def)
  have "kinit_task s = do { (stack, s) \<leftarrow> kmalloc TASK_STACK_SIZE ?s0;
      let s = set_task 1 (\<lambda>k. k\<lparr>t_kernel_stack := stack\<rparr>) s;
      (sp, s) \<leftarrow> put_down (initial_frame (sym_idle_entry (syms s))) (stack + TASK_STACK_SIZE) s;
      let s = set_task 1 (\<lambda>k. k\<lparr>t_stack_pointer := sp\<rparr>) s;
      s \<leftarrow> ready_list_add 1 s;
      klog LOG_INFO (cstr ''Task: scheduler initialized (boot=1 idle=2)'' @ [10]) s }"
    unfolding kinit_task_def Let_def
    by (rule arg_cong2 [where f = Option.bind, OF arg_cong [where f = "kmalloc TASK_STACK_SIZE"] refl]) (simp add: set_task_def tab bt)
  moreover have "syms (set_task 1 ?f s1) = syms s" by (simp add: e1 set_task_def)
  moreover have "ready_list_add 1 (set_task 1 (\<lambda>k. k\<lparr>t_stack_pointer := p + 8128\<rparr>) s2) = Some ?t"
    using assms(2) by (simp add: ready_list_add_def Let_def set_task_def e1 e2 idle_task_def zero_task_def)
  ultimately have "kinit_task s = Some u" using km s2(1) u(1) by simp
  moreover have st: "started (next_pid s) p u" using u(2) by (auto elim!: io_eqE simp: started_def e1 e2 set_task_def)
  moreover have "heap_ok u (insert (p - 16) A)" "hview u = hview s2" "spares s u" "spends s u"
  proof -
    have su: "heap_same s2 u" "free_list u = free_list s2" using u(2) by (auto elim!: io_eqE simp: heap_same_def)
    have fr: "heap_frame (set_task 1 ?f ?s0) s2"
      using al1 heap_wrote_heap(5) [OF s2(2)] heap_frame_trans by (auto simp: allocated_def)
    have e: "heap_same s (set_task 1 ?f ?s0)" by (rule heap_same_trans [OF hs(1) heap_same_task(2)])
    show "spares s u" by (rule spares_trans [OF heap_same_foreign(2) [OF e] spares_trans [OF heap_frameD(1) [OF fr] heap_same_foreign(2) [OF su(1)]]])
    show "spends s u" by (rule spends_trans [OF heap_same_foreign(3) [OF e] spends_trans [OF heap_frameD(2) [OF fr] heap_same_foreign(3) [OF su(1)]]])
    from su show "heap_ok u (insert (p - 16) A)" "hview u = hview s2" using heap_ok_same heap_same_mapped s2(3) by auto
  qed
  moreover have "heap_end u = heap_end s1" "io_in u = io_in s" "syms u = syms s" "regs u = regs s" "dev_same s u"
    using u(2) by (auto elim!: io_eqE simp: e1 e2 set_task_def dev_same_def)
  ultimately show ?thesis
    using room started_inv [OF st] s2(4-6) al h0(2) by (intro exI [of _ u] exI [of _ p]) (simp add: allocated_def)
qed

text \<open>
  \<open>kinit_task\<close>, given memory for the idle task's stack, leaves exactly two tasks: the boot task,
  running, with the next process number, and the idle task, ready with the one after, whose saved frame on
  a fresh block makes the first switch to it enter the idle loop with interrupts enabled. The scheduling
  invariant holds and the other thirty slots are free.
\<close>

theorem kinit_task_ready:
  fixes s :: "'a task_state_scheme"
  assumes "heap_ok s A" "ready_head s = None" "heap_room s 12310" "uart_live s"
    and mem: "fits s TASK_STACK_SIZE \<or> 6 \<le> card (pmm_avail s)"
  shows "\<exists>t p. kinit_task s = Some t \<and> started (next_pid s) p t \<and> sched_inv t \<and> sched_order t = [0, 1] \<and>
    p - 16 \<notin> A \<and> heap_ok t (insert (p - 16) A) \<and> keeps (hview s) (hview t) A \<and>
    load_frame (hview t) (p + 8128) = start_regs (sym_idle_entry (syms s)) (p + 8192)"
  using kinit_task_spec [OF assms] by meson

end
