(* ===== verification/Prism_Tasksample.thy ===== *)
theory Prism_Tasksample
  imports Prism_Newtask
begin

text \<open>
  Tasks on a small machine: the properties of the scheduler, of context switches and of task
  creation applied to the states that the boot sequence and the allocator reach.
\<close>

section \<open>A machine with tasks\<close>

definition task_sample :: task_state where
  "task_sample = heap_state.extend heap_sample (task_state.fields [] 1 None None None)"

lemmas task_sample_defs = task_sample_def heap_state.defs task_state.defs heap_sample_def paging_sample_def paging_boot_defs

lemma task_sample_like: "like_sample task_sample" "uart_live task_sample" "heap_used_bytes task_sample = 0"
  by (simp_all add: like_sample_def uart_live_def task_sample_defs) (auto simp: vga_boot_def)

lemma heap_room_sample:
  assumes "heap_ok u A" "heap_size u = 16384" "n < 0x10000000"
  shows "heap_room u n"
proof -
  have "heap_end u = HEAP_START + 16384"
    using assms heap_mappedD(2) [of u] by (simp add: heap_size_def heap_ok_def algebra_simps)
  then show ?thesis using assms(3) by (simp add: HEAP_START_def HIGHER_HALF_BASE_def)
qed

text \<open>A heap that has been set up, on the sample or any machine like it.\<close>

definition heap_booted :: "'a task_state_scheme \<Rightarrow> 'a task_state_scheme \<Rightarrow> bool" where
  "heap_booted s u \<longleftrightarrow> (\<exists>t. paging_init s = Some t \<and> heap_init t = Some (0, u))"

lemma sample_heap_booted:
  fixes s :: "'a task_state_scheme"
  assumes "like_sample s" "uart_live s"
  obtains u where "heap_booted s u" "heap_ok u {}" "one_block u" "heap_size u = 16384" "uart_live u"
    "next_pid u = next_pid s" "ready_head u = ready_head s"
proof -
  obtain t u where u: "paging_init s = Some t" "heap_init t = Some (0, u)" "heap_ok u {}" "one_block u" "heap_size u = 16384" "rest_same s u"
    using sample_heap [OF assms(1)] by blast
  have "uart_live u" using assms(2) u(6) by (simp add: uart_live_def rest_same_def)
  moreover have "next_pid u = next_pid s" "ready_head u = ready_head s"
    using u(6) by (simp_all add: rest_same_def task_state.simps) (cases s; cases u; simp)+
  moreover have "heap_booted s u" using u(1,2) by (auto simp: heap_booted_def)
  ultimately show thesis using that u by blast
qed

section \<open>Starting the scheduler\<close>

theorem kinit_task_ready_witness:
  "\<exists>u v p. heap_booted task_sample u \<and> kinit_task u = Some v \<and> started 1 p v \<and> sched_inv v \<and> sched_order v = [0, 1]"
proof -
  obtain u where u: "heap_booted task_sample u" "heap_ok u {}" "one_block u" "heap_size u = 16384" "uart_live u"
    "next_pid u = next_pid task_sample" "ready_head u = ready_head task_sample"
    using sample_heap_booted [OF task_sample_like(1,2)] by blast
  have "next_pid u = 1" "ready_head u = None" using u(6,7) by (simp_all add: task_sample_def heap_state.defs task_state.defs)
  moreover have "fits u TASK_STACK_SIZE" by (rule one_block_fits [OF u(3)]) (simp add: TASK_STACK_SIZE_def)
  ultimately show ?thesis using kinit_task_ready [OF u(2) _ heap_room_sample [OF u(2,4)] u(5)] u(1) by auto
qed

definition two_tasks :: task_state where
  "two_tasks = task_sample\<lparr>task_table := boot_task 1 # idle_task 2 0 # replicate 30 zero_task, next_pid := 3,
     current_task := Some 0, ready_head := Some 1, ready_tail := Some 1\<rparr>"

theorem schedule_round_robin_witness:
  "sched_order two_tasks = [0, 1] \<and> (\<exists>t. decisions 1 two_tasks = Some t \<and> sched_inv t \<and> current_task t = Some 1 \<and> sched_order t = [1, 0])"
proof -
  have st: "started 1 0 two_tasks" by (simp add: started_def two_tasks_def)
  note i = started_inv [OF st]
  have e: "ready_elems two_tasks = [1]" using i(2) by (simp add: sched_order_def)
  from schedule_round_robin [OF i(1), of 0] i(2) e show ?thesis by auto
qed

section \<open>A task on a stack in the heap\<close>

definition on_stack :: "u64 \<Rightarrow> 'a task_state_scheme \<Rightarrow> 'a task_state_scheme" where
  "on_stack p v = v\<lparr>task_table := boot_task 1 # replicate 31 zero_task, next_pid := 2, current_task := Some 0,
     ready_head := None, ready_tail := None, regs := (regs v)\<lparr>reg_rsp := p + 1024\<rparr>\<rparr>"

lemma on_stack_sched:
  "sched_inv (on_stack p v)" "ready_elems (on_stack p v) = []" "current_task (on_stack p v) = Some 0" "find_slot (on_stack p v) = Some 1"
proof -
  let ?s = "on_stack p v"
  have at: "task_at ?s 0 = boot_task 1" "\<And>i. 0 < i \<Longrightarrow> i < MAX_TASKS \<Longrightarrow> task_at ?s i = zero_task"
    by (auto simp: on_stack_def MAX_TASKS_def nth_Cons')
  have r: "ready_inv ?s" "ready_elems ?s = []" using ready_invI [of ?s "[]"] by (simp_all add: on_stack_def MAX_TASKS_def)
  have "(t_state (task_at ?s i) = TASK_RUNNING) = (i = 0)" if "i < MAX_TASKS" for i
    using at that by (cases "i = 0") (auto simp: boot_task_def zero_task_def)
  then show "sched_inv ?s" using r by (auto simp: sched_inv_def MAX_TASKS_def on_stack_def)
  show "ready_elems ?s = []" by (rule r(2))
  show "current_task ?s = Some 0" by (simp add: on_stack_def)
  have "[0..<MAX_TASKS] = 0 # 1 # [2..<MAX_TASKS]" by (simp add: MAX_TASKS_def upt_rec)
  then show "find_slot ?s = Some 1" using at(1) at(2) [of 1] by (simp add: find_slot_def boot_task_def zero_task_def MAX_TASKS_def)
qed

lemma on_stack_heap:
  fixes v :: "'a task_state_scheme"
  shows "heap_same v (on_stack p v)" "free_list (on_stack p v) = free_list v"
  by (simp_all add: heap_same_def on_stack_def)

lemma sample_stack:
  fixes s :: "'a task_state_scheme"
  assumes "like_sample s" "uart_live s"
  obtains u p v where "heap_booted s u" "kmalloc 1024 u = Some (p, v)" "allocated u {} 1024 p v"
    "heap_ok (on_stack p v) {p - 16}" "fits (on_stack p v) TASK_STACK_SIZE" "heap_room (on_stack p v) 12310" "uart_live (on_stack p v)"
    "\<And>j. 8 * j + 8 \<le> 1024 \<Longrightarrow> data_word (hview (on_stack p v)) (p - 16) (p + of_nat (8 * j))"
proof -
  obtain u where u: "heap_booted s u" "heap_ok u {}" "one_block u" "heap_size u = 16384" "uart_live u"
    using sample_heap_booted [OF assms] by blast
  have n: "align_up 1024 8 = 1024" by (simp add: align_up_def)
  obtain p v where p: "kmalloc 1024 u = Some (p, v)" "allocated u {} 1024 p v" "block_taken u 1024 p v"
    using kmalloc_fits [OF u(2), of 1024] one_block_fits [OF u(3), of 1024] n by auto
  note h = heap_same_mapped [OF on_stack_heap(1) [where v = v and p = p]] heap_ok_same [OF on_stack_heap [where v = v and p = p]]
  have ok: "heap_ok (on_stack p v) {p - 16}" using p(2) h by (simp add: allocated_def)
  have "p - 16 = HEAP_START"
    using p(3) u(3) seg_unique [of "hview u" "free_list u" "[HEAP_START]"] by (fastforce simp: block_taken_def one_block_def)
  then obtain F b where "seg (hview v) (free_list v) F 0" "b \<in> set F" "hview v b = 15328"
    using p(3) u(3) by (auto simp: block_taken_def one_block_def)
  then have ft: "fits (on_stack p v) TASK_STACK_SIZE"
    unfolding h by (auto simp: fits_def TASK_STACK_SIZE_def intro!: exI [of _ F] bexI [of _ b])
  have "heap_size (on_stack p v) = 16384"
    using p(2,3) u(4) by (auto simp: heap_size_def on_stack_def block_taken_def allocated_def elim!: heap_frameE)
  then have rm: "heap_room (on_stack p v) 12310" by (rule heap_room_sample [OF ok]) simp
  have ua: "uart_live (on_stack p v)"
    using p(2) u(5) by (auto simp: uart_live_def on_stack_def allocated_def elim!: heap_frameE)
  have dw: "data_word (hview (on_stack p v)) (p - 16) (p + of_nat (8 * j))" if "8 * j + 8 \<le> 1024" for j
    using allocated_cells(1) [OF p(2)] that h by simp
  show thesis by (rule that [OF u(1) p(1,2) ok ft rm ua dw])
qed

lemma stack_cells:
  assumes "\<And>j. 8 * j + 8 \<le> 1024 \<Longrightarrow> P (p + of_nat (8 * j))" "a \<in> frame_cells (p + 1024) 8"
  shows "P (a :: u64)"
proof -
  obtain k where k: "0 < k" "k \<le> 8" "a = p + 1024 - 8 * of_nat k" using frame_cells_address [OF assms(2)] by blast
  then have e: "a = p + of_nat (8 * (128 - k))" by (simp add: of_nat_diff algebra_simps)
  show ?thesis unfolding e using k by (intro assms(1)) simp
qed

lemma on_stack_runs:
  assumes "\<And>j. 8 * j + 8 \<le> 1024 \<Longrightarrow> data_word (hview (on_stack p v)) (p - 16) (p + of_nat (8 * j))"
  shows "runs_on (p - 16) (on_stack p v)"
  unfolding runs_on_def
proof
  fix a assume "a \<in> frame_cells (reg_rsp (regs (on_stack p v))) 8"
  then have "a \<in> frame_cells (p + 1024) 8" by (simp add: on_stack_def)
  then show "data_word (hview (on_stack p v)) (p - 16) a" using stack_cells [where P = "data_word (hview (on_stack p v)) (p - 16)"] assms by blast
qed

theorem task_create_queues_witness:
  "\<exists>u p v t q. heap_booted task_sample u \<and> kmalloc 1024 u = Some (p, v) \<and> task_create 0x5000 (on_stack p v) = Some (Some 1, t) \<and>
     created (on_stack p v) {p - 16} 1 0x5000 (kernel_task 2 q (q + 8128) zero_task) q t"
proof -
  obtain u p v where u: "heap_booted task_sample u" "kmalloc 1024 u = Some (p, v)" "heap_ok (on_stack p v) {p - 16}"
    "fits (on_stack p v) TASK_STACK_SIZE" "heap_room (on_stack p v) 12310" "uart_live (on_stack p v)" by (rule sample_stack [OF task_sample_like(1,2)])
  have "task_at (on_stack p v) 1 = zero_task" "next_pid (on_stack p v) = 2" by (simp_all add: on_stack_def)
  with task_create_queues [OF u(3) on_stack_sched(1) u(5,6), where entry = "0x5000"] on_stack_sched(4) [of p v] u show ?thesis
    by (auto split: option.splits)
qed

lemma sample_spawn:
  assumes "heap_ok (on_stack p v) {p - 16}" "fits (on_stack p v) TASK_STACK_SIZE" "heap_room (on_stack p v) 12310" "uart_live (on_stack p v)"
    and g: "\<And>pid st sp k. t_state (g pid st sp k) = TASK_READY"
  shows "\<exists>t. spawn 1 e lvl msg g (on_stack p v) = Some (Some 1, t)"
  using spawn_spec [OF assms(1) on_stack_sched(1) assms(3,4) find_slot_Some [OF on_stack_sched(4)], where g = g and e = e and lvl = lvl and msg = msg] g assms(2)
  by auto



theorem context_switch_resumes_witness:
  "\<exists>u p v t w. heap_booted task_sample u \<and> kmalloc 1024 u = Some (p, v) \<and> context_switch 0 p (on_stack p v) = Some t \<and>
     context_switch 1 (t_stack_pointer (task_at t 0)) (t\<lparr>regs := (regs t)\<lparr>reg_rsp := p + 512\<rparr>\<rparr>) = Some w \<and> regs w = regs (on_stack p v)"
proof -
  obtain u p v where u: "heap_booted task_sample u" "kmalloc 1024 u = Some (p, v)" "allocated u {} 1024 p v"
    "heap_ok (on_stack p v) {p - 16}" "fits (on_stack p v) TASK_STACK_SIZE" "heap_room (on_stack p v) 12310" "uart_live (on_stack p v)"
    and d: "\<And>j. 8 * j + 8 \<le> 1024 \<Longrightarrow> data_word (hview (on_stack p v)) (p - 16) (p + of_nat (8 * j))"
    by (rule sample_stack [OF task_sample_like(1,2)]) blast
  let ?s = "on_stack p v"
  have hm: "heap_mapped ?s" and rs: "reg_rsp (regs ?s) = p + 1024" using u(4) by (simp_all add: heap_ok_def on_stack_def)
  have wd: "p + of_nat (8 * j) \<in> heap_words ?s" if "8 * j + 8 \<le> 1024" for j by (rule data_word_mapped [OF u(4) _ d [OF that]]) simp
  have sv: "frame_cells (reg_rsp (regs ?s)) 8 \<subseteq> heap_words ?s"
    unfolding rs using stack_cells [where P = "\<lambda>a. a \<in> heap_words ?s"] wd by blast
  have ld: "p + 8 * of_nat k \<in> heap_words ?s" if "k < 8" for k using wd [of k] that by simp
  obtain t where t: "context_switch 0 p ?s = Some t" "stack_at (set_task 0 (\<lambda>k. k\<lparr>t_stack_pointer := reg_rsp (regs ?s) - 64\<rparr>) ?s)
      (put_words (reg_rsp (regs ?s)) (frame_regs (regs ?s)) (hview ?s)) (load_frame (put_words (reg_rsp (regs ?s)) (frame_regs (regs ?s)) (hview ?s)) p) t"
    using context_switch_at [OF hm sv ld, of 0] by blast
  let ?u = "t\<lparr>regs := (regs t)\<lparr>reg_rsp := p + 512\<rparr>\<rparr>"
  have f: "heap_mapped ?u" "heap_words ?u = heap_words ?s" using stack_at_fields(2,3) [OF t(2)] by simp_all
  have apart: "a \<notin> frame_cells (p + 512) (length (frame_regs (regs ?u)))" if a: "a \<in> frame_cells (p + 1024) 8" for a
  proof
    assume "a \<in> frame_cells (p + 512) (length (frame_regs (regs ?u)))"
    then obtain j where j: "j \<le> 8" "a = p + 512 - 8 * of_nat j" unfolding length_frame_regs by (auto dest: frame_cells_address)
    obtain k where k: "k \<le> 8" "a = p + 1024 - 8 * of_nat k" using frame_cells_address [OF a] by blast
    have "(of_nat (512 + 8 * j) :: u64) = of_nat (8 * k)" using j(2) k(2) by (simp add: algebra_simps)
    then have "512 + 8 * j = 8 * k" unfolding word_of_nat_eq_iff take_bit_eq_mod using j(1) k(1) by simp
    then show False using k(1) by simp
  qed
  have su: "frame_cells (reg_rsp (regs ?u)) 8 \<subseteq> heap_words ?u"
  proof
    fix a assume "a \<in> frame_cells (reg_rsp (regs ?u)) 8"
    then obtain k where "0 < k" "k \<le> 8" "a = p + 512 - 8 * of_nat k" by (auto dest!: frame_cells_address)
    then have "a = p + of_nat (8 * (64 - k))" by (simp add: of_nat_diff algebra_simps)
    with wd [of "64 - k"] f(2) show "a \<in> heap_words ?u" by simp
  qed
  have "\<exists>w. context_switch 1 (t_stack_pointer (task_at t 0)) ?u = Some w \<and> regs w = regs ?s"
  proof (rule context_switch_resumes [OF hm sv _ ld t(1) f(1) _ su])
    fix a assume "a \<in> frame_cells (reg_rsp (regs ?s)) 8"
    then have "a \<in> frame_cells (p + 1024) 8" by (simp add: rs)
    from put_words_other [OF apart [OF this]]
    show "put_words (reg_rsp (regs ?u)) (frame_regs (regs ?u)) (hview ?u) a = hview t a" by simp
  qed (use f(2) in \<open>simp_all add: on_stack_def\<close>)
  with t(1) u(1,2) show ?thesis by blast
qed

section \<open>Two tasks in the heap\<close>

text \<open>After the creation of a second task the first, on its stack in the heap, can be switched away.\<close>

lemma sample_two_tasks:
  fixes s :: "'a task_state_scheme"
  assumes "like_sample s" "uart_live s"
  obtains u p v t where "heap_booted s u" "kmalloc 1024 u = Some (p, v)" "task_create e (on_stack p v) = Some (Some 1, t)"
    "sched_inv t" "current_task t = Some 0" "ready_elems t = [1]" "uart_live t" "heap_mapped t"
    "frame_cells (reg_rsp (regs t)) 8 \<subseteq> heap_words t"
    "\<And>k. k < 8 \<Longrightarrow> t_stack_pointer (task_at t 1) + 8 * of_nat k \<in> heap_words t"
proof -
  obtain u p v where u: "heap_booted s u" "kmalloc 1024 u = Some (p, v)" "allocated u {} 1024 p v"
    "heap_ok (on_stack p v) {p - 16}" "fits (on_stack p v) TASK_STACK_SIZE" "heap_room (on_stack p v) 12310" "uart_live (on_stack p v)"
    and d: "\<And>j. 8 * j + 8 \<le> 1024 \<Longrightarrow> data_word (hview (on_stack p v)) (p - 16) (p + of_nat (8 * j))"
    by (rule sample_stack [OF assms]) blast
  have g: "t_state (kernel_task pid st sp k) = TASK_READY" for pid st sp k by (simp add: kernel_task_def)
  let ?s = "on_stack p v" and ?k = "\<lambda>q. kernel_task 2 q (q + 8128) (task_at (on_stack p v) 1)"
  obtain t q where t: "task_create e ?s = Some (Some 1, t)" and cr: "created ?s {p - 16} 1 e (?k q) q t"
    using spawn_spec [OF u(4) on_stack_sched(1) u(6,7) find_slot_Some [OF on_stack_sched(4)], where g = kernel_task and e = "\<lambda>_. e"
        and lvl = LOG_DEBUG and msg = "cstr ''task_create pid=''", OF g] u(5) on_stack_sched(4) [of p v]
    by (auto simp: task_create_spawn on_stack_def)
  note c = cr [unfolded created_def enlisted_def]
  have ok: "heap_ok t {q - 16, p - 16}" using c by simp
  have kp: "keeps (hview ?s) (hview t) {p - 16}" using c by simp
  have wd: "p + of_nat (8 * j) \<in> heap_words t" if "8 * j + 8 \<le> 1024" for j
    using keeps_data(2) [OF kp singletonI] d [OF that] by (intro data_word_mapped [OF ok, of "p - 16"]) simp_all
  have "reg_rsp (regs t) = p + 1024" using c by (simp add: on_stack_def)
  then have sv: "frame_cells (reg_rsp (regs t)) 8 \<subseteq> heap_words t" using stack_cells [where P = "\<lambda>a. a \<in> heap_words t"] wd by auto
  have sp: "t_stack_pointer (task_at t 1) = q + 8128" using c by (auto simp: kernel_task_def)
  have ld: "t_stack_pointer (task_at t 1) + 8 * of_nat j \<in> heap_words t" if "j < 8" for j
    unfolding sp using c that by (intro data_word_mapped [OF ok, of "q - 16"]) auto
  have sc: "sched_inv t" "current_task t = Some 0" "ready_elems t = [1]" using c on_stack_sched(2,3) [of p v] by auto
  have lv: "uart_live t" using c u(7) by (simp add: uart_live_def)
  have hm: "heap_mapped t" using ok by (simp add: heap_ok_def)
  show thesis by (rule that [OF u(1,2) t sc lv hm sv ld])
qed

end
