(* ===== verification/Prism_Interrupts.thy ===== *)
theory Prism_Interrupts
  imports Prism_Tasksample
begin

text \<open>
  Interrupts: the timer (\<^verbatim>\<open>drivers/timer.c\<close>) and the dispatcher of all interrupts
  (\<^verbatim>\<open>isr/isr.c\<close>), which calls the registered handler of a hardware interrupt and reports an
  exception. The halt instruction is a parameter of the waiting loop: a function from the state before
  it to the state when execution goes on, after the interrupts that were served meanwhile.
\<close>

section \<open>The timer\<close>

record timer_state = task_state +
  timer_ticks :: u64
  cr2_reg :: u64

definition PIT_CHANNEL0_CMD :: u16 where "PIT_CHANNEL0_CMD = 0x40"
definition PIT_COMMAND_PORT :: u16 where "PIT_COMMAND_PORT = 0x43"

definition timer_irq_handler :: "'a timer_state_scheme \<Rightarrow> (bool \<times> 'a timer_state_scheme) option" where
  "timer_irq_handler s =
     (let s = s\<lparr>timer_ticks := timer_ticks s + 1\<rparr>;
          s = pic_send_eoi 0 s
      in schedule s)"

definition kinit_timer :: "'a timer_state_scheme \<Rightarrow> 'a timer_state_scheme" where
  "kinit_timer s =
     (let divisor = (1193180 div 100 :: u32);
          s = outb PIT_COMMAND_PORT 0x36 s;
          s = outb PIT_CHANNEL0_CMD (ucast (divisor AND 0xFF)) s;
          s = outb PIT_CHANNEL0_CMD (ucast (drop_bit 8 divisor AND 0xFF)) s;
          s = isr_register_irq 0 Timer_irq_handler s
      in kprint (cstr ''Timer: PIT ch0 @ 100Hz configured'' @ [10]) s)"

definition timer_get_ticks :: "'a timer_state_scheme \<Rightarrow> u64" where
  "timer_get_ticks s = timer_ticks s"

partial_function (option) timer_wait_loop ::
  "('a timer_state_scheme \<Rightarrow> 'a timer_state_scheme) \<Rightarrow> u64 \<Rightarrow> u32 \<Rightarrow> 'a timer_state_scheme \<Rightarrow> 'a timer_state_scheme option" where
  "timer_wait_loop hlt start ticks s =
     (if timer_ticks s - start < ucast ticks then timer_wait_loop hlt start ticks (hlt s) else Some s)"

definition timer_wait ::
  "('a timer_state_scheme \<Rightarrow> 'a timer_state_scheme) \<Rightarrow> u32 \<Rightarrow> 'a timer_state_scheme \<Rightarrow> 'a timer_state_scheme option" where
  "timer_wait hlt ticks s = timer_wait_loop hlt (timer_ticks s) ticks s"

section \<open>The dispatcher\<close>

text \<open>How a call of \<open>isr_handler_c\<close> ends: it returns, a handler switched to another task, or it halts for good.\<close>

datatype isr_end = Isr_returns | Isr_switches | Isr_halts

definition call_irq_handler :: "irq_handler_fn \<Rightarrow> 'a timer_state_scheme \<Rightarrow> (bool \<times> 'a timer_state_scheme) option" where
  "call_irq_handler h s =
     (case h of Timer_irq_handler \<Rightarrow> timer_irq_handler s | Keyboard_irq_handler \<Rightarrow> Some (False, keyboard_irq_handler s))"

definition exceptions :: "cstring list" where
  "exceptions = map cstr [''Div By Zero'', ''Debug'', ''NMI'', ''Breakpoint'', ''Overflow'',
     ''Bounds'', ''Inv Opcode'', ''Coprocessor'', ''Double Fault'',
     ''Copro Overrun'', ''Invalid TSS'', ''Seg Not Pres'', ''Stack Fault'',
     ''GPF'', ''Page Fault'', ''x87 FP'', ''Alignment'', ''MChi'',
     ''SIMD FP'', ''Virt'', ''Control Prot'']"

definition exception_name :: "u8 \<Rightarrow> cstring" where
  "exception_name vector = (if vector < 21 then exceptions ! unat vector else cstr ''Reserved'')"

definition vector_digits :: "u8 \<Rightarrow> cstring" where
  "vector_digits vector = [hex_upper ! unat (drop_bit 4 vector AND 0xF), hex_upper ! unat (vector AND 0xF)]"

text \<open>The report of an exception whose frame is at \<open>sp\<close>.\<close>

definition report_exception :: "u8 \<Rightarrow> u64 \<Rightarrow> u64 \<Rightarrow> 'a timer_state_scheme \<Rightarrow> 'a timer_state_scheme option" where
  "report_exception vector error_code sp s =
     do { s \<leftarrow> serial_puts ([10] @ cstr ''!!! KERNEL PANIC: CPU Exception !!!'' @ [10]) s;
          s \<leftarrow> serial_puts (cstr ''  vector: 0x'') s;
          s \<leftarrow> serial_puts (vector_digits vector) s;
          s \<leftarrow> serial_puts (cstr '' ('') s;
          s \<leftarrow> serial_puts (exception_name vector) s;
          s \<leftarrow> serial_puts (cstr '')'' @ [10] @ cstr ''  error:  '') s;
          s \<leftarrow> serial_puthex64 error_code s;
          s \<leftarrow> serial_puts [10] s;
          s \<leftarrow> serial_puts (cstr ''  CR2:    0x'') s;
          s \<leftarrow> serial_puthex64 (cr2_reg s) s;
          s \<leftarrow> serial_puts [10] s;
          s \<leftarrow> serial_puts (cstr ''  RIP:    0x'') s;
          v \<leftarrow> kload64 (sp + 8 * 15) s;
          s \<leftarrow> serial_puthex64 v s;
          s \<leftarrow> serial_puts ([10] @ cstr ''  CS:     0x'') s;
          v \<leftarrow> kload64 (sp + 8 * 16) s;
          s \<leftarrow> serial_puthex64 v s;
          s \<leftarrow> serial_puts ([10] @ cstr ''  RFLAGS: 0x'') s;
          v \<leftarrow> kload64 (sp + 8 * 17) s;
          s \<leftarrow> serial_puthex64 v s;
          s \<leftarrow> serial_puts ([10] @ cstr ''  RSP:    0x'') s;
          v \<leftarrow> kload64 (sp + 8 * 18) s;
          s \<leftarrow> serial_puthex64 v s;
          s \<leftarrow> serial_puts ([10] @ cstr ''  SS:     0x'') s;
          v \<leftarrow> kload64 (sp + 8 * 19) s;
          s \<leftarrow> serial_puthex64 v s;
          s \<leftarrow> serial_puts [10] s;
          let s = kprint ([10] @ cstr ''!!! PANIC !!!'' @ [10]) s;
          let s = kprint (cstr ''CPU Exception: vector '') s;
          let s = kprint_hex (ucast vector) s;
          let s = kprint (cstr '' ('') s;
          let s = kprint (exception_name vector) s;
          let s = kprint (cstr '') err='') s;
          let s = kprint_hex error_code s;
          Some (kprint ([10] @ cstr ''Halting.'' @ [10]) s) }"

text \<open>A vector above 47 reads past the end of the handler table, which has no defined result.\<close>

definition isr_handler_c :: "u64 \<Rightarrow> 'a timer_state_scheme \<Rightarrow> (isr_end \<times> 'a timer_state_scheme) option" where
  "isr_handler_c frame s =
     do { v \<leftarrow> kload64 (frame + 8 * 13) s;
          let vector = (ucast v :: u8);
          error_code \<leftarrow> kload64 (frame + 8 * 14) s;
          if vector \<ge> 32
          then let irq = vector - 32 in
               if unat irq \<ge> length (irq_handlers s) then None
               else case irq_handlers s ! unat irq of
                 None \<Rightarrow> Some (Isr_returns, pic_send_eoi irq s)
               | Some h \<Rightarrow>
                   do { (switched, s) \<leftarrow> call_irq_handler h s;
                        if switched then Some (Isr_switches, s) else Some (Isr_returns, pic_send_eoi irq s) }
          else do { s \<leftarrow> report_exception vector error_code frame s; Some (Isr_halts, s) } }"

section \<open>Waiting\<close>

text \<open>What a halt does to the tick count: one interrupt is served, which is a tick of the timer or not,
  and the timer does not stop.\<close>

definition timer_runs :: "('a timer_state_scheme \<Rightarrow> 'a timer_state_scheme) \<Rightarrow> bool" where
  "timer_runs hlt \<longleftrightarrow> (\<forall>s. timer_ticks (hlt s) \<in> {timer_ticks s, timer_ticks s + 1}) \<and>
     (\<forall>s. \<exists>n. timer_ticks ((hlt ^^ n) s) \<noteq> timer_ticks s)"

lemma timer_wait_skips:
  assumes "\<And>j. j < n \<Longrightarrow> timer_ticks ((hlt ^^ j) s) - start < ucast ticks"
  shows "timer_wait_loop hlt start ticks s = timer_wait_loop hlt start ticks ((hlt ^^ n) s)"
  using assms
proof (induction n)
  case (Suc n)
  have "timer_wait_loop hlt start ticks s = timer_wait_loop hlt start ticks ((hlt ^^ n) s)" using Suc by simp
  also have "\<dots> = timer_wait_loop hlt start ticks ((hlt ^^ Suc n) s)"
    using Suc.prems [of n] by (subst timer_wait_loop.simps) simp
  finally show ?case .
qed simp

text \<open>The next tick comes after finitely many halts.\<close>

lemma next_tick:
  assumes "timer_runs hlt"
  obtains n where "timer_ticks ((hlt ^^ Suc n) s) = timer_ticks s + 1" "\<And>j. j \<le> n \<Longrightarrow> timer_ticks ((hlt ^^ j) s) = timer_ticks s"
proof -
  let ?P = "\<lambda>n. timer_ticks ((hlt ^^ n) s) \<noteq> timer_ticks s"
  define m where "m = (LEAST n. ?P n)"
  have m: "?P m" unfolding m_def by (rule LeastI_ex) (use assms in \<open>simp add: timer_runs_def\<close>)
  have before: "\<And>j. j < m \<Longrightarrow> timer_ticks ((hlt ^^ j) s) = timer_ticks s" unfolding m_def using not_less_Least by blast
  obtain n where n: "m = Suc n" using m by (cases m) auto
  have "timer_ticks ((hlt ^^ Suc n) s) \<in> {timer_ticks ((hlt ^^ n) s), timer_ticks ((hlt ^^ n) s) + 1}"
    using assms by (simp add: timer_runs_def)
  then have "timer_ticks ((hlt ^^ Suc n) s) = timer_ticks s + 1" using m before [of n] n by auto
  then show thesis using that before n by (simp add: less_Suc_eq_le)
qed

lemma unat_ucast_ticks: "unat (ucast (t :: u32) :: u64) = unat t"
  by transfer (simp add: take_bit_eq_mod)

lemma timer_wait_counts:
  assumes run: "timer_runs hlt" and d: "unat (timer_ticks s - start) + d = unat ticks"
  shows "\<exists>n. timer_wait_loop hlt start ticks s = Some ((hlt ^^ n) s) \<and> timer_ticks ((hlt ^^ n) s) = start + ucast ticks"
  using d
proof (induction d arbitrary: s)
  case 0
  then have e: "timer_ticks s - start = ucast ticks" by (simp add: word_unat_eq_iff unat_ucast_ticks)
  then have "timer_wait_loop hlt start ticks s = Some s" by (subst timer_wait_loop.simps) simp
  then show ?case using e by (intro exI [of _ 0]) (simp add: algebra_simps)
next
  case (Suc d)
  obtain n where n: "timer_ticks ((hlt ^^ Suc n) s) = timer_ticks s + 1" "\<And>j. j \<le> n \<Longrightarrow> timer_ticks ((hlt ^^ j) s) = timer_ticks s"
    using next_tick [OF run] by blast
  have lt: "timer_ticks s - start < ucast ticks" using Suc.prems by (simp add: word_less_nat_alt unat_ucast_ticks)
  have "timer_wait_loop hlt start ticks s = timer_wait_loop hlt start ticks ((hlt ^^ Suc n) s)"
    by (rule timer_wait_skips) (use lt n(2) in simp)
  moreover have "unat (timer_ticks ((hlt ^^ Suc n) s) - start) + d = unat ticks"
  proof -
    have "unat ticks < 2 ^ 32" using unsigned_less [of ticks] by simp
    then have "unat (timer_ticks s - start + 1) = unat (timer_ticks s - start) + 1" using Suc.prems by (simp add: unat_plus_if')
    then show ?thesis using Suc.prems n(1) by (simp add: algebra_simps)
  qed
  from Suc.IH [OF this] obtain k where "timer_wait_loop hlt start ticks ((hlt ^^ Suc n) s) = Some ((hlt ^^ k) ((hlt ^^ Suc n) s))"
    "timer_ticks ((hlt ^^ k) ((hlt ^^ Suc n) s)) = start + ucast ticks" by blast
  moreover have "(hlt ^^ k) ((hlt ^^ Suc n) s) = (hlt ^^ (k + Suc n)) s" by (simp only: funpow_add comp_apply)
  ultimately show ?case by (metis (no_types))
qed


definition timer_sample :: timer_state where
  "timer_sample = task_state.extend task_sample (timer_state.fields 0xFFFFFFFFFFFFFFFE 0)"


section \<open>Preemption\<close>

lemma eoi_same:
  fixes s :: "'a heap_state_scheme"
  shows "heap_same s (pic_send_eoi irq s)"
  by (simp add: pic_send_eoi_def outb_def heap_same_def Let_def)

text \<open>An interrupt frame with its vector, as the assembly stub leaves it.\<close>

definition isr_frame :: "u64 \<Rightarrow> u8 \<Rightarrow> u64 \<Rightarrow> 'a machine_scheme \<Rightarrow> bool" where
  "isr_frame frame vector err s \<longleftrightarrow> kload64 (frame + 104) s = Some (ucast vector) \<and> kload64 (frame + 112) s = Some err"

lemma ucast_ucast_vector: "(ucast (ucast (v :: u8) :: u64) :: u8) = v"
  by transfer simp


text \<open>The reports of an exception on the serial line and on the screen; \<open>w\<close> gives the words of the interrupted state.\<close>

definition exception_serial :: "u8 \<Rightarrow> u64 \<Rightarrow> u64 \<Rightarrow> (nat \<Rightarrow> u64) \<Rightarrow> cstring" where
  "exception_serial v err cr2 w =
     [10] @ cstr ''!!! KERNEL PANIC: CPU Exception !!!'' @ [10] @ cstr ''  vector: 0x'' @ vector_digits v @ cstr '' ('' @
     exception_name v @ cstr '')'' @ [10] @ cstr ''  error:  0x'' @ hex16 16 err @ [10] @
     cstr ''  CR2:    0x0x'' @ hex16 16 cr2 @ [10] @ cstr ''  RIP:    0x0x'' @ hex16 16 (w 0) @ [10] @
     cstr ''  CS:     0x0x'' @ hex16 16 (w 1) @ [10] @ cstr ''  RFLAGS: 0x0x'' @ hex16 16 (w 2) @ [10] @
     cstr ''  RSP:    0x0x'' @ hex16 16 (w 3) @ [10] @ cstr ''  SS:     0x0x'' @ hex16 16 (w 4) @ [10]"

definition exception_screen :: "u8 \<Rightarrow> u64 \<Rightarrow> cstring" where
  "exception_screen v err = [10] @ cstr ''!!! PANIC !!!'' @ [10] @ cstr ''CPU Exception: vector 0x'' @ hex_digits_upper (ucast v) @
     cstr '' ('' @ exception_name v @ cstr '') err=0x'' @ hex_digits_upper err @ [10] @ cstr ''Halting.'' @ [10]"

lemma puts_puts: "serial_puts xs s \<bind> (\<lambda>t. serial_puts ys t \<bind> g) = serial_puts (xs @ ys) s \<bind> g"
  by (simp add: serial_puts_append)

lemma puts_load:
  assumes "kload64 a s = Some v"
  shows "serial_puts xs s \<bind> (\<lambda>t. kload64 a t \<bind> (\<lambda>v. f v t)) = serial_puts xs s \<bind> (\<lambda>t. f v t)"
proof (cases "serial_puts xs s")
  case (Some t)
  then have "io_eq s t" by (rule serial_puts_io_eq)
  then have "kload64 a t = kload64 a s" by (simp add: kload64_def io_eqD)
  then show ?thesis using Some assms by simp
qed simp

lemma puts_cr2: "serial_puts xs s \<bind> (\<lambda>t. f (cr2_reg t) t) = serial_puts xs s \<bind> (\<lambda>t. f (cr2_reg s) t)"
proof (cases "serial_puts xs s")
  case (Some t)
  then have "cr2_reg t = cr2_reg s" by (auto dest!: serial_puts_io_eq elim!: io_eqE)
  then show ?thesis using Some by simp
qed simp

lemma report_exception_eq:
  fixes s :: "'a timer_state_scheme"
  assumes "\<And>i. i < 5 \<Longrightarrow> kload64 (sp + 120 + 8 * of_nat i) s = Some (w i)"
  shows "report_exception v err sp s =
    map_option (kprint (exception_screen v err)) (serial_puts (exception_serial v err (cr2_reg s) w) s)"
proof -
  have l: "kload64 (sp + 8 * 15) s = Some (w 0)" "kload64 (sp + 8 * 16) s = Some (w 1)" "kload64 (sp + 8 * 17) s = Some (w 2)"
    "kload64 (sp + 8 * 18) s = Some (w 3)" "kload64 (sp + 8 * 19) s = Some (w 4)"
    using assms [of 0] assms [of 1] assms [of 2] assms [of 3] assms [of 4] by (simp_all add: algebra_simps)
  have c: "cstr ''  error:  0x'' = cstr ''  error:  '' @ cstr ''0x''" "cstr ''  CR2:    0x0x'' = cstr ''  CR2:    0x'' @ cstr ''0x''"
    "cstr ''  RIP:    0x0x'' = cstr ''  RIP:    0x'' @ cstr ''0x''" "cstr ''  CS:     0x0x'' = cstr ''  CS:     0x'' @ cstr ''0x''"
    "cstr ''  RFLAGS: 0x0x'' = cstr ''  RFLAGS: 0x'' @ cstr ''0x''" "cstr ''  RSP:    0x0x'' = cstr ''  RSP:    0x'' @ cstr ''0x''"
    "cstr ''  SS:     0x0x'' = cstr ''  SS:     0x'' @ cstr ''0x''" "cstr '') err=0x'' = cstr '') err='' @ cstr ''0x''"
    "cstr ''CPU Exception: vector 0x'' = cstr ''CPU Exception: vector '' @ cstr ''0x''"
    by (simp_all add: cstr_def)
  show ?thesis
    unfolding report_exception_def exception_serial_def exception_screen_def c serial_puthex64_puts Let_def kprint_hex_digits
    apply (simp only: puts_puts)
    apply (subst puts_cr2)
    apply (simp only: puts_puts puts_load [OF l(1)] puts_load [OF l(2)] puts_load [OF l(3)] puts_load [OF l(4)] puts_load [OF l(5)])
    apply (simp only: map_conv_bind_option comp_def kprint_append append_assoc)
    done
qed


section \<open>Interrupts on the sample machine\<close>

lemma timer_sample_like: "like_sample timer_sample" "uart_live timer_sample"
  by (simp_all add: like_sample_def uart_live_def timer_sample_def timer_state.defs task_sample_defs) (auto simp: vga_boot_def)

text \<open>A frame with the given words, written below the middle of the stack.\<close>

lemma sample_frame:
  fixes t :: "'a task_state_scheme"
  assumes ok: "heap_ok t A" "b \<in> A" and d: "\<And>j. 8 * j + 8 \<le> 1024 \<Longrightarrow> data_word (hview t) b (p + of_nat (8 * j))"
    and n: "length vs \<le> 64"
  shows "\<exists>u. put_down vs (p + 512) t = Some (p + 512 - 8 * of_nat (length vs), u) \<and> heap_mapped u \<and> mem_eq t u \<and>
    hview u = put_words (p + 512) vs (hview t) \<and>
    (\<forall>k<length vs. kload64 (p + 512 - 8 * of_nat (Suc k)) u = Some (vs ! k))"
proof -
  have wd: "p + of_nat (8 * j) \<in> heap_words t" if "8 * j + 8 \<le> 1024" for j by (rule data_word_mapped [OF ok d [OF that]])
  have low: "p + 512 - 8 * of_nat k \<in> heap_words t" if "0 < k" "k \<le> length vs" for k
  proof -
    have e: "p + 512 - 8 * of_nat k = p + of_nat (8 * (64 - k))" using that n by (simp add: of_nat_diff algebra_simps)
    show ?thesis unfolding e using that by (intro wd) simp
  qed
  have sub: "frame_cells (p + 512) (length vs) \<subseteq> heap_words t"
    using low frame_cells_address by blast
  obtain u where u: "put_down vs (p + 512) t = Some (p + 512 - 8 * of_nat (length vs), u)" "heap_mapped u"
    "hview u = put_words (p + 512) vs (hview t)" "mem_eq t u"
    using put_down_at [OF _ sub] ok(1) by (auto simp: heap_ok_def heap_wrote_def)
  have "kload64 (p + 512 - 8 * of_nat (Suc k)) u = Some (vs ! k)" if "k < length vs" for k
  proof -
    have "p + 512 - 8 * of_nat (Suc k) \<in> heap_words u" using low [of "Suc k"] that mem_eq_heap_words [OF u(4)] by simp
    moreover have "put_words (p + 512) vs (hview t) (p + 512 - 8 * of_nat (Suc k)) = vs ! k"
      by (rule put_words_nth [OF that]) (use n in simp)
    ultimately show ?thesis using kheap.get_view [OF u(2)] by (simp only: u(3))
  qed
  with u show ?thesis by blast
qed


definition timer_only :: "'a timer_state_scheme \<Rightarrow> 'a timer_state_scheme" where
  "timer_only t = t\<lparr>irq_handlers := Some Timer_irq_handler # replicate 15 None, timer_ticks := 41\<rparr>"


end
