(* ===== verification/Prism_Syscall.thy ===== *)
theory Prism_Syscall
  imports Prism_Interrupts
begin

text \<open>
  System calls: \<^verbatim>\<open>syscall/syscall.c\<close>. The handlers take the six arguments of the table's function type.
  A call ends with a value for the caller, or in another task when the handler made the scheduler switch.
  A buffer of the caller is read as the processor in ring 0 reads it, through the
  translation in force and without regard to the user bit.
\<close>

section \<open>The handlers\<close>

record syscall_state = timer_state +
  msr :: "u32 \<Rightarrow> u64"

datatype sys_end = Sys_returns u64 | Sys_switches

definition MSR_IA32_STAR :: u32 where "MSR_IA32_STAR = 0xC0000081"
definition MSR_IA32_LSTAR :: u32 where "MSR_IA32_LSTAR = 0xC0000082"
definition MSR_IA32_FMASK :: u32 where "MSR_IA32_FMASK = 0xC0000084"

definition SYSCALL_COUNT :: u64 where "SYSCALL_COUNT = 6"
definition SYSCALL_ERR_NOSYS :: u64 where "SYSCALL_ERR_NOSYS = - 1"
definition SYSCALL_ERR_INVAL :: u64 where "SYSCALL_ERR_INVAL = - 2"

type_synonym 'a sys_result = "(sys_end \<times> 'a syscall_state_scheme) option"
type_synonym 'a syscall_fn = "u64 \<Rightarrow> u64 \<Rightarrow> u64 \<Rightarrow> u64 \<Rightarrow> u64 \<Rightarrow> u64 \<Rightarrow> 'a syscall_state_scheme \<Rightarrow> 'a sys_result"

definition sys_exit :: "'a syscall_fn" where
  "sys_exit code b c d e f s =
     (case task_current s of
        None \<Rightarrow> Some (Sys_returns 0, s)
      | Some t \<Rightarrow>
          do { let s = set_task t (\<lambda>k. k\<lparr>t_state := TASK_DEAD\<rparr>) s;
               s \<leftarrow> klog_hex LOG_INFO (cstr ''syscall: exit pid='') (t_pid (task_at s t)) s;
               s \<leftarrow> klog_hex LOG_INFO (cstr ''  code='') code s;
               (sw, s) \<leftarrow> schedule s;
               Some (if sw then Sys_switches else Sys_returns 0, s) })"

primrec write_loop :: "u64 \<Rightarrow> nat \<Rightarrow> 'a machine_scheme \<Rightarrow> 'a machine_scheme option" where
  "write_loop p 0 s = Some s"
| "write_loop p (Suc n) s = do { c \<leftarrow> kload8 p s; s \<leftarrow> serial_putc c s; write_loop (p + 1) n s }"

definition sys_write :: "'a syscall_fn" where
  "sys_write fd buf len d e f s =
     (if fd \<noteq> 1 \<or> buf = 0 \<or> len = 0 then Some (Sys_returns SYSCALL_ERR_INVAL, s)
      else do { s \<leftarrow> write_loop buf (unat len) s; Some (Sys_returns len, s) })"

definition sys_getpid :: "'a syscall_fn" where
  "sys_getpid a b c d e f s =
     Some (Sys_returns (case task_current s of None \<Rightarrow> 0 | Some t \<Rightarrow> t_pid (task_at s t)), s)"

definition sys_yield :: "'a syscall_fn" where
  "sys_yield a b c d e f s =
     do { (sw, s) \<leftarrow> schedule s; Some (if sw then Sys_switches else Sys_returns 0, s) }"

definition sys_sbrk :: "'a syscall_fn" where
  "sys_sbrk a b c d e f s = Some (Sys_returns SYSCALL_ERR_NOSYS, s)"

definition sys_test :: "'a syscall_fn" where
  "sys_test a b c d e f s = Some (Sys_returns 0xDEAD, s)"

definition syscall_table :: "'a syscall_fn list" where
  "syscall_table = [sys_exit, sys_write, sys_getpid, sys_yield, sys_sbrk, sys_test]"

section \<open>Set-up and dispatch\<close>

text \<open>The instruction takes the value in two registers of 32 bits.\<close>

definition wrmsr :: "u32 \<Rightarrow> u32 \<Rightarrow> u32 \<Rightarrow> 'a syscall_state_scheme \<Rightarrow> 'a syscall_state_scheme" where
  "wrmsr a d c s = s\<lparr>msr := (msr s)(c := push_bit 32 (ucast d) OR ucast a)\<rparr>"

definition syscall_init :: "'a syscall_state_scheme \<Rightarrow> 'a syscall_state_scheme option" where
  "syscall_init s =
     (let star = push_bit 48 (0x1B :: u64) OR push_bit 32 0x08;
          lstar = sym_syscall_entry (syms s);
          fmask = (0x200 :: u64);
          s = wrmsr (ucast lstar) (ucast (drop_bit 32 lstar)) MSR_IA32_LSTAR s;
          s = wrmsr (ucast star) (ucast (drop_bit 32 star)) MSR_IA32_STAR s;
          s = wrmsr (ucast fmask) (ucast (drop_bit 32 fmask)) MSR_IA32_FMASK s
      in klog LOG_INFO (cstr ''Syscall: MSRs configured (STAR/LSTAR/FMASK)'' @ [10]) s)"

definition syscall_dispatch :: "u64 \<Rightarrow> 'a syscall_fn" where
  "syscall_dispatch number arg0 arg1 arg2 arg3 arg4 arg5 s =
     (if number \<ge> SYSCALL_COUNT then Some (Sys_returns SYSCALL_ERR_NOSYS, s)
      else (syscall_table ! unat number) arg0 arg1 arg2 arg3 arg4 arg5 s)"

section \<open>Writing\<close>

lemma kload8_io_eq: "io_eq s t \<Longrightarrow> kload8 a t = kload8 a s"
  by (simp add: kload8_def io_eqD)

lemma write_loop_put_all:
  assumes "\<And>i. i < n \<Longrightarrow> kload8 (p + of_nat i) s = Some (bs i)"
  shows "write_loop p n s = serial.put_all (map bs [0..<n]) s"
  using assms
proof (induction n arbitrary: p s bs)
  case (Suc n)
  have l: "kload8 p s = Some (bs 0)" using Suc.prems [of 0] by simp
  have "write_loop (p + 1) n t = serial.put_all (map (bs \<circ> Suc) [0..<n]) t" if "serial_putc (bs 0) s = Some t" for t
  proof (rule Suc.IH)
    fix i assume "i < n"
    then have "kload8 (p + 1 + of_nat i) s = Some (bs (Suc i))" using Suc.prems [of "Suc i"] by (simp add: algebra_simps)
    then show "kload8 (p + 1 + of_nat i) t = Some ((bs \<circ> Suc) i)"
      using kload8_io_eq [OF serial_putc_io_eq [OF that]] by simp
  qed
  moreover have "map bs [0..<Suc n] = bs 0 # map (bs \<circ> Suc) [0..<n]" by (simp add: upt_conv_Cons map_Suc_upt [symmetric] del: upt_Suc)
  ultimately show ?case using l by (simp split: bind_splits)
qed simp

text \<open>
  C33. The write call with the standard output and a buffer that is not null or empty puts exactly the bytes of the buffer on
  a live serial line and returns their number, for every buffer that is mapped at all: nothing checks that it belongs
  to the caller. In particular it emits kernel memory, which \<open>user_mem_check\<close>, never called here,
  would refuse.
\<close>

theorem sys_write_emits:
  fixes s :: "'a syscall_state_scheme"
  assumes "uart_live s" "buf \<noteq> 0" "len \<noteq> 0" and bs: "\<And>i. i < unat len \<Longrightarrow> kload8 (buf + of_nat i) s = Some (bs i)"
  shows "\<exists>t. syscall_dispatch 1 1 buf len d e f s = Some (Sys_returns len, t) \<and> io_eq s t \<and>
    serial_sent t = serial_sent s @ map bs [0..<unat len] \<and>
    (USER_ADDR_LIMIT \<le> buf \<longrightarrow> user_mem_check buf len False s = Some (False, s))"
proof -
  obtain t where "serial.put_all (map bs [0..<unat len]) s = Some t" "io_eq s t" "serial_sent t = serial_sent s @ map bs [0..<unat len]"
    using serial.put_all_spec [OF assms(1)] by blast
  then show ?thesis
    using assms(2,3) write_loop_put_all [of "unat len", OF bs]
    by (simp add: syscall_dispatch_def SYSCALL_COUNT_def word_le_nat_alt syscall_table_def sys_write_def user_mem_check_def)
qed

section \<open>Leaving\<close>

text \<open>A decision when the running task has left: it is not queued again.\<close>

lemma schedule_next_left:
  fixes s :: "'a task_state_scheme"
  assumes inv: "sched_inv s" "current_task s = Some c" "ready_elems s = x # xs"
  defines "d \<equiv> set_task c (\<lambda>k. k\<lparr>t_state := TASK_DEAD\<rparr>) s"
  shows "\<exists>t T h l v. schedule_next d = Some (Some (c, x), t) \<and> sched_inv t \<and> ready_elems t = xs \<and>
    t = d\<lparr>task_table := T, current_task := Some x, ready_head := h, ready_tail := l, tss_value := v\<rparr> \<and>
    t_state (task_at t c) = TASK_DEAD \<and> t_stack_pointer (task_at t x) = t_stack_pointer (task_at s x)"
proof -
  have r: "ready_inv s" "c < MAX_TASKS" "c \<notin> set (ready_elems s)"
    and run: "\<And>i. i < MAX_TASKS \<Longrightarrow> (t_state (task_at s i) = TASK_RUNNING) = (i = c)"
    and rdy: "\<And>i. i \<in> set (ready_elems s) \<Longrightarrow> t_state (task_at s i) = TASK_READY"
    using inv by (auto simp: sched_inv_def)
  have len: "length (task_table s) = MAX_TASKS" using r(1) by (simp add: ready_inv_def)
  have xm: "x < MAX_TASKS" "x \<noteq> c" "x \<notin> set xs" using ready.elems_valid [OF r(1)] ready.elems_distinct [OF r(1)] r(3) inv(3) by auto
  have rd: "ready_inv d" "ready_elems d = x # xs" unfolding d_def using ready_inv_set_task [OF r(1), of "\<lambda>k. k\<lparr>t_state := TASK_DEAD\<rparr>" c] inv(3) by simp_all
  have dt: "task_at d i = (if i = c then (task_at s c)\<lparr>t_state := TASK_DEAD\<rparr> else task_at s i)" for i
    unfolding d_def using len r(2) by simp
  obtain s1 where s1: "ready_list_pop d = (Some x, s1)" "ready_inv s1" "ready_elems s1 = xs"
    "s1 = d\<lparr>task_table := task_table s1, ready_head := ready_head s1, ready_tail := ready_tail s1\<rparr>"
    "\<And>i. \<exists>n. task_at s1 i = (task_at d i)\<lparr>t_next := n\<rparr>"
    using ready_list_pop_spec [OF rd(1)] rd(2) by auto
  have f1: "t_state (task_at s1 i) = t_state (task_at d i)" "t_stack_pointer (task_at s1 i) = t_stack_pointer (task_at d i)" for i
    using s1(5) [of i] by auto
  let ?g = "\<lambda>k. k\<lparr>t_state := TASK_RUNNING, t_time_slice := TIME_SLICE\<rparr>"
  let ?s4 = "set_task x ?g (s1\<lparr>current_task := Some x\<rparr>)"
  let ?t = "if t_ring (task_at ?s4 x) = 3 then tss_set_rsp0 (t_kernel_stack (task_at ?s4 x) + TASK_STACK_SIZE) ?s4 else ?s4"
  have len1: "length (task_table s1) = MAX_TASKS" using s1(2) by (simp add: ready_inv_def)
  have "current_task d = Some c" using inv(2) by (simp add: d_def)
  then have nx: "schedule_next d = Some (Some (c, x), ?t)"
    using s1(1) f1(1) [of c] dt [of c] by (simp add: schedule_next_def Let_def)
  have at: "task_at ?t i = (if i = x then ?g (task_at s1 i) else task_at s1 i)" for i using len1 xm(1) by (simp add: tss_set_rsp0_def)
  have "ready_inv (s1\<lparr>current_task := Some x\<rparr>)" "ready_elems (s1\<lparr>current_task := Some x\<rparr>) = xs"
    using ready_inv_cong [of "s1\<lparr>current_task := Some x\<rparr>" s1] s1(2,3) by simp_all
  from ready_inv_set_task [OF this(1), of ?g x] this(2) have i4: "ready_inv ?s4" "ready_elems ?s4 = xs" by simp_all
  have i5: "ready_inv ?t" "ready_elems ?t = xs" "current_task ?t = Some x"
    using ready_inv_cong [of ?t ?s4] i4 by (simp_all add: tss_set_rsp0_def)
  have st: "t_state (task_at ?t i) = (if i = x then TASK_RUNNING else if i = c then TASK_DEAD else t_state (task_at s i))" for i
    unfolding at using f1(1) [of i] dt [of i] by simp
  have "sched_inv ?t" unfolding sched_inv_def i5(2) using i5(1,3) st xm run rdy inv(3) r(3) by auto
  moreover have "\<exists>T h l v. ?t = d\<lparr>task_table := T, current_task := Some x, ready_head := h, ready_tail := l, tss_value := v\<rparr>"
  proof -
    obtain T1 h1 l1 where e1: "s1 = d\<lparr>task_table := T1, ready_head := h1, ready_tail := l1\<rparr>" using s1(4) by blast
    have "?t = d\<lparr>task_table := task_table ?t, current_task := Some x, ready_head := h1, ready_tail := l1, tss_value := tss_value ?t\<rparr>"
      by (simp add: e1 set_task_def tss_set_rsp0_def)
    then show ?thesis by blast
  qed
  moreover have "t_state (task_at ?t c) = TASK_DEAD" using st xm(2) by simp
  moreover have "t_stack_pointer (task_at ?t x) = t_stack_pointer (task_at s x)" unfolding at using f1(2) [of x] dt [of x] xm(2) by simp
  ultimately show ?thesis using nx i5(2) by (intro exI [of _ ?t]) blast
qed

text \<open>
  C32. The exit call ends the calling task for good: it never returns to it. When some task is ready, the head of the list
  runs next with the registers saved for it, the list loses that task and gains none, so the caller, whose slot in
  the table is free for a new task, can never be scheduled again, and the scheduling invariant holds.
\<close>

theorem sys_exit_leaves:
  fixes s :: "'a syscall_state_scheme"
  assumes inv: "sched_inv s" "current_task s = Some c" "ready_elems s = x # xs" and live: "uart_live s"
    and st: "heap_mapped s" "frame_cells (reg_rsp (regs s)) 8 \<subseteq> heap_words s"
    and ld: "\<And>k. k < 8 \<Longrightarrow> t_stack_pointer (task_at s x) + 8 * of_nat k \<in> heap_words s"
  defines "w \<equiv> put_words (reg_rsp (regs s)) (frame_regs (regs s)) (hview s)"
  shows "\<exists>t. syscall_dispatch 0 code a1 a2 a3 a4 a5 s = Some (Sys_switches, t) \<and> sched_inv t \<and> sched_order t = x # xs \<and>
    c \<notin> set (sched_order t) \<and> t_state (task_at t c) = TASK_DEAD \<and> regs t = load_frame w (t_stack_pointer (task_at s x))"
proof -
  let ?f = "\<lambda>k. k\<lparr>t_state := TASK_DEAD\<rparr>"
  let ?d = "set_task c ?f s"
  have "uart_live ?d" using live by (simp add: uart_live_def set_task_def)
  then obtain e1 where e1: "klog_hex LOG_INFO (cstr ''syscall: exit pid='') (t_pid (task_at ?d c)) ?d = Some e1" "uart_live e1" "io_eq ?d e1"
    using klog_hex_spec by blast
  obtain e2 where e2: "klog_hex LOG_INFO (cstr ''  code='') code e1 = Some e2" "io_eq e1 e2" using klog_hex_spec [OF e1(2)] by blast
  obtain lg rd where "e2 = ?d\<lparr>io_log := lg, io_reads := rd\<rparr>" using io_eq_trans [OF e1(3) e2(2)] by (auto elim: io_eqE)
  then have lg: "e2 = set_task c ?f (s\<lparr>io_log := lg, io_reads := rd\<rparr>)" by (simp add: set_task_def)
  let ?s = "s\<lparr>io_log := lg, io_reads := rd\<rparr>"
  have si: "sched_inv ?s" "current_task ?s = Some c" "ready_elems ?s = x # xs" using sched_inv_cong [of ?s s] inv by simp_all
  obtain s1 T h l v where n: "schedule_next e2 = Some (Some (c, x), s1)" "sched_inv s1" "ready_elems s1 = xs"
    "s1 = e2\<lparr>task_table := T, current_task := Some x, ready_head := h, ready_tail := l, tss_value := v\<rparr>"
    "t_state (task_at s1 c) = TASK_DEAD" and n6: "t_stack_pointer (task_at s1 x) = t_stack_pointer (task_at ?s x)"
    using schedule_next_left [OF si, folded lg] by blast
  have sp: "t_stack_pointer (task_at s1 x) = t_stack_pointer (task_at s x)" using n6 by simp
  have c: "c < MAX_TASKS" "c \<notin> set (x # xs)" using inv by (auto simp: sched_inv_def)
  have hs: "heap_same s e2" and rg: "regs e2 = regs s" by (simp_all add: lg heap_same_def set_task_def)
  note hp = heap_same_mapped [OF hs]
  obtain t where t: "schedule e2 = Some (True, t)" "sched_inv t" "sched_order t = x # xs" "regs t = load_frame w (t_stack_pointer (task_at s x))"
    "task_at t c = (task_at s1 c)\<lparr>t_stack_pointer := reg_rsp (regs s) - 64\<rparr>"
    using schedule_after [OF n(1,2) c(1) n(4) sp] st ld hp n(3) rg unfolding w_def by auto
  have "syscall_dispatch 0 code a1 a2 a3 a4 a5 s = Some (Sys_switches, t)"
    using inv(2) e1(1) e2(1) t(1)
    by (simp add: syscall_dispatch_def SYSCALL_COUNT_def word_le_nat_alt syscall_table_def sys_exit_def task_current_def)
  then show ?thesis using t c(2) n(5) by simp
qed

text \<open>
  After \<open>syscall_init\<close>, which returns on a live serial line, the system call instruction would enter \<open>syscall_entry\<close> with
  the kernel's code segment and interrupts masked; every other model-specific register, the one with the bit that enables the instruction
  (\<open>IA32_EFER\<close>) among them, is as before.
\<close>

theorem syscall_init_registers:
  fixes s :: "'a syscall_state_scheme"
  assumes "uart_live s"
  shows "\<exists>t. syscall_init s = Some t \<and>
    msr t = (msr s)(MSR_IA32_LSTAR := sym_syscall_entry (syms s), MSR_IA32_STAR := 0x001B000800000000, MSR_IA32_FMASK := 0x200) \<and>
    msr t 0xC0000080 = msr s 0xC0000080"
proof -
  have join: "push_bit 32 (ucast (ucast (drop_bit 32 a) :: u32)) OR ucast (ucast a :: u32) = a" for a :: u64
    by (rule bit_word_eqI) (auto simp: bit_simps)
  let ?u = "s\<lparr>msr := (msr s)(MSR_IA32_LSTAR := sym_syscall_entry (syms s), MSR_IA32_STAR := 0x001B000800000000, MSR_IA32_FMASK := 0x200)\<rparr>"
  have "uart_live ?u" using assms by (simp add: uart_live_def)
  then obtain t where t: "klog LOG_INFO (cstr ''Syscall: MSRs configured (STAR/LSTAR/FMASK)'' @ [10]) ?u = Some t" "io_eq ?u t"
    using klog_spec by blast
  have "push_bit 48 (0x1B :: u64) OR push_bit 32 0x08 = 0x001B000800000000" by simp
  then have "syscall_init s = Some t"
    unfolding syscall_init_def Let_def wrmsr_def join using t(1) by simp
  moreover have "msr t = msr ?u" using t(2) by (auto elim!: io_eqE)
  ultimately show ?thesis by (simp add: MSR_IA32_LSTAR_def MSR_IA32_STAR_def MSR_IA32_FMASK_def)
qed

section \<open>System calls on the sample machine\<close>

definition syscall_sample :: syscall_state where
  "syscall_sample = timer_state.extend timer_sample (syscall_state.fields (\<lambda>_. 0))"

lemma syscall_sample_like: "like_sample syscall_sample" "uart_live syscall_sample"
  by (simp_all add: like_sample_def uart_live_def syscall_sample_def syscall_state.defs timer_sample_def timer_state.defs task_sample_defs)
    (auto simp: vga_boot_def)

theorem syscall_init_registers_witness:
  "\<exists>t. syscall_init syscall_sample = Some t \<and> msr t 0xC0000084 = 0x200 \<and> msr t 0xC0000080 = 0"
  using syscall_init_registers [OF syscall_sample_like(2)]
  by (auto simp: MSR_IA32_FMASK_def) (simp add: syscall_sample_def timer_state.defs syscall_state.defs)

text \<open>The header of the first heap block, which belongs to the kernel, is written out.\<close>

theorem sys_write_emits_witness:
  "\<exists>u t. heap_booted syscall_sample u \<and> syscall_dispatch 1 1 HEAP_START 8 0 0 0 u = Some (Sys_returns 8, t) \<and>
     length (serial_sent t) = length (serial_sent u) + 8 \<and> user_mem_check HEAP_START 8 False u = Some (False, u)"
proof -
  obtain u where u: "heap_booted syscall_sample u" "heap_ok u {}" "heap_size u = 16384" "uart_live u"
    using sample_heap_booted [OF syscall_sample_like] by blast
  have hm: "heap_mapped u" using u(2) by (simp add: heap_ok_def)
  note h = heap_mappedD [OF hm]
  have e: "heap_end u = HEAP_START + 16384" using u(3) h(2) by (simp add: heap_size_def algebra_simps)
  have ld: "kload8 (HEAP_START + of_nat i) u = Some (the (kload8 (HEAP_START + of_nat i) u))" if "i < unat (8 :: u64)" for i
  proof -
    have "unat (HEAP_START + of_nat i) = unat HEAP_START + i" using that by (simp add: HEAP_START_def unat_plus_if' unat_of_nat)
    then have "heap_addr u (HEAP_START + of_nat i)" using that e h(2) by (simp add: heap_addr_def HEAP_START_def)
    then obtain f where "translate u (HEAP_START + of_nat i) = Some f" using h(6) by blast
    then show ?thesis by (simp add: kload8_def)
  qed
  have nz: "HEAP_START \<noteq> 0" "(8 :: u64) \<noteq> 0" "USER_ADDR_LIMIT \<le> HEAP_START" by (simp_all add: HEAP_START_def USER_ADDR_LIMIT_def word_le_nat_alt)
  obtain t where "syscall_dispatch 1 1 HEAP_START 8 0 0 0 u = Some (Sys_returns 8, t)" "user_mem_check HEAP_START 8 False u = Some (False, u)"
    "serial_sent t = serial_sent u @ map (\<lambda>i. the (kload8 (HEAP_START + of_nat i) u)) [0..<unat (8 :: u64)]"
    using sys_write_emits [OF u(4) nz(1,2) ld] nz(3) by blast
  with u(1) show ?thesis by (intro exI [of _ u] exI [of _ t]) simp
qed

theorem sys_exit_leaves_witness:
  "\<exists>u p v t w. heap_booted syscall_sample u \<and> kmalloc 1024 u = Some (p, v) \<and> task_create 0x5000 (on_stack p v) = Some (Some 1, t) \<and>
     syscall_dispatch 0 7 0 0 0 0 0 t = Some (Sys_switches, w) \<and> sched_order w = [1]"
proof -
  obtain u p v t where t: "heap_booted syscall_sample u" "kmalloc 1024 u = Some (p, v)" "task_create 0x5000 (on_stack p v) = Some (Some 1, t)"
    "sched_inv t" "current_task t = Some 0" "ready_elems t = [1]" "uart_live t" "heap_mapped t"
    "frame_cells (reg_rsp (regs t)) 8 \<subseteq> heap_words t"
    and ld: "\<And>k. k < 8 \<Longrightarrow> t_stack_pointer (task_at t 1) + 8 * of_nat k \<in> heap_words t"
    by (rule sample_two_tasks [OF syscall_sample_like]) blast
  from sys_exit_leaves [OF t(4-9) ld, of 7 0 0 0 0 0] t(1-3) show ?thesis by auto
qed

end
