(* ===== verification/Prism_Elf.thy ===== *)
theory Prism_Elf
  imports Prism_Syscall
begin

text \<open>
  The ELF loader: \<^verbatim>\<open>fs/elf.c\<close> and \<^verbatim>\<open>fs/elf.h\<close>. The image is memory that is read through
  the translation in force, byte by byte where a field may lie across a page boundary. The
  out-parameter for the entry point is an optional variable: \<open>None\<close> is the null pointer. The loop over the pages of a segment is
  partial.
\<close>

section \<open>Fields of the headers\<close>

definition ELFMAG0 :: u8 where "ELFMAG0 = 0x7F"
definition ELFMAG1 :: u8 where "ELFMAG1 = 0x45"
definition ELFMAG2 :: u8 where "ELFMAG2 = 0x4C"
definition ELFMAG3 :: u8 where "ELFMAG3 = 0x46"
definition ELFCLASS64 :: u8 where "ELFCLASS64 = 2"
definition ELFDATA2LSB :: u8 where "ELFDATA2LSB = 1"
definition ET_EXEC :: u64 where "ET_EXEC = 2"
definition EM_X86_64 :: u64 where "EM_X86_64 = 62"
definition PT_LOAD :: u64 where "PT_LOAD = 1"
definition PF_W :: u64 where "PF_W = 0x2"

definition sizeof_ehdr :: u64 where "sizeof_ehdr = 64"
definition sizeof_phdr :: u64 where "sizeof_phdr = 56"

text \<open>A little-endian value of \<open>n\<close> bytes.\<close>

primrec kload_le :: "nat \<Rightarrow> u64 \<Rightarrow> 'a machine_scheme \<Rightarrow> u64 option" where
  "kload_le 0 p s = Some 0"
| "kload_le (Suc n) p s = do { b \<leftarrow> kload8 p s; v \<leftarrow> kload_le n (p + 1) s; Some (ucast b + 256 * v) }"

abbreviation e_type :: "u64 \<Rightarrow> 'a machine_scheme \<Rightarrow> u64 option" where "e_type eh \<equiv> kload_le 2 (eh + 16)"
abbreviation e_machine :: "u64 \<Rightarrow> 'a machine_scheme \<Rightarrow> u64 option" where "e_machine eh \<equiv> kload_le 2 (eh + 18)"
abbreviation e_entry :: "u64 \<Rightarrow> 'a machine_scheme \<Rightarrow> u64 option" where "e_entry eh \<equiv> kload_le 8 (eh + 24)"
abbreviation e_phoff :: "u64 \<Rightarrow> 'a machine_scheme \<Rightarrow> u64 option" where "e_phoff eh \<equiv> kload_le 8 (eh + 32)"
abbreviation e_phentsize :: "u64 \<Rightarrow> 'a machine_scheme \<Rightarrow> u64 option" where "e_phentsize eh \<equiv> kload_le 2 (eh + 54)"
abbreviation e_phnum :: "u64 \<Rightarrow> 'a machine_scheme \<Rightarrow> u64 option" where "e_phnum eh \<equiv> kload_le 2 (eh + 56)"

abbreviation p_type :: "u64 \<Rightarrow> 'a machine_scheme \<Rightarrow> u64 option" where "p_type ph \<equiv> kload_le 4 ph"
abbreviation p_flags :: "u64 \<Rightarrow> 'a machine_scheme \<Rightarrow> u64 option" where "p_flags ph \<equiv> kload_le 4 (ph + 4)"
abbreviation p_offset :: "u64 \<Rightarrow> 'a machine_scheme \<Rightarrow> u64 option" where "p_offset ph \<equiv> kload_le 8 (ph + 8)"
abbreviation p_vaddr :: "u64 \<Rightarrow> 'a machine_scheme \<Rightarrow> u64 option" where "p_vaddr ph \<equiv> kload_le 8 (ph + 16)"
abbreviation p_filesz :: "u64 \<Rightarrow> 'a machine_scheme \<Rightarrow> u64 option" where "p_filesz ph \<equiv> kload_le 8 (ph + 32)"
abbreviation p_memsz :: "u64 \<Rightarrow> 'a machine_scheme \<Rightarrow> u64 option" where "p_memsz ph \<equiv> kload_le 8 (ph + 40)"

section \<open>One page\<close>

text \<open>What is copied into the page at \<open>va\<close>: the offset in the image and the number of bytes. \<open>None\<close>: nothing.\<close>

definition copy_range :: "u64 \<Rightarrow> u64 \<Rightarrow> u64 \<Rightarrow> u64 \<Rightarrow> u64 \<Rightarrow> (u64 \<times> u64) option" where
  "copy_range va vaddr filesz poffset sz =
     (if va + PMM_FRAME_SIZE > vaddr \<and> va < vaddr + filesz then
        let copy_start = (if va > vaddr then va else vaddr);
            copy_end = (if va + PMM_FRAME_SIZE < vaddr + filesz then va + PMM_FRAME_SIZE else vaddr + filesz);
            offset = copy_start - vaddr;
            len = copy_end - copy_start;
            file_off = poffset + offset;
            avail = (if file_off < sz then sz - file_off else 0)
        in if len > 0 \<and> avail > 0 then Some (file_off, if len < avail then len else avail) else None
      else None)"

definition load_page :: "u64 \<Rightarrow> u64 \<Rightarrow> u64 \<Rightarrow> u64 \<Rightarrow> u64 \<Rightarrow> 'a pmm_state_scheme \<Rightarrow> 'a pmm_state_scheme option" where
  "load_page data sz phdr va frame s =
     do { (v, s) \<leftarrow> paging_phys_to_virt frame s;
          s \<leftarrow> memset v 0 PMM_FRAME_SIZE s;
          vaddr \<leftarrow> p_vaddr phdr s;
          filesz \<leftarrow> p_filesz phdr s;
          poffset \<leftarrow> p_offset phdr s;
          case copy_range va vaddr filesz poffset sz of
            None \<Rightarrow> Some s
          | Some (file_off, cpy) \<Rightarrow>
              do { (v, s) \<leftarrow> paging_phys_to_virt frame s; memcpy v (data + file_off) cpy s } }"

text \<open>One level of the user's tables: the pointer to the table below entry \<open>i\<close> of the table at \<open>p\<close>; \<open>Inl\<close> is the early return.\<close>

definition user_level ::
  "u64 \<Rightarrow> u64 \<Rightarrow> u64 \<Rightarrow> 'a pmm_state_scheme \<Rightarrow> ('a pmm_state_scheme + u64 \<times> 'a pmm_state_scheme) option" where
  "user_level p i rw s =
     do { e \<leftarrow> table_get p i s;
          r \<leftarrow> (if e AND PAGE_PRESENT = 0 then
                  let (tbl, s) = pmm_alloc_frame s in
                  if tbl = 0 then Some (Inl s)
                  else do { (v, s) \<leftarrow> paging_phys_to_virt tbl s;
                            s \<leftarrow> memset v 0 PMM_FRAME_SIZE s;
                            s \<leftarrow> table_set p i (tbl OR rw) s;
                            Some (Inr s) }
                else Some (Inr s));
          case r of
            Inl s \<Rightarrow> Some (Inl s)
          | Inr s \<Rightarrow> do { e \<leftarrow> table_get p i s;
                         (v, s) \<leftarrow> paging_phys_to_virt (e AND NOT 0xFFF) s;
                         Some (Inr (v, s)) } }"

definition map_user_page :: "u64 \<Rightarrow> u64 \<Rightarrow> u64 \<Rightarrow> u64 \<Rightarrow> 'a pmm_state_scheme \<Rightarrow> (int \<times> 'a pmm_state_scheme) option" where
  "map_user_page pml4_pa va frame flags s =
     (let pi = pt_index 39 va; pdi = pt_index 30 va; pdi2 = pt_index 21 va; pti = pt_index 12 va;
          rw = PAGE_PRESENT OR PAGE_WRITABLE OR PAGE_USER
      in do { (user_pml4, s) \<leftarrow> paging_phys_to_virt pml4_pa s;
              r \<leftarrow> user_level user_pml4 pi rw s;
              case r of Inl s \<Rightarrow> Some (- 1, s)
              | Inr (pdpt, s) \<Rightarrow>
            do { r \<leftarrow> user_level pdpt pdi rw s;
              case r of Inl s \<Rightarrow> Some (- 1, s)
              | Inr (pd, s) \<Rightarrow>
            do { r \<leftarrow> user_level pd pdi2 rw s;
              case r of Inl s \<Rightarrow> Some (- 1, s)
              | Inr (pt, s) \<Rightarrow>
            do { s \<leftarrow> table_set pt pti ((frame AND NOT 0xFFF) OR flags) s;
                 Some (0, s) } } } })"

section \<open>Segments\<close>

partial_function (option) load_pages ::
  "u64 \<Rightarrow> u64 \<Rightarrow> u64 \<Rightarrow> u64 \<Rightarrow> u64 \<Rightarrow> u64 \<Rightarrow> u64 \<Rightarrow> 'a pmm_state_scheme \<Rightarrow> (int \<times> 'a pmm_state_scheme) option" where
  "load_pages data sz pml4_pa phdr flags va vaddr_end s =
     (if va < vaddr_end then
        case pmm_alloc_frame s of (frame, s) \<Rightarrow>
        if frame = 0 then do { s \<leftarrow> serial_puts (cstr ''[ELF] ERR: pmm_alloc_frame failed'' @ [10]) s; Some (- 1, s) }
        else do { s \<leftarrow> load_page data sz phdr va frame s;
                  (r, s) \<leftarrow> map_user_page pml4_pa va frame flags s;
                  if r \<noteq> 0 then Some (- 1, s)
                  else load_pages data sz pml4_pa phdr flags (va + PMM_FRAME_SIZE) vaddr_end s }
      else Some (0, s))"

definition load_segment ::
  "u64 \<Rightarrow> u64 \<Rightarrow> u64 \<Rightarrow> u64 \<Rightarrow> 'a pmm_state_scheme \<Rightarrow> (int \<times> 'a pmm_state_scheme) option" where
  "load_segment data sz pml4_pa phdr s =
     do { ty \<leftarrow> p_type phdr s;
          if ty \<noteq> PT_LOAD
          then do { s \<leftarrow> serial_puts (cstr ''[ELF] skipping non-LOAD segment'' @ [10]) s; Some (0, s) }
          else do { s \<leftarrow> serial_puts (cstr ''[ELF] LOAD: vaddr=0x'') s;
                    v \<leftarrow> p_vaddr phdr s;
                    s \<leftarrow> serial_puthex64 v s;
                    s \<leftarrow> serial_puts (cstr '' filesz=0x'') s;
                    v \<leftarrow> p_filesz phdr s;
                    s \<leftarrow> serial_puthex64 v s;
                    s \<leftarrow> serial_puts (cstr '' memsz=0x'') s;
                    v \<leftarrow> p_memsz phdr s;
                    s \<leftarrow> serial_puthex64 v s;
                    s \<leftarrow> serial_puts [10] s;
                    fl \<leftarrow> p_flags phdr s;
                    let flags = PAGE_PRESENT OR PAGE_WRITABLE OR PAGE_USER;
                    let flags = (if fl AND PF_W = 0 then flags OR PAGE_WRITABLE else flags);
                    vaddr \<leftarrow> p_vaddr phdr s;
                    memsz \<leftarrow> p_memsz phdr s;
                    load_pages data sz pml4_pa phdr flags (vaddr AND NOT 0xFFF) ((vaddr + memsz + 0xFFF) AND NOT 0xFFF) s } }"

text \<open>The loop over the program headers; \<open>n\<close> are still to come, \<open>i\<close> is the next.\<close>

primrec load_segments ::
  "nat \<Rightarrow> nat \<Rightarrow> u64 \<Rightarrow> u64 \<Rightarrow> u64 \<Rightarrow> 'a pmm_state_scheme \<Rightarrow> (int \<times> 'a pmm_state_scheme) option" where
  "load_segments 0 i data sz pml4_pa s = Some (0, s)"
| "load_segments (Suc n) i data sz pml4_pa s =
     do { off \<leftarrow> e_phoff data s;
          ent \<leftarrow> e_phentsize data s;
          let ph_off = off + of_nat i * ent;
          if ph_off + sizeof_phdr > sz
          then do { s \<leftarrow> serial_puts (cstr ''[ELF] ERR: phdr past end'' @ [10]) s; Some (- 1, s) }
          else do { (r, s) \<leftarrow> load_segment data sz pml4_pa (data + ph_off) s;
                    if r \<noteq> 0 then Some (- 1, s) else load_segments n (Suc i) data sz pml4_pa s } }"

section \<open>The image\<close>

definition elf_reject :: "cstring \<Rightarrow> u64 option \<Rightarrow> 'a machine_scheme \<Rightarrow> (int \<times> u64 option \<times> 'a machine_scheme) option" where
  "elf_reject msg out s = do { s \<leftarrow> serial_puts (msg @ [10]) s; Some (- 1, out, s) }"

primrec dump_bytes :: "nat \<Rightarrow> u64 \<Rightarrow> 'a machine_scheme \<Rightarrow> 'a machine_scheme option" where
  "dump_bytes 0 p s = Some s"
| "dump_bytes (Suc n) p s =
     do { b \<leftarrow> kload8 p s;
          s \<leftarrow> serial_puts [hex_upper ! unat (drop_bit 4 b), hex_upper ! unat (b AND 0xF), 32] s;
          dump_bytes n (p + 1) s }"

text \<open>The buffer of four digits, of which three are set, as a string.\<close>

definition phnum_digits :: "u64 \<Rightarrow> cstring" where
  "phnum_digits n = takeWhile (\<lambda>c. c \<noteq> 0) [0x30 + ucast (n div 100), 0x30 + ucast (n div 10 mod 10), 0x30 + ucast (n mod 10), 0x30]"

text \<open>Once the header is accepted.\<close>

definition elf_load_valid ::
  "u64 \<Rightarrow> u64 \<Rightarrow> u64 \<Rightarrow> 'a pmm_state_scheme \<Rightarrow> (int \<times> u64 option \<times> 'a pmm_state_scheme) option" where
  "elf_load_valid data sz pml4_pa s =
     do { s \<leftarrow> serial_puts (cstr ''[ELF] header OK, entry=0x'') s;
          v \<leftarrow> e_entry data s; s \<leftarrow> serial_puthex64 v s;
          s \<leftarrow> serial_puts (cstr '' type=0x'') s;
          v \<leftarrow> e_type data s; s \<leftarrow> serial_puthex64 v s;
          s \<leftarrow> serial_puts (cstr '' machine=0x'') s;
          v \<leftarrow> e_machine data s; s \<leftarrow> serial_puthex64 v s;
          s \<leftarrow> serial_puts (cstr '' phnum='') s;
          v \<leftarrow> e_phnum data s; s \<leftarrow> serial_puts (phnum_digits v) s;
          s \<leftarrow> serial_puts [10] s;
          entry \<leftarrow> e_entry data s;
          n \<leftarrow> e_phnum data s;
          (r, s) \<leftarrow> load_segments (unat n) 0 data sz pml4_pa s;
          if r \<noteq> 0 then Some (- 1, Some entry, s)
          else do { s \<leftarrow> serial_puts (cstr ''[ELF] load OK'' @ [10]) s; Some (0, Some entry, s) } }"

definition elf_load ::
  "u64 \<Rightarrow> u64 \<Rightarrow> u64 \<Rightarrow> u64 option \<Rightarrow> 'a pmm_state_scheme \<Rightarrow> (int \<times> u64 option \<times> 'a pmm_state_scheme) option" where
  "elf_load data sz pml4_pa entry_out s =
     (if data = 0 \<or> sz < sizeof_ehdr \<or> entry_out = None then elf_reject (cstr ''[ELF] ERR: bad args'') entry_out s
      else do {
        m0 \<leftarrow> kload8 data s; m1 \<leftarrow> kload8 (data + 1) s; m2 \<leftarrow> kload8 (data + 2) s; m3 \<leftarrow> kload8 (data + 3) s;
        if m0 \<noteq> ELFMAG0 \<or> m1 \<noteq> ELFMAG1 \<or> m2 \<noteq> ELFMAG2 \<or> m3 \<noteq> ELFMAG3
        then elf_reject (cstr ''[ELF] ERR: bad magic'') entry_out s
        else do {
          c \<leftarrow> kload8 (data + 4) s;
          if c \<noteq> ELFCLASS64 then elf_reject (cstr ''[ELF] ERR: not 64-bit'') entry_out s
          else do {
            d \<leftarrow> kload8 (data + 5) s;
            if d \<noteq> ELFDATA2LSB then elf_reject (cstr ''[ELF] ERR: not little-endian'') entry_out s
            else do {
              s \<leftarrow> serial_puts (cstr ''[ELF] bytes: '') s;
              s \<leftarrow> dump_bytes 20 data s;
              s \<leftarrow> serial_puts [10] s;
              ty \<leftarrow> e_type data s;
              if ty \<noteq> ET_EXEC then elf_reject (cstr ''[ELF] ERR: not executable'') entry_out s
              else do {
                mc \<leftarrow> e_machine data s;
                if mc \<noteq> EM_X86_64 then elf_reject (cstr ''[ELF] ERR: not x86_64'') entry_out s
                else elf_load_valid data sz pml4_pa s } } } } })"

declare serial_puts.simps [simp del]

section \<open>What a page receives\<close>

lemma copy_range_within:
  assumes "copy_range va vaddr filesz poffset sz = Some (off, n)"
  shows "0 < unat n \<and> unat off + unat n \<le> unat sz \<and>
    (unat vaddr + unat filesz < 2 ^ 64 \<and> unat va + 4096 < 2 ^ 64 \<longrightarrow> unat n \<le> 4096)"
proof -
  define cs where "cs = (if va > vaddr then va else vaddr)"
  define ce where "ce = (if va + PMM_FRAME_SIZE < vaddr + filesz then va + PMM_FRAME_SIZE else vaddr + filesz)"
  have c: "va + PMM_FRAME_SIZE > vaddr" "va < vaddr + filesz" "ce - cs > 0" "off < sz" "sz - off > 0"
    "n = (if ce - cs < sz - off then ce - cs else sz - off)"
    using assms unfolding copy_range_def Let_def cs_def [symmetric] ce_def [symmetric] by (auto split: if_splits)
  have u: "unat (sz - off) = unat sz - unat off" using c(4) by (simp add: unat_sub_if' word_less_nat_alt)
  have n: "unat n = min (unat (ce - cs)) (unat (sz - off))" using c(6) by (simp add: word_less_nat_alt)
  have "unat n > 0" "unat off + unat n \<le> unat sz" using n u c(3,4,5) by (auto simp: word_less_nat_alt)
  moreover have "unat n \<le> 4096" if w: "unat vaddr + unat filesz < 2 ^ 64" "unat va + 4096 < 2 ^ 64"
  proof -
    have e: "unat (vaddr + filesz) = unat vaddr + unat filesz" "unat (va + PMM_FRAME_SIZE) = unat va + 4096"
      using w by (simp_all add: unat_word_ariths PMM_FRAME_SIZE_def)
    have "unat ce \<le> unat va + 4096" "unat va \<le> unat cs" "unat cs \<le> unat ce"
      using c(1,2) e by (auto simp: ce_def cs_def word_less_nat_alt)
    then have "unat (ce - cs) \<le> 4096" by (simp add: unat_sub_if')
    then show ?thesis using n by simp
  qed
  ultimately show ?thesis by blast
qed

text \<open>
  C30. The copy into a page stays within the image, whatever the program header says: it is not empty, and it ends at or before
  the last byte of the image. If neither the end of the segment's file part nor the end of the page wraps around, it also
  stays within the page.
\<close>

theorem copy_range_bounds:
  assumes "copy_range va vaddr filesz poffset sz = Some (off, n)"
  shows "0 < unat n \<and> unat off + unat n \<le> unat sz \<and>
    (unat vaddr + unat filesz < 2 ^ 64 \<and> unat va + 4096 < 2 ^ 64 \<longrightarrow> unat n \<le> 4096)"
  by (rule copy_range_within [OF assms])

theorem copy_range_bounds_witness:
  "copy_range 0x401000 0x400000 0x1234 0x40 0x1200 = Some (0x1040, 0x1C0) \<and> unat (0x1040 :: u64) + unat (0x1C0 :: u64) \<le> unat (0x1200 :: u64)"
proof -
  have c: "copy_range 0x401000 0x400000 0x1234 0x40 0x1200 = Some (0x1040, 0x1C0)"
    by (simp add: copy_range_def PMM_FRAME_SIZE_def)
  from copy_range_bounds [OF c] c show ?thesis by blast
qed

text \<open>
  A file size that wraps around with the address: the end of the file part then lies below its start, but still above the start of the page,
  and the whole image, here 16 pages, is copied over the frame and what follows it.
\<close>

lemma copy_range_wraps: "copy_range 0x400000 0x400800 0xFFFFFFFFFFFFFC00 0 0x10000 = Some (0, 0x10000)"
  by (simp add: copy_range_def PMM_FRAME_SIZE_def)

section \<open>Rejected images\<close>

lemma dump_bytes_spec:
  assumes "uart_live s" "\<And>i. i < n \<Longrightarrow> \<exists>b. kload8 (p + of_nat i) s = Some b"
  shows "\<exists>t. dump_bytes n p s = Some t \<and> uart_live t \<and> io_eq s t"
  using assms
proof (induction n arbitrary: p s)
  case (Suc n)
  obtain b where b: "kload8 p s = Some b" using Suc.prems(2) [of 0] by auto
  let ?cs = "[hex_upper ! unat (drop_bit 4 b), hex_upper ! unat (b AND 0xF), 32]"
  obtain u where u: "serial_puts ?cs s = Some u" "uart_live u" "io_eq s u" using serial_puts_spec [OF Suc.prems(1)] by blast
  have "\<exists>b. kload8 (p + 1 + of_nat i) u = Some b" if "i < n" for i
    using Suc.prems(2) [of "Suc i"] that by (simp add: kload8_io_eq [OF u(3)] ac_simps)
  from Suc.IH [OF u(2) this] obtain t where "dump_bytes n (p + 1) u = Some t" "uart_live t" "io_eq u t" by blast
  with b u show ?case by (auto intro: io_eq_trans)
qed auto

lemma kload_le_io_eq: "io_eq s t \<Longrightarrow> kload_le n a t = kload_le n a s"
  by (induction n arbitrary: a) (simp_all add: kload8_io_eq)

lemma elf_reject_spec:
  assumes "uart_live s"
  shows "\<exists>t. elf_reject msg out s = Some (- 1, out, t) \<and> io_eq s t"
  using serial_puts_spec [OF assms, of "msg @ [10]"] by (auto simp: elf_reject_def)

text \<open>The identification, type and machine that the loader accepts; \<open>b i\<close> is byte \<open>i\<close> of the image.\<close>

definition elf_ident :: "(nat \<Rightarrow> u8) \<Rightarrow> bool" where
  "elf_ident b \<longleftrightarrow> [b 0, b 1, b 2, b 3, b 4, b 5] = [0x7F, 0x45, 0x4C, 0x46, 2, 1] \<and> [b 16, b 17, b 18, b 19] = [2, 0, 62, 0]"

lemma two_bytes: "(ucast a :: u64) + 256 * (ucast b + 256 * 0) = x \<longleftrightarrow> a = ucast x \<and> b = ucast (x div 256)"
  if "unat x < 0x10000" for a b :: u8
proof -
  have l: "unat (ucast a + 256 * (ucast b + 256 * 0) :: u64) = unat a + 256 * unat b"
    using unsigned_less [of a, where 'a = nat] unsigned_less [of b, where 'a = nat] by (simp add: unat_word_ariths unsigned_ucast_eq take_bit_eq_mod)
  have "unat (x div 256) = unat x div 256" by (simp add: unat_div)
  then have "unat (ucast x :: u8) = unat x mod 256" "unat (ucast (x div 256) :: u8) = unat x div 256"
    using that by (simp_all add: unsigned_ucast_eq take_bit_eq_mod)
  moreover have "m + 256 * k = y \<longleftrightarrow> m = y mod 256 \<and> k = y div 256" if "m < 256" for m k y :: nat using that by auto
  moreover have "unat a < 256" using unsigned_less [of a, where 'a = nat] by simp
  ultimately show ?thesis unfolding word_unat_eq_iff l by simp
qed

text \<open>With its arguments in order, \<open>elf_load\<close> goes on if and only if the header is accepted.\<close>

lemma elf_load_checked:
  fixes s :: "'a pmm_state_scheme"
  assumes live: "uart_live s" and bytes: "\<And>i. i < 20 \<Longrightarrow> kload8 (data + of_nat i) s = Some (b i)"
    and args: "data \<noteq> 0" "64 \<le> unat sz" "out \<noteq> None"
  shows "if elf_ident b then \<exists>t. elf_load data sz pml4 out s = elf_load_valid data sz pml4 t \<and> io_eq s t \<and> uart_live t
    else \<exists>t. elf_load data sz pml4 out s = Some (- 1, out, t) \<and> io_eq s t"
proof -
  have c: "\<not> (data = 0 \<or> sz < sizeof_ehdr \<or> out = None)" using args by (simp add: sizeof_ehdr_def word_less_nat_alt)
  have ld: "kload8 data s = Some (b 0)" "kload8 (data + 1) s = Some (b 1)" "kload8 (data + 2) s = Some (b 2)"
    "kload8 (data + 3) s = Some (b 3)" "kload8 (data + 4) s = Some (b 4)" "kload8 (data + 5) s = Some (b 5)"
    "kload8 (data + 16) s = Some (b 16)" "kload8 (data + 17) s = Some (b 17)" "kload8 (data + 18) s = Some (b 18)"
    "kload8 (data + 19) s = Some (b 19)"
    using bytes [of 0] bytes [of 1] bytes [of 2] bytes [of 3] bytes [of 4] bytes [of 5] bytes [of 16] bytes [of 17]
      bytes [of 18] bytes [of 19] by simp_all
  have wd: "e_type data s = Some (ucast (b 16) + 256 * (ucast (b 17) + 256 * 0))"
    "e_machine data s = Some (ucast (b 18) + 256 * (ucast (b 19) + 256 * 0))"
    using ld by (simp_all add: numeral_2_eq_2 add.assoc)
  have tb: "ucast (b 16) + 256 * (ucast (b 17) + 256 * 0) = ET_EXEC \<longleftrightarrow> b 16 = 2 \<and> b 17 = 0"
    "ucast (b 18) + 256 * (ucast (b 19) + 256 * 0) = EM_X86_64 \<longleftrightarrow> b 18 = 62 \<and> b 19 = 0"
    by (subst two_bytes; simp add: ET_EXEC_def EM_X86_64_def)+
  obtain s1 where s1: "serial_puts (cstr ''[ELF] bytes: '') s = Some s1" "uart_live s1" "io_eq s s1"
    using serial_puts_spec [OF live] by blast
  obtain s2 where s2: "dump_bytes 20 data s1 = Some s2" "uart_live s2" "io_eq s1 s2"
    using dump_bytes_spec [OF s1(2), of 20 data] bytes by (auto simp: kload8_io_eq [OF s1(3)])
  obtain s3 where s3: "serial_puts [10] s2 = Some s3" "uart_live s3" "io_eq s2 s3"
    using serial_puts_spec [OF s2(2)] by blast
  have io: "io_eq s s3" using s1(3) s2(3) s3(3) io_eq_trans by blast
  note f = kload_le_io_eq [OF io]
  note step = elf_load_def [of data sz pml4 out s, unfolded if_not_P [OF c] ld(1-6) bind.bind_lunit s1(1) s2(1) s3(1) f wd tb]
  note magic = ELFMAG0_def ELFMAG1_def ELFMAG2_def ELFMAG3_def ELFCLASS64_def ELFDATA2LSB_def
  show ?thesis
  proof (cases "[b 0, b 1, b 2, b 3, b 4, b 5] = [0x7F, 0x45, 0x4C, 0x46, 2, 1]")
    case True
    moreover have "\<exists>t. elf_reject msg out s3 = Some (- 1, out, t) \<and> io_eq s t" for msg
      using elf_reject_spec [OF s3(2), of msg out] io_eq_trans [OF io] by blast
    ultimately show ?thesis unfolding step elf_ident_def using io s3(2) by (auto simp: magic)
  next
    case False
    then show ?thesis unfolding step elf_ident_def using elf_reject_spec [OF live] by (auto simp: magic)
  qed
qed

text \<open>
  C29. \<open>elf_load\<close> refuses, with -1, a null image or result pointer, an image shorter than the header, and an image whose
  header is not that of a 64-bit little-endian x86-64 executable. It then has allocated and mapped nothing and has not
  set the entry point: only the serial line has seen a message.
\<close>

theorem elf_load_rejects:
  fixes s :: "'a pmm_state_scheme"
  assumes live: "uart_live s" and bytes: "\<And>i. i < 20 \<Longrightarrow> kload8 (data + of_nat i) s = Some (b i)"
    and bad: "data = 0 \<or> unat sz < 64 \<or> out = None \<or> \<not> elf_ident b"
  shows "\<exists>t. elf_load data sz pml4 out s = Some (- 1, out, t) \<and> io_eq s t"
proof (cases "data = 0 \<or> unat sz < 64 \<or> out = None")
  case True
  then have "elf_load data sz pml4 out s = elf_reject (cstr ''[ELF] ERR: bad args'') out s"
    by (auto simp: elf_load_def sizeof_ehdr_def word_less_nat_alt)
  with elf_reject_spec [OF live] show ?thesis by simp
next
  case False
  then show ?thesis using elf_load_checked [OF live bytes, where sz = sz and out = out and ?pml4.0 = pml4] bad by auto
qed

end
