(* ===== verification/Prism_Userspace.thy ===== *)
theory Prism_Userspace
  imports Prism_Elf
begin

text \<open>
  The page tables of a user address space as a tree: the tables are named by the indices on the way from the root, and the invariant
  \<open>user_tree\<close> says that they are separate frames in low memory. Under it the loader's
  walk (\<open>map_user_page\<close>) adds tables and pages without disturbing any other translation.
\<close>

section \<open>Tables as nodes of a tree\<close>

definition child :: "memory \<Rightarrow> u64 \<Rightarrow> u64 \<Rightarrow> u64 option" where
  "child m p i = (let e = load64 m (entry_at p i) in if present e then Some (page_of e) else None)"

definition node :: "memory \<Rightarrow> u64 \<Rightarrow> u64 list \<Rightarrow> u64 option" where
  "node m r xs = foldl (\<lambda>q i. Option.bind q (\<lambda>p. child m p i)) (Some r) xs"

lemma node_simps [simp]: "node m r [] = Some r" "node m r (xs @ [i]) = Option.bind (node m r xs) (\<lambda>p. child m p i)"
  by (simp_all add: node_def)

text \<open>The way to a table: at most three indices. The last entry of the root belongs to the kernel.\<close>

definition path :: "u64 list \<Rightarrow> bool" where
  "path xs \<longleftrightarrow> length xs \<le> 3 \<and> (\<forall>i\<in>set xs. i < 512) \<and> (xs \<noteq> [] \<longrightarrow> hd xs \<noteq> 511)"

lemma path_Nil [simp]: "path []"
  by (simp add: path_def)

lemma path_snoc:
  assumes "path (xs @ [i])"
  shows "path xs" "i < 512" "length xs \<le> 2"
  using assms by (auto simp: path_def hd_append)

definition tables :: "'a machine_scheme \<Rightarrow> u64 \<Rightarrow> u64 set" where
  "tables s r = {p. \<exists>xs. path xs \<and> node (mem s) r xs = Some p}"

definition user_tree :: "'a pmm_state_scheme \<Rightarrow> u64 \<Rightarrow> bool" where
  "user_tree s r \<longleftrightarrow> kernel_mapped s \<and> pmm_ready s \<and> page_aligned r \<and>
     (\<forall>f\<in>pmm_avail s. unat f < 0x1FF000 \<and> f \<notin> ktables s) \<and>
     (\<forall>p\<in>tables s r. unat p < 0x1FF000 \<and> p \<notin> ktables s \<and> p \<notin> pmm_avail s) \<and>
     (\<forall>xs ys p. path xs \<and> path ys \<and> node (mem s) r xs = Some p \<and> node (mem s) r ys = Some p \<longrightarrow> xs = ys) \<and>
     (\<forall>xs p i. path xs \<and> length xs = 2 \<and> node (mem s) r xs = Some p \<and> i < 512 \<longrightarrow>
        k_entry s p i AND PAGE_PS = 0)"

lemma user_treeD:
  assumes "user_tree s r"
  shows "kernel_mapped s" "pmm_ready s" "page_aligned r"
    "f \<in> pmm_avail s \<Longrightarrow> unat f < 0x1FF000" "f \<in> pmm_avail s \<Longrightarrow> f \<notin> ktables s"
    "p \<in> tables s r \<Longrightarrow> unat p < 0x1FF000" "p \<in> tables s r \<Longrightarrow> p \<notin> ktables s" "p \<in> tables s r \<Longrightarrow> p \<notin> pmm_avail s"
    "path xs \<Longrightarrow> path ys \<Longrightarrow> node (mem s) r xs = Some p \<Longrightarrow> node (mem s) r ys = Some p \<Longrightarrow> xs = ys"
    "path xs \<Longrightarrow> length xs = 2 \<Longrightarrow> node (mem s) r xs = Some p \<Longrightarrow> i < 512 \<Longrightarrow> k_entry s p i AND PAGE_PS = 0"
  using assms unfolding user_tree_def by blast+

lemma tablesI: "path xs \<Longrightarrow> node (mem s) r xs = Some p \<Longrightarrow> p \<in> tables s r"
  by (auto simp: tables_def)

lemma child_aligned: "child m p i = Some q \<Longrightarrow> page_aligned q"
  by (auto simp: child_def Let_def split: if_splits)

lemma node_aligned:
  assumes "page_aligned r" "node m r xs = Some p"
  shows "page_aligned p"
  using assms by (cases xs rule: rev_cases) (auto simp: bind_eq_Some_conv child_aligned)

lemma tables_aligned: "user_tree s r \<Longrightarrow> p \<in> tables s r \<Longrightarrow> page_aligned p"
  using node_aligned user_treeD(3) by (fastforce simp: tables_def)

lemma child_cong:
  assumes "\<And>a. page_of a = p \<Longrightarrow> m' a = m a" "page_aligned p" "i < 512"
  shows "child m' p i = child m p i"
  using load64_entry_cong [OF assms] by (simp add: child_def)

lemma child_store:
  assumes "page_aligned p" "page_aligned q" "i < 512" "j < 512"
  shows "child (store64 (entry_at p i) v m) q j =
    (if p = q \<and> i = j then if present v then Some (page_of v) else None else child m q j)"
  using load64_entry_store [OF assms, of v m] by (auto simp: child_def Let_def)

lemma child_zero:
  assumes "page_aligned f" "page_aligned q" "j < 512"
  shows "child (zero_page f m) q j = (if q = f then None else child m q j)"
  using load64_zero_page [OF assms] by (simp add: child_def Let_def entry_at_def)

text \<open>Translation of the user's part of the address space through the tree.\<close>

definition indices :: "u64 \<Rightarrow> u64 list" where
  "indices va = [pt_index 39 va, pt_index 30 va, pt_index 21 va]"

lemma path_indices: "pt_index 39 va \<noteq> 511 \<Longrightarrow> path (indices va)"
  by (simp add: path_def indices_def)

lemma path_prefix: "path (xs @ ys) \<Longrightarrow> path xs"
  by (auto simp: path_def)

lemma node_indices:
  "node m r (indices va) = Option.bind (child m r (pt_index 39 va)) (\<lambda>p3.
     Option.bind (child m p3 (pt_index 30 va)) (\<lambda>p2. child m p2 (pt_index 21 va)))"
  by (simp add: node_def indices_def split: bind_splits)

lemma user_walk:
  assumes ut: "user_tree s r" and va: "pt_index 39 va \<noteq> 511"
  shows "mmu_walk (mem s) r va = (case node (mem s) r (indices va) of None \<Rightarrow> None
    | Some p \<Rightarrow> let e = k_entry s p (pt_index 12 va) in if present e then Some (page_of e OR (va AND 0xFFF)) else None)"
proof -
  have p2: "path [pt_index 39 va, pt_index 30 va]" using va by (simp add: path_def)
  have n2: "node (mem s) r [pt_index 39 va, pt_index 30 va] =
      Option.bind (child (mem s) r (pt_index 39 va)) (\<lambda>p3. child (mem s) p3 (pt_index 30 va))"
    by (simp add: node_def)
  have ps: "k_entry s p (pt_index 21 va) AND PAGE_PS = 0"
    if "Option.bind (child (mem s) r (pt_index 39 va)) (\<lambda>p3. child (mem s) p3 (pt_index 30 va)) = Some p" for p
    using user_treeD(10) [OF ut p2 _ that [folded n2] pt_index_less] by simp
  show ?thesis
    unfolding node_indices mmu_walk_def entry_at_def [symmetric] Let_def user_treeD(3) [OF ut]
    using ps by (auto simp: child_def Let_def)
qed

section \<open>Growing the tree\<close>

text \<open>What the loader may do to a tree: it adds nodes in frames that were free, and pages, and touches no memory but that of the nodes
  and of free frames.\<close>

definition grown :: "u64 \<Rightarrow> 'a pmm_state_scheme \<Rightarrow> 'a pmm_state_scheme \<Rightarrow> bool" where
  "grown r s t \<longleftrightarrow> (\<exists>m b n. t = s\<lparr>mem := m, bitmap := b, used_frames := n\<rparr>) \<and> user_tree t r \<and>
     pmm_avail t \<subseteq> pmm_avail s \<and> tables s r \<subseteq> tables t r \<and> tables t r \<subseteq> tables s r \<union> (pmm_avail s - pmm_avail t) \<and>
     (\<forall>xs p. path xs \<and> node (mem s) r xs = Some p \<longrightarrow> node (mem t) r xs = Some p) \<and>
     (\<forall>a. page_of a \<notin> pmm_avail s \<union> tables s r \<longrightarrow> mem t a = mem s a)"

lemma grownD:
  assumes "grown r s t"
  shows "user_tree t r" "pmm_avail t \<subseteq> pmm_avail s" "tables s r \<subseteq> tables t r"
    "tables t r \<subseteq> tables s r \<union> (pmm_avail s - pmm_avail t)"
    "path xs \<Longrightarrow> node (mem s) r xs = Some p \<Longrightarrow> node (mem t) r xs = Some p"
    "page_of a \<notin> pmm_avail s \<union> tables s r \<Longrightarrow> mem t a = mem s a"
  using assms unfolding grown_def by blast+

lemma grownE:
  assumes "grown r s t"
  obtains m b n where "t = s\<lparr>mem := m, bitmap := b, used_frames := n\<rparr>"
  using assms unfolding grown_def by blast

lemma grown_refl: "user_tree s r \<Longrightarrow> grown r s s"
proof -
  assume "user_tree s r"
  moreover have "s = s\<lparr>mem := mem s, bitmap := bitmap s, used_frames := used_frames s\<rparr>" by simp
  ultimately show ?thesis unfolding grown_def by blast
qed

lemma grown_trans [trans]:
  assumes st: "grown r s t" and tu: "grown r t u"
  shows "grown r s u"
proof -
  note a = grownD [OF st] and b = grownD [OF tu]
  obtain m b n where t: "t = s\<lparr>mem := m, bitmap := b, used_frames := n\<rparr>" by (rule grownE [OF st])
  obtain m' b' n' where u: "u = t\<lparr>mem := m', bitmap := b', used_frames := n'\<rparr>" by (rule grownE [OF tu])
  have "\<exists>m b n. u = s\<lparr>mem := m, bitmap := b, used_frames := n\<rparr>"
    by (intro exI [of _ m'] exI [of _ b'] exI [of _ n']) (simp add: t u)
  moreover have "mem u a = mem s a" if "page_of a \<notin> pmm_avail s \<union> tables s r" for a
    using a(6) [OF that] b(6) [of a] that a(2,4) by auto
  moreover have "pmm_avail u \<subseteq> pmm_avail s" "tables s r \<subseteq> tables u r" "tables u r \<subseteq> tables s r \<union> (pmm_avail s - pmm_avail u)"
    using a(2-4) b(2-4) by blast+
  moreover have "node (mem u) r xs = Some p" if "path xs" "node (mem s) r xs = Some p" for xs p
    using b(5) [OF that(1) a(5) [OF that]] .
  ultimately show ?thesis using b(1) unfolding grown_def by simp
qed

lemma grown_same:
  assumes "grown r s t"
  shows "cr3 t = cr3 s" "syms t = syms s" "ktables t = ktables s" "io_in t = io_in s" "io_log t = io_log s" "io_reads t = io_reads s"
  by (rule grownE [OF assms], simp add: ktables_def)+

lemma child_low:
  assumes "child m p i = Some q"
  shows "present (load64 m (entry_at p i))" "page_of (load64 m (entry_at p i)) = q"
  using assms by (auto simp: child_def Let_def split: if_splits)

text \<open>A cleared frame is linked below the node of \<open>xs\<close>.\<close>

lemma node_link:
  assumes ut: "user_tree s r" and p: "node (mem s) r xs = Some p" "path (xs @ [i])" "child (mem s) p i = None"
    and f: "f \<in> pmm_avail s" "present e" "page_of e = f" and ys: "path ys"
  shows "node (store64 (entry_at p i) e (zero_page f (mem s))) r ys = (if ys = xs @ [i] then Some f else node (mem s) r ys)"
    (is "node ?m r ys = _")
  using ys
proof (induction ys rule: rev_induct)
  case (snoc j ys)
  note x = path_snoc [OF p(2)] and y = path_snoc [OF snoc.prems]
  have fal: "page_aligned f" by (rule avail_aligned [OF user_treeD(2) [OF ut] f(1)])
  have pt: "p \<in> tables s r" using tablesI [OF x(1) p(1)] .
  have pal: "page_aligned p" using tables_aligned [OF ut pt] .
  have pf: "p \<noteq> f" using user_treeD(8) [OF ut pt] f(1) by auto
  have ch: "child ?m q j = (if p = q \<and> i = j then Some f else if q = f then None else child (mem s) q j)" if "page_aligned q" for q
    using child_store [OF pal that x(2) y(2), of e "zero_page f (mem s)"] child_zero [OF fal that y(2), of "mem s"] f(2,3) by auto
  have IH: "node ?m r ys = (if ys = xs @ [i] then Some f else node (mem s) r ys)" using snoc.IH y(1) by blast
  show ?case
  proof (cases "ys = xs @ [i]")
    case True
    have "node ?m r ys = Some f" using IH True by (metis (full_types))
    moreover have "node (mem s) r ys = None" unfolding True using p(1,3) by simp
    moreover have "ys @ [j] \<noteq> xs @ [i]" using True by auto
    ultimately show ?thesis using ch [OF fal] pf by simp
  next
    case False
    show ?thesis
    proof (cases "node (mem s) r ys")
      case None
      then show ?thesis using IH False p(1) by auto
    next
      case (Some q)
      have q: "q \<in> tables s r" using tablesI [OF y(1) Some] .
      have "q \<noteq> f" using user_treeD(8) [OF ut q] f(1) by auto
      moreover have "p = q \<longleftrightarrow> ys = xs" using user_treeD(9) [OF ut y(1) x(1) Some] Some p(1) by auto
      ultimately show ?thesis using IH False Some ch [OF tables_aligned [OF ut q]] by simp
    qed
  qed
qed (use p(1) in auto)

lemma link_grows:
  fixes s u :: "'a pmm_state_scheme"
  assumes ut: "user_tree s r" and p: "node (mem s) r xs = Some p" "path (xs @ [i])" "child (mem s) p i = None"
    and f: "f \<in> pmm_avail s" "present e" "page_of e = f" "e AND PAGE_PS = 0"
    and u: "u = s\<lparr>bitmap := b, used_frames := n\<rparr>" "pmm_avail u = pmm_avail s - {f}" "pmm_ready u"
  defines "t \<equiv> u\<lparr>mem := store64 (entry_at p i) e (zero_page f (mem s))\<rparr>"
  shows "grown r s t" "node (mem t) r (xs @ [i]) = Some f" "pmm_avail t = pmm_avail s - {f}"
proof -
  note x = path_snoc [OF p(2)] and link = node_link [OF ut p f(1-3)]
  let ?m = "store64 (entry_at p i) e (zero_page f (mem s))"
  have fal: "page_aligned f" by (rule avail_aligned [OF user_treeD(2) [OF ut] f(1)])
  have pt: "p \<in> tables s r" using tablesI [OF x(1) p(1)] .
  have pal: "page_aligned p" using tables_aligned [OF ut pt] .
  have mt: "mem t = ?m" by (simp add: t_def)
  show av: "pmm_avail t = pmm_avail s - {f}" using u(2) by (simp add: t_def)
  show nf: "node (mem t) r (xs @ [i]) = Some f" using link [OF p(2)] by (simp add: mt)
  have tab: "tables t r = insert f (tables s r)"
  proof (intro set_eqI iffI)
    fix q assume "q \<in> tables t r"
    then obtain ys where "path ys" "node ?m r ys = Some q" by (auto simp: tables_def mt)
    then show "q \<in> insert f (tables s r)" using link [of ys] tablesI [of ys s r q] by (auto split: if_splits)
  next
    fix q assume "q \<in> insert f (tables s r)"
    then consider "q = f" | ys where "path ys" "node (mem s) r ys = Some q" by (auto simp: tables_def)
    then show "q \<in> tables t r"
    proof cases
      case 2
      then have "ys \<noteq> xs @ [i]" using p(1,3) by auto
      then show ?thesis using 2 link [OF 2(1)] by (intro tablesI [OF 2(1)]) (simp add: mt)
    qed (use nf p(2) tablesI in blast)
  qed
  have kt: "ktables t = ktables s" by (simp add: t_def u(1) ktables_def)
  have out: "?m a = mem s a" if "page_of a \<noteq> p" "page_of a \<noteq> f" for a
    using store_outside [OF pal x(2) that(1)] that(2) by (simp add: zero_page_def)
  have "kernel_mapped (s\<lparr>mem := ?m\<rparr>)"
    by (rule kernel_mapped_cong [OF user_treeD(1) [OF ut]])
      (rule out, use user_treeD(7) [OF ut pt] user_treeD(5) [OF ut f(1)] in auto)
  then have km: "kernel_mapped t" using kernel_mapped_same(1) [of t "s\<lparr>mem := ?m\<rparr>"] by (simp add: t_def u(1))
  have inj: "ys = zs" if "path ys" "path zs" "node ?m r ys = Some q" "node ?m r zs = Some q" for ys zs q
    using that link [OF that(1)] link [OF that(2)] user_treeD(9) [OF ut that(1,2)] user_treeD(8) [OF ut, of q] f(1)
      tablesI [OF that(1), of s r q] tablesI [OF that(2), of s r q] by (auto split: if_splits)
  have ps: "load64 ?m (entry_at q j) AND PAGE_PS = 0" if "path ys" "length ys = 2" "node ?m r ys = Some q" "j < 512" for ys q j
  proof -
    have z: "load64 (zero_page f (mem s)) (entry_at q j) = (if q = f then 0 else k_entry s q j)" if "page_aligned q"
      using load64_zero_page [OF fal that \<open>j < 512\<close>] by (simp only: entry_at_def)
    have q: "q = f \<or> node (mem s) r ys = Some q" using link [OF that(1)] that(3) by (auto split: if_splits)
    then have "page_aligned q" using fal node_aligned [OF user_treeD(3) [OF ut]] by blast
    then show ?thesis using q load64_entry_store [OF pal _ x(2) that(4)] z f(4) user_treeD(10) [OF ut that(1,2) _ that(4)] by auto
  qed
  have "user_tree t r"
    unfolding user_tree_def kt av tab
    using km u(3) user_treeD [OF ut] f(1) inj ps by (simp add: t_def) blast
  moreover have "\<exists>m b n. t = s\<lparr>mem := m, bitmap := b, used_frames := n\<rparr>"
    by (intro exI [of _ ?m] exI [of _ b] exI [of _ n]) (simp add: t_def u(1))
  moreover have "node (mem t) r ys = Some q" if "path ys" "node (mem s) r ys = Some q" for ys q
    using link [OF that(1)] that(2) p(1,3) by (auto simp: mt)
  moreover have "?m a = mem s a" if "page_of a \<notin> pmm_avail s \<union> tables s r" for a using that f(1) pt by (intro out) auto
  ultimately show "grown r s t" unfolding grown_def av tab mt using f(1) by blast
qed

definition walks_same :: "u64 \<Rightarrow> 'a machine_scheme \<Rightarrow> 'a machine_scheme \<Rightarrow> bool" where
  "walks_same r s t \<longleftrightarrow> (\<forall>va. pt_index 39 va \<noteq> 511 \<longrightarrow> mmu_walk (mem t) r va = mmu_walk (mem s) r va)"

lemma walks_same_refl [simp]: "walks_same r s s"
  by (simp add: walks_same_def)

lemma walks_same_trans [trans]: "walks_same r s t \<Longrightarrow> walks_same r t u \<Longrightarrow> walks_same r s u"
  by (simp add: walks_same_def)

lemma link_walks:
  assumes ut: "user_tree s r" and p: "node (mem s) r xs = Some p" "path (xs @ [i])" "child (mem s) p i = None"
    and f: "f \<in> pmm_avail s" "present e" "page_of e = f"
    and t: "user_tree t r" "mem t = store64 (entry_at p i) e (zero_page f (mem s))"
  shows "walks_same r s t"
  unfolding walks_same_def
proof (intro allI impI)
  fix va assume va: "pt_index 39 va \<noteq> 511"
  let ?xs = "indices va" and ?j = "pt_index 12 va"
  note x = path_snoc [OF p(2)] and py = path_indices [OF va]
  note link = node_link [OF ut p f py, folded t(2)]
  have fal: "page_aligned f" by (rule avail_aligned [OF user_treeD(2) [OF ut] f(1)])
  have pt: "p \<in> tables s r" using tablesI [OF x(1) p(1)] .
  have pal: "page_aligned p" using tables_aligned [OF ut pt] .
  have pf: "p \<noteq> f" using user_treeD(8) [OF ut pt] f(1) by auto
  have ent: "k_entry t q ?j = (if p = q \<and> i = ?j then e else if q = f then 0 else k_entry s q ?j)" if "page_aligned q" for q
    unfolding t(2) load64_entry_store [OF pal that x(2) pt_index_less]
    using load64_zero_page [OF fal that pt_index_less, of "mem s" 12 va] by (simp only: entry_at_def)
  consider "?xs = xs @ [i]" | "?xs \<noteq> xs @ [i]" "node (mem s) r ?xs = None" | q where "?xs \<noteq> xs @ [i]" "node (mem s) r ?xs = Some q"
    by (cases "node (mem s) r ?xs") auto
  then show "mmu_walk (mem t) r va = mmu_walk (mem s) r va"
  proof cases
    case 1
    then have "node (mem s) r ?xs = None" using p(1,3) by simp
    moreover have "node (mem t) r ?xs = Some f" using link 1 by simp
    ultimately show ?thesis unfolding user_walk [OF ut va] user_walk [OF t(1) va] using ent [OF fal] pf by simp
  next
    case 2
    then show ?thesis unfolding user_walk [OF ut va] user_walk [OF t(1) va] using link by simp
  next
    case 3
    have q: "q \<in> tables s r" using tablesI [OF py 3(2)] .
    have "length ?xs = 3" by (simp add: indices_def)
    then have "?xs \<noteq> xs" using x(3) by auto
    then have "p \<noteq> q" "q \<noteq> f" using user_treeD(9) [OF ut py x(1) 3(2)] p(1) user_treeD(8) [OF ut q] f(1) by auto
    then have "k_entry t q ?j = k_entry s q ?j" using ent [OF tables_aligned [OF ut q]] by simp
    then show ?thesis unfolding user_walk [OF ut va] user_walk [OF t(1) va] using link 3 by simp
  qed
qed

section \<open>The walk of the loader\<close>

lemma low_phys_to_virt:
  assumes "unat p < 0x1FF000"
  shows "paging_phys_to_virt p s = Some (p + HIGHER_HALF_BASE, s)"
  using assms by (simp add: paging_phys_to_virt_def virt_for_phys_def word_less_nat_alt)

lemma user_level_present:
  assumes ut: "user_tree s r" and p: "node (mem s) r xs = Some p" "path (xs @ [i])" and c: "child (mem s) p i = Some q"
  shows "user_level (p + HIGHER_HALF_BASE) i rw s = Some (Inr (q + HIGHER_HALF_BASE, s))"
proof -
  note x = path_snoc [OF p(2)] and c' = child_low [OF c]
  have pt: "p \<in> tables s r" using tablesI [OF x(1) p(1)] .
  have qt: "q \<in> tables s r" using p(1) c by (intro tablesI [OF p(2)]) simp
  note get = window_entry(1) [OF user_treeD(1) [OF ut] tables_aligned [OF ut pt] user_treeD(6) [OF ut pt] x(2)]
  show ?thesis unfolding user_level_def get using c' low_phys_to_virt [OF user_treeD(6) [OF ut qt], of s]
    by (simp add: get)
qed

lemma user_level_full:
  assumes ut: "user_tree s r" and p: "node (mem s) r xs = Some p" "path (xs @ [i])" and c: "child (mem s) p i = None"
    and e: "pmm_avail s = {}"
  shows "user_level (p + HIGHER_HALF_BASE) i rw s = Some (Inl s)"
proof -
  note x = path_snoc [OF p(2)]
  have pt: "p \<in> tables s r" using tablesI [OF x(1) p(1)] .
  note get = window_entry(1) [OF user_treeD(1) [OF ut] tables_aligned [OF ut pt] user_treeD(6) [OF ut pt] x(2)]
  have "\<not> present (k_entry s p i)" using c by (auto simp: child_def Let_def split: if_splits)
  then show ?thesis unfolding user_level_def get using pmm.alloc_empty [OF user_treeD(2) [OF ut] e] by simp
qed

lemma user_level_new:
  fixes s :: "'a pmm_state_scheme"
  assumes ut: "user_tree s r" and p: "node (mem s) r xs = Some p" "path (xs @ [i])" and c: "child (mem s) p i = None"
    and ne: "pmm_avail s \<noteq> {}"
  obtains f t where "user_level (p + HIGHER_HALF_BASE) i rw_user_flags s = Some (Inr (f + HIGHER_HALF_BASE, t))"
    "grown r s t" "node (mem t) r (xs @ [i]) = Some f" "f \<in> pmm_avail s" "pmm_avail t = pmm_avail s - {f}" "walks_same r s t"
proof -
  note x = path_snoc [OF p(2)]
  have pt: "p \<in> tables s r" using tablesI [OF x(1) p(1)] .
  have pal: "page_aligned p" using tables_aligned [OF ut pt] .
  note low = user_treeD(6) [OF ut pt]
  obtain f u where fu: "pmm_alloc_frame s = (f, u)" by fastforce
  have f: "f \<noteq> 0" "f \<in> pmm_avail s" "pmm_avail u = pmm_avail s - {f}" "pmm_ready u"
    using pmm.alloc_cases [OF user_treeD(2) [OF ut] fu] ne by auto
  obtain b n where u: "u = s\<lparr>bitmap := b, used_frames := n\<rparr>"
    using pmm_alloc_frame_eq [of s] unfolding fu snd_conv by (rule bitmap_eqE)
  have fal: "page_aligned f" by (rule avail_aligned [OF user_treeD(2) [OF ut] f(2)])
  have same: "kernel_mapped u = kernel_mapped s" "ktables u = ktables s" using kernel_mapped_same [of u s] by (simp_all add: u)
  note fl = user_treeD(4,5) [OF ut f(2)]
  let ?z = "u\<lparr>mem := zero_page f (mem u)\<rparr>" and ?e = "f OR rw_user_flags"
  let ?t = "u\<lparr>mem := store64 (entry_at p i) ?e (zero_page f (mem s))\<rparr>"
  have km: "kernel_mapped u" using user_treeD(1) [OF ut] same(1) by blast
  have ms: "memset (f + HIGHER_HALF_BASE) 0 PMM_FRAME_SIZE u = Some ?z"
    using memset_page [OF window_page_backed [OF km fal fl(1)]] fl(2) same(2) by (simp add: PMM_FRAME_SIZE_def)
  have kz: "kernel_mapped ?z"
    by (rule kernel_mapped_cong [OF km]) (use fl(2) same(2) in \<open>auto simp: zero_page_def\<close>)
  have st: "table_set (p + HIGHER_HALF_BASE) i ?e ?z = Some ?t"
    using window_entry(2) [OF kz pal low x(2), of ?e] by (simp add: u)
  have e: "present ?e" "page_of ?e = f" "?e AND PAGE_PS = 0"
    using fal no_ps(2) [OF fal] by (simp_all add: present_or page_of_or)
  note g = link_grows [OF ut p(1,2) c f(2) e u f(3,4)]
  have kt: "kernel_mapped ?t" using user_treeD(1) [OF grownD(1) [OF g(1)]] .
  have ent: "k_entry ?t p i = ?e" using load64_entry_store [OF pal pal x(2) x(2)] by simp
  have gs: "table_get (p + HIGHER_HALF_BASE) i s = Some (k_entry s p i)" by (rule window_entry(1) [OF user_treeD(1) [OF ut] pal low x(2)])
  have gt: "table_get (p + HIGHER_HALF_BASE) i ?t = Some ?e" using window_entry(1) [OF kt pal low x(2)] unfolding ent .
  have "\<not> present (k_entry s p i)" using c by (auto simp: child_def Let_def split: if_splits)
  moreover have "?e AND - 4096 = f" using e(2) by (simp only: and_neg_4096)
  ultimately have "user_level (p + HIGHER_HALF_BASE) i rw_user_flags s = Some (Inr (f + HIGHER_HALF_BASE, ?t))"
    unfolding user_level_def gs using low_phys_to_virt [OF fl(1), of u] low_phys_to_virt [OF fl(1), of ?t] ms st gt f(1) fu by simp
  moreover have "walks_same r s ?t" by (rule link_walks [OF ut p(1,2) c f(2) e(1,2) grownD(1) [OF g(1)]]) simp
  ultimately show ?thesis using g f(2) by (intro that)
qed

text \<open>One level: the table below exists afterwards, at the price of at most one frame, unless there is none.\<close>

lemma user_level_cases:
  fixes s :: "'a pmm_state_scheme"
  assumes ut: "user_tree s r" and p: "node (mem s) r xs = Some p" "path (xs @ [i])"
  obtains (full) "user_level (p + HIGHER_HALF_BASE) i rw_user_flags s = Some (Inl s)" "pmm_avail s = {}"
  | (linked) q t where "user_level (p + HIGHER_HALF_BASE) i rw_user_flags s = Some (Inr (q + HIGHER_HALF_BASE, t))"
    "grown r s t" "node (mem t) r (xs @ [i]) = Some q" "card (pmm_avail s) \<le> Suc (card (pmm_avail t))" "walks_same r s t"
proof (cases "child (mem s) p i")
  case (Some q)
  with user_level_present [OF assms Some] p(1) grown_refl [OF ut] show ?thesis by (intro linked [of q s]) auto
next
  case None
  show ?thesis
  proof (cases "pmm_avail s = {}")
    case True
    then show ?thesis using full user_level_full [OF assms None True] by blast
  next
    case False
    obtain f t where t: "user_level (p + HIGHER_HALF_BASE) i rw_user_flags s = Some (Inr (f + HIGHER_HALF_BASE, t))"
      "grown r s t" "node (mem t) r (xs @ [i]) = Some f" "f \<in> pmm_avail s" "pmm_avail t = pmm_avail s - {f}" "walks_same r s t"
      by (rule user_level_new [OF assms None False])
    have "card (pmm_avail s) \<le> Suc (card (pmm_avail t))" unfolding t(5) using t(4) by (simp add: card_Suc_Diff1 card_Diff_singleton_if)
    with t show ?thesis by (intro linked)
  qed
qed

section \<open>Mapping a page\<close>

lemma leaf_store:
  fixes s :: "'a pmm_state_scheme" and v :: u64
  assumes ut: "user_tree s r" and p: "path xs" "length xs = 3" "node (mem s) r xs = Some p" and j: "j < 512"
  defines "t \<equiv> s\<lparr>mem := store64 (entry_at p j) v (mem s)\<rparr>"
  shows "\<And>ys. path ys \<Longrightarrow> node (mem t) r ys = node (mem s) r ys" "grown r s t"
proof -
  have pt: "p \<in> tables s r" using tablesI [OF p(1,3)] .
  have pal: "page_aligned p" using tables_aligned [OF ut pt] .
  show nodes: "node (mem t) r ys = node (mem s) r ys" if "path ys" for ys
    using that
  proof (induction ys rule: rev_induct)
    case (snoc i ys)
    note y = path_snoc [OF snoc.prems]
    show ?case
    proof (cases "node (mem s) r ys")
      case None
      then show ?thesis using snoc.IH [OF y(1)] by simp
    next
      case (Some q)
      have "ys \<noteq> xs" using y(3) p(2) by auto
      then have "p \<noteq> q" using user_treeD(9) [OF ut y(1) p(1) Some] p(3) by auto
      moreover have "page_aligned q" using tables_aligned [OF ut tablesI [OF y(1) Some]] .
      ultimately have "child (mem t) q i = child (mem s) q i" using child_store [OF pal _ j y(2)] by (simp add: t_def)
      then show ?thesis using snoc.IH [OF y(1)] Some by simp
    qed
  qed simp
  have tab: "tables t r = tables s r" unfolding tables_def using nodes by auto
  have out: "mem t a = mem s a" if "page_of a \<noteq> p" for a using store_outside [OF pal j that] by (simp add: t_def)
  have "kernel_mapped (s\<lparr>mem := store64 (entry_at p j) v (mem s)\<rparr>)"
  proof (rule kernel_mapped_cong [OF user_treeD(1) [OF ut]])
    fix a assume "page_of a \<in> ktables s"
    then have "page_of a \<noteq> p" using user_treeD(7) [OF ut pt] by auto
    then show "store64 (entry_at p j) v (mem s) a = mem s a" using out by (simp add: t_def)
  qed
  moreover have "k_entry t q i AND PAGE_PS = 0" if "path ys" "length ys = 2" "node (mem t) r ys = Some q" "i < 512" for ys q i
  proof -
    have q: "node (mem s) r ys = Some q" using nodes that by simp
    have "ys \<noteq> xs" using that(2) p(2) by auto
    then have "p \<noteq> q" using user_treeD(9) [OF ut that(1) p(1) q] p(3) by auto
    moreover have "page_aligned q" using tables_aligned [OF ut tablesI [OF that(1) q]] .
    ultimately show ?thesis
      using load64_entry_store [OF pal _ j that(4)] user_treeD(10) [OF ut that(1,2) q that(4)] by (simp add: t_def)
  qed
  moreover have "ktables t = ktables s" "pmm_avail t = pmm_avail s" "pmm_ready t" using user_treeD(2) [OF ut] by (simp_all add: t_def)
  moreover have "xs = ys" if "path xs" "path ys" "node (mem t) r xs = Some q" "node (mem t) r ys = Some q" for xs ys q
    using user_treeD(9) [OF ut that(1,2)] that(3,4) nodes that(1,2) by simp
  ultimately have "user_tree t r"
    unfolding user_tree_def tab using user_treeD(3-8) [OF ut] unfolding t_def by blast
  moreover have "\<exists>m b n. t = s\<lparr>mem := m, bitmap := b, used_frames := n\<rparr>"
    by (intro exI [of _ "mem t"] exI [of _ "bitmap s"] exI [of _ "used_frames s"]) (simp add: t_def)
  moreover have "pmm_avail t = pmm_avail s" by (simp add: t_def)
  moreover have "mem t a = mem s a" if "page_of a \<notin> pmm_avail s \<union> tables s r" for a using that pt by (intro out) auto
  ultimately show "grown r s t" unfolding grown_def tab using nodes by simp
qed

text \<open>A user address is determined by its four indices and the offset.\<close>

lemma same_page:
  assumes "unat x < 0x800000000000" "unat y < 0x800000000000"
  shows "indices x = indices y \<and> pt_index 12 x = pt_index 12 y \<longleftrightarrow> page_of x = page_of y"
proof -
  have split: "unat z div 4096 = 512 * (512 * (512 * unat (pt_index 39 z) + unat (pt_index 30 z)) + unat (pt_index 21 z)) + unat (pt_index 12 z)"
    if "unat z < 0x800000000000" for z
  proof -
    have "unat z div 0x8000000000 < 512" using that by linarith
    moreover define a where "a = unat z div 4096"
    moreover have "unat z div 0x200000 = a div 512" "unat z div 0x40000000 = a div 512 div 512" "unat z div 0x8000000000 = a div 512 div 512 div 512"
      unfolding a_def div_mult2_eq [symmetric] by simp_all
    moreover have "b = 512 * (b div 512) + b mod 512" for b :: nat by simp
    from this [of a] this [of "a div 512"] this [of "a div 512 div 512"]
    have "a = 512 * (512 * (512 * (a div 512 div 512 div 512) + a div 512 div 512 mod 512) + a div 512 mod 512) + a mod 512" by presburger
    ultimately show ?thesis unfolding unat_pt_index by simp
  qed
  have pg: "page_of x = page_of y \<longleftrightarrow> unat x div 4096 = unat y div 4096"
    unfolding word_unat_eq_iff unat_page_of by (simp add: minus_mod_eq_mult_div)
  have "indices x = indices y \<and> pt_index 12 x = pt_index 12 y" if "unat x div 4096 = unat y div 4096"
  proof -
    have "unat x div 2 ^ k = unat y div 2 ^ k" if "12 \<le> k" for k
    proof -
      have "(2 :: nat) ^ k = 4096 * 2 ^ (k - 12)" using power_add [of "2 :: nat" 12 "k - 12"] that by simp
      then have e: "z div 2 ^ k = z div 4096 div 2 ^ (k - 12)" for z :: nat by (simp add: div_mult2_eq)
      show ?thesis unfolding e [of "unat x"] e [of "unat y"] \<open>unat x div 4096 = unat y div 4096\<close> ..
    qed
    then have "pt_index k x = pt_index k y" if "12 \<le> k" for k using that by (simp add: word_unat_eq_iff unat_pt_index)
    then show ?thesis by (simp add: indices_def)
  qed
  with split [OF assms(1)] split [OF assms(2)] show ?thesis unfolding pg by (auto simp: indices_def)
qed

lemma user_index: "unat va < 0x800000000000 \<Longrightarrow> pt_index 39 va \<noteq> 511"
proof -
  assume "unat va < 0x800000000000"
  then have "unat va div 0x8000000000 < 256" by linarith
  then show ?thesis by (simp add: word_unat_eq_iff unat_pt_index)
qed

lemma leaf_walk:
  fixes s :: "'a pmm_state_scheme"
  assumes ut: "user_tree s r" and va: "unat va < 0x800000000000" and p: "node (mem s) r (indices va) = Some p"
    and e: "present e" and y: "unat y < 0x800000000000"
  defines "t \<equiv> s\<lparr>mem := store64 (entry_at p (pt_index 12 va)) e (mem s)\<rparr>"
  shows "mmu_walk (mem t) r y = (if page_of y = page_of va then Some (page_of e OR (y AND 0xFFF)) else mmu_walk (mem s) r y)"
proof -
  note ix = user_index [OF va] user_index [OF y]
  note px = path_indices [OF ix(1)] and py = path_indices [OF ix(2)]
  have len: "length (indices va) = 3" by (simp add: indices_def)
  note l = leaf_store [OF ut px len p pt_index_less [of 12 va], where v = e, folded t_def]
  have pal: "page_aligned p" using tables_aligned [OF ut tablesI [OF px p]] .
  have same: "page_of y = page_of va \<longleftrightarrow> indices y = indices va \<and> pt_index 12 y = pt_index 12 va" using same_page [OF y va] by blast
  have w: "mmu_walk (mem t) r y = (case node (mem s) r (indices y) of None \<Rightarrow> None
    | Some q \<Rightarrow> let e = k_entry t q (pt_index 12 y) in if present e then Some (page_of e OR (y AND 0xFFF)) else None)"
    using user_walk [OF grownD(1) [OF l(2)] ix(2)] l(1) [OF py] by simp
  show ?thesis
  proof (cases "node (mem s) r (indices y)")
    case None
    then show ?thesis using w user_walk [OF ut ix(2)] p same by auto
  next
    case (Some q)
    have "page_aligned q" using tables_aligned [OF ut tablesI [OF py Some]] .
    then have "k_entry t q (pt_index 12 y) = (if p = q \<and> pt_index 12 va = pt_index 12 y then e else k_entry s q (pt_index 12 y))"
      using load64_entry_store [OF pal] by (simp add: t_def)
    moreover have "p = q \<longleftrightarrow> indices y = indices va" using user_treeD(9) [OF ut py px Some] Some p by auto
    ultimately show ?thesis using w user_walk [OF ut ix(2)] Some same e by (auto simp: Let_def)
  qed
qed

text \<open>The tables on the way to a page, at the price of at most three frames.\<close>

lemma user_levels:
  fixes s :: "'a pmm_state_scheme"
  assumes ut: "user_tree s r" and va: "unat va < 0x800000000000"
  obtains (full) t where "map_user_page r va frame flags s = Some (- 1, t)" "grown r s t" "walks_same r s t" "pmm_avail t = {}" "card (pmm_avail s) < 3"
  | (walked) p t where "map_user_page r va frame flags s =
      do { u \<leftarrow> table_set (p + HIGHER_HALF_BASE) (pt_index 12 va) (page_of frame OR flags) t; Some (0, u) }"
    "grown r s t" "walks_same r s t" "node (mem t) r (indices va) = Some p" "card (pmm_avail s) \<le> card (pmm_avail t) + 3"
proof -
  have rt: "r \<in> tables s r" using tablesI [of "[]" s r r] by simp
  have p1: "path ([] @ [pt_index 39 va])" using user_index [OF va] by (simp add: path_def)
  have p2: "path ([pt_index 39 va] @ [pt_index 30 va])" using user_index [OF va] by (simp add: path_def)
  have p3: "path ([pt_index 39 va, pt_index 30 va] @ [pt_index 21 va])" using user_index [OF va] by (simp add: path_def)
  note v = low_phys_to_virt [OF user_treeD(6) [OF ut rt], of s]
  have n0: "node (mem s) r [] = Some r" by simp
  note step = map_user_page_def [of r va frame flags s, unfolded Let_def v bind.bind_lunit prod.case or.assoc]
  show ?thesis
  proof (cases rule: user_level_cases [OF ut n0 p1])
    case 1
    with 1 grown_refl [OF ut] show ?thesis by (intro that(1) [of s]) (simp_all add: step)
  next
    case l1: (2 q1 t1)
    have n1: "node (mem t1) r [pt_index 39 va] = Some q1" using l1(3) by simp
    show ?thesis
    proof (cases rule: user_level_cases [OF grownD(1) [OF l1(2)] n1 p2])
      case 1
      with l1 show ?thesis by (intro that(1) [of t1]) (simp_all add: step)
    next
      case l2: (2 q2 t2)
      have g2: "grown r s t2" "walks_same r s t2" using grown_trans [OF l1(2) l2(2)] walks_same_trans [OF l1(5) l2(5)] .
      have n2: "node (mem t2) r [pt_index 39 va, pt_index 30 va] = Some q2" using l2(3) by simp
      show ?thesis
      proof (cases rule: user_level_cases [OF grownD(1) [OF g2(1)] n2 p3])
        case 1
        with g2 l1(1,4) l2(1,4) show ?thesis by (intro that(1) [of t2]) (simp_all add: step)
      next
        case l3: (2 q3 t3)
        have g3: "grown r s t3" "walks_same r s t3" using grown_trans [OF g2(1) l3(2)] walks_same_trans [OF g2(2) l3(5)] .
        have "node (mem t3) r (indices va) = Some q3" using l3(3) by (simp add: indices_def)
        with g3 l1(1,4) l2(1,4) l3(1,4) show ?thesis by (intro that(2) [of q3 t3]) (simp_all add: step)
      qed
    qed
  qed
qed

lemma map_user_page_cases:
  fixes s :: "'a pmm_state_scheme"
  assumes ut: "user_tree s r" and va: "unat va < 0x800000000000" and fl: "page_of flags = 0" "present flags"
  obtains (full) t where "map_user_page r va frame flags s = Some (- 1, t)" "grown r s t" "walks_same r s t" "pmm_avail t = {}" "card (pmm_avail s) < 3"
  | (mapped) t where "map_user_page r va frame flags s = Some (0, t)" "grown r s t" "card (pmm_avail s) \<le> card (pmm_avail t) + 3"
    "\<And>y. unat y < 0x800000000000 \<Longrightarrow> mmu_walk (mem t) r y =
      (if page_of y = page_of va then Some (page_of frame OR (y AND 0xFFF)) else mmu_walk (mem s) r y)"
proof (cases rule: user_levels [OF assms(1,2), of frame flags])
  case (1 t)
  then show ?thesis by (rule that(1))
next
  case walked: (2 p t)
  let ?e = "page_of frame OR flags"
  let ?u = "t\<lparr>mem := store64 (entry_at p (pt_index 12 va)) ?e (mem t)\<rparr>"
  have ut': "user_tree t r" using grownD(1) [OF walked(2)] .
  have px: "path (indices va)" using path_indices user_index [OF va] by blast
  have pt: "p \<in> tables t r" using tablesI [OF px walked(4)] .
  have e: "present ?e" "page_of ?e = page_of frame" using fl by (simp_all add: present_or page_of_or)
  have len: "length (indices va) = 3" by (simp add: indices_def)
  have "map_user_page r va frame flags s = Some (0, ?u)"
    using walked(1) window_entry(2) [OF user_treeD(1) [OF ut'] tables_aligned [OF ut' pt] user_treeD(6) [OF ut' pt] pt_index_less] by simp
  moreover have "grown r s ?u" using grown_trans [OF walked(2) leaf_store(2) [OF ut' px len walked(4) pt_index_less]] .
  moreover have "mmu_walk (mem ?u) r y = (if page_of y = page_of va then Some (page_of frame OR (y AND 0xFFF)) else mmu_walk (mem s) r y)"
    if "unat y < 0x800000000000" for y
    using leaf_walk [OF ut' va walked(4) e(1) that] e(2) walked(3) user_index [OF that] by (simp add: walks_same_def)
  ultimately show ?thesis using walked(5) by (intro that(2) [of ?u]) simp_all
qed

text \<open>
  C13. Mapping a page into a user address space whose tables lie below 2 MiB: \<open>map_user_page\<close> returns; with three free frames it succeeds. On success every
  address of the page translates to the frame and every other user address as before; on failure, which leaves no frame
  free, no translation has changed. The tables stay separate either way.
\<close>

theorem map_user_page_maps:
  fixes s :: "'a pmm_state_scheme"
  assumes "user_tree s r" "unat va < 0x800000000000" "page_of flags = 0" "present flags"
  shows "\<exists>c t. map_user_page r va frame flags s = Some (c, t) \<and> user_tree t r \<and> (c = 0 \<or> c = - 1 \<and> pmm_avail t = {}) \<and>
    (3 \<le> card (pmm_avail s) \<longrightarrow> c = 0) \<and>
    (\<forall>y. unat y < 0x800000000000 \<longrightarrow> mmu_walk (mem t) r y =
      (if c = 0 \<and> page_of y = page_of va then Some (page_of frame OR (y AND 0xFFF)) else mmu_walk (mem s) r y))"
proof (cases rule: map_user_page_cases [OF assms, of frame])
  case (1 t)
  then show ?thesis using grownD(1) [OF 1(2)] user_index by (intro exI [of _ "- 1"] exI [of _ t]) (simp add: walks_same_def)
next
  case (2 t)
  then show ?thesis using grownD(1) [OF 2(2)] by (intro exI [of _ 0] exI [of _ t]) simp
qed

section \<open>A new address space\<close>

lemma node_Cons: "child m r i = None \<Longrightarrow> node m r (i # xs) = None"
proof -
  assume c: "child m r i = None"
  have "foldl (\<lambda>q i. Option.bind q (\<lambda>p. child m p i)) None xs = None" by (induction xs) simp_all
  with c show ?thesis by (simp add: node_def)
qed

lemma create_user_tree:
  fixes s :: "'a paging_state_scheme"
  assumes ks: "kernel_space s" and ne: "pmm_avail s \<noteq> {}" and low: "\<forall>f\<in>pmm_avail s. unat f < 0x1FF000"
  shows "\<exists>r t. paging_create_user_space s = Some (r, t) \<and> r \<in> pmm_avail s \<and> pmm_avail t = pmm_avail s - {r} \<and> user_tree t r \<and> tables t r = {r} \<and>
    (\<forall>y. unat y < 0x800000000000 \<longrightarrow> mmu_walk (mem t) r y = None) \<and>
    (\<forall>a. page_of a \<noteq> r \<longrightarrow> mem t a = mem s a) \<and> t = s\<lparr>mem := mem t, bitmap := bitmap t, used_frames := used_frames t\<rparr>"
proof -
  obtain f t n b m where t: "paging_create_user_space s = Some (f, t)" "t = s\<lparr>mem := m, bitmap := b, used_frames := n\<rparr>"
    "f \<in> pmm_avail s" "pmm_avail t = pmm_avail s - {f}" "pmm_ready t" "kernel_mapped t"
    "\<forall>j<512. k_entry t f j = (if j = 511 then k_entry t (k_pml4 t) 511 else 0)"
    "\<forall>a. (page_of a \<notin> ktables s \<or> unat f < 0x200000) \<and> page_of a \<noteq> f \<longrightarrow> mem t a = mem s a"
    by (rule paging_create_user_space_new [OF ks ne])
  have fal: "page_aligned f" by (rule avail_aligned [OF kernel_spaceD(4) [OF ks] t(3)])
  have kt: "ktables t = ktables s" by (simp add: t(2) ktables_def)
  have nodes: "xs = [] \<and> p = f" if "path xs" "node (mem t) f xs = Some p" for xs p
  proof (cases xs)
    case (Cons i ys)
    then have "child (mem t) f i = None" using t(7) that(1) by (simp add: path_def child_def)
    then show ?thesis using node_Cons that(2) Cons by simp
  qed (use that in simp)
  have tab: "tables t f = {f}" using nodes by (auto simp: tables_def intro: exI [of _ "[]"])
  have ut: "user_tree t f"
    unfolding user_tree_def tab kt t(4)
    using t(3,5,6) fal low kernel_spaceD(5) [OF ks] nodes by (auto dest!: nodes)
  have "mmu_walk (mem t) f y = None" if "unat y < 0x800000000000" for y
  proof -
    have "node (mem t) f (indices y) = None"
      using nodes [OF path_indices [OF user_index [OF that]]] by (cases "node (mem t) f (indices y)") (auto simp: indices_def)
    then show ?thesis using user_walk [OF ut user_index [OF that]] by simp
  qed
  moreover have "t = s\<lparr>mem := mem t, bitmap := bitmap t, used_frames := used_frames t\<rparr>" by (simp add: t(2))
  moreover have "unat f < 0x200000" using low t(3) by fastforce
  ultimately show ?thesis using t(1,3,4,8) ut tab by (intro exI [of _ f] exI [of _ t]) simp
qed

text \<open>
  \<open>paging_create_user_space\<close> establishes the invariant of user address spaces, provided the free frames lie below 2 MiB: the new
  top-level table is the only one, and no user address is mapped.
\<close>

theorem paging_create_user_space_tree:
  fixes s :: "'a paging_state_scheme"
  assumes ks: "kernel_space s" and ne: "pmm_avail s \<noteq> {}" and low: "\<forall>f\<in>pmm_avail s. unat f < 0x1FF000"
  shows "\<exists>r t. paging_create_user_space s = Some (r, t) \<and> r \<in> pmm_avail s \<and> pmm_avail t = pmm_avail s - {r} \<and> user_tree t r \<and> tables t r = {r} \<and>
    (\<forall>y. unat y < 0x800000000000 \<longrightarrow> mmu_walk (mem t) r y = None) \<and>
    (\<forall>a. page_of a \<noteq> r \<longrightarrow> mem t a = mem s a)"
  using create_user_tree [OF assms] by blast

end
