(* ===== verification/Prism_Loader.thy ===== *)
theory Prism_Loader
  imports Prism_Userspace
begin

text \<open>
  What the ELF loader does to memory: the contents of the pages it fills, and the loop over the pages of a segment.
  The image lies in the kernel's window; the frames and tables of the new address space are separate from it.
\<close>

section \<open>Copying into a page\<close>

lemma memcpy_loop_page:
  assumes "backed s v p" "k + n \<le> 4096"
    "\<And>i. i < n \<Longrightarrow> translate s (src + of_nat i) = Some (a i) \<and> page_of (a i) \<noteq> p \<and> p \<notin> walk_tables (mem s) (cr3 s) (src + of_nat i)"
  shows "memcpy_loop (v + of_nat k) src n s =
    Some (s\<lparr>mem := (\<lambda>x. if page_of x = p \<and> k \<le> unat (x - p) \<and> unat (x - p) < k + n then mem s (a (unat (x - p) - k)) else mem s x)\<rparr>)"
  using assms
proof (induction n arbitrary: k s src a)
  case 0
  have "(\<lambda>x. if page_of x = p \<and> k \<le> unat (x - p) \<and> unat (x - p) < k + 0 then mem s (a (unat (x - p) - k)) else mem s x) = mem s" by (intro ext) auto
  then show ?case by simp
next
  case (Suc n)
  have k: "k < 4096" using Suc.prems(2) by simp
  then have uk: "unat (of_nat k :: u64) = k" and ofk: "(of_nat k :: u64) < 4096"
    by (simp_all add: unat_of_nat word_less_nat_alt)
  have al: "page_aligned p" using Suc.prems(1) by (simp add: backed_def)
  have a0: "translate s src = Some (a 0)" "page_of (a 0) \<noteq> p" using Suc.prems(3) [of 0] by simp_all
  let ?b = "mem s (a 0)"
  let ?m = "store8 (p + of_nat k) ?b (mem s)"
  have ld: "kload8 src s = Some ?b" using a0 by (simp add: kload8_def)
  have st: "kstore8 (v + of_nat k) ?b s = Some (s\<lparr>mem := ?m\<rparr>)"
    using Suc.prems(1) ofk by (simp add: backed_def kstore8_def)
  have out: "?m x = mem s x" if "page_of x \<noteq> p" for x using page_of_plus [OF al ofk] that by (auto simp: store8_def)
  have bk: "backed (s\<lparr>mem := ?m\<rparr>) v p" using out by (intro backed_cong [OF Suc.prems(1)]) simp
  have src': "translate (s\<lparr>mem := ?m\<rparr>) (src + 1 + of_nat i) = Some (a (Suc i)) \<and> page_of (a (Suc i)) \<noteq> p \<and>
      p \<notin> walk_tables (mem (s\<lparr>mem := ?m\<rparr>)) (cr3 (s\<lparr>mem := ?m\<rparr>)) (src + 1 + of_nat i)" if "i < n" for i
  proof -
    have e: "src + 1 + of_nat i = src + of_nat (Suc i)" by simp
    note pr = Suc.prems(3) [of "Suc i"]
    have eq: "?m x = mem s x" if "page_of x \<in> walk_tables (mem s) (cr3 s) (src + of_nat (Suc i))" for x
      using that pr \<open>i < n\<close> by (intro out) auto
    show ?thesis unfolding e
      using mmu_walk_cong [of "mem s" "cr3 s" "src + of_nat (Suc i)" ?m] walk_tables_cong [of "mem s" "cr3 s" "src + of_nat (Suc i)" ?m] eq pr that
      by simp
  qed
  have next_addr: "v + of_nat k + 1 = v + of_nat (Suc k)" by simp
  have fin: "(\<lambda>x. if page_of x = p \<and> Suc k \<le> unat (x - p) \<and> unat (x - p) < Suc k + n then ?m (a (Suc (unat (x - p) - Suc k))) else ?m x) =
      (\<lambda>x. if page_of x = p \<and> k \<le> unat (x - p) \<and> unat (x - p) < k + Suc n then mem s (a (unat (x - p) - k)) else mem s x)"
  proof
    fix x
    have "x = p + of_nat k \<longleftrightarrow> unat (x - p) = k \<and> page_of x = p"
      using page_of_plus [OF al ofk] uk by (auto simp: word_unat_eq_iff [symmetric])
    moreover have "?m (a (Suc (unat (x - p) - Suc k))) = mem s (a (unat (x - p) - k))" if "Suc k \<le> unat (x - p)" "unat (x - p) < Suc k + n"
    proof -
      have "Suc (unat (x - p) - Suc k) = unat (x - p) - k" using that by simp
      moreover have "page_of (a (unat (x - p) - k)) \<noteq> p" using Suc.prems(3) [of "unat (x - p) - k"] that by auto
      ultimately show ?thesis using out by simp
    qed
    ultimately show "(if page_of x = p \<and> Suc k \<le> unat (x - p) \<and> unat (x - p) < Suc k + n then ?m (a (Suc (unat (x - p) - Suc k))) else ?m x) =
      (if page_of x = p \<and> k \<le> unat (x - p) \<and> unat (x - p) < k + Suc n then mem s (a (unat (x - p) - k)) else mem s x)"
      by (auto simp: store8_def not_le)
  qed
  have "memcpy_loop (v + of_nat k + 1) (src + 1) n (s\<lparr>mem := ?m\<rparr>) = Some (s\<lparr>mem := (\<lambda>x. if page_of x = p \<and> Suc k \<le> unat (x - p) \<and>
      unat (x - p) < Suc k + n then ?m (a (Suc (unat (x - p) - Suc k))) else ?m x)\<rparr>)"
    unfolding next_addr using Suc.prems(2) src' by (subst Suc.IH [OF bk, where a = "\<lambda>i. a (Suc i)"]) (simp_all cong: if_cong)
  then show ?case unfolding fin using ld st by simp
qed

text \<open>The image: \<open>sz\<close> bytes from physical address \<open>d\<close>, seen through the window.\<close>

definition in_window :: "u64 \<Rightarrow> u64 \<Rightarrow> bool" where
  "in_window d sz \<longleftrightarrow> unat d + unat sz \<le> 0x1FF000"

definition image_pages :: "u64 \<Rightarrow> u64 \<Rightarrow> u64 set" where
  "image_pages d sz = (\<lambda>i. page_of (d + of_nat i)) ` {..<unat sz}"

lemma window_byte:
  assumes "in_window d sz" "i < unat sz"
  shows "unat (d + of_nat i) = unat d + i" "unat (d + of_nat i) < 0x1FF000"
proof -
  have "unat d + i < 0x1FF000" using assms by (simp add: in_window_def)
  then show "unat (d + of_nat i) = unat d + i" by (simp add: unat_word_ariths unat_of_nat)
  then show "unat (d + of_nat i) < 0x1FF000" using \<open>unat d + i < 0x1FF000\<close> by simp
qed

lemma image_load:
  assumes "kernel_mapped s" "in_window d sz" "i < unat sz"
  shows "kload8 (d + HIGHER_HALF_BASE + of_nat i) s = Some (mem s (d + of_nat i))"
proof -
  have e: "d + HIGHER_HALF_BASE + of_nat i = d + of_nat i + HIGHER_HALF_BASE" by simp
  show ?thesis unfolding e using window_walk(1) [OF assms(1) window_byte(2) [OF assms(2,3)]] by (simp add: kload8_def)
qed

lemma image_kload_le:
  assumes "kernel_mapped s" "kernel_mapped t" "in_window d sz" "off + n \<le> unat sz"
    "\<And>a. page_of a \<in> image_pages d sz \<Longrightarrow> mem t a = mem s a"
  shows "kload_le n (d + HIGHER_HALF_BASE + of_nat off) t = kload_le n (d + HIGHER_HALF_BASE + of_nat off) s"
  using assms(4)
proof (induction n arbitrary: off)
  case (Suc n)
  have o: "off < unat sz" using Suc.prems by simp
  have "mem t (d + of_nat off) = mem s (d + of_nat off)" using o by (intro assms(5)) (auto simp: image_pages_def)
  then have "kload8 (d + HIGHER_HALF_BASE + of_nat off) t = kload8 (d + HIGHER_HALF_BASE + of_nat off) s"
    using image_load [OF assms(1,3) o] image_load [OF assms(2,3) o] by simp
  moreover have "kload_le n (d + HIGHER_HALF_BASE + of_nat off + 1) t = kload_le n (d + HIGHER_HALF_BASE + of_nat off + 1) s"
    using Suc.IH [of "Suc off"] Suc.prems by (simp add: ac_simps)
  ultimately show ?case by simp
qed simp

section \<open>The contents of a page\<close>

text \<open>What a segment puts at user address \<open>x\<close>: the byte of the image, or 0 past the file part and past the end of the image.\<close>

definition segment_byte :: "(nat \<Rightarrow> u8) \<Rightarrow> nat \<Rightarrow> nat \<Rightarrow> nat \<Rightarrow> nat \<Rightarrow> nat \<Rightarrow> u8" where
  "segment_byte img vaddr filesz poffset sz x =
     (if vaddr \<le> x \<and> x < vaddr + filesz \<and> poffset + (x - vaddr) < sz then img (poffset + (x - vaddr)) else 0)"

text \<open>The fields of a program header that the loader reads, \<open>off\<close> bytes into the image.\<close>

record phdr_view =
  ph_vaddr :: u64
  ph_filesz :: u64
  ph_offset :: u64

definition phdr_at :: "phdr_view \<Rightarrow> u64 \<Rightarrow> 'a machine_scheme \<Rightarrow> bool" where
  "phdr_at h ph s \<longleftrightarrow> p_vaddr ph s = Some (ph_vaddr h) \<and> p_filesz ph s = Some (ph_filesz h) \<and> p_offset ph s = Some (ph_offset h)"

text \<open>The sums that the loader forms do not wrap around.\<close>

definition no_wrap :: "phdr_view \<Rightarrow> bool" where
  "no_wrap h \<longleftrightarrow> unat (ph_vaddr h) + unat (ph_filesz h) < 2 ^ 64 \<and> unat (ph_offset h) + unat (ph_filesz h) < 2 ^ 64"

lemma copy_range_content:
  assumes nw: "no_wrap h" and va: "ph_vaddr h \<le> va" "unat va + 4096 < 2 ^ 64" and j: "j < 4096"
  shows "segment_byte img (unat (ph_vaddr h)) (unat (ph_filesz h)) (unat (ph_offset h)) (unat sz) (unat va + j) =
    (case copy_range va (ph_vaddr h) (ph_filesz h) (ph_offset h) sz of None \<Rightarrow> 0
     | Some (off, n) \<Rightarrow> if j < unat n then img (unat off + j) else 0)"
proof -
  let ?v = "ph_vaddr h" and ?f = "ph_filesz h" and ?o = "ph_offset h"
  have e: "unat (?v + ?f) = unat ?v + unat ?f" "unat (va + PMM_FRAME_SIZE) = unat va + 4096"
    using nw va(2) by (simp_all add: no_wrap_def unat_word_ariths PMM_FRAME_SIZE_def)
  have le: "unat ?v \<le> unat va" using va(1) by (simp add: word_le_nat_alt)
  have d: "unat (va - ?v) = unat va - unat ?v" using le by (simp add: unat_sub_if')
  have st: "(if va > ?v then va else ?v) = va" using va(1) by auto
  show ?thesis
  proof (cases "unat va < unat ?v + unat ?f")
    case True
    have "unat ?o + (unat va - unat ?v) < 2 ^ 64" using nw True le unfolding no_wrap_def by linarith
    then have fo: "unat (?o + (va - ?v)) = unat ?o + (unat va - unat ?v)" unfolding unat_word_ariths d by simp
    define ce where "ce = (if va + PMM_FRAME_SIZE < ?v + ?f then va + PMM_FRAME_SIZE else ?v + ?f)"
    have ce: "unat ce = min (unat va + 4096) (unat ?v + unat ?f)" by (simp add: ce_def word_less_nat_alt e)
    then have len: "unat (ce - va) = unat ce - unat va" using True by (simp add: unat_sub_if')
    have c: "va + PMM_FRAME_SIZE > ?v" "va < ?v + ?f" using True le e by (simp_all add: word_less_nat_alt)
    have pos: "ce - va > 0" using len ce True by (simp add: word_less_nat_alt)
    let ?fo = "?o + (va - ?v)"
    have cr: "copy_range va ?v ?f ?o sz = (if ?fo < sz then Some (?fo, if ce - va < sz - ?fo then ce - va else sz - ?fo) else None)"
      unfolding copy_range_def Let_def st ce_def [symmetric] using c pos by (auto simp: word_less_nat_alt unat_sub_if')
    show ?thesis
    proof (cases "?fo < sz")
      case less: True
      have av: "unat (sz - ?fo) = unat sz - unat ?fo" using less by (simp add: unat_sub_if' word_less_nat_alt)
      have "unat (if ce - va < sz - ?fo then ce - va else sz - ?fo) = min (unat ce - unat va) (unat sz - unat ?fo)"
        using len av by (simp add: word_less_nat_alt)
      then show ?thesis unfolding cr segment_byte_def using less le j ce fo by (auto simp: word_less_nat_alt add.assoc)
    next
      case False
      then have "unat sz \<le> unat ?o + (unat va - unat ?v)" using fo by (simp add: word_less_nat_alt)
      then show ?thesis unfolding cr segment_byte_def using False le by auto
    qed
  next
    case False
    then have "\<not> va < ?v + ?f" using e by (simp add: word_less_nat_alt)
    then show ?thesis using False by (simp add: copy_range_def segment_byte_def)
  qed
qed

lemma phdr_at_cong:
  assumes "phdr_at h (d + HIGHER_HALF_BASE + of_nat off) s" "kernel_mapped s" "kernel_mapped t" "in_window d sz" "off + 56 \<le> unat sz"
    "\<And>a. page_of a \<in> image_pages d sz \<Longrightarrow> mem t a = mem s a"
  shows "phdr_at h (d + HIGHER_HALF_BASE + of_nat off) t"
proof -
  have f: "kload_le n (d + HIGHER_HALF_BASE + of_nat off + of_nat k) t = kload_le n (d + HIGHER_HALF_BASE + of_nat off + of_nat k) s"
    if "n + k \<le> 56" for n k
    using image_kload_le [OF assms(2-4) _ assms(6), of "off + k" n] that assms(5) by (simp add: ac_simps)
  show ?thesis using assms(1) f [of 8 8] f [of 8 16] f [of 8 32] by (simp add: phdr_at_def)
qed

text \<open>The frames that may be filled: in low memory, apart from the kernel's tables and from the image.\<close>

definition fillable :: "u64 \<Rightarrow> u64 \<Rightarrow> u64 \<Rightarrow> 'a machine_scheme \<Rightarrow> bool" where
  "fillable f d sz s \<longleftrightarrow> page_aligned f \<and> unat f < 0x1FF000 \<and> f \<notin> ktables s \<and> f \<notin> image_pages d sz"

lemma image_source:
  assumes "kernel_mapped s" "in_window d sz" "fillable f d sz s" "off + n \<le> unat sz" "i < n"
  shows "translate s (d + HIGHER_HALF_BASE + of_nat off + of_nat i) = Some (d + of_nat (off + i)) \<and>
    page_of (d + of_nat (off + i)) \<noteq> f \<and> f \<notin> walk_tables (mem s) (cr3 s) (d + HIGHER_HALF_BASE + of_nat off + of_nat i)"
proof -
  have o: "off + i < unat sz" using assms(4,5) by simp
  have e: "d + HIGHER_HALF_BASE + of_nat off + of_nat i = d + of_nat (off + i) + HIGHER_HALF_BASE" by simp
  have "page_of (d + of_nat (off + i)) \<in> image_pages d sz" using o by (auto simp: image_pages_def simp del: of_nat_add)
  then show ?thesis
    unfolding e using window_walk [OF assms(1) window_byte(2) [OF assms(2) o]] assms(3) by (auto simp: fillable_def)
qed

lemma load_page_fills:
  assumes km: "kernel_mapped s" and iw: "in_window d sz" and f: "fillable f d sz s"
    and ph: "phdr_at h (d + HIGHER_HALF_BASE + of_nat off) s" "off + 56 \<le> unat sz"
    and nw: "no_wrap h" and va: "ph_vaddr h \<le> va" "unat va + 4096 < 2 ^ 64"
  shows "\<exists>m. load_page (d + HIGHER_HALF_BASE) sz (d + HIGHER_HALF_BASE + of_nat off) va f s = Some (s\<lparr>mem := m\<rparr>) \<and>
    (\<forall>a. page_of a \<noteq> f \<longrightarrow> m a = mem s a) \<and>
    (\<forall>j<4096. m (f + of_nat j) = segment_byte (\<lambda>i. mem s (d + of_nat i)) (unat (ph_vaddr h)) (unat (ph_filesz h))
       (unat (ph_offset h)) (unat sz) (unat va + j))"
proof -
  let ?ph = "d + HIGHER_HALF_BASE + of_nat off" and ?z = "s\<lparr>mem := zero_page f (mem s)\<rparr>"
  let ?r = "copy_range va (ph_vaddr h) (ph_filesz h) (ph_offset h) sz"
  have fal: "page_aligned f" and low: "unat f < 0x1FF000" and fk: "f \<notin> ktables s" and fi: "f \<notin> image_pages d sz"
    using f by (simp_all add: fillable_def)
  have ms: "memset (f + HIGHER_HALF_BASE) 0 PMM_FRAME_SIZE s = Some ?z"
    using memset_page [OF window_page_backed [OF km fal low fk]] by (simp add: PMM_FRAME_SIZE_def)
  have kz: "kernel_mapped ?z" by (rule kernel_mapped_cong [OF km]) (use fk in \<open>auto simp: zero_page_def\<close>)
  have img: "mem ?z a = mem s a" if "page_of a \<in> image_pages d sz" for a using that fi by (auto simp: zero_page_def)
  have pz: "phdr_at h ?ph ?z" by (rule phdr_at_cong [OF ph(1) km kz iw ph(2) img])
  have byte: "segment_byte (\<lambda>i. mem s (d + of_nat i)) (unat (ph_vaddr h)) (unat (ph_filesz h)) (unat (ph_offset h)) (unat sz) (unat va + j) =
      (case ?r of None \<Rightarrow> 0 | Some (c, n) \<Rightarrow> if j < unat n then mem s (d + of_nat (unat c + j)) else 0)" if "j < 4096" for j
    using copy_range_content [OF nw va that] .
  have page: "page_of (f + of_nat j) = f" "unat (of_nat j :: u64) = j" if "j < 4096" for j
    using page_of_plus [OF fal, of "of_nat j"] that by (simp_all add: word_less_nat_alt unat_of_nat)
  note run = load_page_def [of "d + HIGHER_HALF_BASE" sz ?ph va f s, unfolded low_phys_to_virt [OF low] bind.bind_lunit prod.case ms
      pz [unfolded phdr_at_def, THEN conjunct1] pz [unfolded phdr_at_def, THEN conjunct2, THEN conjunct1]
      pz [unfolded phdr_at_def, THEN conjunct2, THEN conjunct2]]
  show ?thesis
  proof (cases ?r)
    case None
    then show ?thesis unfolding run using byte page by (intro exI [of _ "zero_page f (mem s)"]) (auto simp: zero_page_def)
  next
    case (Some c)
    obtain o' n where r: "?r = Some (o', n)" using Some by (cases c) auto
    have b: "unat o' + unat n \<le> unat sz" "unat n \<le> 4096"
      using copy_range_within [OF r] nw va(2) by (simp_all add: no_wrap_def)
    have fz: "fillable f d sz ?z" using f by (simp add: fillable_def)
    note src = image_source [OF kz iw fz b(1)]
    have bk: "backed ?z (f + HIGHER_HALF_BASE) f" using window_page_backed [OF kz fal low] fk by simp
    let ?m = "\<lambda>x. if page_of x = f \<and> 0 \<le> unat (x - f) \<and> unat (x - f) < 0 + unat n
      then mem ?z (d + of_nat (unat o' + (unat (x - f) - 0))) else mem ?z x"
    have "memcpy (f + HIGHER_HALF_BASE) (d + HIGHER_HALF_BASE + o') n ?z = Some (?z\<lparr>mem := ?m\<rparr>)"
      using memcpy_loop_page [OF bk, of 0 "unat n" "d + HIGHER_HALF_BASE + o'" "\<lambda>i. d + of_nat (unat o' + i)"] src b(2)
      by (simp add: memcpy_def add.assoc)
    then have "load_page (d + HIGHER_HALF_BASE) sz ?ph va f s = Some (s\<lparr>mem := ?m\<rparr>)" unfolding run by (simp add: r)
    moreover have "?m (f + of_nat j) = (if j < unat n then mem s (d + of_nat (unat o' + j)) else 0)" if "j < 4096" for j
    proof -
      have "page_of (d + of_nat (unat o' + j)) \<noteq> f" if "j < unat n" using src [OF that] by blast
      then show ?thesis using page [OF that] by (auto simp: zero_page_def)
    qed
    ultimately show ?thesis using byte r by (intro exI [of _ ?m]) (auto simp: zero_page_def)
  qed
qed

section \<open>The pages of a segment\<close>

lemma segment_byte_cong:
  "(\<And>i. i < sz \<Longrightarrow> img i = img' i) \<Longrightarrow> segment_byte img v f p sz x = segment_byte img' v f p sz x"
  by (auto simp: segment_byte_def)

text \<open>A frame is taken and filled.\<close>

lemma fill_grows:
  fixes s u :: "'a pmm_state_scheme"
  assumes ut: "user_tree s r" and f: "f \<in> pmm_avail s"
    and u: "u = s\<lparr>bitmap := b, used_frames := n\<rparr>" "pmm_avail u = pmm_avail s - {f}" "pmm_ready u"
    and m: "\<And>a. page_of a \<noteq> f \<Longrightarrow> m a = mem s a"
  defines "t \<equiv> u\<lparr>mem := m\<rparr>"
  shows "grown r s t" "walks_same r s t" "tables t r = tables s r" "pmm_avail t = pmm_avail s - {f}"
proof -
  have ent: "load64 m (entry_at q i) = k_entry s q i" if "q \<in> tables s r" "i < 512" for q i
  proof (rule load64_entry_cong [OF _ tables_aligned [OF ut that(1)] that(2)])
    fix a assume "page_of a = q"
    then show "m a = mem s a" using that(1) user_treeD(8) [OF ut that(1)] f by (intro m) auto
  qed
  have nodes: "node m r ys = node (mem s) r ys" if "path ys" for ys
    using that
  proof (induction ys rule: rev_induct)
    case (snoc i ys)
    note y = path_snoc [OF snoc.prems]
    have "child m q i = child (mem s) q i" if "node (mem s) r ys = Some q" for q
      using ent [OF tablesI [OF y(1) that] y(2)] by (simp add: child_def)
    then show ?case using snoc.IH [OF y(1)] by (cases "node (mem s) r ys") simp_all
  qed simp
  have mt: "mem t = m" by (simp add: t_def)
  show tab: "tables t r = tables s r" unfolding tables_def mt using nodes by auto
  show av: "pmm_avail t = pmm_avail s - {f}" using u(2) by (simp add: t_def)
  have kt: "ktables t = ktables s" by (simp add: t_def u(1) ktables_def)
  have "kernel_mapped (s\<lparr>mem := m\<rparr>)"
    by (rule kernel_mapped_cong [OF user_treeD(1) [OF ut]]) (rule m, use user_treeD(5) [OF ut f] in auto)
  then have km: "kernel_mapped t" using kernel_mapped_same(1) [of t "s\<lparr>mem := m\<rparr>"] by (simp add: t_def u(1))
  have inj: "xs = ys" if "path xs" "path ys" "node m r xs = Some q" "node m r ys = Some q" for xs ys q
    using user_treeD(9) [OF ut that(1,2)] that(3,4) nodes that(1,2) by simp
  have ps: "load64 m (entry_at q i) AND PAGE_PS = 0" if "path ys" "length ys = 2" "node m r ys = Some q" "i < 512" for ys q i
    using user_treeD(10) [OF ut that(1,2) _ that(4)] that nodes ent tablesI [OF that(1), of s r q] by simp
  have ut': "user_tree t r"
    unfolding user_tree_def kt av tab mt using km u(3) user_treeD(3-8) [OF ut] inj ps by (simp add: t_def) blast
  moreover have "\<exists>m b n. t = s\<lparr>mem := m, bitmap := b, used_frames := n\<rparr>"
    by (intro exI [of _ m] exI [of _ b] exI [of _ n]) (simp add: t_def u(1))
  moreover have "m a = mem s a" if "page_of a \<notin> pmm_avail s \<union> tables s r" for a using that f by (intro m) auto
  ultimately show "grown r s t" unfolding grown_def av tab mt using nodes by auto
  show "walks_same r s t"
    unfolding walks_same_def
  proof (intro allI impI)
    fix va assume va: "pt_index 39 va \<noteq> 511"
    have "k_entry t q (pt_index 12 va) = k_entry s q (pt_index 12 va)" if "node (mem s) r (indices va) = Some q" for q
      using ent [OF tablesI [OF path_indices [OF va] that] pt_index_less] by (simp add: mt)
    then show "mmu_walk (mem t) r va = mmu_walk (mem s) r va"
      unfolding user_walk [OF ut va] user_walk [OF ut' va] using nodes [OF path_indices [OF va]] by (simp add: mt split: option.splits)
  qed
qed

text \<open>The image is out of the way of the loader.\<close>

definition image_apart :: "u64 \<Rightarrow> u64 \<Rightarrow> u64 \<Rightarrow> 'a pmm_state_scheme \<Rightarrow> bool" where
  "image_apart r d sz s \<longleftrightarrow> in_window d sz \<and> image_pages d sz \<inter> (pmm_avail s \<union> tables s r) = {}"

lemma image_apart_grown:
  assumes "image_apart r d sz s" "grown r s t"
  shows "image_apart r d sz t" "page_of a \<in> image_pages d sz \<Longrightarrow> mem t a = mem s a"
  using assms grownD(2,4) [OF assms(2)] grownD(6) [OF assms(2), of a] by (auto simp: image_apart_def)

lemma image_byte:
  assumes "\<And>a. page_of a \<in> image_pages d sz \<Longrightarrow> mem t a = mem s a"
  shows "segment_byte (\<lambda>i. mem t (d + of_nat i)) v f p (unat sz) x = segment_byte (\<lambda>i. mem s (d + of_nat i)) v f p (unat sz) x"
  using assms by (intro segment_byte_cong) (auto simp: image_pages_def)

text \<open>What a page of the segment must hold once it is loaded, and that it is private to the address space.\<close>

definition page_loaded :: "u64 \<Rightarrow> u64 \<Rightarrow> u64 \<Rightarrow> phdr_view \<Rightarrow> 'a pmm_state_scheme \<Rightarrow> 'a pmm_state_scheme \<Rightarrow> u64 \<Rightarrow> bool" where
  "page_loaded r d sz h s t y \<longleftrightarrow> (\<exists>a. mmu_walk (mem t) r y = Some a \<and> page_of a \<in> pmm_avail s - pmm_avail t - tables t r \<and>
     mem t a = segment_byte (\<lambda>i. mem s (d + of_nat i)) (unat (ph_vaddr h)) (unat (ph_filesz h)) (unat (ph_offset h)) (unat sz) (unat y))"

lemma page_loaded_grown:
  assumes "page_loaded r d sz h s t y" "grown r t u" "mmu_walk (mem u) r y = mmu_walk (mem t) r y"
  shows "page_loaded r d sz h s u y"
proof -
  obtain a where a: "mmu_walk (mem t) r y = Some a" "page_of a \<in> pmm_avail s - pmm_avail t - tables t r"
    "mem t a = segment_byte (\<lambda>i. mem s (d + of_nat i)) (unat (ph_vaddr h)) (unat (ph_filesz h)) (unat (ph_offset h)) (unat sz) (unat y)"
    using assms(1) unfolding page_loaded_def by blast
  have "mem u a = mem t a" using grownD(6) [OF assms(2), of a] a(2) by auto
  moreover have "page_of a \<in> pmm_avail s - pmm_avail u - tables u r" using a(2) grownD(2,4) [OF assms(2)] by auto
  ultimately show ?thesis using a assms(3) by (auto simp: page_loaded_def)
qed

lemma page_loaded_earlier:
  assumes "page_loaded r d sz h t u y" "grown r s t" "image_apart r d sz s"
  shows "page_loaded r d sz h s u y"
  using assms(1) grownD(2) [OF assms(2)] image_byte [where s = s and t = t, OF image_apart_grown(2) [OF assms(3,2)]]
  unfolding page_loaded_def by (auto simp: subset_iff)

lemma page_offset:
  assumes "page_aligned va" "page_of y = va"
  obtains j where "j < 4096" "y = va + of_nat j" "unat y = unat va + j"
proof -
  have l: "y - va < 4096" using page_cover [OF assms(2)] .
  have "y = va + of_nat (unat (y - va))" by simp
  moreover have "unat y = unat va + unat (y - va)" using page_plus_offset_no_wrap [OF assms(1) l] by simp
  moreover have "unat (y - va) < 4096" using l by (simp add: word_less_nat_alt)
  ultimately show ?thesis using that by blast
qed

text \<open>One turn of the loop with a frame left: the page is loaded and mapped, unless the tables take the last frame.\<close>

lemma load_one:
  fixes s :: "'a pmm_state_scheme"
  assumes ut: "user_tree s r" and ap: "image_apart r d sz s"
    and ph: "phdr_at h (d + HIGHER_HALF_BASE + of_nat off) s" "off + 56 \<le> unat sz" "no_wrap h"
    and va: "page_aligned va" "ph_vaddr h \<le> va" "unat va < 0x800000000000" and fl: "page_of flags = 0" "present flags"
    and fu: "pmm_alloc_frame s = (f, u)" "f \<noteq> 0"
  obtains w c t where "load_page (d + HIGHER_HALF_BASE) sz (d + HIGHER_HALF_BASE + of_nat off) va f u = Some w"
    "map_user_page r va f flags w = Some (c, t)" "grown r s t" "c \<noteq> 0 \<longrightarrow> card (pmm_avail s) < 4" "card (pmm_avail s) \<le> card (pmm_avail t) + 4"
    "\<And>y. c = 0 \<Longrightarrow> page_of y = va \<Longrightarrow> page_loaded r d sz h s t y"
    "\<And>y. unat y < 0x800000000000 \<Longrightarrow> page_of y \<noteq> va \<Longrightarrow> mmu_walk (mem t) r y = mmu_walk (mem s) r y"
proof -
  have f: "f \<in> pmm_avail s" "pmm_avail u = pmm_avail s - {f}" "pmm_ready u"
    using pmm.alloc_cases [OF user_treeD(2) [OF ut] fu(1)] fu(2) by auto
  obtain b n where u: "u = s\<lparr>bitmap := b, used_frames := n\<rparr>"
    using pmm_alloc_frame_eq [of s] unfolding fu snd_conv by (rule bitmap_eqE)
  have fal: "page_aligned f" by (rule avail_aligned [OF user_treeD(2) [OF ut] f(1)])
  have same: "kernel_mapped u" "ktables u = ktables s" "mem u = mem s" using kernel_mapped_same [of u s] user_treeD(1) [OF ut] by (simp_all add: u)
  have iw: "in_window d sz" using ap by (simp add: image_apart_def)
  have fb: "fillable f d sz u" using fal f(1) user_treeD(4,5) [OF ut f(1)] ap same(2) by (auto simp: fillable_def image_apart_def)
  have ld: "kload_le k a u = kload_le k a s" for k a
    by (induction k arbitrary: a) (simp_all add: kload8_def u)
  have pu: "phdr_at h (d + HIGHER_HALF_BASE + of_nat off) u" using ph(1) by (simp add: phdr_at_def ld)
  have nw: "unat va + 4096 < 2 ^ 64" using va(3) by simp
  obtain m where m: "load_page (d + HIGHER_HALF_BASE) sz (d + HIGHER_HALF_BASE + of_nat off) va f u = Some (u\<lparr>mem := m\<rparr>)"
    "\<And>a. page_of a \<noteq> f \<Longrightarrow> m a = mem s a"
    "\<And>j. j < 4096 \<Longrightarrow> m (f + of_nat j) = segment_byte (\<lambda>i. mem s (d + of_nat i)) (unat (ph_vaddr h)) (unat (ph_filesz h))
       (unat (ph_offset h)) (unat sz) (unat va + j)"
    using load_page_fills [OF same(1) iw fb pu ph(2,3) va(2) nw] unfolding same(3) by blast
  let ?w = "u\<lparr>mem := m\<rparr>"
  have g: "grown r s ?w" "walks_same r s ?w" "tables ?w r = tables s r" "pmm_avail ?w = pmm_avail s - {f}"
    by (rule fill_grows [OF ut f(1) u f(2,3)], erule m(2))+
  have cf: "card (pmm_avail s) = Suc (card (pmm_avail ?w))"
    using card_Suc_Diff1 [OF pmm.finite_avail f(1)] f(2) by simp
  have fw: "f \<notin> pmm_avail ?w" "f \<notin> tables ?w r" using g(3,4) f(1) user_treeD(8) [OF ut, of f] by auto
  show ?thesis
  proof (cases rule: map_user_page_cases [OF grownD(1) [OF g(1)] va(3) fl, of f])
    case (1 t)
    have "mmu_walk (mem t) r y = mmu_walk (mem s) r y" if "unat y < 0x800000000000" for y
      using walks_same_trans [OF g(2) 1(3)] user_index [OF that] by (simp add: walks_same_def)
    then show ?thesis using 1 cf grown_trans [OF g(1) 1(2)] m(1) by (intro that [of ?w "- 1" t]) auto
  next
    case (2 t)
    have old: "mmu_walk (mem t) r y = mmu_walk (mem s) r y" if "unat y < 0x800000000000" "page_of y \<noteq> va" for y
      using 2(4) [OF that(1)] that va(1) g(2) user_index [OF that(1)] by (simp add: walks_same_def)
    have new: "page_loaded r d sz h s t y" if y: "page_of y = va" for y
    proof -
      obtain j where j: "j < 4096" "y = va + of_nat j" "unat y = unat va + j" by (rule page_offset [OF va(1) y])
      have j': "(of_nat j :: u64) < 4096" using j(1) by (simp add: word_less_nat_alt unat_of_nat)
      obtain k where "unat va = 4096 * k" using va(1) by (auto simp: page_aligned_iff mod_eq_0_iff_dvd dvd_def)
      then have "unat y < 0x800000000000" using j(1,3) va(3) by simp
      then have "mmu_walk (mem t) r y = Some (f OR (y AND 0xFFF))" using 2(4) y va(1) fal by simp
      moreover have "y AND 0xFFF = of_nat j" unfolding j(2) by (rule plus_offset_and [OF va(1) j'])
      ultimately have w: "mmu_walk (mem t) r y = Some (f + of_nat j)" using or_offset [OF fal j'] by simp
      have pg: "page_of (f + of_nat j) = f" by (rule page_of_plus [OF fal j'])
      have "mem t (f + of_nat j) = m (f + of_nat j)" using grownD(6) [OF 2(2), of "f + of_nat j"] fw pg by simp
      moreover have "f \<notin> pmm_avail t" "f \<notin> tables t r" using grownD(2,4) [OF 2(2)] fw by auto
      ultimately show ?thesis unfolding page_loaded_def using w pg f(1) m(3) [OF j(1)] j(3) by auto
    qed
    show ?thesis using 2 cf grown_trans [OF g(1) 2(2)] m(1) old new by (intro that [of ?w 0 t]) auto
  qed
qed

lemma page_range:
  assumes "page_aligned va" "page_aligned lim" "va < lim" "unat lim \<le> 0x800000000000"
  shows "unat (va + PMM_FRAME_SIZE) = unat va + 4096" "page_aligned (va + PMM_FRAME_SIZE)" "unat va + 4096 \<le> unat lim"
    "page_of y = va \<longleftrightarrow> unat va \<le> unat y \<and> unat y < unat va + 4096"
proof -
  show n: "unat (va + PMM_FRAME_SIZE) = unat va + 4096" "page_aligned (va + PMM_FRAME_SIZE)"
    using next_page(1,2) [OF assms(1,3,4)] by simp_all
  obtain k l where k: "unat va = 4096 * k" "unat lim = 4096 * l"
    using assms(1,2) by (auto simp: page_aligned_iff mod_eq_0_iff_dvd dvd_def)
  have "unat va < unat lim" using assms(3) by (simp add: word_less_nat_alt)
  then show "unat va + 4096 \<le> unat lim" unfolding k by simp
  have "page_of y = va \<longleftrightarrow> unat y - unat y mod 4096 = unat va" unfolding word_unat_eq_iff unat_page_of ..
  also have "\<dots> \<longleftrightarrow> unat va \<le> unat y \<and> unat y < unat va + 4096" unfolding k minus_mod_eq_mult_div
    by (simp, linarith)
  finally show "page_of y = va \<longleftrightarrow> unat va \<le> unat y \<and> unat y < unat va + 4096" .
qed

text \<open>What the loop over the pages of a segment achieves between \<open>va\<close> and \<open>lim\<close>.\<close>

definition pages_loaded :: "u64 \<Rightarrow> u64 \<Rightarrow> u64 \<Rightarrow> phdr_view \<Rightarrow> u64 \<Rightarrow> u64 \<Rightarrow> 'a pmm_state_scheme \<Rightarrow> int \<Rightarrow> 'a pmm_state_scheme \<Rightarrow> bool" where
  "pages_loaded r d sz h va lim s c t \<longleftrightarrow> (c = 0 \<or> c = - 1) \<and> (4 * ((unat lim - unat va) div 4096) \<le> card (pmm_avail s) \<longrightarrow> c = 0) \<and>
     (\<exists>u. grown r s u \<and> io_eq u t \<and> (c = 0 \<longrightarrow> t = u)) \<and>
     (c = 0 \<longrightarrow> card (pmm_avail s) \<le> card (pmm_avail t) + 4 * ((unat lim - unat va) div 4096)) \<and>
     (c = 0 \<longrightarrow> (\<forall>y. unat va \<le> unat y \<and> unat y < unat lim \<longrightarrow> page_loaded r d sz h s t y)) \<and>
     (\<forall>y. unat y < 0x800000000000 \<and> \<not> (unat va \<le> unat y \<and> unat y < unat lim) \<longrightarrow> mmu_walk (mem t) r y = mmu_walk (mem s) r y)"

text \<open>One page that is loaded, and then the rest.\<close>

lemma pages_loaded_step:
  fixes s t v :: "'a pmm_state_scheme"
  assumes va: "page_aligned va" "page_aligned lim" "va < lim" "unat lim \<le> 0x800000000000" and ap: "image_apart r d sz s"
    and st: "grown r s t" "card (pmm_avail s) \<le> card (pmm_avail t) + 4"
    and new: "\<And>y. page_of y = va \<Longrightarrow> page_loaded r d sz h s t y"
    and old: "\<And>y. unat y < 0x800000000000 \<Longrightarrow> page_of y \<noteq> va \<Longrightarrow> mmu_walk (mem t) r y = mmu_walk (mem s) r y"
    and rest: "pages_loaded r d sz h (va + PMM_FRAME_SIZE) lim t c v"
  shows "pages_loaded r d sz h va lim s c v"
proof -
  note pr = page_range [OF va]
  have num: "(unat lim - unat va) div 4096 = Suc ((unat lim - unat (va + PMM_FRAME_SIZE)) div 4096)"
    using pr(1,3) by (subst le_div_geq) simp_all
  have l: "c = 0 \<or> c = - 1" "4 * ((unat lim - unat (va + PMM_FRAME_SIZE)) div 4096) \<le> card (pmm_avail t) \<longrightarrow> c = 0"
    "\<exists>u. grown r t u \<and> io_eq u v \<and> (c = 0 \<longrightarrow> v = u)"
    "c = 0 \<longrightarrow> card (pmm_avail t) \<le> card (pmm_avail v) + 4 * ((unat lim - unat (va + PMM_FRAME_SIZE)) div 4096)"
    and later: "\<And>y. c = 0 \<Longrightarrow> unat va + 4096 \<le> unat y \<Longrightarrow> unat y < unat lim \<Longrightarrow> page_loaded r d sz h t v y"
    and kept: "\<And>y. unat y < 0x800000000000 \<Longrightarrow> \<not> (unat va + 4096 \<le> unat y \<and> unat y < unat lim) \<Longrightarrow>
      mmu_walk (mem v) r y = mmu_walk (mem t) r y"
    using rest unfolding pages_loaded_def pr(1) by blast+
  obtain x where x: "grown r t x" "io_eq x v" "c = 0 \<longrightarrow> v = x" using l(3) by blast
  have "page_loaded r d sz h s v y" if "c = 0" "unat va \<le> unat y" "unat y < unat lim" for y
  proof (cases "page_of y = va")
    case p: True
    have "unat y < 0x800000000000" using that va(4) by simp
    then show ?thesis using page_loaded_grown [OF new [OF p]] x that kept pr(4) p by auto
  next
    case p: False
    then show ?thesis using page_loaded_earlier [OF later [OF that(1)] st(1) ap] that pr(4) by auto
  qed
  moreover have "mmu_walk (mem v) r y = mmu_walk (mem s) r y"
    if "unat y < 0x800000000000" "\<not> (unat va \<le> unat y \<and> unat y < unat lim)" for y
    using kept [OF that(1)] old [OF that(1)] that(2) pr(3,4) by auto
  moreover have "4 * ((unat lim - unat va) div 4096) \<le> card (pmm_avail s) \<longrightarrow> c = 0"
    unfolding num using l(2) st(2) by auto
  moreover have "c = 0 \<longrightarrow> card (pmm_avail s) \<le> card (pmm_avail v) + 4 * ((unat lim - unat va) div 4096)"
    unfolding num using l(4) st(2) by auto
  ultimately show ?thesis unfolding pages_loaded_def using l(1) x grown_trans [OF st(1) x(1)] by blast
qed

lemma load_pages_run:
  fixes s :: "'a pmm_state_scheme"
  assumes lim: "page_aligned lim" "unat lim \<le> 0x800000000000" and off: "off + 56 \<le> unat sz" and nw: "no_wrap h"
    and fl: "page_of flags = 0" "present flags"
    and "user_tree s r" "image_apart r d sz s" "phdr_at h (d + HIGHER_HALF_BASE + of_nat off) s" "uart_live s"
      "page_aligned va" "ph_vaddr h \<le> va"
  shows "\<exists>c t. load_pages (d + HIGHER_HALF_BASE) sz r (d + HIGHER_HALF_BASE + of_nat off) flags va lim s = Some (c, t) \<and>
    pages_loaded r d sz h va lim s c t"
  using assms(7-)
proof (induction "unat lim - unat va" arbitrary: va s rule: less_induct)
  case less
  note ut = less.prems(1) and ap = less.prems(2) and ph = less.prems(3) and live = less.prems(4) and va = less.prems(5,6)
  let ?go = "load_pages (d + HIGHER_HALF_BASE) sz r (d + HIGHER_HALF_BASE + of_nat off) flags"
  show ?case
  proof (cases "va < lim")
    case False
    then have "?go va lim s = Some (0, s)" by (subst load_pages.simps) simp
    moreover have "pages_loaded r d sz h va lim s 0 s"
      using False grown_refl [OF ut] by (auto simp: pages_loaded_def word_less_nat_alt)
    ultimately show ?thesis by blast
  next
    case True
    note pr = page_range [OF va(1) lim(1) True lim(2)]
    have num: "(unat lim - unat va) div 4096 = Suc ((unat lim - unat (va + PMM_FRAME_SIZE)) div 4096)"
      using pr(1,3) by (subst le_div_geq) simp_all
    obtain f u where fu: "pmm_alloc_frame s = (f, u)" by fastforce
    show ?thesis
    proof (cases "f = 0")
      case f0: True
      then have "u = s" "pmm_avail s = {}" using pmm.alloc_cases [OF user_treeD(2) [OF ut] fu] by auto
      moreover obtain t where t: "serial_puts (cstr ''[ELF] ERR: pmm_alloc_frame failed'' @ [10]) s = Some t" "io_eq s t"
        using serial_puts_spec [OF live] by blast
      ultimately have "?go va lim s = Some (- 1, t)" using True f0 fu by (subst load_pages.simps) simp
      moreover have "pages_loaded r d sz h va lim s (- 1) t"
        unfolding pages_loaded_def using t(2) io_eqD(1) [OF t(2)] grown_refl [OF ut] num \<open>pmm_avail s = {}\<close> by auto
      ultimately show ?thesis by blast
    next
      case False
      have va': "unat va < 0x800000000000" using pr(3) lim(2) by simp
      obtain w c t where w: "load_page (d + HIGHER_HALF_BASE) sz (d + HIGHER_HALF_BASE + of_nat off) va f u = Some w"
        "map_user_page r va f flags w = Some (c, t)" "grown r s t" "c \<noteq> 0 \<longrightarrow> card (pmm_avail s) < 4"
        "card (pmm_avail s) \<le> card (pmm_avail t) + 4"
        and new: "\<And>y. c = 0 \<Longrightarrow> page_of y = va \<Longrightarrow> page_loaded r d sz h s t y"
        and old: "\<And>y. unat y < 0x800000000000 \<Longrightarrow> page_of y \<noteq> va \<Longrightarrow> mmu_walk (mem t) r y = mmu_walk (mem s) r y"
        by (rule load_one [OF ut ap ph off nw va va' fl fu False]) blast
      show ?thesis
      proof (cases "c = 0")
        case c: False
        then have "?go va lim s = Some (- 1, t)" using True False fu w(1,2) by (subst load_pages.simps) simp
        moreover have "pages_loaded r d sz h va lim s (- 1) t"
          unfolding pages_loaded_def using c w(3,4) num old pr(3,4) by (auto intro!: exI [of _ t])
        ultimately show ?thesis by blast
      next
        case c: True
        have go: "?go va lim s = ?go (va + PMM_FRAME_SIZE) lim t"
          using True False fu w(1,2) c by (subst load_pages.simps) simp
        note img = image_apart_grown [OF ap w(3)]
        have pt: "phdr_at h (d + HIGHER_HALF_BASE + of_nat off) t"
          using ap img(2) by (intro phdr_at_cong [OF ph user_treeD(1) [OF ut] user_treeD(1) [OF grownD(1) [OF w(3)]] _ off])
            (simp_all add: image_apart_def)
        have lt: "uart_live t" using live by (simp add: uart_live_def grown_same [OF w(3)])
        have le: "ph_vaddr h \<le> va + PMM_FRAME_SIZE" using va(2) pr(1) by (simp add: word_le_nat_alt)
        have dec: "unat lim - unat (va + PMM_FRAME_SIZE) < unat lim - unat va" using pr(1,3) by simp
        obtain c' v where v: "?go (va + PMM_FRAME_SIZE) lim t = Some (c', v)" "pages_loaded r d sz h (va + PMM_FRAME_SIZE) lim t c' v"
          using less.hyps [OF dec grownD(1) [OF w(3)] img(1) pt lt pr(2) le] by blast
        have "pages_loaded r d sz h va lim s c' v"
          using new [OF c] old by (intro pages_loaded_step [OF va(1) lim(1) True lim(2) ap w(3,5) _ _ v(2)])
        then show ?thesis using go v(1) by auto
      qed
    qed
  qed
qed

section \<open>A segment\<close>

text \<open>Messages on the serial line do not disturb the address space.\<close>

lemma io_eq_same:
  fixes s t :: "'a pmm_state_scheme"
  assumes "io_eq s t"
  shows "user_tree t r = user_tree s r" "image_apart r d sz t = image_apart r d sz s" "phdr_at h a t = phdr_at h a s"
    "tables t r = tables s r" "pmm_avail t = pmm_avail s"
proof -
  have t: "mem t = mem s" "cr3 t = cr3 s" "syms t = syms s" by (simp_all add: io_eqD [OF assms])
  note k = kernel_mapped_same [OF t]
  have p: "pmm_avail t = pmm_avail s" "pmm_ready t = pmm_ready s"
    by (rule io_eqE [OF assms], simp add: pmm_avail_def frames_free_def frames_marked_def bitmap_test_def pmm_ready_def pmm_inv_def frames_used_def)+
  show tab: "tables t r = tables s r" by (simp add: tables_def t(1))
  show "user_tree t r = user_tree s r" unfolding user_tree_def tab k p t(1) ..
  show "image_apart r d sz t = image_apart r d sz s" unfolding image_apart_def tab p ..
  show "phdr_at h a t = phdr_at h a s" unfolding phdr_at_def kload_le_io_eq [OF assms] ..
  show "pmm_avail t = pmm_avail s" by (rule p)
qed

lemma load_segment_announces:
  assumes "uart_live s" "p_type ph s = Some PT_LOAD" "p_vaddr ph s = Some vaddr" "p_filesz ph s = Some filesz" "p_memsz ph s = Some memsz"
    "p_flags ph s = Some fl"
  obtains t where "load_segment data sz r ph s =
      load_pages data sz r ph rw_user_flags (page_of vaddr) (page_of (vaddr + memsz + 0xFFF)) t" "io_eq s t" "uart_live t"
proof -
  note k = kload_le_io_eq
  obtain s1 where s1: "serial_puts (cstr ''[ELF] LOAD: vaddr=0x'') s = Some s1" "uart_live s1" "io_eq s s1" using serial_puts_spec [OF assms(1)] by blast
  obtain s2 where s2: "serial_puthex64 vaddr s1 = Some s2" "uart_live s2" "io_eq s1 s2" using serial_puthex64_spec [OF s1(2)] by blast
  note e2 = io_eq_trans [OF s1(3) s2(3)]
  obtain s3 where s3: "serial_puts (cstr '' filesz=0x'') s2 = Some s3" "uart_live s3" "io_eq s2 s3" using serial_puts_spec [OF s2(2)] by blast
  note e3 = io_eq_trans [OF e2 s3(3)]
  obtain s4 where s4: "serial_puthex64 filesz s3 = Some s4" "uart_live s4" "io_eq s3 s4" using serial_puthex64_spec [OF s3(2)] by blast
  note e4 = io_eq_trans [OF e3 s4(3)]
  obtain s5 where s5: "serial_puts (cstr '' memsz=0x'') s4 = Some s5" "uart_live s5" "io_eq s4 s5" using serial_puts_spec [OF s4(2)] by blast
  note e5 = io_eq_trans [OF e4 s5(3)]
  obtain s6 where s6: "serial_puthex64 memsz s5 = Some s6" "uart_live s6" "io_eq s5 s6" using serial_puthex64_spec [OF s5(2)] by blast
  note e6 = io_eq_trans [OF e5 s6(3)]
  obtain s7 where s7: "serial_puts [10] s6 = Some s7" "uart_live s7" "io_eq s6 s7" using serial_puts_spec [OF s6(2)] by blast
  note e7 = io_eq_trans [OF e6 s7(3)]
  have fl: "(if fl AND PF_W = 0 then rw_user_flags OR PAGE_WRITABLE else rw_user_flags) = rw_user_flags"
    by (simp add: page_flag_defs)
  have "load_segment data sz r ph s = load_pages data sz r ph rw_user_flags (page_of vaddr) (page_of (vaddr + memsz + 0xFFF)) s7"
    using assms(2-6) s1(1) s2(1) s3(1) s4(1) s5(1) s6(1) s7(1) fl
    by (simp add: load_segment_def k [OF s1(3)] k [OF e3] k [OF e5] k [OF e7] Let_def or.assoc)
  then show ?thesis using e7 s7(2) by (rule that)
qed

text \<open>A program header of a segment to load, at a page boundary, that ends below the user limit.\<close>

definition segment_at :: "phdr_view \<Rightarrow> u64 \<Rightarrow> u64 \<Rightarrow> 'a machine_scheme \<Rightarrow> bool" where
  "segment_at h memsz ph s \<longleftrightarrow> p_type ph s = Some PT_LOAD \<and> phdr_at h ph s \<and> p_memsz ph s = Some memsz \<and> p_flags ph s \<noteq> None \<and>
     no_wrap h \<and> page_aligned (ph_vaddr h) \<and> unat (ph_vaddr h) + unat memsz \<le> 0x800000000000"

lemma segment_end:
  assumes "unat vaddr + unat memsz \<le> 0x800000000000"
  shows "unat (page_of (vaddr + memsz + 0xFFF)) = (unat vaddr + unat memsz + 4095) div 4096 * 4096"
    "unat (page_of (vaddr + memsz + 0xFFF)) \<le> 0x800000000000"
proof -
  have "unat (vaddr + memsz + 0xFFF) = unat vaddr + unat memsz + 4095" using assms by (simp add: unat_word_ariths)
  then show e: "unat (page_of (vaddr + memsz + 0xFFF)) = (unat vaddr + unat memsz + 4095) div 4096 * 4096"
    unfolding unat_page_of by (simp add: minus_mod_eq_div_mult)
  have "(unat vaddr + unat memsz + 4095) div 4096 \<le> 0x800000000" using assms by linarith
  then show "unat (page_of (vaddr + memsz + 0xFFF)) \<le> 0x800000000000" unfolding e by simp
qed

text \<open>Growth of the tree with messages before and after it.\<close>

definition grown_io :: "u64 \<Rightarrow> 'a pmm_state_scheme \<Rightarrow> 'a pmm_state_scheme \<Rightarrow> bool" where
  "grown_io r s t \<longleftrightarrow> (\<exists>v u. io_eq s v \<and> grown r v u \<and> io_eq u t)"

lemma grown_io_extend: "io_eq s s' \<Longrightarrow> grown_io r s' t' \<Longrightarrow> io_eq t' t \<Longrightarrow> grown_io r s t"
  unfolding grown_io_def using io_eq_trans by blast

lemma segment_loads:
  fixes s :: "'a pmm_state_scheme"
  assumes ut: "user_tree s r" and ap: "image_apart r d sz s" and live: "uart_live s" and off: "off + 56 \<le> unat sz"
    and seg: "segment_at h memsz (d + HIGHER_HALF_BASE + of_nat off) s"
  defines "lim \<equiv> (unat (ph_vaddr h) + unat memsz + 4095) div 4096 * 4096"
  shows "\<exists>c t. load_segment (d + HIGHER_HALF_BASE) sz r (d + HIGHER_HALF_BASE + of_nat off) s = Some (c, t) \<and> (c = 0 \<or> c = - 1) \<and>
    (4 * ((lim - unat (ph_vaddr h)) div 4096) \<le> card (pmm_avail s) \<longrightarrow> c = 0) \<and> user_tree t r \<and> uart_live t \<and>
    (\<forall>y. unat y < 0x800000000000 \<longrightarrow> (if unat (ph_vaddr h) \<le> unat y \<and> unat y < lim then c = 0 \<longrightarrow> page_loaded r d sz h s t y
       else mmu_walk (mem t) r y = mmu_walk (mem s) r y)) \<and>
    grown_io r s t \<and> (c = 0 \<longrightarrow> card (pmm_avail s) \<le> card (pmm_avail t) + 4 * ((lim - unat (ph_vaddr h)) div 4096))"
proof -
  let ?ph = "d + HIGHER_HALF_BASE + of_nat off" and ?lim = "page_of (ph_vaddr h + memsz + 0xFFF)"
  have sg: "p_type ?ph s = Some PT_LOAD" "phdr_at h ?ph s" "p_memsz ?ph s = Some memsz" "no_wrap h"
    "page_aligned (ph_vaddr h)" "unat (ph_vaddr h) + unat memsz \<le> 0x800000000000"
    and fl: "\<exists>fl. p_flags ?ph s = Some fl" using seg by (auto simp: segment_at_def)
  obtain fl where fl: "p_flags ?ph s = Some fl" using fl by blast
  note e = segment_end [OF sg(6), folded lim_def]
  have pf: "p_vaddr ?ph s = Some (ph_vaddr h)" "p_filesz ?ph s = Some (ph_filesz h)" using sg(2) by (simp_all add: phdr_at_def)
  obtain w where w: "load_segment (d + HIGHER_HALF_BASE) sz r ?ph s =
      load_pages (d + HIGHER_HALF_BASE) sz r ?ph rw_user_flags (page_of (ph_vaddr h)) ?lim w" "io_eq s w" "uart_live w"
    by (rule load_segment_announces [OF live sg(1) pf sg(3) fl])
  note io = io_eq_same [OF w(2)]
  have rw: "page_of rw_user_flags = 0" "present rw_user_flags" by (simp_all add: page_of_or)
  obtain c t where run: "load_pages (d + HIGHER_HALF_BASE) sz r ?ph rw_user_flags (ph_vaddr h) ?lim w = Some (c, t)"
    and pl: "pages_loaded r d sz h (ph_vaddr h) ?lim w c t"
    using load_pages_run [OF page_of_idem e(2) off sg(4) rw, where s = w and r = r and d = d and va = "ph_vaddr h"] w(3) sg(5) ut ap sg(2) io(1-3)
    by blast
  obtain u where u: "grown r w u" "io_eq u t" using pl by (auto simp: pages_loaded_def)
  have "user_tree t r" using grownD(1) [OF u(1)] io_eq_same(1) [OF u(2)] by blast
  moreover have "uart_live t" using w(3) by (simp add: uart_live_def io_eqD(4) [OF u(2)] grown_same(4) [OF u(1)])
  moreover have "page_loaded r d sz h s t y = page_loaded r d sz h w t y" for y
    by (simp add: page_loaded_def io(5) io_eqD(1) [OF w(2)])
  moreover have "grown_io r s t" using w(2) u by (auto simp: grown_io_def)
  ultimately show ?thesis
    using pl w(1) run sg(5) e(1) io(5) io_eqD(1) [OF w(2)] unfolding pages_loaded_def by (intro exI [of _ c] exI [of _ t]) auto
qed

text \<open>
  C4. Loading a segment that starts at a page boundary into an address space with its tables below 2 MiB: \<open>load_segment\<close> returns 0 or -1,
  and 0 if there are four free frames for each page. On success, every user address from the start of the segment to the
  end of its last page is mapped to a frame of its own, which holds the byte of the image that belongs there and 0 behind the file part and behind
  the end of the image; every other user address translates as before, also on failure, and the tables stay separate.
\<close>

theorem load_segment_loads:
  fixes s :: "'a pmm_state_scheme"
  assumes ut: "user_tree s r" and ap: "image_apart r d sz s" and live: "uart_live s" and off: "off + 56 \<le> unat sz"
    and seg: "segment_at h memsz (d + HIGHER_HALF_BASE + of_nat off) s"
  defines "lim \<equiv> (unat (ph_vaddr h) + unat memsz + 4095) div 4096 * 4096"
  shows "\<exists>c t. load_segment (d + HIGHER_HALF_BASE) sz r (d + HIGHER_HALF_BASE + of_nat off) s = Some (c, t) \<and> (c = 0 \<or> c = - 1) \<and>
    (4 * ((lim - unat (ph_vaddr h)) div 4096) \<le> card (pmm_avail s) \<longrightarrow> c = 0) \<and> user_tree t r \<and> uart_live t \<and>
    (\<forall>y. unat y < 0x800000000000 \<longrightarrow> (if unat (ph_vaddr h) \<le> unat y \<and> unat y < lim then c = 0 \<longrightarrow> page_loaded r d sz h s t y
       else mmu_walk (mem t) r y = mmu_walk (mem s) r y))"
  unfolding lim_def using segment_loads [OF assms(1-5)] by blast

end
