(* ===== verification/Prism_Image.thy ===== *)
theory Prism_Image
  imports Prism_Loader
begin

text \<open>
  The program that the kernel carries in itself, \<open>test_elf\<close> in \<^verbatim>\<open>kernel/kernel.c\<close>, and what loading it gives.
\<close>

definition test_elf :: "u8 list" where
  "test_elf =
     [0x7F, 0x45, 0x4C, 0x46, 2, 1, 1, 0, 0, 0, 0, 0, 0, 0, 0, 0,
      0x02, 0x00, 0x3E, 0x00, 0x01, 0x00, 0x00, 0x00,
      0x00, 0x00, 0x40, 0x00, 0x00, 0x00, 0x00, 0x00,
      0x40, 0x00, 0x00, 0x00, 0x00, 0x00, 0x00, 0x00,
      0x00, 0x00, 0x00, 0x00, 0x00, 0x00, 0x00, 0x00,
      0x00, 0x00, 0x00, 0x00, 0x40, 0x00, 0x38, 0x00, 0x01, 0x00, 0x00, 0x00, 0x00, 0x00, 0x00, 0x00,
      0x01, 0x00, 0x00, 0x00, 0x07, 0x00, 0x00, 0x00,
      0x78, 0x00, 0x00, 0x00, 0x00, 0x00, 0x00, 0x00,
      0x00, 0x00, 0x40, 0x00, 0x00, 0x00, 0x00, 0x00,
      0x00, 0x00, 0x40, 0x00, 0x00, 0x00, 0x00, 0x00,
      0x37, 0x00, 0x00, 0x00, 0x00, 0x00, 0x00, 0x00,
      0x00, 0x10, 0x00, 0x00, 0x00, 0x00, 0x00, 0x00,
      0x00, 0x10, 0x00, 0x00, 0x00, 0x00, 0x00, 0x00,
      0x90, 0xEB, 0xFD] @ cstr ''Hello from ring 3!'' @ [10, 0]"

definition sizeof_test_elf :: u64 where "sizeof_test_elf = 143"

lemma test_elf_length: "length test_elf = 143" "unat sizeof_test_elf = 143"
  by (simp_all add: test_elf_def sizeof_test_elf_def cstr_def)

text \<open>The bytes of an image in the kernel's window, and the fields read from them.\<close>

definition image_holds :: "u64 \<Rightarrow> u8 list \<Rightarrow> 'a machine_scheme \<Rightarrow> bool" where
  "image_holds d bs s \<longleftrightarrow> (\<forall>i<length bs. mem s (d + of_nat i) = bs ! i)"

primrec le_word :: "u8 list \<Rightarrow> u64" where
  "le_word [] = 0"
| "le_word (b # bs) = ucast b + 256 * le_word bs"

lemma image_field:
  assumes "kernel_mapped s" "in_window d sz" "length bs = unat sz" "image_holds d bs s" "off + n \<le> length bs"
  shows "kload_le n (d + HIGHER_HALF_BASE + of_nat off) s = Some (le_word (take n (drop off bs)))"
  using assms(5)
proof (induction n arbitrary: off)
  case (Suc n)
  have off: "off < length bs" using Suc.prems by simp
  have "kload8 (d + HIGHER_HALF_BASE + of_nat off) s = Some (bs ! off)"
    using image_load [OF assms(1,2), of off] off assms(3,4) by (simp add: image_holds_def)
  moreover have "kload_le n (d + HIGHER_HALF_BASE + of_nat off + 1) s = Some (le_word (take n (drop (Suc off) bs)))"
    using Suc.IH [of "Suc off"] Suc.prems by (simp add: ac_simps)
  moreover have "take (Suc n) (drop off bs) = bs ! off # take n (drop (Suc off) bs)"
    using off by (simp add: Cons_nth_drop_Suc [symmetric])
  ultimately show ?case by simp
qed simp

lemma test_elf_fields:
  "le_word (take 2 (drop 16 test_elf)) = 2" "le_word (take 2 (drop 18 test_elf)) = 62"
  "le_word (take 8 (drop 24 test_elf)) = 0x400000" "le_word (take 8 (drop 32 test_elf)) = 64"
  "le_word (take 2 (drop 54 test_elf)) = 56" "le_word (take 2 (drop 56 test_elf)) = 1"
  "le_word (take 4 (drop 64 test_elf)) = 1" "le_word (take 4 (drop 68 test_elf)) = 7"
  "le_word (take 8 (drop 72 test_elf)) = 120" "le_word (take 8 (drop 80 test_elf)) = 0x400000"
  "le_word (take 8 (drop 96 test_elf)) = 55" "le_word (take 8 (drop 104 test_elf)) = 4096"
  "elf_ident (\<lambda>i. test_elf ! i)"
  by (simp_all add: test_elf_def elf_ident_def)

definition test_phdr :: phdr_view where
  "test_phdr = \<lparr>ph_vaddr = 0x400000, ph_filesz = 55, ph_offset = 120\<rparr>"

lemma test_elf_loads:
  assumes "kernel_mapped s" "in_window d sizeof_test_elf" "image_holds d test_elf s"
  defines "p \<equiv> d + HIGHER_HALF_BASE"
  shows "e_type p s = Some 2" "e_machine p s = Some 62" "e_entry p s = Some 0x400000" "e_phoff p s = Some 64"
    "e_phentsize p s = Some 56" "e_phnum p s = Some 1" "segment_at test_phdr 4096 (p + of_nat 64) s"
proof -
  have len: "length test_elf = unat sizeof_test_elf" by (simp add: test_elf_length)
  note f = image_field [OF assms(1,2) len assms(3), folded p_def, unfolded test_elf_length(1)]
  show "e_type p s = Some 2" "e_machine p s = Some 62" "e_entry p s = Some 0x400000" "e_phoff p s = Some 64"
    "e_phentsize p s = Some 56" "e_phnum p s = Some 1"
    using f [of 16 2] f [of 18 2] f [of 24 8] f [of 32 8] f [of 54 2] f [of 56 2] by (simp_all add: test_elf_fields)
  have "p + 64 + 4 = p + 68" "p + 64 + 8 = p + 72" "p + 64 + 16 = p + 80" "p + 64 + 32 = p + 96" "p + 64 + 40 = p + 104"
    by simp_all
  then show "segment_at test_phdr 4096 (p + of_nat 64) s"
    using f [of 64 4] f [of 68 4] f [of 72 8] f [of 80 8] f [of 96 8] f [of 104 8]
    by (simp add: test_elf_fields segment_at_def phdr_at_def no_wrap_def test_phdr_def PT_LOAD_def page_of_def add.commute [of _ p] del: and_neg_4096)
qed

lemma say_field:
  assumes "uart_live s"
  obtains t where "serial_puts cs s = Some t" "io_eq s t" "uart_live t"
  using serial_puts_spec [OF assms] by blast

lemma say_hex:
  assumes "uart_live s"
  obtains t where "serial_puthex64 v s = Some t" "io_eq s t" "uart_live t"
  using serial_puthex64_spec [OF assms] by blast

text \<open>The messages about an accepted header.\<close>

lemma elf_load_valid_announces:
  assumes "uart_live s" "e_entry p s = Some entry" "e_type p s = Some ty" "e_machine p s = Some mc" "e_phnum p s = Some n"
  obtains t where "elf_load_valid p sz r s =
      do { (c, u) \<leftarrow> load_segments (unat n) 0 p sz r t;
           if c \<noteq> 0 then Some (- 1, Some entry, u)
           else do { u \<leftarrow> serial_puts (cstr ''[ELF] load OK'' @ [10]) u; Some (0, Some entry, u) } }" "io_eq s t" "uart_live t"
proof -
  note k = kload_le_io_eq
  obtain s1 where s1: "serial_puts (cstr ''[ELF] header OK, entry=0x'') s = Some s1" "io_eq s s1" "uart_live s1" by (rule say_field [OF assms(1)])
  obtain s2 where s2: "serial_puthex64 entry s1 = Some s2" "io_eq s1 s2" "uart_live s2" by (rule say_hex [OF s1(3)])
  obtain s3 where s3: "serial_puts (cstr '' type=0x'') s2 = Some s3" "io_eq s2 s3" "uart_live s3" by (rule say_field [OF s2(3)])
  note e3 = io_eq_trans [OF s1(2) io_eq_trans [OF s2(2) s3(2)]]
  obtain s4 where s4: "serial_puthex64 ty s3 = Some s4" "io_eq s3 s4" "uart_live s4" by (rule say_hex [OF s3(3)])
  obtain s5 where s5: "serial_puts (cstr '' machine=0x'') s4 = Some s5" "io_eq s4 s5" "uart_live s5" by (rule say_field [OF s4(3)])
  note e5 = io_eq_trans [OF e3 io_eq_trans [OF s4(2) s5(2)]]
  obtain s6 where s6: "serial_puthex64 mc s5 = Some s6" "io_eq s5 s6" "uart_live s6" by (rule say_hex [OF s5(3)])
  obtain s7 where s7: "serial_puts (cstr '' phnum='') s6 = Some s7" "io_eq s6 s7" "uart_live s7" by (rule say_field [OF s6(3)])
  note e7 = io_eq_trans [OF e5 io_eq_trans [OF s6(2) s7(2)]]
  obtain s8 where s8: "serial_puts (phnum_digits n) s7 = Some s8" "io_eq s7 s8" "uart_live s8" by (rule say_field [OF s7(3)])
  obtain s9 where s9: "serial_puts [10] s8 = Some s9" "io_eq s8 s9" "uart_live s9" by (rule say_field [OF s8(3)])
  note e9 = io_eq_trans [OF e7 io_eq_trans [OF s8(2) s9(2)]]
  have "elf_load_valid p sz r s = do { (c, u) \<leftarrow> load_segments (unat n) 0 p sz r s9;
           if c \<noteq> 0 then Some (- 1, Some entry, u)
           else do { u \<leftarrow> serial_puts (cstr ''[ELF] load OK'' @ [10]) u; Some (0, Some entry, u) } }"
    unfolding elf_load_valid_def
    using assms(2-5) s1(1) s2(1) s3(1) s4(1) s5(1) s6(1) s7(1) s8(1) s9(1)
    by (simp add: k [OF s1(2)] k [OF e3] k [OF e5] k [OF e7] k [OF e9])
  then show ?thesis using e9 s9(3) by (rule that)
qed

lemma test_elf_run:
  fixes s :: "'a pmm_state_scheme"
  assumes ut: "user_tree s r" and ap: "image_apart r d sizeof_test_elf s" and img: "image_holds d test_elf s" and live: "uart_live s"
    and frames: "4 \<le> card (pmm_avail s)"
  shows "\<exists>t. elf_load (d + HIGHER_HALF_BASE) sizeof_test_elf r (Some 0) s = Some (0, Some 0x400000, t) \<and> user_tree t r \<and>
    (\<forall>j<4096. \<exists>a. mmu_walk (mem t) r (0x400000 + of_nat j) = Some a \<and> page_of a \<in> pmm_avail s - pmm_avail t - tables t r \<and>
       mem t a = (if j < 23 then test_elf ! (120 + j) else 0)) \<and>
    (\<forall>y. unat y < 0x800000000000 \<and> page_of y \<noteq> 0x400000 \<longrightarrow> mmu_walk (mem t) r y = mmu_walk (mem s) r y) \<and>
    grown_io r s t \<and> card (pmm_avail s) \<le> card (pmm_avail t) + 4"
proof -
  let ?p = "d + HIGHER_HALF_BASE" and ?ph = "d + HIGHER_HALF_BASE + of_nat 64"
  have iw: "in_window d sizeof_test_elf" using ap by (simp add: image_apart_def)
  note km = user_treeD(1) [OF ut]
  have "unat d < 0x80000000" using iw by (simp add: in_window_def)
  then have "unat ?p = unat d + 18446744071562067968" by (rule unat_higher_half)
  then have nz: "?p \<noteq> 0" by auto
  have b: "kload8 (?p + of_nat i) s = Some (test_elf ! i)" if "i < 20" for i
    using image_load [OF km iw, of i] img that test_elf_length by (simp add: image_holds_def)
  obtain s1 where s1: "elf_load ?p sizeof_test_elf r (Some 0) s = elf_load_valid ?p sizeof_test_elf r s1" "io_eq s s1" "uart_live s1"
    using elf_load_checked [OF live b nz, where sz = sizeof_test_elf and out = "Some 0" and ?pml4.0 = r] test_elf_fields(13) test_elf_length(2)
    by auto
  note io1 = io_eq_same [OF s1(2)] and m1 = io_eqD(1) [OF s1(2)]
  have "image_holds d test_elf s1" using img by (simp add: image_holds_def m1)
  note l1 = test_elf_loads [OF user_treeD(1) [OF io1(1) [THEN iffD2, OF ut]] iw this]
  obtain s2 where s2: "elf_load_valid ?p sizeof_test_elf r s1 = do { (c, u) \<leftarrow> load_segments (unat (1 :: u64)) 0 ?p sizeof_test_elf r s2;
           if c \<noteq> 0 then Some (- 1, Some 0x400000, u)
           else do { u \<leftarrow> serial_puts (cstr ''[ELF] load OK'' @ [10]) u; Some (0, Some 0x400000, u) } }" "io_eq s1 s2" "uart_live s2"
    by (rule elf_load_valid_announces [OF s1(3) l1(3,1,2,6)])
  have e: "io_eq s s2" by (rule io_eq_trans [OF s1(2) s2(2)])
  note io = io_eq_same [OF e] and m = io_eqD(1) [OF e]
  have ut2: "user_tree s2 r" using io(1) ut by blast
  have "image_holds d test_elf s2" using img by (simp add: image_holds_def m)
  note l = test_elf_loads [OF user_treeD(1) [OF ut2] iw this]
  have off: "64 + 56 \<le> unat sizeof_test_elf" by (simp add: sizeof_test_elf_def)
  obtain c t where t: "load_segment ?p sizeof_test_elf r ?ph s2 = Some (c, t)" "user_tree t r" "uart_live t" "c = 0"
    and gr: "grown_io r s2 t" "card (pmm_avail s2) \<le> card (pmm_avail t) + 4"
    and pages: "\<forall>y. unat y < 0x800000000000 \<longrightarrow> (if 0x400000 \<le> unat y \<and> unat y < 0x401000 then c = 0 \<longrightarrow> page_loaded r d sizeof_test_elf test_phdr s2 t y
       else mmu_walk (mem t) r y = mmu_walk (mem s2) r y)"
    using segment_loads [OF ut2 _ s2(3) off l(7)] io(2,5) ap frames by (auto simp: test_phdr_def)
  obtain u where u: "serial_puts (cstr ''[ELF] load OK'' @ [10]) t = Some u" "io_eq t u" by (rule say_field [OF t(3)])
  have "load_segments (unat (1 :: u64)) 0 ?p sizeof_test_elf r s2 = Some (0, t)"
    using l(4,5) t(1,4) by (simp add: sizeof_phdr_def sizeof_test_elf_def word_less_nat_alt)
  then have "elf_load ?p sizeof_test_elf r (Some 0) s = Some (0, Some 0x400000, u)" using s1(1) s2(1) u(1) by simp
  moreover have "user_tree u r" using t(2) io_eq_same(1) [OF u(2)] by blast
  moreover have mu: "mem u = mem t" using io_eqD(1) [OF u(2)] .
  moreover note iu = io_eq_same(4,5) [OF u(2)]
  moreover have "grown_io r s u" "card (pmm_avail s) \<le> card (pmm_avail u) + 4"
    using grown_io_extend [OF e gr(1) u(2)] gr(2) io(5) iu by simp_all
  moreover have "\<exists>a. mmu_walk (mem t) r (0x400000 + of_nat j) = Some a \<and> page_of a \<in> pmm_avail s - pmm_avail t - tables t r \<and>
      mem t a = (if j < 23 then test_elf ! (120 + j) else 0)" if "j < 4096" for j
  proof -
    have uj: "unat (0x400000 + of_nat j :: u64) = 0x400000 + j" using that by (simp add: unat_word_ariths unat_of_nat)
    have "page_loaded r d sizeof_test_elf test_phdr s2 t (0x400000 + of_nat j)"
      using pages [rule_format, of "0x400000 + of_nat j"] that t(4) by (simp add: uj)
    then show ?thesis using img that io(5) unfolding page_loaded_def uj
      by (auto simp: segment_byte_def test_phdr_def m sizeof_test_elf_def image_holds_def test_elf_length(1) simp del: of_nat_add)
  qed
  moreover have "mmu_walk (mem t) r y = mmu_walk (mem s) r y" if "unat y < 0x800000000000" "page_of y \<noteq> 0x400000" for y
  proof -
    have al: "page_aligned 0x400000" "page_aligned 0x401000" by (simp_all add: page_of_def del: and_neg_4096)
    have "\<not> (0x400000 \<le> unat y \<and> unat y < 0x401000)" using page_range(4) [OF al, of y] that(2) by simp
    then show ?thesis using pages [rule_format, OF that(1)] m by simp
  qed
  ultimately show ?thesis by (intro exI [of _ u]) simp
qed

text \<open>
  C15. Loading the kernel's own test program into an address space with four free frames below 2 MiB succeeds: the entry point is 0x400000,
  the page there holds the code and the text that follow the program header, 23 bytes although the header claims 55, and zeros after them, and no
  other user address changes.
\<close>

theorem elf_load_test_elf:
  fixes s :: "'a pmm_state_scheme"
  assumes ut: "user_tree s r" and ap: "image_apart r d sizeof_test_elf s" and img: "image_holds d test_elf s" and live: "uart_live s"
    and frames: "4 \<le> card (pmm_avail s)"
  shows "\<exists>t. elf_load (d + HIGHER_HALF_BASE) sizeof_test_elf r (Some 0) s = Some (0, Some 0x400000, t) \<and> user_tree t r \<and>
    (\<forall>j<4096. \<exists>a. mmu_walk (mem t) r (0x400000 + of_nat j) = Some a \<and> mem t a = (if j < 23 then test_elf ! (120 + j) else 0)) \<and>
    (\<forall>y. unat y < 0x800000000000 \<and> page_of y \<noteq> 0x400000 \<longrightarrow> mmu_walk (mem t) r y = mmu_walk (mem s) r y)"
  using test_elf_run [OF assms] by meson

section \<open>The program on the sample kernel\<close>

definition put_image :: "u64 \<Rightarrow> u8 list \<Rightarrow> 'a machine_scheme \<Rightarrow> 'a machine_scheme" where
  "put_image d bs s = s\<lparr>mem := \<lambda>a. if unat (a - d) < length bs then bs ! unat (a - d) else mem s a\<rparr>"

lemma put_image_page:
  assumes "page_aligned d" "length bs \<le> 4096"
  shows "image_holds d bs (put_image d bs s)" "page_of a \<noteq> d \<Longrightarrow> mem (put_image d bs s) a = mem s a"
proof -
  show "image_holds d bs (put_image d bs s)" using assms(2) by (simp add: image_holds_def put_image_def unat_of_nat)
  show "mem (put_image d bs s) a = mem s a" if "page_of a \<noteq> d"
  proof -
    have "\<not> unat (a - d) < length bs"
    proof
      assume "unat (a - d) < length bs"
      then have "a - d < 4096" using assms(2) by (simp add: word_less_nat_alt)
      from page_of_plus [OF assms(1) this] that show False by simp
    qed
    then show ?thesis by (simp add: put_image_def)
  qed
qed

lemma kernel_space_write:
  assumes ks: "kernel_space s" and m: "\<And>a. page_of a \<in> ktables s \<Longrightarrow> m a = mem s a"
  shows "kernel_space (s\<lparr>mem := m\<rparr>)"
proof (rule kernel_space_cong [OF ks kernel_mapped_cong [OF kernel_spaceD(1) [OF ks] m]])
  note km = kernel_mappedD [OF kernel_spaceD(1) [OF ks]]
  show "k_entry (s\<lparr>mem := m\<rparr>) (k_pd s) j = k_entry s (k_pd s) j" if "j < 512" for j
    using load64_entry_cong [OF _ km(2) that, of m "mem s"] m by (auto simp: ktables_def)
qed (use kernel_spaceD(4) [OF ks] in simp_all)

lemma sample_image_pages: "image_pages 0x10C000 sizeof_test_elf = {0x10C000}" "in_window 0x10C000 sizeof_test_elf"
proof -
  have al: "page_aligned 0x10C000" by (simp add: page_of_def del: and_neg_4096)
  have "page_of (0x10C000 + of_nat i) = 0x10C000" if "i < 143" for i
    using that by (intro page_of_plus [OF al]) (simp add: word_less_nat_alt unat_of_nat)
  moreover have "0 \<in> {..<unat sizeof_test_elf}" by (simp add: sizeof_test_elf_def)
  ultimately show "image_pages 0x10C000 sizeof_test_elf = {0x10C000}" by (auto simp: image_pages_def sizeof_test_elf_def intro: image_eqI [of _ _ 0])
  show "in_window 0x10C000 sizeof_test_elf" by (simp add: in_window_def sizeof_test_elf_def)
qed

lemma sample_user_space:
  obtains t r u where "paging_init paging_sample = Some t" "paging_create_user_space (put_image 0x10C000 test_elf t) = Some (r, u)"
    "kernel_space t" "user_tree u r" "image_apart r 0x10C000 sizeof_test_elf u" "image_holds 0x10C000 test_elf u" "uart_live u" "59 \<le> card (pmm_avail u)"
proof -
  let ?d = "0x10C000 :: u64"
  have like: "like_sample paging_sample" by (simp add: like_sample_def)
  obtain t where t: "paging_init paging_sample = Some t" "kernel_space t" "60 \<le> card (pmm_avail t)"
    "t = paging_sample\<lparr>mem := mem t, new_pml4 := new_pml4 t, cr3 := cr3 t\<rparr>"
    using sample_paging [OF like] by blast
  have eq: "cr3 t = 0x110000" "syms t = boot_syms" "io_in t = io_in paging_sample" "pmm_avail t = pmm_avail paging_sample"
    using t(1) paging_init_eq [OF paging_sample_placed(1)]
    by (auto simp: boot_syms_def pmm_avail_def frames_free_def frames_marked_def bitmap_test_def)
  have pg: "page_of 0x110000 = (0x110000 :: u64)" "page_aligned ?d" by (simp_all add: page_of_def del: and_neg_4096)
  have kd: "?d \<notin> ktables t" unfolding ktables_def eq pg by (simp add: boot_syms_def)
  let ?i = "put_image ?d test_elf t"
  have len: "length test_elf \<le> 4096" by (simp add: test_elf_length)
  note pi = put_image_page [OF pg(2) len, where s = t]
  obtain m where m: "?i = t\<lparr>mem := m\<rparr>" by (simp add: put_image_def)
  have out: "m a = mem t a" if "page_of a \<noteq> ?d" for a using pi(2) [OF that] by (simp add: m)
  have ki: "kernel_space ?i" unfolding m by (rule kernel_space_write [OF t(2)]) (rule out, use kd in auto)
  have av: "pmm_avail ?i = pmm_avail t" by (simp add: m)
  have low: "\<forall>f\<in>pmm_avail ?i. unat f < 0x1FF000" using paging_sample_avail unfolding av eq(4) by fastforce
  have ne: "pmm_avail ?i \<noteq> {}" using t(3) unfolding av by auto
  obtain r u where u: "paging_create_user_space ?i = Some (r, u)" "r \<in> pmm_avail ?i" "pmm_avail u = pmm_avail ?i - {r}" "user_tree u r"
    "tables u r = {r}" "\<forall>a. page_of a \<noteq> r \<longrightarrow> mem u a = mem ?i a"
    and ue: "u = ?i\<lparr>mem := mem u, bitmap := bitmap u, used_frames := used_frames u\<rparr>"
    using create_user_tree [OF ki ne low] by blast
  obtain m' b' n' where u': "u = ?i\<lparr>mem := m', bitmap := b', used_frames := n'\<rparr>" using ue by blast
  have ui: "io_in u = io_in ?i" by (simp add: u')
  have nd: "?d \<notin> pmm_avail ?i" using paging_sample_avail [of ?d] unfolding av eq(4) by auto
  have ap: "image_apart r ?d sizeof_test_elf u"
    unfolding image_apart_def sample_image_pages(1) u(3,5) using sample_image_pages(2) nd u(2) by auto
  have holds: "image_holds ?d test_elf u"
    unfolding image_holds_def
  proof (intro allI impI)
    fix i assume i: "i < length test_elf"
    then have "page_of (?d + of_nat i) = ?d"
      using sample_image_pages(1) test_elf_length by (force simp: image_pages_def)
    moreover have "?d \<noteq> r" using nd u(2) by auto
    ultimately have "mem u (?d + of_nat i) = mem ?i (?d + of_nat i)" using u(6) by auto
    then show "mem u (?d + of_nat i) = test_elf ! i" using pi(1) i by (simp add: image_holds_def)
  qed
  have "59 \<le> card (pmm_avail u)" unfolding u(3) av using t(3) u(2) av by (simp add: card_Diff_singleton)
  moreover have "uart_live u" by (simp add: uart_live_def ui m eq(3)) (auto simp: paging_sample_def paging_boot_defs)
  ultimately show ?thesis using that t(1,2) u(1,4) ap holds by blast
qed

theorem paging_create_user_space_tree_witness:
  "\<exists>t r u. paging_init paging_sample = Some t \<and> paging_create_user_space t = Some (r, u) \<and> user_tree u r \<and> mmu_walk (mem u) r 0x400000 = None"
proof -
  obtain t where t: "paging_init paging_sample = Some t" "kernel_space t" "pmm_avail t = pmm_avail paging_sample"
    using init_kernel_space [OF paging_sample_placed] by blast
  have "60 \<le> card (pmm_avail t)" unfolding t(3) by (rule sample_avail(2)) (simp add: like_sample_def)
  then have "pmm_avail t \<noteq> {}" by auto
  moreover have "\<forall>f\<in>pmm_avail t. unat f < 0x1FF000" using paging_sample_avail unfolding t(3) by fastforce
  ultimately obtain r u where "paging_create_user_space t = Some (r, u)" "user_tree u r" "\<forall>y. unat y < 0x800000000000 \<longrightarrow> mmu_walk (mem u) r y = None"
    using paging_create_user_space_tree [OF t(2)] by blast
  with t(1) show ?thesis by (intro exI [of _ t] exI [of _ r] exI [of _ u]) simp
qed

theorem map_user_page_maps_witness:
  "\<exists>t r u v. paging_init paging_sample = Some t \<and> paging_create_user_space (put_image 0x10C000 test_elf t) = Some (r, u) \<and>
     map_user_page r 0x80000000 0x5000 rw_user_flags u = Some (0, v) \<and> mmu_walk (mem v) r 0x80000FF8 = Some 0x5FF8"
proof -
  obtain t r u where u: "paging_init paging_sample = Some t" "paging_create_user_space (put_image 0x10C000 test_elf t) = Some (r, u)"
    "user_tree u r" "59 \<le> card (pmm_avail u)" by (rule sample_user_space)
  have fl: "page_of rw_user_flags = 0" "present rw_user_flags" by (simp_all add: page_of_or)
  have va: "unat (0x80000000 :: u64) < 0x800000000000" by simp
  have pg: "page_of 0x80000FF8 = (0x80000000 :: u64)" "page_of 0x80000000 = (0x80000000 :: u64)" "page_of 0x5000 = (0x5000 :: u64)"
    by (simp_all add: page_of_def del: and_neg_4096)
  obtain v where "map_user_page r 0x80000000 0x5000 rw_user_flags u = Some (0, v)"
    "\<forall>y. unat y < 0x800000000000 \<longrightarrow> mmu_walk (mem v) r y =
      (if page_of y = page_of 0x80000000 then Some (page_of 0x5000 OR (y AND 0xFFF)) else mmu_walk (mem u) r y)"
    using map_user_page_maps [OF u(3) va fl, of "0x5000"] u(4) by auto
  then show ?thesis using u(1,2) pg by (intro exI [of _ t] exI [of _ r] exI [of _ u] exI [of _ v]) simp
qed

theorem load_segment_loads_witness:
  "\<exists>t r u v. paging_init paging_sample = Some t \<and> paging_create_user_space (put_image 0x10C000 test_elf t) = Some (r, u) \<and>
     load_segment (0x10C000 + HIGHER_HALF_BASE) sizeof_test_elf r (0x10C000 + HIGHER_HALF_BASE + of_nat 64) u = Some (0, v) \<and>
     page_loaded r 0x10C000 sizeof_test_elf test_phdr u v 0x400010"
proof -
  obtain t r u where u: "paging_init paging_sample = Some t" "paging_create_user_space (put_image 0x10C000 test_elf t) = Some (r, u)"
    "user_tree u r" "image_apart r 0x10C000 sizeof_test_elf u" "image_holds 0x10C000 test_elf u" "uart_live u" "59 \<le> card (pmm_avail u)"
    by (rule sample_user_space)
  have off: "64 + 56 \<le> unat sizeof_test_elf" by (simp add: sizeof_test_elf_def)
  note seg = test_elf_loads(7) [OF user_treeD(1) [OF u(3)] sample_image_pages(2) u(5)]
  obtain c v where "load_segment (0x10C000 + HIGHER_HALF_BASE) sizeof_test_elf r (0x10C000 + HIGHER_HALF_BASE + of_nat 64) u = Some (c, v)" "c = 0"
    "\<forall>y. unat y < 0x800000000000 \<longrightarrow> (if 0x400000 \<le> unat y \<and> unat y < 0x401000 then c = 0 \<longrightarrow> page_loaded r 0x10C000 sizeof_test_elf test_phdr u v y
       else mmu_walk (mem v) r y = mmu_walk (mem u) r y)"
    using load_segment_loads [OF u(3,4,6) off seg] u(7) by (auto simp: test_phdr_def)
  then show ?thesis using u(1,2) by (intro exI [of _ t] exI [of _ r] exI [of _ u] exI [of _ v]) simp
qed

theorem elf_load_test_elf_witness:
  "\<exists>t r u v. paging_init paging_sample = Some t \<and> paging_create_user_space (put_image 0x10C000 test_elf t) = Some (r, u) \<and>
     elf_load (0x10C000 + HIGHER_HALF_BASE) sizeof_test_elf r (Some 0) u = Some (0, Some 0x400000, v) \<and>
     (\<exists>a. mmu_walk (mem v) r 0x400000 = Some a \<and> mem v a = 0x90)"
proof -
  obtain t r u where u: "paging_init paging_sample = Some t" "paging_create_user_space (put_image 0x10C000 test_elf t) = Some (r, u)"
    "user_tree u r" "image_apart r 0x10C000 sizeof_test_elf u" "image_holds 0x10C000 test_elf u" "uart_live u" "59 \<le> card (pmm_avail u)"
    by (rule sample_user_space)
  have c: "4 \<le> card (pmm_avail u)" using u(7) by simp
  obtain v where v: "elf_load (0x10C000 + HIGHER_HALF_BASE) sizeof_test_elf r (Some 0) u = Some (0, Some 0x400000, v)"
    "\<forall>j<4096. \<exists>a. mmu_walk (mem v) r (0x400000 + of_nat j) = Some a \<and> mem v a = (if j < 23 then test_elf ! (120 + j) else 0)"
    using elf_load_test_elf [OF u(3-6) c] by blast
  have "test_elf ! 120 = 0x90" by (simp add: test_elf_def)
  then have "\<exists>a. mmu_walk (mem v) r 0x400000 = Some a \<and> mem v a = 0x90" using v(2) [rule_format, of 0] by simp
  then show ?thesis using u(1,2) v(1) by blast
qed

text \<open>An image that starts one byte late.\<close>

theorem elf_load_rejects_witness:
  "\<exists>t r u v. paging_init paging_sample = Some t \<and> paging_create_user_space (put_image 0x10C000 test_elf t) = Some (r, u) \<and>
     elf_load (0x10C001 + HIGHER_HALF_BASE) 142 r (Some 0) u = Some (- 1, Some 0, v) \<and> mem v = mem u"
proof -
  obtain t r u where u: "paging_init paging_sample = Some t" "paging_create_user_space (put_image 0x10C000 test_elf t) = Some (r, u)"
    "user_tree u r" "image_apart r 0x10C000 sizeof_test_elf u" "image_holds 0x10C000 test_elf u" "uart_live u"
    by (rule sample_user_space)
  have b: "kload8 (0x10C001 + HIGHER_HALF_BASE + of_nat i) u = Some (test_elf ! Suc i)" if "i < 20" for i
  proof -
    have e: "0x10C001 + HIGHER_HALF_BASE + of_nat i = 0x10C000 + HIGHER_HALF_BASE + of_nat (Suc i)" by simp
    have "mem u (0x10C000 + of_nat (Suc i)) = test_elf ! Suc i" using u(5) [unfolded image_holds_def, rule_format, of "Suc i"] that test_elf_length by simp
    then show ?thesis unfolding e using image_load [OF user_treeD(1) [OF u(3)] sample_image_pages(2), of "Suc i"] that test_elf_length by simp
  qed
  have "\<not> elf_ident (\<lambda>i. test_elf ! Suc i)" by (simp add: elf_ident_def test_elf_def)
  then obtain v where "elf_load (0x10C001 + HIGHER_HALF_BASE) 142 r (Some 0) u = Some (- 1, Some 0, v)" "io_eq u v"
    using elf_load_rejects [OF u(6) b] by blast
  then show ?thesis using u(1,2) io_eqD(1) by (intro exI [of _ t] exI [of _ r] exI [of _ u] exI [of _ v]) blast
qed

end
