(* ===== verification/Prism_Kernel.thy ===== *)
theory Prism_Kernel
  imports Prism_Image
begin

text \<open>
  The kernel's entry, \<^verbatim>\<open>kernel/kernel.c\<close>: the boot sequence, the set-up of the first user process and the loop that echoes
  keys. The boot information is a parameter, as in \<open>pmm_init\<close>. The result is \<open>None\<close> where the code does not return
  or faults. A turn of the endless loops, the echo loop and those of the
  demonstration threads, is one definition; tasks are created with the link addresses \<open>sym_thread_a\<close> and \<open>sym_thread_b\<close>.
\<close>

section \<open>The stack of the first user process\<close>

text \<open>One level of the tables, as in the loader but without a test of the frame.\<close>

definition stack_level :: "u64 \<Rightarrow> u64 \<Rightarrow> u64 \<Rightarrow> 'a pmm_state_scheme \<Rightarrow> (u64 \<times> 'a pmm_state_scheme) option" where
  "stack_level p i rw s =
     do { e \<leftarrow> table_get p i s;
          s \<leftarrow> (if e AND PAGE_PRESENT = 0 then
                  let (tbl, s) = pmm_alloc_frame s in
                  do { (v, s) \<leftarrow> paging_phys_to_virt tbl s;
                       s \<leftarrow> memset v 0 PMM_FRAME_SIZE s;
                       table_set p i (tbl OR rw) s }
                else Some s);
          e \<leftarrow> table_get p i s;
          paging_phys_to_virt (e AND NOT 0xFFF) s }"

definition map_user_stack :: "u64 \<Rightarrow> u64 \<Rightarrow> u64 \<Rightarrow> 'a pmm_state_scheme \<Rightarrow> 'a pmm_state_scheme option" where
  "map_user_stack user_cr3 user_stack_pa stack_va s =
     (let pi = pt_index 39 stack_va; pdi = pt_index 30 stack_va; pdi2 = pt_index 21 stack_va; pti = pt_index 12 stack_va;
          rw = PAGE_PRESENT OR PAGE_WRITABLE OR PAGE_USER
      in do { (user_pml4, s) \<leftarrow> paging_phys_to_virt (user_cr3 AND NOT 0xFFF) s;
              (pdpt, s) \<leftarrow> stack_level user_pml4 pi rw s;
              (pd, s) \<leftarrow> stack_level pdpt pdi rw s;
              (pt, s) \<leftarrow> stack_level pd pdi2 rw s;
              table_set pt pti ((user_stack_pa AND NOT 0xFFF) OR PAGE_PRESENT OR PAGE_WRITABLE OR PAGE_USER) s })"

definition start_user_task :: "u64 \<Rightarrow> u64 \<Rightarrow> 'a task_state_scheme \<Rightarrow> 'a task_state_scheme option" where
  "start_user_task entry user_cr3 s =
     (let (user_stack_pa, s) = pmm_alloc_frame s in
      if user_stack_pa = 0 then Some s
      else do {
        (v, s) \<leftarrow> paging_phys_to_virt user_stack_pa s;
        s \<leftarrow> memset v 0 PMM_FRAME_SIZE s;
        let stack_va = 0x80000000;
        s \<leftarrow> map_user_stack user_cr3 user_stack_pa stack_va s;
        s \<leftarrow> serial_puts (cstr ''[PRISM] User stack mapped at 0x80000000'' @ [10]) s;
        let user_rsp = stack_va + PMM_FRAME_SIZE;
        (user_task, s) \<leftarrow> task_create_user entry user_rsp 0x200 user_cr3 s;
        case user_task of
          Some t \<Rightarrow>
            do { s \<leftarrow> serial_puts (cstr ''[PRISM] User task created (PID '') s;
                 s \<leftarrow> serial_puthex64 (t_pid (task_at s t)) s;
                 serial_puts (cstr '')'' @ [10]) s }
        | None \<Rightarrow> serial_puts (cstr ''[PRISM] FAILED to create user task'' @ [10]) s })"

definition create_user_process :: "'a task_state_scheme \<Rightarrow> 'a task_state_scheme option" where
  "create_user_process s =
     do { (user_cr3, s) \<leftarrow> paging_create_user_space s;
          if user_cr3 = 0 then serial_puts (cstr ''[PRISM] FAILED to create user PML4'' @ [10]) s
          else do {
            s \<leftarrow> serial_puts (cstr ''[PRISM] User PML4 created at 0x'') s;
            s \<leftarrow> serial_puthex64 user_cr3 s;
            s \<leftarrow> serial_puts [10] s;
            (rc, out, s) \<leftarrow> elf_load (sym_test_elf (syms s)) sizeof_test_elf user_cr3 (Some 0) s;
            if rc \<noteq> 0 then serial_puts (cstr ''[PRISM] ELF load FAILED'' @ [10]) s
            else do {
              entry \<leftarrow> out;
              s \<leftarrow> serial_puts (cstr ''[PRISM] ELF loaded, entry=0x'') s;
              s \<leftarrow> serial_puthex64 entry s;
              s \<leftarrow> serial_puts [10] s;
              start_user_task entry user_cr3 s } } }"

section \<open>The boot sequence\<close>

definition PRISM_VERSION :: cstring where "PRISM_VERSION = cstr ''0.0.1.e1''"

definition banner :: "bool \<Rightarrow> 'a vga_state_scheme \<Rightarrow> 'a vga_state_scheme" where
  "banner ready s =
     fold kprint
       [cstr ''Prism Kernel v'', PRISM_VERSION, 10 # cstr ''=========================='' @ [10],
        cstr ''Long mode: ACTIVE'' @ [10],
        cstr ''GDT:       Initialized (user segments ready)'' @ [10],
        cstr ''IDT:       Initialized'' @ [10],
        cstr ''PIC:       Remapped'' @ [10],
        cstr ''Timer:     PIT @ 100Hz'' @ [10],
        cstr ''PMM:       Initialized'' @ [10],
        cstr ''Paging:    Higher-half active'' @ [10],
        (if ready then cstr ''Heap:      Ready'' else cstr ''Heap:      FAILED'') @ [10],
        cstr ''Keyboard:  PS/2 installed'' @ [10],
        cstr ''Syscall:   MSRs configured'' @ [10],
        cstr ''Tasks:     2 threads + 1 user process'' @ [10],
        10 # cstr ''Scheduler running.'' @ [10]] s"

definition sti :: "'a cpu_state_scheme \<Rightarrow> 'a cpu_state_scheme" where
  "sti s = s\<lparr>regs := (regs s)\<lparr>reg_rflags := reg_rflags (regs s) OR 0x200\<rparr>\<rparr>"

definition prompt :: cstring where "prompt = 10 # cstr ''Prism> ''"

text \<open>Everything up to the loop: first what needs no memory management, then the rest.\<close>

definition boot_cpu :: "'a timer_state_scheme \<Rightarrow> 'a timer_state_scheme option" where
  "boot_cpu s =
     do { let s = serial_init s;
          s \<leftarrow> serial_puts (cstr ''[PRISM] serial OK'' @ [10]) s;
          s \<leftarrow> kinit_gdt s;
          s \<leftarrow> serial_puts (cstr ''[PRISM] GDT ok'' @ [10]) s;
          s \<leftarrow> kinit_idt s;
          s \<leftarrow> serial_puts (cstr ''[PRISM] IDT ok'' @ [10]) s;
          let s = kinit_pic s;
          s \<leftarrow> serial_puts (cstr ''[PRISM] PIC ok'' @ [10]) s;
          let s = kinit_timer s;
          serial_puts (cstr ''[PRISM] Timer ok'' @ [10]) s }"

definition boot_paging :: "'a heap_state_scheme \<Rightarrow> (bool \<times> 'a heap_state_scheme) option" where
  "boot_paging s =
     do { s \<leftarrow> serial_puts (cstr ''[PRISM] PMM ok'' @ [10]) s;
          s \<leftarrow> paging_init s;
          s \<leftarrow> serial_puts (cstr ''[PRISM] Paging ok'' @ [10]) s;
          let s = vga_set_higher_half s;
          let s = khello_init s;
          s \<leftarrow> serial_puts (cstr ''[PRISM] VGA ok'' @ [10]) s;
          (r, s) \<leftarrow> heap_init s;
          let ready = (r = 0);
          s \<leftarrow> serial_puts ((if ready then cstr ''[PRISM] Heap ok'' else cstr ''[PRISM] Heap FAILED'') @ [10]) s;
          Some (ready, s) }"

definition boot_services :: "'a syscall_state_scheme \<Rightarrow> 'a syscall_state_scheme option" where
  "boot_services s =
     do { s \<leftarrow> kinit_log s;
          let s = kinit_keyboard s;
          s \<leftarrow> kinit_task s;
          (_, s) \<leftarrow> task_create (sym_thread_a (syms s)) s;
          (_, s) \<leftarrow> task_create (sym_thread_b (syms s)) s;
          s \<leftarrow> syscall_init s;
          create_user_process s }"

definition boot_finish :: "bool \<Rightarrow> 'a cpu_state_scheme \<Rightarrow> 'a cpu_state_scheme option" where
  "boot_finish ready s =
     do { let s = banner ready s;
          s \<leftarrow> serial_puts (cstr ''[PRISM] Done.'' @ [10]) s;
          Some (kprint prompt (sti s)) }"

text \<open>Everything that follows \<open>pmm_init\<close>.\<close>

definition boot_kernel :: "'a syscall_state_scheme \<Rightarrow> 'a syscall_state_scheme option" where
  "boot_kernel s =
     do { (ready, s) \<leftarrow> boot_paging s;
          s \<leftarrow> boot_services s;
          boot_finish ready s }"

definition kernel_main :: "memory \<Rightarrow> 'a syscall_state_scheme \<Rightarrow> 'a syscall_state_scheme option" where
  "kernel_main mbi s =
     do { s \<leftarrow> boot_cpu s;
          s \<leftarrow> pmm_init mbi s;
          boot_kernel s }"

section \<open>The echo loop\<close>

text \<open>One turn of the loop, up to the halt. \<open>char\<close> is signed.\<close>

definition echo_key :: "u8 \<Rightarrow> 'a vga_state_scheme \<Rightarrow> 'a vga_state_scheme" where
  "echo_key c s =
     (if c = 8 then vga_backspace s
      else if c = 10 then kprint prompt s
      else if 32 \<le> sint c then kprintc c s
      else s)"

definition echo_step :: "'a kbd_state_scheme \<Rightarrow> 'a kbd_state_scheme option" where
  "echo_step s =
     (if keyboard_has_key s
      then let (c, s) = keyboard_getchar s in serial_putc c (echo_key c s)
      else Some s)"

section \<open>The demonstration threads\<close>

text \<open>One turn of the endless loop of a thread: a line in the log, then a delay, whose counter never leaves the range of \<open>int\<close>.\<close>

function spin_loop :: "int \<Rightarrow> 'a machine_scheme \<Rightarrow> 'a machine_scheme" where
  "spin_loop i s = (if i < 5000000 then spin_loop (i + 1) s else s)"
  by pat_completeness auto
termination
  by (relation "measure (\<lambda>(i, s). nat (5000000 - i))") auto

declare spin_loop.simps [simp del]

definition thread_a :: "'a machine_scheme \<Rightarrow> 'a machine_scheme option" where
  "thread_a s = do { s \<leftarrow> klog LOG_INFO (cstr ''Thread A: tick'' @ [10]) s; Some (spin_loop 0 s) }"

definition thread_b :: "'a machine_scheme \<Rightarrow> 'a machine_scheme option" where
  "thread_b s = do { s \<leftarrow> klog LOG_INFO (cstr ''Thread B: tick'' @ [10]) s; Some (spin_loop 0 s) }"

text \<open>Turns of both threads in the order in which they get the processor.\<close>

primrec thread_turns :: "bool list \<Rightarrow> 'a machine_scheme \<Rightarrow> 'a machine_scheme option" where
  "thread_turns [] s = Some s"
| "thread_turns (a # as) s = do { s \<leftarrow> (if a then thread_a s else thread_b s); thread_turns as s }"

lemma spin_loop_same [simp]: "spin_loop i s = s"
  by (induction i s rule: spin_loop.induct) (subst spin_loop.simps, simp)

lemma thread_turns_log:
  assumes "uart_live s"
  shows "\<exists>t. thread_turns as s = Some t \<and> io_eq s t \<and> serial_sent t = serial_sent s @
    concat (map (\<lambda>a. log_prefix LOG_INFO @ cstr (if a then ''Thread A: tick'' else ''Thread B: tick'') @ [13, 10]) as)"
  using assms
proof (induction as arbitrary: s)
  case (Cons a as)
  let ?m = "cstr (if a then ''Thread A: tick'' else ''Thread B: tick'')"
  obtain u where u: "klog LOG_INFO (?m @ [10]) s = Some u" "uart_live u" "io_eq s u"
    "serial_sent u = serial_sent s @ log_prefix LOG_INFO @ crlf (?m @ [10])" using klog_spec [OF Cons.prems] by blast
  have "crlf (?m @ [10]) = ?m @ [13, 10]" by (cases a) (simp_all add: cstr_def)
  moreover have "(if a then thread_a s else thread_b s) = Some u" using u(1) by (cases a) (simp_all add: thread_a_def thread_b_def)
  ultimately show ?case using Cons.IH [OF u(2)] u(3,4) by (auto intro: io_eq_trans)
qed simp

section \<open>The stack page\<close>

lemma user_level_stack_level: "user_level p i rw s = Some (Inr (v, t)) \<Longrightarrow> stack_level p i rw s = Some (v, t)"
  by (auto simp: user_level_def stack_level_def Let_def split: bind_splits if_splits prod.splits)

lemma map_user_page_stack:
  assumes "map_user_page r va f rw_user_flags s = Some (0, t)" "page_aligned r"
  shows "map_user_stack r f va s = Some t"
  using assms unfolding map_user_page_def map_user_stack_def
  by (auto simp: Let_def or.assoc split: bind_splits sum.splits prod.splits dest!: user_level_stack_level)

text \<open>With no frame left and no table for the stack, frame 0 of the machine is cleared and linked as a page table.\<close>

lemma stack_level_no_frame:
  assumes ut: "user_tree s r" and p: "node (mem s) r xs = Some p" "path (xs @ [i])" "child (mem s) p i = None"
    and e: "pmm_avail s = {}" and z: "0 \<notin> ktables s" "p \<noteq> 0"
  shows "stack_level (p + HIGHER_HALF_BASE) i rw_user_flags s =
    Some (HIGHER_HALF_BASE, s\<lparr>mem := store64 (entry_at p i) rw_user_flags (zero_page 0 (mem s))\<rparr>)"
proof -
  note x = path_snoc [OF p(2)]
  have pt: "p \<in> tables s r" using tablesI [OF x(1) p(1)] .
  have pal: "page_aligned p" using tables_aligned [OF ut pt] .
  note km = user_treeD(1) [OF ut] and low = user_treeD(6) [OF ut pt]
  let ?z = "s\<lparr>mem := zero_page 0 (mem s)\<rparr>"
  let ?t = "s\<lparr>mem := store64 (entry_at p i) rw_user_flags (zero_page 0 (mem s))\<rparr>"
  have bk: "backed s HIGHER_HALF_BASE 0" using window_page_backed [OF km, of 0] z(1) by simp
  have ms: "memset HIGHER_HALF_BASE 0 PMM_FRAME_SIZE s = Some ?z" using memset_page [OF bk] by (simp add: PMM_FRAME_SIZE_def)
  have kz: "kernel_mapped ?z" by (rule kernel_mapped_cong [OF km]) (use z(1) in \<open>auto simp: zero_page_def\<close>)
  have st: "table_set (p + HIGHER_HALF_BASE) i rw_user_flags ?z = Some ?t"
    using window_entry(2) [OF kz pal low x(2), of rw_user_flags] by simp
  have "\<not> protected_entry ?z p i" using user_treeD(7) [OF ut pt] by (auto simp: protected_entry_def ktables_def)
  then have kt: "kernel_mapped ?t" using kernel_mapped_store [OF kz pal x(2), of rw_user_flags] by simp
  have ent: "k_entry ?t p i = rw_user_flags" using load64_entry_store [OF pal pal x(2) x(2)] by simp
  have gs: "table_get (p + HIGHER_HALF_BASE) i s = Some (k_entry s p i)" by (rule window_entry(1) [OF km pal low x(2)])
  have gt: "table_get (p + HIGHER_HALF_BASE) i ?t = Some rw_user_flags" using window_entry(1) [OF kt pal low x(2)] unfolding ent .
  have "\<not> present (k_entry s p i)" using p(3) by (auto simp: child_def Let_def split: if_splits)
  moreover have "page_of rw_user_flags = 0" by (simp add: page_of_or)
  ultimately show ?thesis
    unfolding stack_level_def gs
    using low_phys_to_virt [of 0 s] low_phys_to_virt [of 0 ?t] ms st gt pmm.alloc_empty [OF user_treeD(2) [OF ut] e] by simp
qed

text \<open>
  C31. The stack of the first user process: with three frames left and the tables below 2 MiB, \<open>map_user_stack\<close> does what the loader's \<open>map_user_page\<close> does for the
  same page, although it tests no frame: the page translates to the frame, every other user address as before. With no frame left
  and no table for the stack, it takes frame 0 of the machine for a page table and clears it.
\<close>

theorem map_user_stack_maps:
  fixes s :: "'a pmm_state_scheme"
  assumes ut: "user_tree s r" and va: "unat va < 0x800000000000" and fr: "3 \<le> card (pmm_avail s)"
  shows "\<exists>t. map_user_stack r f va s = Some t \<and> map_user_page r va f rw_user_flags s = Some (0, t) \<and> user_tree t r \<and>
    (\<forall>y. unat y < 0x800000000000 \<longrightarrow> mmu_walk (mem t) r y =
      (if page_of y = page_of va then Some (page_of f OR (y AND 0xFFF)) else mmu_walk (mem s) r y))"
proof -
  have rw: "page_of rw_user_flags = 0" "present rw_user_flags" by (simp_all add: page_of_or)
  show ?thesis
  proof (cases rule: map_user_page_cases [OF ut va rw, of f])
    case (1 t)
    then show ?thesis using fr by simp
  next
    case (2 t)
    then show ?thesis using map_user_page_stack [OF 2(1) user_treeD(3) [OF ut]] grownD(1) [OF 2(2)]
      by (intro exI [of _ t]) simp
  qed
qed

section \<open>Keys on the console\<close>

text \<open>
  The console while the boot task runs: keyboard interrupts and turns of the loop in any order. \<open>ks\<close> are the characters that
  the interrupts put into the buffer.
\<close>

definition accepted :: "'a kbd_state_scheme \<Rightarrow> u8 list" where
  "accepted s = take (255 - length (kbd_elems s)) (keys_typed (kbd_lshift s) (kbd_rshift s) (scancodes 1 s))"

inductive console_run :: "'a timer_state_scheme \<Rightarrow> u8 list \<Rightarrow> 'a timer_state_scheme \<Rightarrow> bool" for s where
  start: "console_run s [] s"
| key: "console_run s ks t \<Longrightarrow> isr_frame frame 33 err t \<Longrightarrow> isr_handler_c frame t = Some (e, u) \<Longrightarrow> console_run s (ks @ accepted t) u"
| echo: "console_run s ks t \<Longrightarrow> echo_step t = Some u \<Longrightarrow> console_run s ks u"

definition console_ready :: "'a timer_state_scheme \<Rightarrow> bool" where
  "console_ready s \<longleftrightarrow> kbd_inv s \<and> uart_live s \<and> length (irq_handlers s) = 16 \<and> irq_handlers s ! 1 = Some Keyboard_irq_handler"

lemma key_interrupt_runs:
  fixes t :: "'a timer_state_scheme"
  assumes "console_ready t" "isr_frame frame 33 err t"
  shows "isr_handler_c frame t = Some (Isr_returns, pic_send_eoi 1 (keyboard_irq_handler t))"
  using assms by (simp add: console_ready_def isr_frame_def isr_handler_c_def Let_def word_le_nat_alt call_irq_handler_def)

lemma key_interrupt:
  fixes t :: "'a timer_state_scheme"
  assumes rd: "console_ready t" and fr: "isr_frame frame 33 err t" and run: "isr_handler_c frame t = Some (e, u)"
  shows "console_ready u" "kbd_elems u = kbd_elems t @ accepted t" "serial_sent u = serial_sent t" "e = Isr_returns"
proof -
  have t: "kbd_inv t" "uart_live t" "length (irq_handlers t) = 16" "irq_handlers t ! 1 = Some Keyboard_irq_handler"
    using rd by (simp_all add: console_ready_def)
  have u: "u = pic_send_eoi 1 (keyboard_irq_handler t)" "e = Isr_returns" using run key_interrupt_runs [OF rd fr] by simp_all
  show "e = Isr_returns" by (rule u(2))
  let ?k = "keyboard_irq_handler t"
  have b: "length (kbd_elems ?k) \<le> 255" by (rule kbd.elems_bound [OF keyboard_irq_handler_step(1) [OF t(1)]])
  have "kbd_elems ?k = take 255 (kbd_elems t @ keys_typed (kbd_lshift t) (kbd_rshift t) (scancodes 1 t))"
    using keyboard_irq_handler_step(2) [OF t(1), of "[]"] b by (simp add: scancodes_def)
  then have el: "kbd_elems ?k = kbd_elems t @ accepted t" using kbd.elems_bound [OF t(1)] by (simp add: accepted_def)
  have same: "io_log ?k = io_log t" "io_in ?k = io_in t" "irq_handlers ?k = irq_handlers t"
    by (simp_all add: keyboard_irq_handler_def kbd_inb Let_def kbd_buffer_push_def)
  have eoi: "u = ?k\<lparr>io_log := io_log ?k @ [(PIC_MASTER_CMD, 0x20)]\<rparr>" by (simp add: u pic_send_eoi_def outb_def word_le_nat_alt Let_def)
  show "kbd_elems u = kbd_elems t @ accepted t" using el by (simp add: eoi kbd_elems_def)
  show "serial_sent u = serial_sent t" by (simp add: eoi serial_sent_def same PIC_MASTER_CMD_def SERIAL_COM1_def)
  show "console_ready u"
    using keyboard_irq_handler_step(1) [OF t(1)] t by (simp add: console_ready_def eoi same kbd_inv_def uart_live_def)
qed

lemma echo_key_vga_eq: "vga_eq s (echo_key c s)"
proof -
  have "vga_eq s (vga_backspace s)"
    unfolding vga_backspace_def cursor_back_def
    by (auto intro!: vga_eq_cursor_x vga_eq_cursor_y intro: vga_eq_trans [OF _ kprintc_vga_eq])
  then show ?thesis by (simp add: echo_key_def kprint_vga_eq kprintc_vga_eq)
qed

lemma echo_step_spec:
  fixes s :: "'a timer_state_scheme"
  assumes rd: "console_ready s"
  shows "\<exists>t. echo_step s = Some t \<and> console_ready t \<and> kbd_elems t = tl (kbd_elems s) \<and>
    serial_sent t = serial_sent s @ take 1 (kbd_elems s)"
proof (cases "kbd_elems s")
  case Nil
  then have "kbd_head s = kbd_tail s" by (simp add: kbd_elems_def unat_eq_zero)
  then show ?thesis using rd Nil by (simp add: echo_step_def keyboard_has_key_def)
next
  case (Cons c cs)
  obtain u where g: "keyboard_has_key s" "keyboard_getchar s = (c, u)" "kbd_elems u = cs"
    using kbd_take_elems [OF Cons] by (cases "keyboard_getchar s") (auto simp: kbd_take_def split: if_splits)
  have u: "u = s\<lparr>kbd_tail := kbd_tail u\<rparr>" using g(2) by (auto simp: keyboard_getchar_def split: if_splits)
  obtain k where k: "u = s\<lparr>kbd_tail := k\<rparr>" using u by blast
  have ur: "console_ready u" "serial_sent u = serial_sent s" using rd by (simp_all add: k console_ready_def kbd_inv_def uart_live_def serial_sent_def)
  obtain cl x y where v: "echo_key c u = u\<lparr>vga_cells := cl, vga_cursor_x := x, vga_cursor_y := y\<rparr>"
    using echo_key_vga_eq [of u c] by (rule vga_eqE)
  have vr: "console_ready (echo_key c u)" "serial_sent (echo_key c u) = serial_sent u" "kbd_elems (echo_key c u) = cs"
    using ur(1) g(3) by (simp_all add: v console_ready_def kbd_inv_def uart_live_def serial_sent_def kbd_elems_def)
  then have live: "uart_live (echo_key c u)" by (simp add: console_ready_def)
  obtain t where t: "serial_putc c (echo_key c u) = Some t" using serial.put_total [OF live] by blast
  obtain l n where io: "t = (echo_key c u)\<lparr>io_log := l, io_reads := n\<rparr>" using serial_putc_io_eq [OF t] by (rule io_eqE)
  have "serial_sent t = serial_sent s @ [c]" using serial.put_contents [OF live t] vr(2) ur(2) by simp
  moreover have "console_ready t" "kbd_elems t = cs" using vr(1,3) by (simp_all add: io console_ready_def kbd_inv_def uart_live_def kbd_elems_def)
  ultimately show ?thesis using g(1,2) t Cons by (simp add: echo_step_def)
qed

text \<open>
  C7. The console loses, repeats and reorders nothing: however keyboard interrupts and turns of the echo loop interleave, what has gone out on the serial line
  followed by what is still in the buffer is what was there at the start followed by the characters that the
  interrupts accepted. A turn of the loop always returns on a live line, and sends the oldest character if there is one.
\<close>

theorem console_echoes:
  fixes s :: "'a timer_state_scheme"
  assumes run: "console_run s ks t" and rd: "console_ready s"
  shows "console_ready t \<and> serial_sent t @ kbd_elems t = serial_sent s @ kbd_elems s @ ks \<and>
    (\<exists>u. echo_step t = Some u \<and> serial_sent u = serial_sent t @ take 1 (kbd_elems t))"
proof -
  have "console_ready t \<and> serial_sent t @ kbd_elems t = serial_sent s @ kbd_elems s @ ks"
    using run
  proof induction
    case start
    then show ?case using rd by simp
  next
    case (key ks t frame err e u)
    then show ?case using key_interrupt [of t frame err e u] by (simp flip: append_assoc)
  next
    case (echo ks t u)
    then have "console_ready t" by blast
    from echo_step_spec [OF this] echo.hyps(2) have u: "console_ready u" "kbd_elems u = tl (kbd_elems t)"
      "serial_sent u = serial_sent t @ take 1 (kbd_elems t)" by auto
    then have "serial_sent u @ kbd_elems u = serial_sent t @ kbd_elems t" by (cases "kbd_elems t") simp_all
    then show ?case using echo.IH u(1) by simp
  qed
  with echo_step_spec [of t] show ?thesis by blast
qed

section \<open>The properties on the sample machine\<close>

theorem map_user_stack_maps_witness:
  "\<exists>t r u v. paging_init paging_sample = Some t \<and> paging_create_user_space (put_image 0x10C000 test_elf t) = Some (r, u) \<and>
     map_user_stack r 0x6000 0x80000000 u = Some v \<and> mmu_walk (mem v) r 0x80000FF8 = Some 0x6FF8"
proof -
  obtain t r u where u: "paging_init paging_sample = Some t" "paging_create_user_space (put_image 0x10C000 test_elf t) = Some (r, u)"
    "user_tree u r" "59 \<le> card (pmm_avail u)" by (rule sample_user_space)
  have va: "unat (0x80000000 :: u64) < 0x800000000000" "3 \<le> card (pmm_avail u)" using u(4) by simp_all
  have pg: "page_of 0x80000FF8 = (0x80000000 :: u64)" "page_of 0x80000000 = (0x80000000 :: u64)" "page_of 0x6000 = (0x6000 :: u64)"
    by (simp_all add: page_of_def del: and_neg_4096)
  obtain v where "map_user_stack r 0x6000 0x80000000 u = Some v"
    "\<forall>y. unat y < 0x800000000000 \<longrightarrow> mmu_walk (mem v) r y =
      (if page_of y = page_of 0x80000000 then Some (page_of 0x6000 OR (y AND 0xFFF)) else mmu_walk (mem u) r y)"
    using map_user_stack_maps [OF u(3) va, of "0x6000"] by blast
  then show ?thesis using u(1,2) pg by (intro exI [of _ t] exI [of _ r] exI [of _ u] exI [of _ v]) simp
qed

text \<open>A machine with an interrupt frame in memory, whose keyboard presents the scan code of the letter d.\<close>

definition console_sample :: timer_state where
  "console_sample = timer_sample\<lparr>mem := store64 (entry_at 0x10B000 13) 33 (store64 (entry_at 0x10B000 14) 0 boot_tables),
     irq_handlers := [None, Some Keyboard_irq_handler] @ replicate 14 None\<rparr>"

lemma console_sample_ready: "console_ready console_sample" "kbd_elems console_sample = []" "accepted console_sample = [100]"
proof -
  note defs = console_sample_def timer_sample_def timer_state.defs task_sample_def heap_state.defs task_state.defs heap_sample_def paging_sample_def paging_boot_defs
  show el: "kbd_elems console_sample = []" by (simp add: kbd_elems_def defs)
  show "console_ready console_sample"
    using timer_sample_like(2) by (simp add: console_ready_def kbd_inv_def uart_live_def console_sample_def) (simp add: defs)
  have "scancodes 1 console_sample = [0x20]" "kbd_lshift console_sample = False" "kbd_rshift console_sample = False"
    by (simp_all add: scancodes_def defs)
  moreover have "scancode_char False 0x20 = 100" by code_simp
  ultimately show "accepted console_sample = [100]" by (simp add: accepted_def el word_le_nat_alt)
qed

lemma console_sample_frame: "isr_frame (0x10B000 + HIGHER_HALF_BASE) 33 0 console_sample"
proof -
  let ?m = "store64 (entry_at 0x10B000 13) 33 (store64 (entry_at 0x10B000 14) 0 boot_tables)"
  have al: "page_aligned 0x10B000" by (simp add: page_of_def del: and_neg_4096)
  have st: "mem console_sample = ?m" "cr3 console_sample = 0x101000"
    using timer_sample_like(1) by (simp_all add: console_sample_def like_sample_def paging_sample_def)
  have i: "(13 :: u64) < 512" "(14 :: u64) < 512" by simp_all
  have out: "?m a = boot_tables a" if "page_of a \<noteq> 0x10B000" for a using store_outside [OF al _ that] by simp
  have tr: "translate console_sample (x + HIGHER_HALF_BASE) = Some x" if "unat x < 0x200000" for x
    unfolding st boot_walk(1) [OF that, symmetric] by (rule mmu_walk_cong) (rule out, use boot_walk(2) [OF that] in auto)
  have ld: "load64 ?m (entry_at 0x10B000 13) = 33" "load64 ?m (entry_at 0x10B000 14) = 0"
    using load64_entry_store [OF al al] i by simp_all
  have "0x10B000 + HIGHER_HALF_BASE + 104 = 0x10B068 + HIGHER_HALF_BASE" "0x10B000 + HIGHER_HALF_BASE + 112 = 0x10B070 + HIGHER_HALF_BASE"
    by simp_all
  moreover have "entry_at 0x10B000 13 = 0x10B068" "entry_at 0x10B000 14 = 0x10B070" by (simp_all add: entry_at_def)
  ultimately show ?thesis using tr [of "0x10B068"] tr [of "0x10B070"] ld by (simp add: isr_frame_def kload64_def st)
qed

theorem console_echoes_witness:
  "\<exists>u v. isr_handler_c (0x10B000 + HIGHER_HALF_BASE) console_sample = Some (Isr_returns, u) \<and> echo_step u = Some v \<and>
     serial_sent v @ kbd_elems v = serial_sent console_sample @ cstr ''d''"
proof -
  obtain u where u: "isr_handler_c (0x10B000 + HIGHER_HALF_BASE) console_sample = Some (Isr_returns, u)"
    using key_interrupt_runs [OF console_sample_ready(1) console_sample_frame] by blast
  have r1: "console_run console_sample [100] u"
    using console_run.key [OF console_run.start console_sample_frame u] console_sample_ready(3) by simp
  obtain v where v: "echo_step u = Some v" using console_echoes [OF r1 console_sample_ready(1)] by blast
  from console_echoes [OF console_run.echo [OF r1 v] console_sample_ready(1)] u v console_sample_ready(2)
  show ?thesis by (auto simp: cstr_def of_char_def)
qed

end
