(* ===== verification/Prism_Process.thy ===== *)
theory Prism_Process
  imports Prism_Kernel
begin

text \<open>
  The first user process (\<open>create_user_process\<close>, from \<^verbatim>\<open>kernel/kernel.c\<close>) as a whole: frame allocator, paging, loader, heap and scheduler
  work on one memory, and none disturbs what the others have built there.
\<close>

section \<open>Frames taken from the allocator\<close>

text \<open>Some free frames were taken and written to; nothing else happened but output.\<close>

definition borrows :: "'a heap_state_scheme \<Rightarrow> 'a heap_state_scheme \<Rightarrow> bool" where
  "borrows s t \<longleftrightarrow> (\<exists>m b n l k. t = s\<lparr>mem := m, bitmap := b, used_frames := n, io_log := l, io_reads := k\<rparr>) \<and>
     pmm_ready t \<and> pmm_avail t \<subseteq> pmm_avail s \<and> (\<forall>a. page_of a \<notin> pmm_avail s \<longrightarrow> mem t a = mem s a)"

lemma borrowsD:
  assumes "borrows s t"
  shows "pmm_ready t" "pmm_avail t \<subseteq> pmm_avail s" "page_of a \<notin> pmm_avail s \<Longrightarrow> mem t a = mem s a"
  using assms by (simp_all add: borrows_def)

lemma borrowsE:
  assumes "borrows s t"
  obtains m b n l k where "t = s\<lparr>mem := m, bitmap := b, used_frames := n, io_log := l, io_reads := k\<rparr>"
  using assms unfolding borrows_def by blast

lemma borrows_live: "borrows s t \<Longrightarrow> uart_live t = uart_live s"
  by (erule borrowsE) (simp add: uart_live_def)

lemma borrows_io:
  assumes "borrows s t" "io_eq t u"
  shows "borrows s u"
proof -
  obtain m b n l k where t: "t = s\<lparr>mem := m, bitmap := b, used_frames := n, io_log := l, io_reads := k\<rparr>" by (rule borrowsE [OF assms(1)])
  obtain l' k' where u: "u = t\<lparr>io_log := l', io_reads := k'\<rparr>" using assms(2) by (auto elim: io_eqE)
  have "\<exists>m b n l k. u = s\<lparr>mem := m, bitmap := b, used_frames := n, io_log := l, io_reads := k\<rparr>" by (simp add: u t) blast
  moreover have "pmm_ready u = pmm_ready t" "pmm_avail u = pmm_avail t" "mem u = mem t"
    by (simp_all add: u pmm_ready_def pmm_inv_def frames_used_def frames_marked_def bitmap_test_def pmm_avail_def frames_free_def)
  ultimately show ?thesis using borrowsD [OF assms(1)] by (simp add: borrows_def)
qed

lemma borrows_grown:
  assumes b: "borrows s t" "tables t r \<subseteq> pmm_avail s" and g: "grown r t u"
  shows "borrows s u" "tables u r \<subseteq> pmm_avail s"
proof -
  note g' = grownD [OF g] and b' = borrowsD [OF b(1)]
  obtain m c n where u: "u = t\<lparr>mem := m, bitmap := c, used_frames := n\<rparr>" by (rule grownE [OF g])
  obtain m' c' n' l k where t: "t = s\<lparr>mem := m', bitmap := c', used_frames := n', io_log := l, io_reads := k\<rparr>" by (rule borrowsE [OF b(1)])
  have "\<exists>m b n l k. u = s\<lparr>mem := m, bitmap := b, used_frames := n, io_log := l, io_reads := k\<rparr>"
    by (intro exI [of _ m] exI [of _ c] exI [of _ n] exI [of _ l] exI [of _ k]) (simp add: u t)
  moreover have "mem u a = mem s a" if "page_of a \<notin> pmm_avail s" for a
    using g'(6) [of a] b'(2) b'(3) [of a] b(2) that by auto
  ultimately show "borrows s u" using user_treeD(2) [OF g'(1)] g'(2) b'(2) by (auto simp: borrows_def)
  show "tables u r \<subseteq> pmm_avail s" using g'(4) b(2) b'(2) by blast
qed

lemma borrows_grown_io:
  assumes b: "borrows s t" "tables t r \<subseteq> pmm_avail s" and g: "grown_io r t u"
  shows "borrows s u" "tables u r \<subseteq> pmm_avail s"
proof -
  obtain v w where v: "io_eq t v" "grown r v w" "io_eq w u" using g by (auto simp: grown_io_def)
  note bv = borrows_io [OF b(1) v(1)]
  have "tables v r \<subseteq> pmm_avail s" using b(2) io_eq_same(4) [OF v(1)] by simp
  note bw = borrows_grown [OF bv this v(2)]
  show "borrows s u" by (rule borrows_io [OF bw(1) v(3)])
  show "tables u r \<subseteq> pmm_avail s" using bw(2) io_eq_same(4) [OF v(3)] by simp
qed

text \<open>The kernel does not notice: its tables and the heap are elsewhere.\<close>

lemma borrows_kernel:
  fixes s t :: "'a heap_state_scheme"
  assumes ks: "kernel_space s" and b: "borrows s t"
  shows "kernel_space t" "pd_used t i = pd_used s i" "pd_used s i \<Longrightarrow> pd_table t i = pd_table s i"
    "heap_region y \<Longrightarrow> translate t (y + HIGHER_HALF_BASE) = translate s (y + HIGHER_HALF_BASE)"
    "data_frame s g \<Longrightarrow> data_frame t g"
proof -
  note k = kernel_spaceD [OF ks] and km = kernel_mappedD [OF kernel_spaceD(1) [OF ks]] and b' = borrowsD [OF b]
  obtain m c n l j where t: "t = s\<lparr>mem := m, bitmap := c, used_frames := n, io_log := l, io_reads := j\<rparr>" by (rule borrowsE [OF b])
  have same: "cr3 t = cr3 s" "syms t = syms s" "new_pml4 t = new_pml4 s" "mem t = m" by (simp_all add: t)
  have kt: "ktables t = ktables s" by (simp add: ktables_def same)
  have ent: "load64 m (entry_at q j) = k_entry s q j" if "page_aligned q" "q \<notin> pmm_avail s" "j < 512" for q j
    by (rule load64_entry_cong) (use that b'(3) same in auto)
  have pd: "load64 m (entry_at (k_pd s) j) = k_entry s (k_pd s) j" if "j < 512" for j
    using k(5) that by (intro ent km(2)) (auto simp: ktables_def)
  have "kernel_mapped (s\<lparr>mem := m\<rparr>)"
    by (rule kernel_mapped_cong [OF k(1)]) (use k(5) b'(3) same in auto)
  then have "kernel_mapped t" using kernel_mapped_same(1) [of t "s\<lparr>mem := m\<rparr>"] by (simp add: same)
  then show ks': "kernel_space t"
    by (rule kernel_space_cong [OF ks]) (use pd same b'(1,2) in simp_all)
  show used: "pd_used t i = pd_used s i" for i using pd [of i] by (auto simp: pd_used_def same)
  show tab: "pd_table t i = pd_table s i" if "pd_used s i" for i using pd [of i] that by (simp add: pd_used_def same)
  show "data_frame s g \<Longrightarrow> data_frame t g" using used tab b'(2) kt by (auto simp: data_frame_def)
  assume y: "heap_region y"
  let ?i = "pt_index 21 (y + HIGHER_HALF_BASE)" and ?j = "pt_index 12 (y + HIGHER_HALF_BASE)"
  have "load64 m (entry_at (pd_table s ?i) ?j) = k_entry s (pd_table s ?i) ?j" if "pd_used s ?i"
    using k(10) [OF that] by (intro ent) auto
  then show "translate t (y + HIGHER_HALF_BASE) = translate s (y + HIGHER_HALF_BASE)"
    using pd [of ?i] tab [of ?i] unfolding region_walk [OF ks y] region_walk [OF ks' y] used by (auto simp: Let_def same)
qed

lemma borrows_heap:
  fixes s t :: "'a heap_state_scheme"
  assumes hm: "heap_mapped s" and b: "borrows s t"
  shows "heap_mapped t" "hview t = hview s" "spares s t" "f \<in> pmm_avail s - pmm_avail t \<Longrightarrow> foreign t f"
proof -
  note h = heap_mappedD [OF hm] and b' = borrowsD [OF b] and k = borrows_kernel [OF heap_mappedD(1) [OF hm] b]
  obtain m c n l j where t: "t = s\<lparr>mem := m, bitmap := c, used_frames := n, io_log := l, io_reads := j\<rparr>" by (rule borrowsE [OF b])
  have ad: "heap_addr t = heap_addr s" by (simp add: t heap_addr_def fun_eq_iff)
  have wd: "heap_words t = heap_words s" by (simp add: heap_words_def ad)
  have tr: "translate t a = translate s a" if "heap_addr s a" for a
    using k(4) [OF heap_addr_region [OF hm that]] by simp
  have out: "mem t a = mem s a" if "data_frame s (page_of a)" for a using b'(3) [of a] that by (simp add: data_frame_def)
  show "heap_mapped t"
    unfolding heap_mapped_def ad
  proof (intro conjI allI impI)
    show "kernel_space t" by (rule k(1))
    show "\<exists>f. translate t a = Some (f OR (a AND 0xFFF)) \<and> data_frame t f" if "heap_addr s a" for a
      using h(6) [OF that] tr [OF that] k(5) by auto
    show "page_of (the (translate t a)) \<noteq> page_of (the (translate t b'))"
      if "heap_addr s a \<and> heap_addr s b' \<and> page_of a \<noteq> page_of b'" for a b'
      using h(7) [of a b'] tr [of a] tr [of b'] that by simp
  qed (use h in \<open>simp_all add: t\<close>)
  have ld: "kload64 a t = kload64 a s" if a: "a \<in> heap_words s" for a
  proof -
    obtain f where f: "translate s a = Some (slot f (word_slot a))" "data_frame s f" "page_aligned f" by (rule heap_word_place [OF hm a])
    have "load64 (mem t) (slot f (word_slot a)) = load64 (mem s) (slot f (word_slot a))"
      using out f(2) by (intro load64_page_cong [OF f(3)]) simp
    moreover have "translate t a = translate s a" using tr a by (simp add: heap_words_def)
    ultimately show ?thesis using f(1) by (simp add: kload64_def)
  qed
  show "hview t = hview s" using ld by (auto simp: kheap.view_def wd fun_eq_iff)
  have fr: "foreign t g" if "foreign s g" for g
    using that k(5) tr unfolding foreign_def ad by auto
  show "spares s t" unfolding spares_def using fr out by (auto simp: foreign_def)
  assume f: "f \<in> pmm_avail s - pmm_avail t"
  note ksp = kernel_spaceD [OF h(1)]
  have kt: "ktables t = ktables s" by (simp add: ktables_def t)
  have "data_frame t f"
    using f avail_aligned [OF ksp(4), of f] ksp(5,10) k(2,3) kt by (auto simp: data_frame_def)
  moreover have "page_of (the (translate t a)) \<noteq> f" if a: "heap_addr s a" for a
  proof -
    obtain g where g: "translate s a = Some (g OR (a AND 0xFFF))" "data_frame s g" using h(6) [OF a] by blast
    then have "page_of (the (translate t a)) = g" using tr [OF a] by (simp add: data_frame_def)
    then show ?thesis using g(2) f by (auto simp: data_frame_def)
  qed
  ultimately show "foreign t f" by (simp add: foreign_def ad)
qed

lemma borrows_ok:
  assumes "heap_ok s A" "borrows s t"
  shows "heap_ok t A" "fits t n = fits s n" "hview t = hview s" "spares s t" "f \<in> pmm_avail s - pmm_avail t \<Longrightarrow> foreign t f"
proof -
  have hm: "heap_mapped s" using assms(1) by (simp add: heap_ok_def)
  note h = borrows_heap [OF hm assms(2)]
  obtain m c k l j where t: "t = s\<lparr>mem := m, bitmap := c, used_frames := k, io_log := l, io_reads := j\<rparr>" by (rule borrowsE [OF assms(2)])
  show "hview t = hview s" "spares s t" "f \<in> pmm_avail s - pmm_avail t \<Longrightarrow> foreign t f" using h by simp_all
  show "heap_ok t A" using assms(1) h(1,2) by (simp add: heap_ok_def t)
  show "fits t n = fits s n" using h(2) by (simp add: fits_def t)
qed

section \<open>The address space of the process\<close>

text \<open>Whoever leaves the tables of a user address space alone leaves its translation alone.\<close>

lemma user_walk_kept:
  assumes ut: "user_tree s r" and va: "unat va < 0x800000000000" and m: "\<And>a. page_of a \<in> tables s r \<Longrightarrow> m a = mem s a"
  shows "mmu_walk m r va = mmu_walk (mem s) r va"
proof -
  let ?i4 = "pt_index 39 va" and ?i3 = "pt_index 30 va" and ?i2 = "pt_index 21 va"
  have i: "path []" "path [?i4]" "path [?i4, ?i3]" "path [?i4, ?i3, ?i2]"
    using user_index [OF va] by (simp_all add: path_def)
  have ld: "load64 m (slot p i) = load64 (mem s) (slot p i)" if "p \<in> tables s r" "i < 512" for p i
    using load64_entry_cong [OF _ tables_aligned [OF ut that(1)] that(2), of m "mem s"] m that(1) by (simp add: entry_at_def)
  define e4 where "e4 = load64 (mem s) (slot r ?i4)"
  define e3 where "e3 = load64 (mem s) (slot (page_of e4) ?i3)"
  define e2 where "e2 = load64 (mem s) (slot (page_of e3) ?i2)"
  have t0: "r \<in> tables s r" by (rule tablesI [OF i(1)]) simp
  have t4: "page_of e4 \<in> tables s r" if "present e4"
    by (rule tablesI [OF i(2)]) (use that in \<open>simp add: node_def child_def entry_at_def e4_def [symmetric]\<close>)
  have t3: "page_of e3 \<in> tables s r" if "present e4" "present e3"
    by (rule tablesI [OF i(3)]) (use that in \<open>simp add: node_def child_def entry_at_def e4_def [symmetric] e3_def [symmetric]\<close>)
  have t2: "page_of e2 \<in> tables s r" if "present e4" "present e3" "present e2"
    by (rule tablesI [OF i(4)])
      (use that in \<open>simp add: node_def child_def entry_at_def e4_def [symmetric] e3_def [symmetric] e2_def [symmetric]\<close>)
  have l4: "load64 m (slot r ?i4) = e4" using ld [OF t0] by (simp add: e4_def)
  have l3: "load64 m (slot (page_of e4) ?i3) = e3" if "present e4" using ld [OF t4 [OF that]] by (simp add: e3_def)
  have l2: "load64 m (slot (page_of e3) ?i2) = e2" if "present e4" "present e3" using ld [OF t3 [OF that]] by (simp add: e2_def)
  show ?thesis
    unfolding mmu_walk_def user_treeD(3) [OF ut] l4 e4_def [symmetric] e3_def [symmetric] Let_def
    using l3 l2 ld [OF t2] by (auto simp: e2_def)
qed

text \<open>The stack of the process: a cleared frame, mapped at \<open>va\<close>.\<close>

lemma stack_prepared:
  fixes s :: "'a pmm_state_scheme"
  assumes ut: "user_tree s r" and va: "unat va < 0x800000000000" and fr: "4 \<le> card (pmm_avail s)"
  obtains f u v t where "pmm_alloc_frame s = (f, u)" "f \<noteq> 0" "paging_phys_to_virt f u = Some (f + HIGHER_HALF_BASE, u)"
    "memset (f + HIGHER_HALF_BASE) 0 PMM_FRAME_SIZE u = Some v" "map_user_stack r f va v = Some t" "grown r s t"
    "f \<in> pmm_avail s - pmm_avail t - tables t r" "\<And>a. page_of a = f \<Longrightarrow> mem t a = 0" "page_aligned f"
    "\<And>y. unat y < 0x800000000000 \<Longrightarrow> mmu_walk (mem t) r y =
      (if page_of y = page_of va then Some (f OR (y AND 0xFFF)) else mmu_walk (mem s) r y)"
    "card (pmm_avail s) \<le> card (pmm_avail t) + 4"
proof -
  obtain f u where fu: "pmm_alloc_frame s = (f, u)" by fastforce
  have ne: "pmm_avail s \<noteq> {}" using fr by auto
  have f: "f \<noteq> 0" "f \<in> pmm_avail s" "pmm_avail u = pmm_avail s - {f}" "pmm_ready u"
    using pmm.alloc_cases [OF user_treeD(2) [OF ut] fu] ne by auto
  obtain b n where u: "u = s\<lparr>bitmap := b, used_frames := n\<rparr>"
    using pmm_alloc_frame_eq [of s] unfolding fu snd_conv by (rule bitmap_eqE)
  have fal: "page_aligned f" by (rule avail_aligned [OF user_treeD(2) [OF ut] f(2)])
  note low = user_treeD(4,5) [OF ut f(2)]
  have ku: "kernel_mapped u" "ktables u = ktables s" "mem u = mem s" using kernel_mapped_same [of u s] user_treeD(1) [OF ut] by (simp_all add: u)
  have bk: "backed u (f + HIGHER_HALF_BASE) f" using window_page_backed [OF ku(1) fal low(1)] low(2) ku(2) by simp
  let ?v = "u\<lparr>mem := zero_page f (mem s)\<rparr>"
  have ms: "memset (f + HIGHER_HALF_BASE) 0 PMM_FRAME_SIZE u = Some ?v" using memset_page [OF bk] by (simp add: PMM_FRAME_SIZE_def ku(3))
  have g: "grown r s ?v" "walks_same r s ?v" "tables ?v r = tables s r" "pmm_avail ?v = pmm_avail s - {f}"
    by (rule fill_grows [OF ut f(2) u f(3,4)], simp add: zero_page_def)+
  have cf: "card (pmm_avail s) = Suc (card (pmm_avail ?v))" using card_Suc_Diff1 [OF pmm.finite_avail f(2)] f(3) by simp
  have fv: "f \<notin> pmm_avail ?v" "f \<notin> tables ?v r" using g(3,4) f(2) user_treeD(8) [OF ut, of f] by auto
  have rw: "page_of rw_user_flags = 0" "present rw_user_flags" by (simp_all add: page_of_or)
  show ?thesis
  proof (cases rule: map_user_page_cases [OF grownD(1) [OF g(1)] va rw, of f])
    case (1 t)
    then show ?thesis using cf fr by simp
  next
    case (2 t)
    have walk: "mmu_walk (mem t) r y = (if page_of y = page_of va then Some (f OR (y AND 0xFFF)) else mmu_walk (mem s) r y)"
      if "unat y < 0x800000000000" for y
      using 2(4) [OF that] fal g(2) user_index [OF that] by (simp add: walks_same_def)
    have zero: "mem t a = 0" if "page_of a = f" for a
      using grownD(6) [OF 2(2), of a] fv that by (simp add: zero_page_def)
    have "f \<in> pmm_avail s - pmm_avail t - tables t r" using f(2) fv grownD(2,4) [OF 2(2)] by auto
    then show ?thesis
      using that [OF fu f(1) low_phys_to_virt [OF low(1)] ms map_user_page_stack [OF 2(1) user_treeD(3) [OF ut]]
        grown_trans [OF g(1) 2(2)] _ zero fal walk] cf 2(3) by simp
  qed
qed

section \<open>The process as a whole\<close>

lemma say_value:
  assumes "uart_live s"
  obtains t1 t2 t where "serial_puts a s = Some t1" "serial_puthex64 v t1 = Some t2" "serial_puts b t2 = Some t" "io_eq s t" "uart_live t"
proof -
  obtain t1 where t1: "serial_puts a s = Some t1" "io_eq s t1" "uart_live t1" by (rule say_field [OF assms])
  obtain t2 where t2: "serial_puthex64 v t1 = Some t2" "io_eq t1 t2" "uart_live t2" by (rule say_hex [OF t1(3)])
  obtain t where t: "serial_puts b t2 = Some t" "io_eq t2 t" "uart_live t" by (rule say_field [OF t2(3)])
  show thesis using that [OF t1(1) t2(1) t(1) io_eq_trans [OF t1(2) io_eq_trans [OF t2(2) t(2)]] t(3)] .
qed

text \<open>A task that is created after frames were taken.\<close>

lemma created_borrows:
  fixes s u :: "'a task_state_scheme"
  assumes ok: "heap_ok s A" and b: "borrows s u" and c: "created u A x e k p t"
  shows "created s A x e k p t"
proof -
  obtain m c' n l j where u: "u = s\<lparr>mem := m, bitmap := c', used_frames := n, io_log := l, io_reads := j\<rparr>" by (rule borrowsE [OF b])
  note o = borrows_ok [OF ok b]
  have re: "ready_elems u = ready_elems s" by (rule sched_inv_cong(2)) (simp_all add: u)
  have "enlisted s x k t" using c re by (simp add: created_def enlisted_def u)
  moreover have "spares s t" using spares_trans [OF o(4)] c by (auto simp: created_def)
  moreover have "dev_same s t" using c by (simp add: created_def dev_same_def u)
  ultimately show ?thesis using c o(3) by (auto simp: created_def u)
qed

text \<open>The program at 0x400000 and a cleared stack at 0x80000000, both in the frames \<open>F\<close>.\<close>

definition program_mapped :: "u64 \<Rightarrow> u64 set \<Rightarrow> memory \<Rightarrow> bool" where
  "program_mapped r F m \<longleftrightarrow> (\<forall>j<4096. \<exists>a. mmu_walk m r (0x400000 + of_nat j) = Some a \<and> page_of a \<in> F \<and>
     m a = (if j < 23 then test_elf ! (120 + j) else 0))"

definition stack_mapped :: "u64 \<Rightarrow> u64 set \<Rightarrow> memory \<Rightarrow> bool" where
  "stack_mapped r F m \<longleftrightarrow> (\<forall>j<4096. \<exists>a. mmu_walk m r (0x80000000 + of_nat j) = Some a \<and> page_of a \<in> F \<and> m a = 0)"

lemma mapped_kept:
  assumes "\<And>y. unat y < 0x800000000000 \<Longrightarrow> page_of y \<in> P \<Longrightarrow> mmu_walk m' r y = mmu_walk m r y"
    "\<And>a. page_of a \<in> F \<Longrightarrow> page_of a \<in> F' \<and> m' a = m a"
  shows "0x400000 \<in> P \<Longrightarrow> program_mapped r F m \<Longrightarrow> program_mapped r F' m'"
    "0x80000000 \<in> P \<Longrightarrow> stack_mapped r F m \<Longrightarrow> stack_mapped r F' m'"
proof -
  have al: "page_aligned 0x400000" "page_aligned 0x80000000" by (simp_all add: page_of_def del: and_neg_4096)
  have j: "(of_nat j :: u64) < 4096" if "j < 4096" for j using that by (simp add: word_less_nat_alt unat_of_nat)
  have w1: "mmu_walk m' r (0x400000 + of_nat j) = mmu_walk m r (0x400000 + of_nat j)" if "j < 4096" "0x400000 \<in> P" for j
    using that page_of_plus [OF al(1) j [OF that(1)]] by (intro assms(1)) (simp_all add: unat_word_ariths unat_of_nat)
  have w2: "mmu_walk m' r (0x80000000 + of_nat j) = mmu_walk m r (0x80000000 + of_nat j)" if "j < 4096" "0x80000000 \<in> P" for j
    using that page_of_plus [OF al(2) j [OF that(1)]] by (intro assms(1)) (simp_all add: unat_word_ariths unat_of_nat)
  show "program_mapped r F' m'" if P: "0x400000 \<in> P" "program_mapped r F m"
    unfolding program_mapped_def
  proof (intro allI impI)
    fix j :: nat assume l: "j < 4096"
    then obtain a where "mmu_walk m r (0x400000 + of_nat j) = Some a" "page_of a \<in> F" "m a = (if j < 23 then test_elf ! (120 + j) else 0)"
      using P(2) unfolding program_mapped_def by blast
    then show "\<exists>a. mmu_walk m' r (0x400000 + of_nat j) = Some a \<and> page_of a \<in> F' \<and> m' a = (if j < 23 then test_elf ! (120 + j) else 0)"
      using w1 [OF l P(1)] assms(2) [of a] by (intro exI [of _ a]) simp
  qed
  show "stack_mapped r F' m'" if P: "0x80000000 \<in> P" "stack_mapped r F m"
    unfolding stack_mapped_def
  proof (intro allI impI)
    fix j :: nat assume l: "j < 4096"
    then obtain a where "mmu_walk m r (0x80000000 + of_nat j) = Some a" "page_of a \<in> F" "m a = 0"
      using P(2) unfolding stack_mapped_def by blast
    then show "\<exists>a. mmu_walk m' r (0x80000000 + of_nat j) = Some a \<and> page_of a \<in> F' \<and> m' a = 0"
      using w2 [OF l P(1)] assms(2) [of a] by (intro exI [of _ a]) simp
  qed
qed

text \<open>The kernel image holds the program, outside of what the frame allocator gives out.\<close>

definition carries_program :: "'a heap_state_scheme \<Rightarrow> bool" where
  "carries_program s \<longleftrightarrow> (\<exists>d. sym_test_elf (syms s) = d + HIGHER_HALF_BASE \<and> image_holds d test_elf s \<and>
     in_window d sizeof_test_elf \<and> image_pages d sizeof_test_elf \<inter> pmm_avail s = {})"

lemma process_loaded:
  fixes s :: "'a task_state_scheme"
  assumes ks: "kernel_space s" and live: "uart_live s" and low: "\<forall>f\<in>pmm_avail s. unat f < 0x1FF000" and fr: "5 \<le> card (pmm_avail s)"
    and img: "carries_program s"
  obtains r t where "create_user_process s = start_user_task 0x400000 r t" "r \<in> pmm_avail s" "borrows s t" "tables t r \<subseteq> pmm_avail s"
    "user_tree t r" "uart_live t" "card (pmm_avail s) \<le> card (pmm_avail t) + 5"
    "program_mapped r (pmm_avail s - pmm_avail t - tables t r) (mem t)"
    "\<And>y. unat y < 0x800000000000 \<Longrightarrow> page_of y \<noteq> 0x400000 \<Longrightarrow> mmu_walk (mem t) r y = None"
proof -
  obtain d where d: "sym_test_elf (syms s) = d + HIGHER_HALF_BASE" "image_holds d test_elf s" "in_window d sizeof_test_elf"
    "image_pages d sizeof_test_elf \<inter> pmm_avail s = {}" using img by (auto simp: carries_program_def)
  have ne: "pmm_avail s \<noteq> {}" using fr by auto
  obtain r s1 where s1: "paging_create_user_space s = Some (r, s1)" "r \<in> pmm_avail s" "pmm_avail s1 = pmm_avail s - {r}" "user_tree s1 r"
    "tables s1 r = {r}" "\<forall>y. unat y < 0x800000000000 \<longrightarrow> mmu_walk (mem s1) r y = None" "\<forall>a. page_of a \<noteq> r \<longrightarrow> mem s1 a = mem s a"
    and e1: "s1 = s\<lparr>mem := mem s1, bitmap := bitmap s1, used_frames := used_frames s1\<rparr>"
    using create_user_tree [OF ks ne low] by blast
  obtain m b n where eq: "s1 = s\<lparr>mem := m, bitmap := b, used_frames := n\<rparr>" using e1 by blast
  have r0: "r \<noteq> 0" using s1(2) pmm.zero_not_avail [OF kernel_spaceD(4) [OF ks]] by auto
  have "\<exists>m b n l k. s1 = s\<lparr>mem := m, bitmap := b, used_frames := n, io_log := l, io_reads := k\<rparr>"
    by (intro exI [of _ m] exI [of _ b] exI [of _ n] exI [of _ "io_log s"] exI [of _ "io_reads s"]) (simp add: eq)
  then have b1: "borrows s s1" "tables s1 r \<subseteq> pmm_avail s"
    using user_treeD(2) [OF s1(4)] s1(2,3,5,7) by (auto simp: borrows_def)
  have l1: "uart_live s1" using live by (simp add: uart_live_def eq)
  obtain s2 s3 s4 where s4: "serial_puts (cstr ''[PRISM] User PML4 created at 0x'') s1 = Some s2" "serial_puthex64 r s2 = Some s3"
    "serial_puts [10] s3 = Some s4" "io_eq s1 s4" "uart_live s4" by (rule say_value [OF l1])
  note io = io_eq_same [OF s4(4)] and m4 = io_eqD(1,3) [OF s4(4)]
  have "image_holds d test_elf s1" unfolding image_holds_def
  proof (intro allI impI)
    fix i assume i: "i < length test_elf"
    then have "page_of (d + of_nat i) \<in> image_pages d sizeof_test_elf" by (auto simp: image_pages_def test_elf_length sizeof_test_elf_def)
    then show "mem s1 (d + of_nat i) = test_elf ! i" using d(2,4) s1(2,7) i by (auto simp: image_holds_def)
  qed
  then have ih: "image_holds d test_elf s4" by (simp add: image_holds_def m4)
  have ap: "image_apart r d sizeof_test_elf s4" using d(3,4) s1(2,3,5) io(4,5) by (auto simp: image_apart_def)
  have c4: "4 \<le> card (pmm_avail s4)" "card (pmm_avail s) = Suc (card (pmm_avail s4))"
    using fr card_Suc_Diff1 [OF pmm.finite_avail s1(2)] s1(3) io(5) by simp_all
  obtain s5 where s5: "elf_load (d + HIGHER_HALF_BASE) sizeof_test_elf r (Some 0) s4 = Some (0, Some 0x400000, s5)" "user_tree s5 r"
    "\<forall>j<4096. \<exists>a. mmu_walk (mem s5) r (0x400000 + of_nat j) = Some a \<and> page_of a \<in> pmm_avail s4 - pmm_avail s5 - tables s5 r \<and>
       mem s5 a = (if j < 23 then test_elf ! (120 + j) else 0)"
    "\<forall>y. unat y < 0x800000000000 \<and> page_of y \<noteq> 0x400000 \<longrightarrow> mmu_walk (mem s5) r y = mmu_walk (mem s4) r y"
    "grown_io r s4 s5" "card (pmm_avail s4) \<le> card (pmm_avail s5) + 4"
    using test_elf_run [OF iffD2 [OF io(1) s1(4)] ap ih s4(5) c4(1)] by blast
  have t4: "tables s4 r \<subseteq> pmm_avail s" using io(4) b1(2) by simp
  note b5 = borrows_grown_io [OF borrows_io [OF b1(1) s4(4)] t4 s5(5)]
  have l5: "uart_live s5" using live borrows_live [OF b5(1)] by simp
  obtain s6 s7 t where t: "serial_puts (cstr ''[PRISM] ELF loaded, entry=0x'') s5 = Some s6" "serial_puthex64 0x400000 s6 = Some s7"
    "serial_puts [10] s7 = Some t" "io_eq s5 t" "uart_live t" by (rule say_value [OF l5])
  note io5 = io_eq_same [OF t(4)] and m5 = io_eqD(1) [OF t(4)]
  have sy: "syms s4 = syms s" by (simp add: m4 eq)
  have run: "create_user_process s = start_user_task 0x400000 r t"
    using s1(1) r0 s4(1-3) s5(1) t(1-3) by (simp add: create_user_process_def sy d(1))
  have pm: "program_mapped r (pmm_avail s - pmm_avail t - tables t r) (mem t)"
  proof (rule mapped_kept(1) [where P = UNIV])
    show "program_mapped r (pmm_avail s4 - pmm_avail s5 - tables s5 r) (mem s5)" unfolding program_mapped_def by (rule s5(3))
  qed (use s1(3) io(5) io5(4,5) m5 in auto)
  have none: "mmu_walk (mem t) r y = None" if "unat y < 0x800000000000" "page_of y \<noteq> 0x400000" for y
    using s5(4) s1(6) that by (simp add: m5 m4)
  show thesis
    using that [OF run s1(2) borrows_io [OF b5(1) t(4)] _ _ t(5) _ pm none] b5(2) io5(1,4,5) s5(2,6) c4(2) by simp
qed

text \<open>The second half: the stack, and the task.\<close>

lemma process_stack:
  fixes s :: "'a task_state_scheme"
  assumes ut: "user_tree s r" and live: "uart_live s" and fr: "4 \<le> card (pmm_avail s)"
  obtains t where "start_user_task entry r s = do {
        (user_task, s) \<leftarrow> task_create_user entry 0x80001000 0x200 r t;
        case user_task of
          Some x \<Rightarrow>
            do { s \<leftarrow> serial_puts (cstr ''[PRISM] User task created (PID '') s;
                 s \<leftarrow> serial_puthex64 (t_pid (task_at s x)) s;
                 serial_puts (cstr '')'' @ [10]) s }
        | None \<Rightarrow> serial_puts (cstr ''[PRISM] FAILED to create user task'' @ [10]) s }"
    "grown_io r s t" "card (pmm_avail s) \<le> card (pmm_avail t) + 4"
    "stack_mapped r (pmm_avail s - pmm_avail t - tables t r) (mem t)"
    "\<And>y. unat y < 0x800000000000 \<Longrightarrow> page_of y \<noteq> 0x80000000 \<Longrightarrow> mmu_walk (mem t) r y = mmu_walk (mem s) r y"
    "\<And>a. page_of a \<notin> pmm_avail s \<union> tables s r \<Longrightarrow> mem t a = mem s a"
proof -
  have va: "unat (0x80000000 :: u64) < 0x800000000000" by simp
  obtain f u v w where w: "pmm_alloc_frame s = (f, u)" "f \<noteq> 0" "paging_phys_to_virt f u = Some (f + HIGHER_HALF_BASE, u)"
    "memset (f + HIGHER_HALF_BASE) 0 PMM_FRAME_SIZE u = Some v" "map_user_stack r f 0x80000000 v = Some w" "grown r s w"
    "f \<in> pmm_avail s - pmm_avail w - tables w r" and zero: "\<And>a. page_of a = f \<Longrightarrow> mem w a = 0" and fal: "page_aligned f"
    and walk: "\<And>y. unat y < 0x800000000000 \<Longrightarrow> mmu_walk (mem w) r y =
      (if page_of y = page_of 0x80000000 then Some (f OR (y AND 0xFFF)) else mmu_walk (mem s) r y)"
    and cd: "card (pmm_avail s) \<le> card (pmm_avail w) + 4"
    by (rule stack_prepared [OF ut va fr]) blast
  have lw: "uart_live w" using live grown_same(4) [OF w(6)] by (simp add: uart_live_def)
  obtain t where t: "serial_puts (cstr ''[PRISM] User stack mapped at 0x80000000'' @ [10]) w = Some t" "io_eq w t" by (rule say_field [OF lw])
  note io = io_eq_same(4,5) [OF t(2)] and m = io_eqD(1) [OF t(2)]
  have al: "page_of 0x80000000 = (0x80000000 :: u64)" by (simp add: page_of_def del: and_neg_4096)
  have "stack_mapped r (pmm_avail s - pmm_avail t - tables t r) (mem t)"
    unfolding stack_mapped_def
  proof (intro allI impI)
    fix j :: nat assume j: "j < 4096"
    let ?y = "0x80000000 + of_nat j :: u64"
    have j': "(of_nat j :: u64) < 4096" using j by (simp add: word_less_nat_alt unat_of_nat)
    have "unat ?y < 0x800000000000" using j by (simp add: unat_word_ariths unat_of_nat)
    then have "mmu_walk (mem w) r ?y = Some (f OR (?y AND 0xFFF))" using walk [of ?y] page_of_plus [OF al j'] al by simp
    moreover have "page_of (f OR (?y AND 0xFFF)) = f" using fal by simp
    ultimately show "\<exists>a. mmu_walk (mem t) r ?y = Some a \<and> page_of a \<in> pmm_avail s - pmm_avail t - tables t r \<and> mem t a = 0"
      using w(7) zero io m by (intro exI [of _ "f OR (?y AND 0xFFF)"]) simp
  qed
  moreover have "grown_io r s t" using w(6) t(2) unfolding grown_io_def by (intro exI [of _ s] exI [of _ w]) simp
  moreover have "mem t a = mem s a" if "page_of a \<notin> pmm_avail s \<union> tables s r" for a using grownD(6) [OF w(6) that] m by simp
  moreover have "mmu_walk (mem t) r y = mmu_walk (mem s) r y" if "unat y < 0x800000000000" "page_of y \<noteq> 0x80000000" for y
    using walk [OF that(1)] that(2) al m by simp
  ultimately show thesis using w(1-5) t(1) cd io
    by (intro that [of t], simp_all add: start_user_task_def) (simp add: PMM_FRAME_SIZE_def)
qed

lemma create_user_process_spec:
  fixes s :: "'a task_state_scheme"
  assumes ok: "heap_ok s A" "sched_inv s" "heap_room s 12310" "uart_live s" "find_slot s = Some x"
    and low: "\<forall>f\<in>pmm_avail s. unat f < 0x1FF000" and img: "carries_program s"
    and fr: "9 \<le> card (pmm_avail s)" "fits s TASK_STACK_SIZE \<or> 15 \<le> card (pmm_avail s)"
  shows "\<exists>r p t. create_user_process s = Some t \<and> r \<in> pmm_avail s \<and>
    created s A x (sym_enter_user_mode (syms s))
      (user_task 0x400000 0x80001000 0x200 r (next_pid s) p (p + 8128) (task_at s x)) p t \<and>
    program_mapped r (pmm_avail s) (mem t) \<and> stack_mapped r (pmm_avail s) (mem t) \<and>
    (\<forall>y. unat y < 0x800000000000 \<and> page_of y \<notin> {0x400000, 0x80000000} \<longrightarrow> mmu_walk (mem t) r y = None)"
proof -
  have ks: "kernel_space s" using ok(1) heap_mappedD(1) by (auto simp: heap_ok_def)
  have f5: "5 \<le> card (pmm_avail s)" using fr(1) by simp
  obtain r s1 where s1: "create_user_process s = start_user_task 0x400000 r s1" "r \<in> pmm_avail s" "borrows s s1" "tables s1 r \<subseteq> pmm_avail s"
    "user_tree s1 r" "uart_live s1" "card (pmm_avail s) \<le> card (pmm_avail s1) + 5"
    and prog: "program_mapped r (pmm_avail s - pmm_avail s1 - tables s1 r) (mem s1)"
    and none: "\<And>y. unat y < 0x800000000000 \<Longrightarrow> page_of y \<noteq> 0x400000 \<Longrightarrow> mmu_walk (mem s1) r y = None"
    by (rule process_loaded [OF ks ok(4) low f5 img]) blast
  have c1: "4 \<le> card (pmm_avail s1)" using fr(1) s1(7) by simp
  obtain s2 where run: "start_user_task 0x400000 r s1 = do {
        (user_task, s) \<leftarrow> task_create_user 0x400000 0x80001000 0x200 r s2;
        case user_task of
          Some x \<Rightarrow>
            do { s \<leftarrow> serial_puts (cstr ''[PRISM] User task created (PID '') s;
                 s \<leftarrow> serial_puthex64 (t_pid (task_at s x)) s;
                 serial_puts (cstr '')'' @ [10]) s }
        | None \<Rightarrow> serial_puts (cstr ''[PRISM] FAILED to create user task'' @ [10]) s }"
    and g: "grown_io r s1 s2" "card (pmm_avail s1) \<le> card (pmm_avail s2) + 4"
    and stack: "stack_mapped r (pmm_avail s1 - pmm_avail s2 - tables s2 r) (mem s2)"
    and kept: "\<And>y. unat y < 0x800000000000 \<Longrightarrow> page_of y \<noteq> 0x80000000 \<Longrightarrow> mmu_walk (mem s2) r y = mmu_walk (mem s1) r y"
      "\<And>a. page_of a \<notin> pmm_avail s1 \<union> tables s1 r \<Longrightarrow> mem s2 a = mem s1 a"
    by (rule process_stack [OF s1(5,6) c1]) blast
  note b2 = borrows_grown_io [OF s1(3,4) g(1)]
  obtain m c n l j where e2: "s2 = s\<lparr>mem := m, bitmap := c, used_frames := n, io_log := l, io_reads := j\<rparr>" by (rule borrowsE [OF b2(1)])
  note o = borrows_ok [OF ok(1) b2(1)]
  have ut2: "user_tree s2 r" using g(1) grownD(1) io_eq_same(1) unfolding grown_io_def by blast
  have sub2: "pmm_avail s2 \<subseteq> pmm_avail s1" using g(1) grownD(2) io_eq_same(5) unfolding grown_io_def by metis
  have sc: "sched_inv s2" "find_slot s2 = Some x" "heap_room s2 12310" "uart_live s2"
    using ok(2-5) sched_inv_cong(1,4) [of s2 s] borrows_live [OF b2(1)] by (simp_all add: e2)
  note sx = find_slot_Some [OF sc(2)]
  have "fits s2 TASK_STACK_SIZE \<or> \<not> card (pmm_avail s2) < 6" using fr(2) o(2) s1(7) g(2) by auto
  then obtain s3 p where s3: "spawn x sym_enter_user_mode LOG_INFO (cstr ''task_create_user pid='') (user_task 0x400000 0x80001000 0x200 r) s2 = Some (Some x, s3)"
    "created s2 A x (sym_enter_user_mode (syms s2)) (user_task 0x400000 0x80001000 0x200 r (next_pid s2) p (p + 8128) (task_at s2 x)) p s3"
    using spawn_spec [OF o(1) sc(1,3,4) sx, where g = "user_task 0x400000 0x80001000 0x200 r" and e = sym_enter_user_mode and lvl = LOG_INFO
      and msg = "cstr ''task_create_user pid=''"] by (auto simp: user_task_def)
  have l3: "uart_live s3" using s3(2) sc(4) by (simp add: created_def uart_live_def)
  obtain s4 where s4: "serial_puts (cstr ''[PRISM] User task created (PID '') s3 = Some s4" "io_eq s3 s4" "uart_live s4" by (rule say_field [OF l3])
  obtain s5 where s5: "serial_puthex64 (t_pid (task_at s4 x)) s4 = Some s5" "io_eq s4 s5" "uart_live s5" by (rule say_hex [OF s4(3)])
  obtain t where t: "serial_puts (cstr '')'' @ [10]) s5 = Some t" "io_eq s5 t" by (rule say_field [OF s5(3)])
  have io: "io_eq s3 t" by (rule io_eq_trans [OF s4(2) io_eq_trans [OF s5(2) t(2)]])
  have fin: "create_user_process s = Some t"
    unfolding s1(1) run using s3(1) s4(1) s5(1) t(1) sc(2) by (simp add: task_create_user_spawn)
  have cr: "created s A x (sym_enter_user_mode (syms s)) (user_task 0x400000 0x80001000 0x200 r (next_pid s) p (p + 8128) (task_at s x)) p t"
    using created_borrows [OF ok(1) b2(1) created_log [OF s3(2) io]] by (simp add: e2)
  have mt: "mem t a = mem s2 a" if "page_of a \<in> pmm_avail s - pmm_avail s2" for a
    using s3(2) o(5) [OF that] io_eqD(1) [OF io] by (simp add: created_def spares_def)
  have tb: "tables s2 r \<subseteq> pmm_avail s - pmm_avail s2" using b2(2) user_treeD(8) [OF ut2] by auto
  have wk: "mmu_walk (mem t) r y = mmu_walk (mem s2) r y" if "unat y < 0x800000000000" for y
    using user_walk_kept [OF ut2 that] mt tb by blast
  have mp: "page_of a \<in> pmm_avail s \<and> mem t a = mem s1 a" if "page_of a \<in> pmm_avail s - pmm_avail s1 - tables s1 r" for a
    using mt [of a] kept(2) [of a] that sub2 by auto
  have pm: "program_mapped r (pmm_avail s) (mem t)"
    by (rule mapped_kept(1) [OF _ mp _ prog, where P = "{0x400000}"]) (use wk kept(1) in auto)
  have sm: "stack_mapped r (pmm_avail s) (mem t)"
    by (rule mapped_kept(2) [OF _ _ _ stack, where P = UNIV]) (use wk mt sub2 borrowsD(2) [OF s1(3)] in auto)
  have "mmu_walk (mem t) r y = None" if "unat y < 0x800000000000" "page_of y \<notin> {0x400000, 0x80000000}" for y
    using wk [OF that(1)] kept(1) [OF that(1)] none [OF that(1)] that(2) by simp
  with fin s1(2) cr pm sm show ?thesis by blast
qed

text \<open>
  C2. The first user process: with a free task slot, a live serial line, 15 free frames (9 when the heap holds a kernel stack already), all below 2 MiB, and the
  program in memory of its own, \<open>create_user_process\<close> returns. A new ring 3 task is last in the queue; in its address space the page at 0x400000 holds
  the program followed by zeros, the page at 0x80000000 is a cleared stack, both in frames that were free, and every other user address is unmapped; its kernel stack is a
  fresh block of the heap that holds the frame that starts \<open>enter_user_mode\<close>, and every block allocated before keeps its contents.
\<close>

theorem create_user_process_starts:
  fixes s :: "'a task_state_scheme"
  assumes "heap_ok s A" "sched_inv s" "heap_room s 12310" "uart_live s" "find_slot s = Some x"
    and "\<forall>f\<in>pmm_avail s. unat f < 0x1FF000" "carries_program s"
    "9 \<le> card (pmm_avail s)" "fits s TASK_STACK_SIZE \<or> 15 \<le> card (pmm_avail s)"
  shows "\<exists>r p t. create_user_process s = Some t \<and> r \<in> pmm_avail s \<and>
    created s A x (sym_enter_user_mode (syms s))
      (user_task 0x400000 0x80001000 0x200 r (next_pid s) p (p + 8128) (task_at s x)) p t \<and>
    program_mapped r (pmm_avail s) (mem t) \<and> stack_mapped r (pmm_avail s) (mem t) \<and>
    (\<forall>y. unat y < 0x800000000000 \<and> page_of y \<notin> {0x400000, 0x80000000} \<longrightarrow> mmu_walk (mem t) r y = None)"
  by (rule create_user_process_spec [OF assms])

end
