(* ===== verification/Prism_Boot.thy ===== *)
theory Prism_Boot
  imports Prism_Process
begin

text \<open>
  The boot sequence after memory management is up (\<open>boot_services\<close>, from \<open>kernel_main\<close> of \<^verbatim>\<open>kernel/kernel.c\<close>): log, keyboard, scheduler, the two
  demonstration threads, system calls and the first user process, on one memory.
\<close>

section \<open>Tasks that wait for their first turn\<close>

text \<open>Task \<open>x\<close> will begin at \<open>e\<close> on the stack at \<open>p\<close>, one of the allocated blocks \<open>A\<close>.\<close>

definition waits_at :: "'a task_state_scheme \<Rightarrow> u64 set \<Rightarrow> nat \<Rightarrow> u64 \<Rightarrow> u64 \<Rightarrow> bool" where
  "waits_at s A x e p \<longleftrightarrow> p - 16 \<in> A \<and> t_stack_pointer (task_at s x) = p + 8128 \<and>
     load_frame (hview s) (p + 8128) = start_regs e (p + 8192) \<and>
     (\<forall>j<8. data_word (hview s) (p - 16) (p + 8128 + 8 * of_nat j))"

lemma waits_created:
  assumes "created s A x e k p t" "t_stack_pointer k = p + 8128"
  shows "waits_at t (insert (p - 16) A) x e p"
proof -
  obtain n where "task_at t x = k\<lparr>t_next := n\<rparr>" using assms(1) by (auto simp: created_def enlisted_def)
  then show ?thesis using assms by (simp add: waits_at_def created_def)
qed

lemma waits_kept:
  assumes w: "waits_at s A y e q" and k: "keeps (hview s) (hview t) A" and sp: "t_stack_pointer (task_at t y) = t_stack_pointer (task_at s y)"
  shows "waits_at t (A \<union> B) y e q"
proof -
  have a: "q - 16 \<in> A" and d: "\<And>j. j < 8 \<Longrightarrow> data_word (hview s) (q - 16) (q + 8128 + 8 * of_nat j)"
    using w by (auto simp: waits_at_def)
  have "load_frame (hview t) (q + 8128) = load_frame (hview s) (q + 8128)"
    by (rule load_frame_cong) (rule keeps_data(1) [OF k a d])
  then show ?thesis using w a d sp keeps_data(2) [OF k a] by (simp add: waits_at_def)
qed

lemma waits_other:
  assumes "waits_at s A y e q" "created s A x e' k p t" "y \<noteq> x"
  shows "waits_at t (insert (p - 16) A) y e q"
proof -
  obtain n where "task_at t y = (task_at s y)\<lparr>t_next := n\<rparr>" using assms(2,3) unfolding created_def enlisted_def by blast
  then have "t_stack_pointer (task_at t y) = t_stack_pointer (task_at s y)" by simp
  from waits_kept [OF assms(1) _ this, of "{p - 16}"] assms(2) show ?thesis by (simp add: created_def)
qed

lemma waits_same:
  assumes "waits_at s A y e q" "heap_same s t" "task_table t = task_table s"
  shows "waits_at t A y e q"
  using assms heap_same_mapped(2) [OF assms(2)] by (simp add: waits_at_def)

text \<open>Slots are handed out in order.\<close>

lemma created_state:
  assumes "created s A x e k p t"
  shows "t_state (task_at t i) = (if i = x then t_state k else t_state (task_at s i))"
proof -
  have "\<exists>n. task_at t i = (if i = x then k else task_at s i)\<lparr>t_next := n\<rparr>" using assms by (simp add: created_def enlisted_def)
  then show ?thesis by auto
qed

lemma find_slot_iff:
  "find_slot s = Some x \<longleftrightarrow> x < MAX_TASKS \<and> t_state (task_at s x) = TASK_DEAD \<and> (\<forall>i<x. t_state (task_at s i) \<noteq> TASK_DEAD)"
  unfolding find_slot_def find_Some_iff by auto

lemma find_slot_created:
  assumes "created s A x e k p t" "find_slot s = Some x" "t_state k = TASK_READY" "Suc x < MAX_TASKS" "t_state (task_at s (Suc x)) = TASK_DEAD"
  shows "find_slot t = Some (Suc x)"
  using assms(2-5) unfolding find_slot_iff by (auto simp: created_state [OF assms(1)] less_Suc_eq)

section \<open>Resources\<close>

text \<open>The program is in memory that belongs to nobody else.\<close>

definition program_placed :: "'a heap_state_scheme \<Rightarrow> bool" where
  "program_placed s \<longleftrightarrow> (\<exists>d. sym_test_elf (syms s) = d + HIGHER_HALF_BASE \<and> image_holds d test_elf s \<and>
     in_window d sizeof_test_elf \<and> (\<forall>f\<in>image_pages d sizeof_test_elf. foreign s f))"

lemma program_placed_carried: "program_placed s \<Longrightarrow> carries_program s"
  unfolding program_placed_def carries_program_def by (fastforce simp: foreign_def data_frame_def)

lemma image_holds_kept:
  assumes "image_holds d test_elf s" "\<And>a. page_of a \<in> image_pages d sizeof_test_elf \<Longrightarrow> mem t a = mem s a"
  shows "image_holds d test_elf t"
  unfolding image_holds_def
proof (intro allI impI)
  fix i assume i: "i < length test_elf"
  then have "page_of (d + of_nat i) \<in> image_pages d sizeof_test_elf" by (auto simp: image_pages_def test_elf_length sizeof_test_elf_def)
  from assms(2) [OF this] show "mem t (d + of_nat i) = test_elf ! i" using assms(1) i by (simp add: image_holds_def)
qed

lemma program_placed_spared:
  assumes "program_placed s" "spares s t" "syms t = syms s"
  shows "program_placed t"
proof -
  obtain d where d: "sym_test_elf (syms s) = d + HIGHER_HALF_BASE" "image_holds d test_elf s" "in_window d sizeof_test_elf"
    "\<forall>f\<in>image_pages d sizeof_test_elf. foreign s f" using assms(1) unfolding program_placed_def by blast
  have "image_holds d test_elf t" by (rule image_holds_kept [OF d(2)]) (use d(4) assms(2) in \<open>simp add: spares_def\<close>)
  then show ?thesis using d assms(2,3) unfolding program_placed_def by (auto simp: spares_def)
qed

text \<open>
  Enough for \<open>n\<close> kernel stacks and the user process: six frames for every stack, fifteen for the process, and room
  behind the heap. All free frames are below 2 MiB.
\<close>

definition boot_ready :: "nat \<Rightarrow> 'a heap_state_scheme \<Rightarrow> bool" where
  "boot_ready n s \<longleftrightarrow> uart_live s \<and> program_placed s \<and> (\<forall>f\<in>pmm_avail s. unat f < 0x1FF000) \<and>
     6 * n + 15 \<le> card (pmm_avail s) \<and> heap_room s (12310 * n + 12310)"

lemma boot_ready_step:
  assumes r: "boot_ready (Suc n) s" and t: "spares s t" "spends s t" "unat (heap_end t) \<le> unat (heap_end s) + 12310" "io_in t = io_in s" "syms t = syms s"
  shows "boot_ready n t"
proof -
  have "(unat (heap_end t) - unat (heap_end s)) div 4096 \<le> 12310 div 4096" using t(3) by (intro div_le_mono) linarith
  then have "card (pmm_avail s) \<le> card (pmm_avail t) + 6" using t(2) by (simp add: spends_def)
  moreover have "heap_room t (12310 * n + 12310)" using r t(3) by (simp add: boot_ready_def)
  moreover have "pmm_avail t \<subseteq> pmm_avail s" using t(2) by (simp add: spends_def)
  ultimately show ?thesis
    using r program_placed_spared [OF _ t(1,5)] t(4) unfolding boot_ready_def by (auto simp: uart_live_def)
qed

lemma boot_ready_same:
  assumes "boot_ready n s" "heap_same s t" "io_in t = io_in s"
  shows "boot_ready n t"
  using assms program_placed_spared [OF _ heap_same_foreign(2) [OF assms(2)]] heap_same_mapped(4) [OF assms(2)]
  by (simp add: boot_ready_def uart_live_def heap_same_def)

lemma task_create_ready:
  fixes s :: "'a task_state_scheme"
  assumes ok: "heap_ok s A" "sched_inv s" "find_slot s = Some x" and r: "boot_ready (Suc n) s"
  obtains p t where "task_create e s = Some (Some x, t)" "created s A x e (kernel_task (next_pid s) p (p + 8128) (task_at s x)) p t"
    "boot_ready n t" "heap_ok t (insert (p - 16) A)" "sched_inv t" "syms t = syms s" "pmm_avail t \<subseteq> pmm_avail s"
proof -
  have rm: "heap_room s 12310" "uart_live s" "\<not> card (pmm_avail s) < 6" using r by (auto simp: boot_ready_def)
  obtain p t where t: "spawn x (\<lambda>_. e) LOG_DEBUG (cstr ''task_create pid='') kernel_task s = Some (Some x, t)"
    "created s A x e (kernel_task (next_pid s) p (p + 8128) (task_at s x)) p t"
    "spends s t" "unat (heap_end t) \<le> unat (heap_end s) + 12310" "syms t = syms s"
    using spawn_spec [OF ok(1,2) rm(1,2) find_slot_Some [OF ok(3)], where g = kernel_task and e = "\<lambda>_. e" and lvl = LOG_DEBUG
      and msg = "cstr ''task_create pid=''"] rm(3) by (auto simp: kernel_task_def)
  have "boot_ready n t" using boot_ready_step [OF r _ t(3,4) _ t(5)] t(2) by (simp add: created_def)
  with t ok(3) show thesis by (intro that [of t p]) (auto simp: task_create_spawn created_def enlisted_def spends_def)
qed

section \<open>The services\<close>

text \<open>The devices once the keyboard handler is installed.\<close>

definition kbd_installed :: "'a heap_state_scheme \<Rightarrow> 'a heap_state_scheme \<Rightarrow> bool" where
  "kbd_installed s t \<longleftrightarrow> io_in t = io_in s \<and> dev_same (s\<lparr>irq_handlers := (irq_handlers s)[1 := Some Keyboard_irq_handler]\<rparr>) t"

lemma kbd_installed_step:
  assumes "kbd_installed s t" "io_in u = io_in t" "dev_same t u"
  shows "kbd_installed s u"
  using assms dev_same_trans by (auto simp: kbd_installed_def)

lemma kbd_installed_created:
  assumes "kbd_installed s t" "created t A x e k p u"
  shows "kbd_installed s u"
  using kbd_installed_step [OF assms(1)] assms(2) by (simp add: created_def)

lemma boot_console:
  fixes s :: "'a syscall_state_scheme"
  assumes "uart_live s"
  obtains t where "kinit_log s = Some t" "heap_same s (kinit_keyboard t)" "io_in (kinit_keyboard t) = io_in s"
    "free_list (kinit_keyboard t) = free_list s" "ready_head (kinit_keyboard t) = ready_head s" "next_pid (kinit_keyboard t) = next_pid s"
    "kbd_installed s (kinit_keyboard t)"
proof -
  obtain t where t: "kinit_log s = Some t" "io_eq s t" using klog_spec [OF assms] unfolding kinit_log_def by blast
  obtain l n where e: "t = s\<lparr>io_log := l, io_reads := n\<rparr>" using t(2) by (auto elim: io_eqE)
  let ?r = "isr_register_irq 1 Keyboard_irq_handler t"
  have r: "?r = t\<lparr>irq_handlers := (irq_handlers t)[1 := Some Keyboard_irq_handler]\<rparr>" by (simp add: isr_register_irq_def)
  have v: "vga_eq ?r (kinit_keyboard t)" unfolding kinit_keyboard_def by (rule kprint_vga_eq)
  then obtain cl x y where k: "kinit_keyboard t = ?r\<lparr>vga_cells := cl, vga_cursor_x := x, vga_cursor_y := y\<rparr>" by (rule vga_eqE)
  show thesis by (rule that [OF t(1)], unfold k r) (simp_all add: e heap_same_def kbd_installed_def dev_same_def)
qed

lemma syscall_init_quiet:
  fixes s :: "'a syscall_state_scheme"
  assumes "uart_live s"
  obtains t where "syscall_init s = Some t" "heap_same s t" "io_in t = io_in s" "free_list t = free_list s"
    "task_table t = task_table s" "current_task t = current_task s" "ready_head t = ready_head s" "ready_tail t = ready_tail s" "next_pid t = next_pid s" "dev_same s t"
proof -
  define u where "u = wrmsr (ucast (0x200 :: u64)) (ucast (drop_bit 32 (0x200 :: u64))) MSR_IA32_FMASK
     (wrmsr (ucast (push_bit 48 (0x1B :: u64) OR push_bit 32 0x08)) (ucast (drop_bit 32 (push_bit 48 (0x1B :: u64) OR push_bit 32 0x08))) MSR_IA32_STAR
       (wrmsr (ucast (sym_syscall_entry (syms s))) (ucast (drop_bit 32 (sym_syscall_entry (syms s)))) MSR_IA32_LSTAR s))"
  obtain f where f: "u = s\<lparr>msr := f\<rparr>" by (simp add: u_def wrmsr_def)
  have "uart_live u" using assms by (simp add: f uart_live_def)
  then obtain t where t: "klog LOG_INFO (cstr ''Syscall: MSRs configured (STAR/LSTAR/FMASK)'' @ [10]) u = Some t" "io_eq u t" using klog_spec by blast
  have "syscall_init s = Some t" using t(1) unfolding syscall_init_def Let_def u_def .
  moreover obtain l n where "t = u\<lparr>io_log := l, io_reads := n\<rparr>" using t(2) by (auto elim: io_eqE)
  ultimately show thesis by (intro that [of t]) (simp_all add: f heap_same_def dev_same_def)
qed

text \<open>The tasks at the end of the boot sequence; \<open>S\<close> are the links of the kernel, \<open>A\<close> the blocks allocated before.\<close>

definition tasks_booted :: "link_symbols \<Rightarrow> u64 set \<Rightarrow> u64 \<Rightarrow> 'a task_state_scheme \<Rightarrow> bool" where
  "tasks_booted S A r t \<longleftrightarrow> sched_inv t \<and> sched_order t = [0, 1, 2, 3, 4] \<and>
     (\<exists>q a b u. let B = {u - 16, b - 16, a - 16, q - 16} \<union> A in
        card {q - 16, a - 16, b - 16, u - 16} = 4 \<and> {q - 16, a - 16, b - 16, u - 16} \<inter> A = {} \<and> heap_ok t B \<and>
        waits_at t B 1 (sym_idle_entry S) q \<and> waits_at t B 2 (sym_thread_a S) a \<and> waits_at t B 3 (sym_thread_b S) b \<and>
        waits_at t B 4 (sym_enter_user_mode S) u) \<and>
     t_ring (task_at t 4) = 3 \<and> t_cr3 (task_at t 4) = r \<and> t_user_rip (task_at t 4) = 0x400000 \<and>
     t_user_rsp (task_at t 4) = 0x80001000 \<and> t_user_rflags (task_at t 4) = 0x200"

lemma created_order: "created s A x e k p t \<Longrightarrow> sched_order t = sched_order s @ [x]"
  by (simp add: created_def enlisted_def sched_order_def)

lemma boot_scheduler:
  fixes s :: "'a task_state_scheme"
  assumes ok: "heap_ok s A" "ready_head s = None" and r: "boot_ready (Suc n) s"
  obtains q t where "kinit_task s = Some t" "started (next_pid s) q t" "heap_ok t (insert (q - 16) A)" "q - 16 \<notin> A"
    "waits_at t (insert (q - 16) A) 1 (sym_idle_entry (syms s)) q" "boot_ready n t" "syms t = syms s" "pmm_avail t \<subseteq> pmm_avail s"
    "io_in t = io_in s" "dev_same s t"
proof -
  have rm: "heap_room s 12310" "uart_live s" "fits s TASK_STACK_SIZE \<or> 6 \<le> card (pmm_avail s)" using r by (auto simp: boot_ready_def)
  obtain t q where t: "kinit_task s = Some t" "started (next_pid s) q t" "q - 16 \<notin> A" "heap_ok t (insert (q - 16) A)"
    "load_frame (hview t) (q + 8128) = start_regs (sym_idle_entry (syms s)) (q + 8192)"
    "\<forall>k<8. data_word (hview t) (q - 16) (q + 8128 + 8 * of_nat k)"
    "spares s t" "spends s t" "unat (heap_end t) \<le> unat (heap_end s) + 12310" "io_in t = io_in s" "syms t = syms s" "dev_same s t"
    using kinit_task_spec [OF ok rm] by blast
  have "t_stack_pointer (task_at t 1) = q + 8128" using t(2) by (simp add: started_def idle_task_def)
  then have "waits_at t (insert (q - 16) A) 1 (sym_idle_entry (syms s)) q" using t(5,6) by (simp add: waits_at_def)
  with t boot_ready_step [OF r t(7-11)] show thesis by (intro that [of t q]) (simp_all add: spends_def)
qed

lemma four_blocks:
  assumes "q \<notin> A" "a \<notin> insert q A" "b \<notin> insert a (insert q A)" "u \<notin> insert b (insert a (insert q A))"
  shows "card {q, a, b, u} = 4 \<and> {q, a, b, u} \<inter> A = {}"
  using assms by auto

lemma boot_threads:
  fixes s :: "'a task_state_scheme"
  assumes ok: "heap_ok s A" "started pid q s" and r: "boot_ready (Suc (Suc n)) s"
  obtains a b t u where "task_create e s = Some (Some 2, t)" "task_create f t = Some (Some 3, u)"
    "created s A 2 e (kernel_task (next_pid s) a (a + 8128) (task_at s 2)) a t"
    "created t (insert (a - 16) A) 3 f (kernel_task (next_pid t) b (b + 8128) (task_at t 3)) b u"
    "heap_ok u (insert (b - 16) (insert (a - 16) A))" "sched_inv u" "sched_order u = [0, 1, 2, 3]" "find_slot u = Some 4"
    "boot_ready n u" "syms t = syms s" "syms u = syms s" "pmm_avail u \<subseteq> pmm_avail s"
proof -
  note st = started_inv [OF ok(2)]
  have dead: "t_state (task_at s i) = TASK_DEAD" if "1 < i" "i < MAX_TASKS" for i
    using ok(2) that by (auto simp: started_def MAX_TASKS_def nth_Cons' zero_task_def)
  have rdy: "t_state (kernel_task pid p sp k) = TASK_READY" for pid p sp k by (simp add: kernel_task_def)
  obtain a t where t: "task_create e s = Some (Some 2, t)" "created s A 2 e (kernel_task (next_pid s) a (a + 8128) (task_at s 2)) a t"
    "boot_ready (Suc n) t" "heap_ok t (insert (a - 16) A)" "sched_inv t" "syms t = syms s" "pmm_avail t \<subseteq> pmm_avail s"
    by (rule task_create_ready [OF ok(1) st(1,3) r])
  have f3: "find_slot t = Some 3"
    using find_slot_created [OF t(2) st(3) rdy] dead [of 3] by (simp add: MAX_TASKS_def)
  obtain b u where u: "task_create f t = Some (Some 3, u)"
    "created t (insert (a - 16) A) 3 f (kernel_task (next_pid t) b (b + 8128) (task_at t 3)) b u"
    "boot_ready n u" "heap_ok u (insert (b - 16) (insert (a - 16) A))" "sched_inv u" "syms u = syms t" "pmm_avail u \<subseteq> pmm_avail t"
    by (rule task_create_ready [OF t(4,5) f3 t(3)])
  have "t_state (task_at t 4) = TASK_DEAD" using created_state [OF t(2), of 4] dead [of 4] by (simp add: MAX_TASKS_def)
  then have "find_slot u = Some 4"
    using find_slot_created [OF u(2) f3 rdy] by (simp add: MAX_TASKS_def)
  moreover have "sched_order u = [0, 1, 2, 3]" using created_order [OF t(2)] created_order [OF u(2)] st(2) by simp
  moreover have "pmm_avail u \<subseteq> pmm_avail s" using t(7) u(7) by blast
  ultimately show thesis using t u by (intro that [of t u a b]) simp_all
qed

lemma boot_services_spec:
  fixes s :: "'a syscall_state_scheme"
  assumes ok: "heap_ok s A" "ready_head s = None" and r: "boot_ready 3 s"
  shows "\<exists>r t. boot_services s = Some t \<and> tasks_booted (syms s) A r t \<and> kbd_installed s t \<and>
    program_mapped r (pmm_avail s) (mem t) \<and> stack_mapped r (pmm_avail s) (mem t) \<and>
    (\<forall>y. unat y < 0x800000000000 \<and> page_of y \<notin> {0x400000, 0x80000000} \<longrightarrow> mmu_walk (mem t) r y = None)"
proof -
  have live: "uart_live s" using r by (simp add: boot_ready_def)
  obtain l where l: "kinit_log s = Some l" "heap_same s (kinit_keyboard l)" "io_in (kinit_keyboard l) = io_in s"
    "free_list (kinit_keyboard l) = free_list s" "ready_head (kinit_keyboard l) = ready_head s" "kbd_installed s (kinit_keyboard l)" by (rule boot_console [OF live])
  let ?k = "kinit_keyboard l"
  have kA: "heap_ok ?k A" "ready_head ?k = None" "boot_ready (Suc 2) ?k" "syms ?k = syms s" "pmm_avail ?k = pmm_avail s"
    using heap_ok_same [OF l(2,4)] ok l(2,5) boot_ready_same [OF r l(2,3)] heap_same_mapped(4) [OF l(2)]
    by (simp_all add: heap_same_def numeral_3_eq_3 numeral_2_eq_2)
  obtain q t1 where t1: "kinit_task ?k = Some t1" "started (next_pid ?k) q t1" "heap_ok t1 (insert (q - 16) A)" "q - 16 \<notin> A"
    "waits_at t1 (insert (q - 16) A) 1 (sym_idle_entry (syms ?k)) q" "boot_ready 2 t1" "syms t1 = syms ?k" "pmm_avail t1 \<subseteq> pmm_avail ?k"
    "io_in t1 = io_in ?k" "dev_same ?k t1"
    by (rule boot_scheduler [OF kA(1-3)])
  have r1: "boot_ready (Suc (Suc 0)) t1" using t1(6) by (simp add: numeral_2_eq_2)
  obtain a b t2 t3 where t3: "task_create (sym_thread_a (syms t1)) t1 = Some (Some 2, t2)" "task_create (sym_thread_b (syms s)) t2 = Some (Some 3, t3)"
    and ca: "created t1 (insert (q - 16) A) 2 (sym_thread_a (syms t1)) (kernel_task (next_pid t1) a (a + 8128) (task_at t1 2)) a t2"
    and cb: "created t2 (insert (a - 16) (insert (q - 16) A)) 3 (sym_thread_b (syms s)) (kernel_task (next_pid t2) b (b + 8128) (task_at t2 3)) b t3"
    and u3: "heap_ok t3 (insert (b - 16) (insert (a - 16) (insert (q - 16) A)))" "sched_inv t3" "sched_order t3 = [0, 1, 2, 3]" "find_slot t3 = Some 4"
      "boot_ready 0 t3" "syms t2 = syms t1" "syms t3 = syms t1" "pmm_avail t3 \<subseteq> pmm_avail t1"
    by (rule boot_threads [OF t1(3,2) r1])
  have l3: "uart_live t3" using u3(5) by (simp add: boot_ready_def)
  obtain t4 where t4: "syscall_init t3 = Some t4" "heap_same t3 t4" "io_in t4 = io_in t3" "free_list t4 = free_list t3"
    "task_table t4 = task_table t3" "current_task t4 = current_task t3" "ready_head t4 = ready_head t3" "ready_tail t4 = ready_tail t3" "dev_same t3 t4"
    by (rule syscall_init_quiet [OF l3])
  let ?B = "insert (b - 16) (insert (a - 16) (insert (q - 16) A))"
  note sc = sched_inv_cong [OF t4(5-8)]
  have r4: "boot_ready 0 t4" by (rule boot_ready_same [OF u3(5) t4(2,3)])
  have k4: "heap_ok t4 ?B" "sched_inv t4" "heap_room t4 12310" "uart_live t4" "find_slot t4 = Some 4"
    and low: "\<forall>f\<in>pmm_avail t4. unat f < 0x1FF000" and img: "carries_program t4"
    and fr: "9 \<le> card (pmm_avail t4)" "fits t4 TASK_STACK_SIZE \<or> 15 \<le> card (pmm_avail t4)"
    using heap_ok_same [OF t4(2,4)] u3(1-4) sc r4 program_placed_carried [of t4] by (auto simp: boot_ready_def)
  obtain r p t where t: "create_user_process t4 = Some t" "r \<in> pmm_avail t4"
    "created t4 ?B 4 (sym_enter_user_mode (syms t4)) (user_task 0x400000 0x80001000 0x200 r (next_pid t4) p (p + 8128) (task_at t4 4)) p t"
    "program_mapped r (pmm_avail t4) (mem t)" "stack_mapped r (pmm_avail t4) (mem t)"
    "\<forall>y. unat y < 0x800000000000 \<and> page_of y \<notin> {0x400000, 0x80000000} \<longrightarrow> mmu_walk (mem t) r y = None"
    using create_user_process_spec [OF k4 low img fr] by blast
  have sy: "syms t1 = syms s" "syms t4 = syms s" using kA(4) t1(7) u3(7) t4(2) by (simp_all add: heap_same_def)
  have run: "boot_services s = Some t" using l(1) t1(1) t3 t4(1) t(1) u3(6) sy by (simp add: boot_services_def)
  have av: "pmm_avail t4 \<subseteq> pmm_avail s" using heap_same_mapped(4) [OF t4(2)] u3(8) t1(8) kA(5) by simp
  have maps: "program_mapped r (pmm_avail s) (mem t)" "stack_mapped r (pmm_avail s) (mem t)"
    using mapped_kept [where P = UNIV and F = "pmm_avail t4" and F' = "pmm_avail s" and m = "mem t" and m' = "mem t" and r = r] t(4,5) av by auto
  let ?C = "insert (p - 16) ?B"
  have w1: "waits_at t ?C 1 (sym_idle_entry (syms s)) q"
    by (rule waits_other [OF waits_same [OF waits_other [OF waits_other [OF t1(5) ca] cb] t4(2,5)] t(3), unfolded kA(4)]) simp_all
  have wa: "waits_at t ?C 2 (sym_thread_a (syms s)) a"
    by (rule waits_other [OF waits_same [OF waits_other [OF waits_created [OF ca] cb] t4(2,5)] t(3), unfolded sy])
      (simp_all add: kernel_task_def)
  have wb: "waits_at t ?C 3 (sym_thread_b (syms s)) b"
    by (rule waits_other [OF waits_same [OF waits_created [OF cb] t4(2,5)] t(3)]) (simp_all add: kernel_task_def)
  have wu: "waits_at t ?C 4 (sym_enter_user_mode (syms s)) p"
    by (rule waits_created [OF t(3), unfolded sy]) (simp add: user_task_def)
  have blocks: "card {q - 16, a - 16, b - 16, p - 16} = 4 \<and> {q - 16, a - 16, b - 16, p - 16} \<inter> A = {}"
    using t1(4) ca cb t(3) by (intro four_blocks) (simp_all add: created_def)
  have B: "{p - 16, b - 16, a - 16, q - 16} \<union> A = ?C" by auto
  obtain n where n: "task_at t 4 = (user_task 0x400000 0x80001000 0x200 r (next_pid t4) p (p + 8128) (task_at t4 4))\<lparr>t_next := n\<rparr>"
    using t(3) by (auto simp: created_def enlisted_def)
  have "sched_order t = [0, 1, 2, 3, 4]" using created_order [OF t(3)] sc(3) u3(3) by simp
  moreover have "sched_inv t" "heap_ok t ?C" using t(3) by (auto simp: created_def enlisted_def)
  ultimately have "tasks_booted (syms s) A r t"
    unfolding tasks_booted_def Let_def using blocks w1 wa wb wu n
    by (intro conjI exI [of _ q] exI [of _ a] exI [of _ b] exI [of _ p]) (simp_all only: B, simp_all add: user_task_def)
  moreover have "kbd_installed s t"
    using kbd_installed_step [OF l(6) t1(9,10)] kbd_installed_created ca cb kbd_installed_step [OF _ t4(3,9)] t(3) by blast
  ultimately show ?thesis using run maps t(6) by blast
qed

section \<open>Paging and heap\<close>

text \<open>Building the tables writes to their own frames only.\<close>

lemma fill_outside:
  assumes "page_aligned p" "page_of a \<noteq> p" "\<forall>i\<in>set is. i < 512"
  shows "fill p f is m a = m a"
  using assms(3) by (induction "is" arbitrary: m) (simp_all add: fill_def store64_other_page small_index assms(1,2))

lemma fill2_outside:
  assumes "page_aligned p" "page_of a \<noteq> p" "page_aligned q" "page_of a \<noteq> q" "\<forall>i\<in>set is. i < 512"
  shows "fill2 p f q g is m a = m a"
  using assms(5) by (induction "is" arbitrary: m) (simp_all add: fill2_def store64_other_page small_index assms(1-4))

lemma zero_pages_outside: "page_of a \<notin> set ps \<Longrightarrow> fold zero_page ps m a = m a"
  by (induction ps arbitrary: m) (simp_all add: zero_page_def)

lemma init_memory_outside:
  assumes "\<forall>p\<in>set (static_tables y). page_aligned p" "page_of a \<notin> set (static_tables y)"
  shows "init_memory y m a = m a"
proof -
  have t: "page_aligned (frame_of (f y))" "page_of a \<noteq> frame_of (f y)"
    if "f \<in> {sym_pml4_new, sym_pdpt_id, sym_pdpt_hi, sym_pd_id, sym_pd_hi, sym_pt_hi_kernel, sym_pt_id_0, sym_pt_id_1}" for f
    using assms that by (auto simp: static_tables_def)
  show ?thesis
    unfolding init_memory_def Let_def entry_at_def [symmetric]
    using zero_pages_outside [OF assms(2)] t by (simp add: fill_outside fill2_outside store64_other_page [folded entry_at_def])
qed

text \<open>
  The machine when the frame allocator is up: the serial line works; the linker placed the tables and the program apart from each other, from the free frames
  and below the scratch page; 41 frames are free, all below the scratch page.
\<close>

definition kernel_loaded :: "'a heap_state_scheme \<Rightarrow> bool" where
  "kernel_loaded s \<longleftrightarrow> uart_live s \<and> tables_placed s \<and> (\<forall>p\<in>set (static_tables (syms s)). unat p < 0x1FF000) \<and>
     pmm_ready s \<and> pmm_avail s \<inter> set (static_tables (syms s)) = {} \<and> (\<forall>f\<in>pmm_avail s. unat f < 0x1FF000) \<and> 41 \<le> card (pmm_avail s) \<and>
     (\<exists>d. sym_test_elf (syms s) = d + HIGHER_HALF_BASE \<and> image_holds d test_elf s \<and> in_window d sizeof_test_elf \<and>
        image_pages d sizeof_test_elf \<inter> (pmm_avail s \<union> set (static_tables (syms s))) = {})"

lemma kernel_loaded_io:
  assumes "io_eq s t"
  shows "kernel_loaded t = kernel_loaded s"
proof -
  obtain l n where t: "t = s\<lparr>io_log := l, io_reads := n\<rparr>" using assms by (auto elim: io_eqE)
  have "pmm_ready t = pmm_ready s" "pmm_avail t = pmm_avail s" "tables_placed t = tables_placed s" "image_holds d bs t = image_holds d bs s" for d bs
    by (simp_all add: t pmm_ready_def pmm_inv_def frames_used_def frames_marked_def bitmap_test_def pmm_avail_def frames_free_def
        tables_placed_def window_def image_holds_def)
  then show ?thesis unfolding kernel_loaded_def by (simp add: t uart_live_def)
qed

lemma boot_tables_built:
  fixes s :: "'a heap_state_scheme"
  assumes "kernel_loaded s"
  obtains t where "paging_init s = Some t" "kernel_space t" "pmm_avail t = pmm_avail s" "rest_same s t"
    "\<And>f. page_aligned f \<Longrightarrow> f \<notin> pmm_avail s \<union> set (static_tables (syms s)) \<Longrightarrow> data_frame t f"
    "\<And>a. page_of a \<notin> set (static_tables (syms s)) \<Longrightarrow> mem t a = mem s a"
proof -
  let ?y = "syms s"
  note k = assms [unfolded kernel_loaded_def]
  have pl: "tables_placed s" "\<forall>p\<in>set (static_tables ?y). page_aligned p" using k by (auto simp: tables_placed_def window_def)
  have "0x1FF000 \<notin> pmm_avail s" using k by fastforce
  then obtain t where t: "paging_init s = Some t" "kernel_space t" "pmm_avail t = pmm_avail s"
    using init_kernel_space [of s] k by blast
  have teq: "t = s\<lparr>mem := init_memory ?y (mem s), new_pml4 := sym_pml4_new ?y, cr3 := frame_of (sym_pml4_new ?y)\<rparr>"
    using t(1) paging_init_eq [OF pl(1)] by simp
  have low: "\<forall>p \<in> {frame_of (sym_pdpt_hi ?y), frame_of (sym_pd_hi ?y), frame_of (sym_pt_hi_kernel ?y)}. unat p < 0x1FF000"
    using k by (simp add: static_tables_def)
  note m = init_kernel_mapped [OF pl(1) low t(1)]
  have "syms t = ?y" by (simp add: teq)
  then have kt: "ktables t \<subseteq> set (static_tables ?y)" unfolding ktables_def m(3) by (auto simp: static_tables_def)
  have df: "data_frame t f" if "page_aligned f" "f \<notin> pmm_avail s \<union> set (static_tables ?y)" for f
    using that kt t(3) m(2) by (auto simp: data_frame_def)
  have out: "mem t a = mem s a" if "page_of a \<notin> set (static_tables ?y)" for a
    using init_memory_outside [OF pl(2) that] by (simp add: teq)
  have "rest_same s t" by (simp add: teq rest_same_def dev_same_def)
  then show thesis using that t df out by blast
qed

lemma io_heap_same:
  assumes "io_eq s t"
  shows "heap_same s t" "rest_same s t" "free_list t = free_list s"
  using assms by (auto elim!: io_eqE simp: heap_same_def rest_same_def dev_same_def)

lemma screen_set_up:
  "heap_same s (khello_init (vga_set_higher_half s))" "rest_same s (khello_init (vga_set_higher_half s))"
  by (simp_all add: heap_same_def rest_same_def dev_same_def khello_init_def vga_set_higher_half_def)

lemma program_placed_apart:
  assumes "kernel_loaded s" "\<And>f. page_aligned f \<Longrightarrow> f \<notin> pmm_avail s \<union> set (static_tables (syms s)) \<Longrightarrow> foreign t f"
    "\<And>a. page_of a \<notin> pmm_avail s \<union> set (static_tables (syms s)) \<Longrightarrow> mem t a = mem s a" "syms t = syms s"
  shows "program_placed t"
proof -
  obtain d where d: "sym_test_elf (syms s) = d + HIGHER_HALF_BASE" "image_holds d test_elf s" "in_window d sizeof_test_elf"
    "image_pages d sizeof_test_elf \<inter> (pmm_avail s \<union> set (static_tables (syms s))) = {}"
    using assms(1) unfolding kernel_loaded_def by blast
  have "image_holds d test_elf t" by (rule image_holds_kept [OF d(2)], rule assms(3)) (use d(4) in blast)
  moreover have "foreign t f" if f: "f \<in> image_pages d sizeof_test_elf" for f
  proof (rule assms(2))
    show "page_aligned f" using f by (auto simp: image_pages_def)
    show "f \<notin> pmm_avail s \<union> set (static_tables (syms s))" using f d(4) by blast
  qed
  ultimately show ?thesis unfolding program_placed_def using d(1,3) assms(4) by auto
qed

lemma boot_paging_spec:
  fixes s :: "'a heap_state_scheme"
  assumes "kernel_loaded s"
  obtains t where "boot_paging s = Some (True, t)" "heap_ok t {}" "boot_ready 3 t" "rest_same s t" "pmm_avail t \<subseteq> pmm_avail s"
proof -
  have "uart_live s" using assms by (simp add: kernel_loaded_def)
  then obtain s1 where s1: "serial_puts (cstr ''[PRISM] PMM ok'' @ [10]) s = Some s1" "io_eq s s1" by (rule say_field)
  have kl: "kernel_loaded s1" "pmm_avail s1 = pmm_avail s" "syms s1 = syms s"
    using kernel_loaded_io [OF s1(2)] assms io_eq_same(5) [OF s1(2)] io_eqD [OF s1(2)] by simp_all
  note k = kl(1) [unfolded kernel_loaded_def]
  obtain s2 where s2: "paging_init s1 = Some s2" "kernel_space s2" "pmm_avail s2 = pmm_avail s1" "rest_same s1 s2"
    and df: "\<And>f. page_aligned f \<Longrightarrow> f \<notin> pmm_avail s1 \<union> set (static_tables (syms s1)) \<Longrightarrow> data_frame s2 f"
    and out: "\<And>a. page_of a \<notin> set (static_tables (syms s1)) \<Longrightarrow> mem s2 a = mem s1 a"
    by (rule boot_tables_built [OF kl(1)]) blast
  have "uart_live s2" using k s2(4) by (simp add: uart_live_def rest_same_def)
  then obtain s3 where s3: "serial_puts (cstr ''[PRISM] Paging ok'' @ [10]) s2 = Some s3" "io_eq s2 s3" "uart_live s3" by (rule say_field)
  let ?v = "khello_init (vga_set_higher_half s3)"
  have "uart_live ?v" using s3(3) screen_set_up(2) [of s3] by (simp add: uart_live_def rest_same_def)
  then obtain s5 where s5: "serial_puts (cstr ''[PRISM] VGA ok'' @ [10]) ?v = Some s5" "io_eq ?v s5" "uart_live s5" by (rule say_field)
  have hs: "heap_same s2 s5"
    by (rule heap_same_trans [OF io_heap_same(1) [OF s3(2)] heap_same_trans [OF screen_set_up(1) io_heap_same(1) [OF s5(2)]]])
  have rs: "rest_same s s5"
    by (rule rest_same_trans [OF rest_same_trans [OF io_heap_same(2) [OF s1(2)] s2(4)]
      rest_same_trans [OF io_heap_same(2) [OF s3(2)] rest_same_trans [OF screen_set_up(2) io_heap_same(2) [OF s5(2)]]]])
  have ks: "kernel_space s5" "pmm_avail s5 = pmm_avail s" using kernel_space_same [OF hs] s2(2,3) heap_same_mapped(4) [OF hs] kl(2) by simp_all
  have df5: "data_frame s5 f" if "page_aligned f" "f \<notin> pmm_avail s1 \<union> set (static_tables (syms s1))" for f
    using df [OF that] hs heap_same_mapped(4) [OF hs] by (simp add: data_frame_def heap_same_def ktables_def pd_used_def)
  obtain r s6 where "heap_init s5 = Some (r, s6)"
    "r = 0 \<and> heap_ok s6 {} \<and> heap_size s6 = 16384 \<and> rest_same s5 s6 \<and> heap_fresh s5 s6 \<or> r = - 1 \<and> card (pmm_avail s5) < 8"
    using heap_init_spec [OF ks(1)] by blast
  then have s6: "heap_init s5 = Some (0, s6)" "heap_ok s6 {}" "heap_size s6 = 16384" "rest_same s5 s6" "heap_fresh s5 s6"
    using k ks(2) kl(2) by auto
  have "uart_live s6" using s5(3) s6(4) by (simp add: uart_live_def rest_same_def)
  then obtain t where t: "serial_puts (cstr ''[PRISM] Heap ok'' @ [10]) s6 = Some t" "io_eq s6 t" "uart_live t" by (rule say_field)
  note th = io_heap_same [OF t(2)]
  have run: "boot_paging s = Some (True, t)" using s1(1) s2(1) s3(1) s5(1) s6(1) t(1) by (simp add: boot_paging_def)
  have ok: "heap_ok t {}" using heap_ok_same [OF th(1,3)] s6(2) by simp
  have rst: "rest_same s t" by (rule rest_same_trans [OF rest_same_trans [OF rs s6(4)] th(2)])
  have av: "pmm_avail t \<subseteq> pmm_avail s" "33 \<le> card (pmm_avail t)"
    using s6(5) ks(2) kl(2) k heap_same_mapped(4) [OF th(1)] by (auto simp: heap_fresh_def)
  have frg: "foreign t f" if "page_aligned f" "f \<notin> pmm_avail s1 \<union> set (static_tables (syms s1))" for f
    using s6(5) df5 [OF that] heap_same_foreign(1) [OF th(1)] by (simp add: heap_fresh_def)
  have keep: "mem t a = mem s1 a" if "page_of a \<notin> pmm_avail s1 \<union> set (static_tables (syms s1))" for a
    using s6(5) df5 [OF _ that] out [of a] that hs th(1) by (simp add: heap_fresh_def heap_same_def)
  have "syms t = syms s1" using rst kl(3) by (simp add: rest_same_def)
  then have "program_placed t" using frg keep by (intro program_placed_apart [OF kl(1)]) simp_all
  moreover have "heap_room t (12310 * 3 + 12310)"
    using heap_room_sample [OF s6(2,3), of "12310 * 3 + 12310"] th(1) by (simp add: heap_same_def)
  ultimately have "boot_ready 3 t" unfolding boot_ready_def using t(3) av k kl(2) by auto
  from that [OF run ok this rst av(1)] show thesis .
qed

section \<open>The end of the boot sequence\<close>

lemma fold_kprint_vga_eq: "vga_eq s (fold kprint ms s)"
proof (induction ms arbitrary: s)
  case (Cons m ms)
  show ?case using vga_eq_trans [OF kprint_vga_eq Cons.IH] by simp
qed simp

text \<open>It prints and sets the interrupt flag.\<close>

lemma boot_finish_eq:
  assumes "uart_live s"
  obtains c x y l n where "boot_finish ready s = Some (s\<lparr>vga_cells := c, vga_cursor_x := x, vga_cursor_y := y, io_log := l, io_reads := n,
    regs := (regs s)\<lparr>reg_rflags := reg_rflags (regs s) OR 0x200\<rparr>\<rparr>)"
proof -
  have "vga_eq s (banner ready s)" unfolding banner_def by (rule fold_kprint_vga_eq)
  then obtain c x y where b: "banner ready s = s\<lparr>vga_cells := c, vga_cursor_x := x, vga_cursor_y := y\<rparr>" by (rule vga_eqE)
  have "uart_live (banner ready s)" using assms by (simp add: b uart_live_def)
  then obtain u where u: "serial_puts (cstr ''[PRISM] Done.'' @ [10]) (banner ready s) = Some u" "io_eq (banner ready s) u" by (rule say_field)
  obtain l n where e: "u = (banner ready s)\<lparr>io_log := l, io_reads := n\<rparr>" using u(2) by (auto elim: io_eqE)
  obtain c' x' y' where p: "kprint prompt (sti u) = (sti u)\<lparr>vga_cells := c', vga_cursor_x := x', vga_cursor_y := y'\<rparr>"
    using kprint_vga_eq [of "sti u" prompt] by (rule vga_eqE)
  have "boot_finish ready s = Some (s\<lparr>vga_cells := c', vga_cursor_x := x', vga_cursor_y := y', io_log := l, io_reads := n,
      regs := (regs s)\<lparr>reg_rflags := reg_rflags (regs s) OR 0x200\<rparr>\<rparr>)"
    using u(1) p by (simp add: boot_finish_def sti_def e b)
  then show thesis by (rule that)
qed

lemma tasks_booted_same:
  assumes "tasks_booted S A r s" and h: "heap_same s t" "free_list t = free_list s"
    and q: "task_table t = task_table s" "current_task t = current_task s" "ready_head t = ready_head s" "ready_tail t = ready_tail s"
  shows "tasks_booted S A r t"
proof -
  have w: "waits_at t B x e p = waits_at s B x e p" for B x e p using q(1) heap_same_mapped(2) [OF h(1)] by (simp add: waits_at_def)
  show ?thesis using assms(1) unfolding tasks_booted_def w heap_ok_same [OF h] sched_inv_cong [OF q] q(1) .
qed

text \<open>From the frame allocator to the prompt.\<close>

lemma boot_kernel_spec:
  fixes s :: "'a syscall_state_scheme"
  assumes "kernel_loaded s" "ready_head s = None" "kbd_inv s" "length (irq_handlers s) = 16"
  shows "\<exists>r t. boot_kernel s = Some t \<and> tasks_booted (syms s) {} r t \<and>
    program_mapped r (pmm_avail s) (mem t) \<and> stack_mapped r (pmm_avail s) (mem t) \<and>
    (\<forall>y. unat y < 0x800000000000 \<and> page_of y \<notin> {0x400000, 0x80000000} \<longrightarrow> mmu_walk (mem t) r y = None) \<and>
    reg_rflags (regs t) AND 0x200 = 0x200 \<and> console_ready t \<and> irq_handlers t = (irq_handlers s)[1 := Some Keyboard_irq_handler]"
proof -
  obtain s1 where s1: "boot_paging s = Some (True, s1)" "heap_ok s1 {}" "boot_ready 3 s1" "rest_same s s1" "pmm_avail s1 \<subseteq> pmm_avail s"
    by (rule boot_paging_spec [OF assms(1)])
  have h: "ready_head s1 = None" "syms s1 = syms s"
    using s1(4) assms(2) by (simp_all add: rest_same_def task_state.simps) (cases s; cases s1; simp)
  obtain r s2 where s2: "boot_services s1 = Some s2" "tasks_booted (syms s1) {} r s2" "kbd_installed s1 s2"
    "program_mapped r (pmm_avail s1) (mem s2)" "stack_mapped r (pmm_avail s1) (mem s2)"
    "\<forall>y. unat y < 0x800000000000 \<and> page_of y \<notin> {0x400000, 0x80000000} \<longrightarrow> mmu_walk (mem s2) r y = None"
    using boot_services_spec [OF s1(2) h(1) s1(3)] by blast
  have dev: "io_in s2 = io_in s1" "uart_live s2" using s2(3) s1(3) by (simp_all add: kbd_installed_def boot_ready_def uart_live_def)
  obtain c x y l n where t: "boot_finish True s2 = Some (s2\<lparr>vga_cells := c, vga_cursor_x := x, vga_cursor_y := y, io_log := l, io_reads := n,
    regs := (regs s2)\<lparr>reg_rflags := reg_rflags (regs s2) OR 0x200\<rparr>\<rparr>)" (is "_ = Some ?t") by (rule boot_finish_eq [OF dev(2)])
  have run: "boot_kernel s = Some ?t" using s1(1) s2(1) t by (simp add: boot_kernel_def)
  have tb: "tasks_booted (syms s) {} r ?t"
    by (rule tasks_booted_same [OF s2(2) [unfolded h(2)]]) (simp_all add: heap_same_def)
  have maps: "program_mapped r (pmm_avail s) (mem ?t)" "stack_mapped r (pmm_avail s) (mem ?t)"
    using mapped_kept [where P = UNIV and F = "pmm_avail s1" and F' = "pmm_avail s" and m = "mem s2" and m' = "mem s2" and r = r] s2(4,5) s1(5) by auto
  have cr: "console_ready ?t"
    using s2(3) s1(4) assms(3,4) dev(2) by (simp add: console_ready_def kbd_installed_def rest_same_def dev_same_def kbd_inv_def uart_live_def)
  have irq: "irq_handlers ?t = (irq_handlers s)[1 := Some Keyboard_irq_handler]"
    using s2(3) s1(4) by (simp add: kbd_installed_def rest_same_def dev_same_def)
  have "(f OR 0x200) AND 0x200 = (0x200 :: u64)" for f by (rule bit_word_eqI) (auto simp: bit_simps)
  with run tb maps s2(6) cr irq show ?thesis by (intro exI [of _ r] exI [of _ ?t]) simp
qed

end
