(* ===== verification/Prism_Main.thy ===== *)
theory Prism_Main
  imports Prism_Boot
begin

text \<open>
  The kernel from its entry point to the prompt: \<open>kernel_main\<close> of \<^verbatim>\<open>kernel/kernel.c\<close>, with the memory map that the boot loader passes.
\<close>

section \<open>The memory map\<close>

abbreviation memory_map :: "memory \<Rightarrow> u32 \<Rightarrow> mmap_entry list" where
  "memory_map mbi off \<equiv> map (\<lambda>i. mmap_entry_at mbi (ucast off + 16) (of_nat i))
     [0..<unat ((load32 mbi (ucast off + 4) - 16) div load32 mbi (ucast off + 8))]"

text \<open>The frames that the memory map gives and that neither the kernel nor its bitmap takes.\<close>

definition usable_frames :: "mmap_entry list \<Rightarrow> 'a pmm_state_scheme \<Rightarrow> u64 set" where
  "usable_frames es s = {f. f < total_frames (pmm_init_sizes es s) \<and> reserved_end (pmm_init_sizes es s) \<le> 4096 * unat f \<and>
     (\<forall>e\<in>set es. entry_type e \<noteq> MULTIBOOT2_MEMORY_AVAILABLE \<longrightarrow> f \<notin> entry_frames e)}"

lemma pmm_init_shape:
  assumes "multiboot2_find_tag mbi 6 = Some (Some off)" "load32 mbi (ucast off + 8) \<noteq> 0" "uart_live s" "pmm_init mbi s = Some t"
  obtains b u l n where "t = (pmm_init_sizes (memory_map mbi off) s)\<lparr>bitmap := b, used_frames := u, io_log := l, io_reads := n\<rparr>"
proof -
  from assms(1-3) obtain es s1 s6 t' where es: "es = memory_map mbi off" and r: "s1 = pmm_init_sizes es s"
    "io_eq (pmm_mark_region (bitmap_addr s1) (bitmap_bytes s1) True s1) s6" "t' = pmm_init_regions es s6" "pmm_init mbi s = Some t'"
    by (rule pmm_init_result)
  let ?s2 = "pmm_mark_region (bitmap_addr s1) (bitmap_bytes s1) True s1"
  obtain b1 u1 where s2: "?s2 = s1\<lparr>bitmap := b1, used_frames := u1\<rparr>" using pmm_mark_region_eq by (rule bitmap_eqE)
  obtain l n where s6: "s6 = ?s2\<lparr>io_log := l, io_reads := n\<rparr>" using r(2) by (rule io_eqE)
  obtain b2 u2 where t: "pmm_init_regions es s6 = s6\<lparr>bitmap := b2, used_frames := u2\<rparr>" using pmm_init_regions_eq by (rule bitmap_eqE)
  have "t = s6\<lparr>bitmap := b2, used_frames := u2\<rparr>" using r(3,4) assms(4) t by simp
  then have "t = (pmm_init_sizes (memory_map mbi off) s)\<lparr>bitmap := b2, used_frames := u2, io_log := l, io_reads := n\<rparr>"
    using s6 s2 r(1) es by simp
  then show thesis by (rule that)
qed

lemma avail_address:
  assumes "pmm_inv s" "a \<in> pmm_avail s"
  obtains f where "f \<in> frames_free s" "a = PMM_FRAME_TO_ADDR f" "unat a = 4096 * unat f"
  using assms unat_frame_to_addr [OF frames_free_bound] by (auto simp: pmm_avail_def)

lemma card_avail: 
  assumes "pmm_inv s"
  shows "card (pmm_avail s) = card (frames_free s)"
  unfolding pmm_avail_def
proof (rule card_image, rule inj_onI)
  fix x y assume "x \<in> frames_free s" "y \<in> frames_free s" "PMM_FRAME_TO_ADDR x = PMM_FRAME_TO_ADDR y"
  then show "x = y" using unat_frame_to_addr [OF frames_free_bound [OF assms]] by (metis mult_cancel1 word_unat_eq_iff zero_neq_numeral)
qed

lemma pmm_init_avail:
  assumes m: "multiboot2_find_tag mbi 6 = Some (Some off)" "load32 mbi (ucast off + 8) \<noteq> 0"
    and s: "uart_live s" "kernel_placed s" "bitmap s = (\<lambda>_. 0)" "used_frames s = 0"
    and some: "usable_frames (memory_map mbi off) s \<noteq> {}"
  obtains t b u l n where "pmm_init mbi s = Some t" "pmm_ready t"
    "t = (pmm_init_sizes (memory_map mbi off) s)\<lparr>bitmap := b, used_frames := u, io_log := l, io_reads := n\<rparr>"
    "\<And>a. a \<in> pmm_avail t \<Longrightarrow> unat (kernel_phys_end s) \<le> unat a \<and> unat a < 4096 * unat (total_frames t)"
    "card (usable_frames (memory_map mbi off) s) \<le> card (pmm_avail t)"
proof -
  obtain t where t: "pmm_init mbi s = Some t" "pmm_inv t" "bitmap_addr t = kernel_phys_end s"
    and marked: "\<And>f. f < total_frames t \<Longrightarrow> 4096 * unat f < reserved_end t \<Longrightarrow> f \<in> frames_marked t"
    using pmm_init_reserved [OF m s] by blast
  obtain b u l n where sh: "t = (pmm_init_sizes (memory_map mbi off) s)\<lparr>bitmap := b, used_frames := u, io_log := l, io_reads := n\<rparr>"
    by (rule pmm_init_shape [OF m s(1) t(1)])
  have eq: "total_frames t = total_frames (pmm_init_sizes (memory_map mbi off) s)" "reserved_end t = reserved_end (pmm_init_sizes (memory_map mbi off) s)"
    by (simp_all add: sh reserved_end_def bitmap_bytes_def)
  have "usable_frames (memory_map mbi off) s \<subseteq> frames_free t"
  proof
    fix f assume f: "f \<in> usable_frames (memory_map mbi off) s"
    then have "\<forall>e\<in>set (memory_map mbi off). entry_type e \<noteq> MULTIBOOT2_MEMORY_AVAILABLE \<longrightarrow> f \<notin> entry_frames e" by (simp add: usable_frames_def)
    then show "f \<in> frames_free t"
      using f by (intro pmm_init_leaves_free [OF m s(1-3) t(1)]) (simp_all add: usable_frames_def eq)
  qed
  then have "card (usable_frames (memory_map mbi off) s) \<le> card (pmm_avail t)"
    unfolding card_avail [OF t(2)] by (intro card_mono) simp_all
  moreover have "unat (kernel_phys_end s) \<le> unat a \<and> unat a < 4096 * unat (total_frames t)" if a: "a \<in> pmm_avail t" for a
  proof -
    obtain f where f: "f \<in> frames_free t" "unat a = 4096 * unat f" by (rule avail_address [OF t(2) a]) blast
    then have "\<not> 4096 * unat f < reserved_end t" "f < total_frames t" using marked [of f] by (auto simp: frames_free_def)
    then show ?thesis using f(2) t(3) by (simp add: reserved_end_def word_less_nat_alt)
  qed
  moreover have "0 < total_frames t" using some unfolding usable_frames_def eq by (auto simp: word_less_nat_alt)
  then have "pmm_ready t" using marked [of 0] t(2,3) s(2) by (simp add: pmm_ready_def reserved_end_def kernel_placed_def)
  ultimately show thesis using that t(1) sh by blast
qed

section \<open>The processor\<close>

text \<open>Before there is any memory to manage, the code sets up descriptor tables, interrupt controllers, timer, screen and serial line, and nothing else.\<close>

definition cpu_kept :: "'a irq_state_scheme \<Rightarrow> 'a irq_state_scheme \<Rightarrow> bool" where
  "cpu_kept s t \<longleftrightarrow> mem t = mem s \<and> cr3 t = cr3 s \<and> syms t = syms s \<and> io_in t = io_in s \<and> bitmap t = bitmap s \<and> used_frames t = used_frames s \<and>
     total_frames t = total_frames s \<and> irq_handlers t = irq_handlers s \<and> irq_state.more t = irq_state.more s"

lemma cpu_kept_trans: "cpu_kept s t \<Longrightarrow> cpu_kept t u \<Longrightarrow> cpu_kept s u"
  by (simp add: cpu_kept_def)

lemma cpu_kept_live: "cpu_kept s t \<Longrightarrow> uart_live s \<Longrightarrow> uart_live t"
  by (simp add: cpu_kept_def uart_live_def)

lemma cpu_kept_vga: "vga_eq s t \<Longrightarrow> cpu_kept s t"
  by (erule vga_eqE) (simp add: cpu_kept_def)

lemma cpu_kept_out: "cpu_kept s t \<Longrightarrow> cpu_kept s (outb p v t)"
  by (simp add: cpu_kept_def outb_def)

lemma cpu_kept_refl [simp]: "cpu_kept s s"
  by (simp add: cpu_kept_def)

lemma say_kept:
  assumes "cpu_kept s t" "uart_live s"
  obtains u where "serial_puts cs t = Some u" "cpu_kept s u"
proof -
  obtain u where u: "serial_puts cs t = Some u" "io_eq t u" by (rule say_field [OF cpu_kept_live [OF assms]])
  have "cpu_kept t u" using u(2) by (auto elim!: io_eqE simp: cpu_kept_def)
  with u(1) assms(1) show thesis by (blast intro: that cpu_kept_trans)
qed

lemma kinit_gdt_kept:
  assumes "cpu_kept s t"
  obtains u where "kinit_gdt t = Some u" "cpu_kept s u"
  using that [OF kinit_gdt_eq [of t]] assms by (simp add: cpu_kept_def)

lemma kinit_idt_kept:
  assumes "cpu_kept s t" "total_frames s = 0"
  obtains u where "kinit_idt t = Some u" "cpu_kept s u"
proof -
  have "total_frames t = 0" using assms by (simp add: cpu_kept_def)
  then obtain r es c x y where "kinit_idt t = Some (t\<lparr>idt_register := r, idt_entries := es,
    tss_value := (tss_value t)\<lparr>tss_ist1 := 0, tss_ist2 := 0, tss_ist3 := 0\<rparr>, cpu_idtr := r, vga_cells := c, vga_cursor_x := x, vga_cursor_y := y\<rparr>)"
    by (rule kinit_idt_empty)
  then show thesis by (rule that) (use assms(1) in \<open>simp add: cpu_kept_def\<close>)
qed

lemma kinit_pic_kept: "cpu_kept s t \<Longrightarrow> cpu_kept s (kinit_pic t)"
  unfolding kinit_pic_def Let_def by (rule cpu_kept_trans [OF _ cpu_kept_vga [OF kprint_vga_eq]]) (simp add: cpu_kept_out)

lemma kinit_timer_kept:
  fixes t :: "'a timer_state_scheme"
  assumes "cpu_kept s t"
  shows "cpu_kept (s\<lparr>irq_handlers := (irq_handlers s)[0 := Some Timer_irq_handler]\<rparr>) (kinit_timer t)"
  unfolding kinit_timer_def Let_def
  by (rule cpu_kept_trans [OF _ cpu_kept_vga [OF kprint_vga_eq]]) (use assms in \<open>simp add: isr_register_irq_def cpu_kept_def outb_def\<close>)

lemma boot_cpu_spec:
  fixes s :: "'a timer_state_scheme"
  assumes "uart_live s" "total_frames s = 0"
  obtains t where "boot_cpu s = Some t" "cpu_kept (s\<lparr>irq_handlers := (irq_handlers s)[0 := Some Timer_irq_handler]\<rparr>) t"
proof -
  let ?h = "s\<lparr>irq_handlers := (irq_handlers s)[0 := Some Timer_irq_handler]\<rparr>"
  have k0: "cpu_kept s (serial_init s)" by (simp add: serial_init_def cpu_kept_out)
  obtain s1 where s1: "serial_puts (cstr ''[PRISM] serial OK'' @ [10]) (serial_init s) = Some s1" "cpu_kept s s1" by (rule say_kept [OF k0 assms(1)])
  obtain s2 where s2: "kinit_gdt s1 = Some s2" "cpu_kept s s2" by (rule kinit_gdt_kept [OF s1(2)])
  obtain s3 where s3: "serial_puts (cstr ''[PRISM] GDT ok'' @ [10]) s2 = Some s3" "cpu_kept s s3" by (rule say_kept [OF s2(2) assms(1)])
  obtain s4 where s4: "kinit_idt s3 = Some s4" "cpu_kept s s4" by (rule kinit_idt_kept [OF s3(2) assms(2)])
  obtain s5 where s5: "serial_puts (cstr ''[PRISM] IDT ok'' @ [10]) s4 = Some s5" "cpu_kept s s5" by (rule say_kept [OF s4(2) assms(1)])
  obtain s6 where s6: "serial_puts (cstr ''[PRISM] PIC ok'' @ [10]) (kinit_pic s5) = Some s6" "cpu_kept s s6"
    by (rule say_kept [OF kinit_pic_kept [OF s5(2)] assms(1)])
  have "uart_live ?h" using assms(1) by (simp add: uart_live_def)
  then obtain t where t: "serial_puts (cstr ''[PRISM] Timer ok'' @ [10]) (kinit_timer s6) = Some t" "cpu_kept ?h t"
    by (rule say_kept [OF kinit_timer_kept [OF s6(2)]])
  have "boot_cpu s = Some t" using s1(1) s2(1) s3(1) s4(1) s5(1) s6(1) t(1) by (simp add: boot_cpu_def Let_def del: append.simps)
  then show thesis using t(2) by (rule that)
qed

section \<open>The whole boot\<close>

text \<open>
  The machine at the entry of \<open>kernel_main\<close>: the serial line works, the linker placed the static tables and the program inside the kernel image
  and the image below the scratch page, and the static variables are cleared.
\<close>

definition machine_started :: "'a heap_state_scheme \<Rightarrow> bool" where
  "machine_started s \<longleftrightarrow> uart_live s \<and> kernel_placed s \<and> unat (kernel_phys_end s) \<le> 0x1FF000 \<and> tables_placed s \<and>
     (\<forall>p\<in>set (static_tables (syms s)). unat p < unat (kernel_phys_end s)) \<and>
     total_frames s = 0 \<and> used_frames s = 0 \<and> bitmap s = (\<lambda>_. 0) \<and>
     (\<exists>d. sym_test_elf (syms s) = d + HIGHER_HALF_BASE \<and> image_holds d test_elf s \<and>
        unat d + unat sizeof_test_elf \<le> unat (kernel_phys_end s) \<and> image_pages d sizeof_test_elf \<inter> set (static_tables (syms s)) = {})"

lemma machine_started_kept:
  assumes "machine_started s" "cpu_kept (s\<lparr>irq_handlers := h\<rparr>) t"
  shows "machine_started t"
  using assms by (simp add: machine_started_def cpu_kept_def uart_live_def kernel_placed_def kernel_phys_end_def tables_placed_def window_def image_holds_def)

lemma usable_frames_kept: "syms t = syms s \<Longrightarrow> usable_frames es t = usable_frames es s"
  by (simp add: usable_frames_def pmm_init_sizes_def reserved_end_def bitmap_bytes_def Let_def)

lemma image_page_below:
  assumes "f \<in> image_pages d sz" "unat d + unat sz \<le> n"
  shows "unat f < n"
proof -
  obtain i where i: "i < unat sz" "f = page_of (d + of_nat i)" using assms(1) by (auto simp: image_pages_def)
  have "unat f \<le> unat (d + of_nat i)" unfolding i(2) page_of_def word_le_nat_alt [symmetric] by (rule word_and_le2)
  also have "\<dots> \<le> unat d + i" by (simp add: unat_word_ariths unat_of_nat mod_add_right_eq)
  finally show ?thesis using i(1) assms(2) by simp
qed

lemma started_loaded:
  fixes s :: "'a heap_state_scheme"
  assumes m: "machine_started s" "multiboot2_find_tag mbi 6 = Some (Some off)" "load32 mbi (ucast off + 8) \<noteq> 0"
    and mm: "unat (total_frames (pmm_init_sizes (memory_map mbi off) s)) \<le> 0x1FF" "41 \<le> card (usable_frames (memory_map mbi off) s)"
  obtains t where "pmm_init mbi s = Some t" "kernel_loaded t" "rest_same s t" "heap_state.more t = heap_state.more s"
    "\<And>a. a \<in> pmm_avail t \<Longrightarrow> unat (kernel_phys_end s) \<le> unat a \<and> unat a < 0x1FF000"
proof -
  have st: "uart_live s" "kernel_placed s" "bitmap s = (\<lambda>_. 0)" "used_frames s = 0" "unat (kernel_phys_end s) \<le> 0x1FF000" "tables_placed s"
    and tabs: "\<And>p. p \<in> set (static_tables (syms s)) \<Longrightarrow> unat p < unat (kernel_phys_end s)"
    using m(1) by (simp_all add: machine_started_def)
  have some: "usable_frames (memory_map mbi off) s \<noteq> {}" using mm(2) by auto
  obtain t b u l n where t: "pmm_init mbi s = Some t" "pmm_ready t"
    "t = (pmm_init_sizes (memory_map mbi off) s)\<lparr>bitmap := b, used_frames := u, io_log := l, io_reads := n\<rparr>"
    "\<And>a. a \<in> pmm_avail t \<Longrightarrow> unat (kernel_phys_end s) \<le> unat a \<and> unat a < 4096 * unat (total_frames t)"
    "card (usable_frames (memory_map mbi off) s) \<le> card (pmm_avail t)"
    by (rule pmm_init_avail [OF m(2,3) st(1-4) some]) blast
  have same: "mem t = mem s" "cr3 t = cr3 s" "syms t = syms s" "io_in t = io_in s" by (simp_all add: t(3) pmm_init_sizes_def Let_def)
  have rs: "rest_same s t" by (simp add: t(3) pmm_init_sizes_def Let_def rest_same_def dev_same_def)
  have tf: "unat (total_frames t) \<le> 0x1FF" using mm(1) by (simp add: t(3))
  have av: "unat (kernel_phys_end s) \<le> unat a \<and> unat a < 0x1FF000" if "a \<in> pmm_avail t" for a
    using t(4) [OF that] tf by linarith
  have low: "x \<notin> pmm_avail t" if "unat x < unat (kernel_phys_end s)" for x using av [of x] that by linarith
  obtain d where d: "sym_test_elf (syms s) = d + HIGHER_HALF_BASE" "image_holds d test_elf s"
    "unat d + unat sizeof_test_elf \<le> unat (kernel_phys_end s)" "image_pages d sizeof_test_elf \<inter> set (static_tables (syms s)) = {}"
    using m(1) unfolding machine_started_def by blast
  have dp: "image_pages d sizeof_test_elf \<inter> (pmm_avail t \<union> set (static_tables (syms s))) = {}"
    using d(4) low image_page_below [OF _ d(3)] by blast
  have "kernel_loaded t"
    unfolding kernel_loaded_def same
  proof (intro conjI)
    show "uart_live t" "tables_placed t" using st(1,6) by (simp_all add: uart_live_def tables_placed_def window_def same)
    show "\<forall>p\<in>set (static_tables (syms s)). unat p < 0x1FF000" using tabs st(5) by (meson order_less_le_trans)
    show "pmm_ready t" by (rule t(2))
    show "pmm_avail t \<inter> set (static_tables (syms s)) = {}" using low tabs by blast
    show "\<forall>f\<in>pmm_avail t. unat f < 0x1FF000" using av by blast
    show "41 \<le> card (pmm_avail t)" using t(5) mm(2) by simp
    show "\<exists>d. sym_test_elf (syms s) = d + HIGHER_HALF_BASE \<and> image_holds d test_elf t \<and> in_window d sizeof_test_elf \<and>
        image_pages d sizeof_test_elf \<inter> (pmm_avail t \<union> set (static_tables (syms s))) = {}"
      using d(1-3) dp st(5) by (intro exI [of _ d]) (simp add: image_holds_def in_window_def same)
  qed
  then show thesis using that [OF t(1) _ rs _ av] rs by (simp add: rest_same_def)
qed

text \<open>
  C1. The kernel boots: on a machine as \<open>machine_started\<close> describes it, whose memory map ends below the scratch frame 0x1FF000 and gives 41 frames above the kernel,
  \<open>kernel_main\<close> never faults and reaches the prompt. Then five tasks are in order; the idle task, both threads and the user process wait at their entry points on
  four separate stacks of the heap; the address space of the user process has the program at 0x400000 and an empty stack at 0x80000000, both outside the
  kernel, and nothing else; timer and keyboard handlers are installed, interrupts are enabled and the console is ready to echo keys.
\<close>

theorem kernel_main_boots:
  fixes s :: "'a syscall_state_scheme"
  assumes m: "machine_started s" "multiboot2_find_tag mbi 6 = Some (Some off)" "load32 mbi (ucast off + 8) \<noteq> 0"
    and mm: "unat (total_frames (pmm_init_sizes (memory_map mbi off) s)) \<le> 0x1FF" "41 \<le> card (usable_frames (memory_map mbi off) s)"
    and bss: "ready_head s = None" "kbd_inv s" "length (irq_handlers s) = 16"
  shows "\<exists>r t. kernel_main mbi s = Some t \<and> tasks_booted (syms s) {} r t \<and>
    (let F = {f. unat (kernel_phys_end s) \<le> unat f \<and> unat f < 0x1FF000} in program_mapped r F (mem t) \<and> stack_mapped r F (mem t)) \<and>
    (\<forall>y. unat y < 0x800000000000 \<and> page_of y \<notin> {0x400000, 0x80000000} \<longrightarrow> mmu_walk (mem t) r y = None) \<and>
    irq_handlers t ! 0 = Some Timer_irq_handler \<and> reg_rflags (regs t) AND 0x200 = 0x200 \<and> console_ready t"
proof -
  let ?h = "(irq_handlers s)[0 := Some Timer_irq_handler]" and ?F = "{f :: u64. unat (kernel_phys_end s) \<le> unat f \<and> unat f < 0x1FF000}"
  have live: "uart_live s" "total_frames s = 0" using m(1) by (simp_all add: machine_started_def)
  obtain s1 where s1: "boot_cpu s = Some s1" "cpu_kept (s\<lparr>irq_handlers := ?h\<rparr>) s1" by (rule boot_cpu_spec [OF live])
  have k1: "machine_started s1" "syms s1 = syms s" "irq_handlers s1 = ?h" "irq_state.more s1 = irq_state.more s"
    using machine_started_kept [OF m(1) s1(2)] s1(2) by (simp_all add: cpu_kept_def)
  have b1: "ready_head s1 = None" "kbd_inv s1" "kernel_phys_end s1 = kernel_phys_end s"
    using k1(2,4) bss(1,2) by (simp_all add: kbd_inv_def kernel_phys_end_def) (cases s; cases s1; simp)+
  have mm1: "unat (total_frames (pmm_init_sizes (memory_map mbi off) s1)) \<le> 0x1FF" "41 \<le> card (usable_frames (memory_map mbi off) s1)"
    using mm usable_frames_kept [OF k1(2)] by (simp_all add: pmm_init_sizes_def Let_def)
  obtain s2 where s2: "pmm_init mbi s1 = Some s2" "kernel_loaded s2" "rest_same s1 s2" "heap_state.more s2 = heap_state.more s1"
    and av: "\<And>a. a \<in> pmm_avail s2 \<Longrightarrow> unat (kernel_phys_end s1) \<le> unat a \<and> unat a < 0x1FF000"
    by (rule started_loaded [OF k1(1) m(2,3) mm1]) blast
  have b2: "ready_head s2 = None" "kbd_inv s2" "irq_handlers s2 = ?h" "syms s2 = syms s"
    using s2(3) b1(1,2) k1(2,3) by (simp_all add: rest_same_def dev_same_def kbd_inv_def) (cases s1; cases s2; simp)
  have len: "length (irq_handlers s2) = 16" using b2(3) bss(3) by simp
  obtain r t where t: "boot_kernel s2 = Some t" "tasks_booted (syms s2) {} r t"
    "program_mapped r (pmm_avail s2) (mem t)" "stack_mapped r (pmm_avail s2) (mem t)"
    "\<forall>y. unat y < 0x800000000000 \<and> page_of y \<notin> {0x400000, 0x80000000} \<longrightarrow> mmu_walk (mem t) r y = None"
    "reg_rflags (regs t) AND 0x200 = 0x200" "console_ready t" "irq_handlers t = (irq_handlers s2)[1 := Some Keyboard_irq_handler]"
    using boot_kernel_spec [OF s2(2) b2(1,2) len] by blast
  have maps: "program_mapped r ?F (mem t)" "stack_mapped r ?F (mem t)"
    using mapped_kept [where P = UNIV and F = "pmm_avail s2" and F' = ?F and m = "mem t" and m' = "mem t" and r = r] t(3,4) av unfolding b1(3) by auto
  have "irq_handlers t ! 0 = Some Timer_irq_handler" using t(8) b2(3) bss(3) by simp
  moreover have "kernel_main mbi s = Some t" using s1(1) s2(1) t(1) by (simp add: kernel_main_def)
  ultimately show ?thesis using t(2,5-7) maps unfolding b2(4) Let_def by (intro exI [of _ r] exI [of _ t]) simp
qed

section \<open>A small machine\<close>

text \<open>Boot information with two regions: 636 KiB of conventional memory and the memory from 1 MiB to 0x1F0000.\<close>

definition small_mbi_bytes :: "u8 list" where
  "small_mbi_bytes =
    [80, 0, 0, 0, 0, 0, 0, 0,
     6, 0, 0, 0, 64, 0, 0, 0, 24, 0, 0, 0, 0, 0, 0, 0,
     0, 0, 0, 0, 0, 0, 0, 0,      0, 0xF0, 0x09, 0, 0, 0, 0, 0,  1, 0, 0, 0, 0, 0, 0, 0,
     0, 0, 0x10, 0, 0, 0, 0, 0,   0, 0, 0x0F, 0, 0, 0, 0, 0,     1, 0, 0, 0, 0, 0, 0, 0]"

definition small_mbi :: memory where
  "small_mbi a = (if a < 80 then small_mbi_bytes ! unat a else 0)"

lemma small_mbi_tag:
  "multiboot2_find_tag small_mbi 6 = Some (Some 8)" "load32 small_mbi (ucast (8 :: u32) + 8) = 24" "load32 small_mbi (ucast (8 :: u32) + 4) = 64"
  by (simp_all add: multiboot2_find_tag_def find_tag_loop.simps [of _ _ 8] load32_def small_mbi_def small_mbi_bytes_def)

lemma small_mbi_map:
  "memory_map small_mbi 8 = [\<lparr>base_addr = 0, entry_length = 0x9F000, entry_type = 1\<rparr>, \<lparr>base_addr = 0x100000, entry_length = 0xF0000, entry_type = 1\<rparr>]"
proof -
  have "[0..<2] = [0, 1 :: nat]" by (simp add: upt_rec)
  then show ?thesis
    unfolding small_mbi_tag
    by (simp add: mmap_entry_at_def Let_def load64_def load32_def small_mbi_def small_mbi_bytes_def)
qed

definition boot_sample :: syscall_state where
  "boot_sample = (put_image 0x10C000 test_elf syscall_sample)\<lparr>bitmap := \<lambda>_. 0, total_frames := 0, used_frames := 0, irq_handlers := replicate 16 None\<rparr>"

lemma boot_sample_fields:
  "syms boot_sample = boot_syms" "cr3 boot_sample = 0x101000" "uart_live boot_sample" "ready_head boot_sample = None" "kbd_inv boot_sample"
  "length (irq_handlers boot_sample) = 16"
  using syscall_sample_like
  by (simp_all add: boot_sample_def put_image_def like_sample_def uart_live_def kbd_inv_def paging_sample_def)
    (simp_all add: syscall_sample_def syscall_state.defs timer_sample_def timer_state.defs task_sample_defs)

lemma boot_sample_memory:
  "image_holds 0x10C000 test_elf boot_sample" "tables_placed boot_sample"
proof -
  let ?d = "0x10C000 :: u64" and ?P = "set (static_tables boot_syms)"
  have al: "page_aligned ?d" by (simp add: page_of_def del: and_neg_4096)
  have len: "length test_elf \<le> 4096" by (simp add: test_elf_length)
  note pi = put_image_page [OF al len, where s = syscall_sample]
  have m: "mem boot_sample = mem (put_image ?d test_elf syscall_sample)" by (simp add: boot_sample_def)
  show "image_holds ?d test_elf boot_sample" using pi(1) by (simp add: image_holds_def m)
  have b: "mem syscall_sample = boot_tables" "cr3 syscall_sample = 0x101000"
    using syscall_sample_like(1) by (simp_all add: like_sample_def paging_sample_def)
  have "window (insert ?d ?P) syscall_sample"
    by (rule boot_window [OF _ _ b]) (simp_all add: boot_static_tables page_of_def del: and_neg_4096)
  then have "window (insert ?d ?P) (syscall_sample\<lparr>mem := mem boot_sample\<rparr>)" by (rule window_cong) (use pi(2) m in auto)
  moreover have "cr3 syscall_sample = cr3 boot_sample" by (simp add: boot_sample_def put_image_def)
  ultimately show "tables_placed boot_sample"
    by (auto simp: tables_placed_def window_def boot_sample_fields(1) boot_static_tables)
qed

lemma boot_sample_started: "machine_started boot_sample"
proof -
  have e: "kernel_phys_end boot_sample = 0x120000" by (simp add: kernel_phys_end_def boot_sample_fields boot_syms_def)
  have "\<exists>d. sym_test_elf (syms boot_sample) = d + HIGHER_HALF_BASE \<and> image_holds d test_elf boot_sample \<and>
      unat d + unat sizeof_test_elf \<le> unat (kernel_phys_end boot_sample) \<and> image_pages d sizeof_test_elf \<inter> set (static_tables (syms boot_sample)) = {}"
    using boot_sample_memory(1)
    by (intro exI [of _ "0x10C000"]) (simp add: boot_sample_fields boot_static_tables sample_image_pages(1) e, simp add: boot_syms_def sizeof_test_elf_def)
  then show ?thesis
    unfolding machine_started_def
    using boot_sample_fields boot_sample_memory(2) e by (simp add: kernel_placed_def boot_static_tables) (simp add: boot_sample_def)
qed

lemma boot_sample_map:
  "unat (total_frames (pmm_init_sizes (memory_map small_mbi 8) boot_sample)) \<le> 0x1FF" "41 \<le> card (usable_frames (memory_map small_mbi 8) boot_sample)"
proof -
  let ?s = "pmm_init_sizes (memory_map small_mbi 8) boot_sample"
  have t: "total_frames ?s = 0x1F0" "bitmap_addr ?s = 0x120000"
    unfolding small_mbi_map by (simp_all add: pmm_init_sizes_def max_addr_step_def Let_def PMM_FRAME_SIZE_def MAX_FRAMES_def boot_sample_fields boot_syms_def)
  then show "unat (total_frames ?s) \<le> 0x1FF" by simp
  have re: "reserved_end ?s = 0x120040" using t by (simp add: reserved_end_def bitmap_bytes_def)
  let ?F = "of_nat ` {0x121..<0x1F0} :: u64 set"
  have av: "\<forall>e\<in>set (memory_map small_mbi 8). entry_type e = MULTIBOOT2_MEMORY_AVAILABLE"
    unfolding small_mbi_map by (simp add: MULTIBOOT2_MEMORY_AVAILABLE_def)
  have u: "unat (of_nat k :: u64) = k" if "k < 0x1F0" for k using that by (simp add: unat_of_nat)
  have "?F \<subseteq> usable_frames (memory_map small_mbi 8) boot_sample"
    unfolding usable_frames_def t re using u av by (auto simp: word_less_nat_alt)
  then have "card ?F \<le> card (usable_frames (memory_map small_mbi 8) boot_sample)" by (intro card_mono) simp_all
  moreover have "inj_on (of_nat :: nat \<Rightarrow> u64) {0x121..<0x1F0}" using u by (metis atLeastLessThan_iff inj_onI)
  ultimately show "41 \<le> card (usable_frames (memory_map small_mbi 8) boot_sample)" by (simp add: card_image)
qed

theorem kernel_main_boots_witness:
  "\<exists>r t a. kernel_main small_mbi boot_sample = Some t \<and> sched_order t = [0, 1, 2, 3, 4] \<and> t_ring (task_at t 4) = 3 \<and>
     t_user_rip (task_at t 4) = 0x400000 \<and> mmu_walk (mem t) r 0x400000 = Some a \<and> mem t a = 0x90 \<and> console_ready t"
proof -
  have ne: "load32 small_mbi (ucast (8 :: u32) + 8) \<noteq> 0" unfolding small_mbi_tag by simp
  obtain r t where t: "kernel_main small_mbi boot_sample = Some t" "tasks_booted (syms boot_sample) {} r t"
    "program_mapped r {f. unat (kernel_phys_end boot_sample) \<le> unat f \<and> unat f < 0x1FF000} (mem t)" "console_ready t"
    using kernel_main_boots [OF boot_sample_started small_mbi_tag(1) ne boot_sample_map boot_sample_fields(4-6)] unfolding Let_def by blast
  have "test_elf ! 120 = 0x90" by (simp add: test_elf_def)
  then obtain a where "mmu_walk (mem t) r 0x400000 = Some a" "mem t a = 0x90" using t(3) unfolding program_mapped_def by force
  with t(1,2,4) show ?thesis unfolding tasks_booted_def by blast
qed

theorem create_user_process_starts_witness:
  "\<exists>u v w r a. pmm_init small_mbi boot_sample = Some u \<and> boot_paging u = Some (True, v) \<and> create_user_process (on_stack 0 v) = Some w \<and>
     sched_order w = [0, 1] \<and> mmu_walk (mem w) r 0x400000 = Some a \<and> mem w a = 0x90 \<and> mmu_walk (mem w) r 0x500000 = None"
proof -
  have ne: "load32 small_mbi (ucast (8 :: u32) + 8) \<noteq> 0" unfolding small_mbi_tag by simp
  obtain u where u: "pmm_init small_mbi boot_sample = Some u" "kernel_loaded u"
    by (rule started_loaded [OF boot_sample_started small_mbi_tag(1) ne boot_sample_map]) blast
  obtain v where v: "boot_paging u = Some (True, v)" "heap_ok v {}" "boot_ready 3 v" by (rule boot_paging_spec [OF u(2)]) blast
  let ?s = "on_stack 0 v"
  have io: "io_in ?s = io_in v" by (simp add: on_stack_def)
  have ok: "heap_ok ?s {}" using heap_ok_same(1) [OF on_stack_heap [where v = v and p = 0]] v(2) by simp
  have r: "boot_ready 3 ?s" by (rule boot_ready_same [OF v(3) on_stack_heap(1) io])
  have q: "heap_room ?s 12310" "uart_live ?s" "\<forall>f\<in>pmm_avail ?s. unat f < 0x1FF000" "carries_program ?s" "9 \<le> card (pmm_avail ?s)"
    "fits ?s TASK_STACK_SIZE \<or> 15 \<le> card (pmm_avail ?s)"
    using r program_placed_carried [of ?s] by (auto simp: boot_ready_def)
  obtain r p w where w: "create_user_process ?s = Some w" "program_mapped r (pmm_avail ?s) (mem w)"
    "created ?s {} 1 (sym_enter_user_mode (syms ?s)) (user_task 0x400000 0x80001000 0x200 r (next_pid ?s) p (p + 8128) (task_at ?s 1)) p w"
    "\<forall>y. unat y < 0x800000000000 \<and> page_of y \<notin> {0x400000, 0x80000000} \<longrightarrow> mmu_walk (mem w) r y = None"
    using create_user_process_starts [OF ok on_stack_sched(1) q(1,2) on_stack_sched(4) q(3-6)] by blast
  have "test_elf ! 120 = 0x90" by (simp add: test_elf_def)
  then obtain a where "mmu_walk (mem w) r 0x400000 = Some a" "mem w a = 0x90" using w(2) unfolding program_mapped_def by force
  moreover have "page_of 0x500000 = (0x500000 :: u64)" by (simp add: page_of_def del: and_neg_4096)
  then have "mmu_walk (mem w) r 0x500000 = None" using w(4) by simp
  moreover have "sched_order w = [0, 1]" using created_order [OF w(3)] by (simp add: sched_order_def on_stack_sched)
  ultimately show ?thesis using u(1) v(1) w(1) by blast
qed

end
