(* ===== verification/Prism_Release.thy ===== *)
theory Prism_Release
  imports Prism_Image
begin

text \<open>
  Releasing a user address space (\<open>paging_free_user_space\<close> of \<^verbatim>\<open>mm/paging.c\<close>): the four nested loops compared with the tree of tables.
\<close>

section \<open>The frames of an address space\<close>

text \<open>What the loops release below a table, in their order: at level 0 the pages, above it every child after what is below it.\<close>

primrec owned :: "memory \<Rightarrow> nat \<Rightarrow> u64 \<Rightarrow> u64 list" where
  "owned m 0 p = concat (map (\<lambda>i. case child m p (of_nat i) of None \<Rightarrow> [] | Some q \<Rightarrow> [q]) [0..<512])"
| "owned m (Suc d) p = concat (map (\<lambda>i. case child m p (of_nat i) of None \<Rightarrow> [] | Some q \<Rightarrow> owned m d q @ [q]) [0..<512])"

definition space_frames :: "memory \<Rightarrow> u64 \<Rightarrow> u64 list" where
  "space_frames m r = concat (map (\<lambda>i. case child m r (of_nat i) of None \<Rightarrow> [] | Some q \<Rightarrow> owned m 2 q @ [q]) [0..<511]) @ [r]"

text \<open>The frames of the pages that are mapped.\<close>

definition user_pages :: "memory \<Rightarrow> u64 \<Rightarrow> u64 set" where
  "user_pages m r = {q. \<exists>xs p i. path xs \<and> length xs = 3 \<and> node m r xs = Some p \<and> i < 512 \<and> child m p i = Some q}"

section \<open>The loops\<close>

lemma fold_free_eq: "bitmap_eq s t \<Longrightarrow> bitmap_eq s (fold pmm_free_frame fs t)"
  by (induction fs arbitrary: t) (auto intro: bitmap_eq_trans [OF _ pmm_free_frame_eq])

lemma foreach_free:
  assumes "\<And>i t. i \<in> set is \<Longrightarrow> bitmap_eq s t \<Longrightarrow> f i t = Some (fold pmm_free_frame (g i) t)" "bitmap_eq s t"
  shows "foreach f is t = Some (fold pmm_free_frame (concat (map g is)) t)"
  using assms
proof (induction "is" arbitrary: t)
  case (Cons i "is")
  have "f i t = Some (fold pmm_free_frame (g i) t)" using Cons.prems by simp
  moreover have "foreach f is (fold pmm_free_frame (g i) t) = Some (fold pmm_free_frame (concat (map g is)) (fold pmm_free_frame (g i) t))"
    by (rule Cons.IH) (use Cons.prems fold_free_eq in auto)
  ultimately show ?case by simp
qed simp

lemma table_read:
  assumes ut: "user_tree s r" and p: "p \<in> tables s r" and t: "bitmap_eq s t" and i: "i < 512"
  shows "table_get (p + HIGHER_HALF_BASE) i t = Some (k_entry s p i)"
proof -
  obtain b n where e: "t = s\<lparr>bitmap := b, used_frames := n\<rparr>" using t by (rule bitmap_eqE)
  have "kernel_mapped t" using kernel_mapped_same(1) [of t s] user_treeD(1) [OF ut] by (simp add: e)
  from window_entry(1) [OF this tables_aligned [OF ut p] user_treeD(6) [OF ut p] i] show ?thesis by (simp add: e)
qed

text \<open>One turn of a loop over a table of tables.\<close>

lemma free_child:
  assumes ut: "user_tree s r" and p: "p \<in> tables s r" and t: "bitmap_eq s t" and i: "i < 512"
    and c: "\<And>q u. child (mem s) p i = Some q \<Longrightarrow> bitmap_eq s u \<Longrightarrow> q \<in> tables s r \<and> below (q + HIGHER_HALF_BASE) u = Some (fold pmm_free_frame (fs q) u)"
  shows "do { e \<leftarrow> table_get (p + HIGHER_HALF_BASE) i t;
      if e AND PAGE_PRESENT = 0 then Some t
      else do { (v, t) \<leftarrow> virt_for_phys (e AND NOT 0xFFF) t;
                t \<leftarrow> below v t;
                e \<leftarrow> table_get (p + HIGHER_HALF_BASE) i t;
                Some (pmm_free_frame (e AND NOT 0xFFF) t) } } =
    Some (fold pmm_free_frame (case child (mem s) p i of None \<Rightarrow> [] | Some q \<Rightarrow> fs q @ [q]) t)"
proof (cases "child (mem s) p i")
  case None
  then have "\<not> present (k_entry s p i)" by (auto simp: child_def Let_def split: if_splits)
  with None show ?thesis unfolding table_read [OF ut p t i] by simp
next
  case (Some q)
  then have e: "present (k_entry s p i)" "page_of (k_entry s p i) = q" by (auto simp: child_def Let_def split: if_splits)
  note q = c [OF Some t] 
  have v: "virt_for_phys q t = Some (q + HIGHER_HALF_BASE, t)"
    using low_phys_to_virt [of q t] user_treeD(6) [OF ut] q by (simp add: paging_phys_to_virt_def)
  have g: "table_get (p + HIGHER_HALF_BASE) i (fold pmm_free_frame (fs q) t) = Some (k_entry s p i)"
    by (rule table_read [OF ut p fold_free_eq [OF t] i])
  show ?thesis using e q v Some unfolding table_read [OF ut p t i] by (simp add: g)
qed

lemma small_idx: "i \<in> set [0..<512] \<Longrightarrow> (of_nat i :: u64) < 512"
  using small_index(1) by simp

lemma free_pt_eq:
  assumes ut: "user_tree s r" and p: "p \<in> tables s r" and t: "bitmap_eq s t"
  shows "free_pt (p + HIGHER_HALF_BASE) t = Some (fold pmm_free_frame (owned (mem s) 0 p) t)"
  unfolding free_pt_def owned.simps
proof (rule foreach_free [OF _ t])
  fix i u assume i: "i \<in> set [0..<512]" and u: "bitmap_eq s u"
  show "do { e \<leftarrow> table_get (p + HIGHER_HALF_BASE) (of_nat i) u;
      if e AND PAGE_PRESENT = 0 then Some u else Some (pmm_free_frame (e AND NOT 0xFFF) u) } =
    Some (fold pmm_free_frame (case child (mem s) p (of_nat i) of None \<Rightarrow> [] | Some q \<Rightarrow> [q]) u)"
    unfolding table_read [OF ut p u small_idx [OF i]] by (simp add: child_def Let_def)
qed

text \<open>A step down the tree.\<close>

lemma tree_step:
  assumes "path xs" "length xs \<le> 2" "node (mem s) r xs = Some p" "i < 512" "xs = [] \<longrightarrow> i \<noteq> 511" "child (mem s) p i = Some q"
  shows "path (xs @ [i])" "node (mem s) r (xs @ [i]) = Some q" "q \<in> tables s r"
proof -
  show pa: "path (xs @ [i])" using assms(1,2,4,5) by (cases xs) (auto simp: path_def)
  show n: "node (mem s) r (xs @ [i]) = Some q" using assms(3,6) by simp
  show "q \<in> tables s r" by (rule tablesI [OF pa n])
qed

lemma free_pd_eq:
  assumes ut: "user_tree s r" and p: "path xs" "length xs = 2" "node (mem s) r xs = Some p" and t: "bitmap_eq s t"
  shows "free_pd (p + HIGHER_HALF_BASE) t = Some (fold pmm_free_frame (owned (mem s) 1 p) t)"
  unfolding free_pd_def One_nat_def owned.simps(2)
proof (rule foreach_free [OF _ t])
  fix i u assume i: "i \<in> set [0..<512]" and u: "bitmap_eq s u"
  note pt = tablesI [OF p(1,3)]
  have len: "length xs \<le> 2" and ne: "xs = [] \<longrightarrow> (of_nat i :: u64) \<noteq> 511" using p(2) by auto
  have ps: "k_entry s p (of_nat i) AND PAGE_PS = 0" by (rule user_treeD(10) [OF ut p small_idx [OF i]])
  have c: "q \<in> tables s r \<and> free_pt (q + HIGHER_HALF_BASE) u = Some (fold pmm_free_frame (owned (mem s) 0 q) u)"
    if "child (mem s) p (of_nat i) = Some q" "bitmap_eq s u" for q u
    using tree_step(3) [OF p(1) len p(3) small_idx [OF i] ne that(1)] free_pt_eq [OF ut _ that(2)] by blast
  show "do { e \<leftarrow> table_get (p + HIGHER_HALF_BASE) (of_nat i) u;
       if e AND PAGE_PRESENT = 0 then Some u
       else if e AND PAGE_PS \<noteq> 0 then Some (pmm_free_frame (e AND NOT 0xFFF) u)
       else do { (pt, s) \<leftarrow> virt_for_phys (e AND NOT 0xFFF) u;
                 s \<leftarrow> free_pt pt s;
                 e \<leftarrow> table_get (p + HIGHER_HALF_BASE) (of_nat i) s;
                 Some (pmm_free_frame (e AND NOT 0xFFF) s) } } =
    Some (fold pmm_free_frame (case child (mem s) p (of_nat i) of None \<Rightarrow> [] | Some q \<Rightarrow> owned (mem s) 0 q @ [q]) u)"
    by (rule trans [OF _ free_child [OF ut pt u small_idx [OF i], where below = free_pt and fs = "owned (mem s) 0", OF c]])
      (simp_all add: table_read [OF ut pt u small_idx [OF i]] ps)
qed

lemma free_pdpt_eq:
  assumes ut: "user_tree s r" and p: "path xs" "length xs = 1" "node (mem s) r xs = Some p" and t: "bitmap_eq s t"
  shows "free_pdpt (p + HIGHER_HALF_BASE) t = Some (fold pmm_free_frame (owned (mem s) 2 p) t)"
  unfolding free_pdpt_def numeral_2_eq_2 owned.simps(2) [of _ "Suc 0"]
proof (rule foreach_free [OF _ t])
  fix i u assume i: "i \<in> set [0..<512]" and u: "bitmap_eq s u"
  have len: "length xs \<le> 2" and ne: "xs = [] \<longrightarrow> (of_nat i :: u64) \<noteq> 511" using p(2) by auto
  have st: "path (xs @ [of_nat i])" "node (mem s) r (xs @ [of_nat i]) = Some q" "q \<in> tables s r" if "child (mem s) p (of_nat i) = Some q" for q
    by (rule tree_step [OF p(1) len p(3) small_idx [OF i] ne that])+
  have c: "q \<in> tables s r \<and> free_pd (q + HIGHER_HALF_BASE) u = Some (fold pmm_free_frame (owned (mem s) (Suc 0) q) u)"
    if "child (mem s) p (of_nat i) = Some q" "bitmap_eq s u" for q u
    using free_pd_eq [OF ut st(1) [OF that(1)] _ st(2) [OF that(1)] that(2)] st(3) [OF that(1)] p(2) by simp
  show "do { e \<leftarrow> table_get (p + HIGHER_HALF_BASE) (of_nat i) u;
       if e AND PAGE_PRESENT = 0 then Some u
       else do { (pd, s) \<leftarrow> virt_for_phys (e AND NOT 0xFFF) u;
                 s \<leftarrow> free_pd pd s;
                 e \<leftarrow> table_get (p + HIGHER_HALF_BASE) (of_nat i) s;
                 Some (pmm_free_frame (e AND NOT 0xFFF) s) } } =
    Some (fold pmm_free_frame (case child (mem s) p (of_nat i) of None \<Rightarrow> [] | Some q \<Rightarrow> owned (mem s) (Suc 0) q @ [q]) u)"
    by (rule free_child [OF ut tablesI [OF p(1,3)] u small_idx [OF i], where below = free_pd and fs = "owned (mem s) (Suc 0)", OF c])
qed

lemma free_space_eq:
  assumes ut: "user_tree s r"
  shows "paging_free_user_space r s = Some (fold pmm_free_frame (space_frames (mem s) r) s)"
proof -
  have rt: "r \<in> tables s r" by (rule tablesI [OF path_Nil]) simp
  note low = user_treeD(6) [OF ut rt]
  have nz: "r + HIGHER_HALF_BASE \<noteq> 0" using low by (auto simp: word_unat_eq_iff unat_higher_half)
  have v: "virt_for_phys r s = Some (r + HIGHER_HALF_BASE, s)" using low_phys_to_virt [OF low, of s] by (simp add: paging_phys_to_virt_def)
  have "foreach (\<lambda>pi s. do {
       e \<leftarrow> table_get (r + HIGHER_HALF_BASE) (of_nat pi) s;
       if e AND PAGE_PRESENT = 0 then Some s
       else do { (pdpt, s) \<leftarrow> virt_for_phys (e AND NOT 0xFFF) s;
                 s \<leftarrow> free_pdpt pdpt s;
                 e \<leftarrow> table_get (r + HIGHER_HALF_BASE) (of_nat pi) s;
                 Some (pmm_free_frame (e AND NOT 0xFFF) s) } }) [0..<511] s =
    Some (fold pmm_free_frame (concat (map (\<lambda>i. case child (mem s) r (of_nat i) of None \<Rightarrow> [] | Some q \<Rightarrow> owned (mem s) 2 q @ [q]) [0..<511])) s)"
  proof (rule foreach_free [OF _ bitmap_eq_refl])
    fix i u assume i': "i \<in> set [0..<511]" and u: "bitmap_eq s u"
    then have i: "i \<in> set [0..<512]" "(of_nat i :: u64) \<noteq> 511" by (auto simp: word_unat_eq_iff unat_of_nat)
    have st: "path ([] @ [of_nat i])" "node (mem s) r ([] @ [of_nat i]) = Some q" "q \<in> tables s r" if "child (mem s) r (of_nat i) = Some q" for q
      by (rule tree_step [OF path_Nil _ node_simps(1) small_idx [OF i(1)] _ that]; use i(2) in simp)+
    have c: "q \<in> tables s r \<and> free_pdpt (q + HIGHER_HALF_BASE) u = Some (fold pmm_free_frame (owned (mem s) 2 q) u)"
      if "child (mem s) r (of_nat i) = Some q" "bitmap_eq s u" for q u
      using free_pdpt_eq [OF ut st(1) [OF that(1)] _ st(2) [OF that(1)] that(2)] st(3) [OF that(1)] by simp
    show "do { e \<leftarrow> table_get (r + HIGHER_HALF_BASE) (of_nat i) u;
       if e AND PAGE_PRESENT = 0 then Some u
       else do { (pd, s) \<leftarrow> virt_for_phys (e AND NOT 0xFFF) u;
                 s \<leftarrow> free_pdpt pd s;
                 e \<leftarrow> table_get (r + HIGHER_HALF_BASE) (of_nat i) s;
                 Some (pmm_free_frame (e AND NOT 0xFFF) s) } } =
      Some (fold pmm_free_frame (case child (mem s) r (of_nat i) of None \<Rightarrow> [] | Some q \<Rightarrow> owned (mem s) 2 q @ [q]) u)"
      by (rule free_child [OF ut rt u small_idx [OF i(1)], where below = free_pdpt and fs = "owned (mem s) 2", OF c])
  qed
  then show ?thesis unfolding paging_free_user_space_def space_frames_def using v nz by simp
qed

section \<open>Exactly the address space\<close>

lemma some_index: "(\<exists>i<n. P (of_nat i :: u64)) \<longleftrightarrow> (\<exists>i. unat i < n \<and> P i)" if "n \<le> 512"
proof
  assume "\<exists>i<n. P (of_nat i)"
  then obtain i where "i < n" "P (of_nat i)" by blast
  then show "\<exists>i. unat i < n \<and> P i" using small_index(2) [of i] that by (intro exI [of _ "of_nat i"]) simp
next
  assume "\<exists>i. unat i < n \<and> P i"
  then obtain i where "unat i < n" "P i" by blast
  then show "\<exists>i<n. P (of_nat i)" by (intro exI [of _ "unat i"]) simp
qed

lemma loop_members:
  assumes "n \<le> 512"
  shows "q \<in> set (concat (map (\<lambda>i. case child m p (of_nat i) of None \<Rightarrow> [] | Some c \<Rightarrow> f c) [0..<n])) \<longleftrightarrow>
    (\<exists>i. unat i < n \<and> (\<exists>c. child m p i = Some c \<and> q \<in> set (f c)))"
proof -
  have "q \<in> set (concat (map (\<lambda>i. case child m p (of_nat i) of None \<Rightarrow> [] | Some c \<Rightarrow> f c) [0..<n])) \<longleftrightarrow>
    (\<exists>i<n. q \<in> set (case child m p (of_nat i) of None \<Rightarrow> [] | Some c \<Rightarrow> f c))" by auto
  also have "\<dots> \<longleftrightarrow> (\<exists>i<n. \<exists>c. child m p (of_nat i) = Some c \<and> q \<in> set (f c))" by (intro ex_cong1 conj_cong refl) (force split: option.split)
  also note some_index [OF assms, of "\<lambda>i. \<exists>c. child m p i = Some c \<and> q \<in> set (f c)"]
  finally show ?thesis .
qed

lemma owned_members:
  "q \<in> set (owned m 0 p) \<longleftrightarrow> (\<exists>i<512. child m p i = Some q)"
  "q \<in> set (owned m (Suc d) p) \<longleftrightarrow> (\<exists>i<512. \<exists>c. child m p i = Some c \<and> (q = c \<or> q \<in> set (owned m d c)))"
  "q \<in> set (space_frames m r) \<longleftrightarrow> q = r \<or> (\<exists>i<512. i \<noteq> 511 \<and> (\<exists>c. child m r i = Some c \<and> (q = c \<or> q \<in> set (owned m 2 c))))"
proof -
  have lt: "unat i < 512 \<longleftrightarrow> i < 512" "unat i < 511 \<longleftrightarrow> i < 512 \<and> i \<noteq> 511" for i :: u64 by (auto simp: word_less_nat_alt word_unat_eq_iff)
  show "q \<in> set (owned m 0 p) \<longleftrightarrow> (\<exists>i<512. child m p i = Some q)"
    unfolding owned.simps loop_members [OF order_refl] lt by auto
  show "q \<in> set (owned m (Suc d) p) \<longleftrightarrow> (\<exists>i<512. \<exists>c. child m p i = Some c \<and> (q = c \<or> q \<in> set (owned m d c)))"
    unfolding owned.simps loop_members [OF order_refl] lt by auto
  have n: "511 \<le> (512 :: nat)" by simp
  show "q \<in> set (space_frames m r) \<longleftrightarrow> q = r \<or> (\<exists>i<512. i \<noteq> 511 \<and> (\<exists>c. child m r i = Some c \<and> (q = c \<or> q \<in> set (owned m 2 c))))"
    unfolding space_frames_def set_append Un_iff loop_members [OF n] lt by auto
qed

lemma path_cases:
  assumes "path xs"
  obtains "xs = []" | i where "xs = [i]" "i < 512" "i \<noteq> 511" | i j where "xs = [i, j]" "i < 512" "i \<noteq> 511" "j < 512"
    | i j k where "xs = [i, j, k]" "i < 512" "i \<noteq> 511" "j < 512" "k < 512"
proof -
  have "xs = [] \<or> (\<exists>i. xs = [i]) \<or> (\<exists>i j. xs = [i, j]) \<or> (\<exists>i j k. xs = [i, j, k])"
    using assms by (auto simp: path_def le_Suc_eq numeral_3_eq_3 length_Suc_conv)
  with assms that show thesis by (auto simp: path_def)
qed

lemma space_frames_set: "set (space_frames (mem s) r) = tables s r \<union> user_pages (mem s) r"
proof (intro set_eqI iffI)
  fix q assume "q \<in> set (space_frames (mem s) r)"
  then show "q \<in> tables s r \<union> user_pages (mem s) r"
    unfolding owned_members(3) numeral_2_eq_2 owned_members(1,2)
  proof (elim disjE exE conjE, goal_cases)
    case 1
    then show ?thesis using tablesI [OF path_Nil, of s r r] by simp
  next
    case (2 i c)
    then show ?thesis using tablesI [of "[i]" s r q] by (simp add: path_def node_def)
  next
    case (3 i c j d)
    then show ?thesis using tablesI [of "[i, j]" s r q] by (simp add: path_def node_def)
  next
    case (4 i c j d k e)
    then show ?thesis using tablesI [of "[i, j, k]" s r q] by (simp add: path_def node_def)
  next
    case (5 i c j d k e l)
    then have "path [i, j, k]" "node (mem s) r [i, j, k] = Some e" by (simp_all add: path_def node_def)
    with 5 show ?thesis unfolding user_pages_def by (force intro!: exI [of _ "[i, j, k]"])
  qed
next
  fix q assume "q \<in> tables s r \<union> user_pages (mem s) r"
  then consider xs where "path xs" "node (mem s) r xs = Some q"
    | xs p i where "path xs" "length xs = 3" "node (mem s) r xs = Some p" "i < 512" "child (mem s) p i = Some q"
    unfolding tables_def user_pages_def by blast
  then show "q \<in> set (space_frames (mem s) r)"
  proof cases
    case 1
    then show ?thesis unfolding owned_members(3) numeral_2_eq_2 owned_members(1,2)
      by (cases rule: path_cases [OF 1(1)]) (simp_all add: node_def bind_eq_Some_conv, blast+)
  next
    case 2
    then show ?thesis unfolding owned_members(3) numeral_2_eq_2 owned_members(1,2)
      by (cases rule: path_cases [OF 2(1)]) (simp_all add: node_def bind_eq_Some_conv, blast)
  qed
qed

section \<open>The mapped pages as the processor sees them\<close>

text \<open>An address for every way through the tables.\<close>

lemma address_of_indices:
  fixes i j k l :: u64
  assumes "i < 512" "j < 512" "k < 512" "l < 512"
  obtains va where "pt_index 39 va = i" "pt_index 30 va = j" "pt_index 21 va = k" "pt_index 12 va = l"
proof -
  let ?x = "unat l + 512 * (unat k + 512 * (unat j + 512 * unat i))"
  have b: "unat i < 512" "unat j < 512" "unat k < 512" "unat l < 512" using assms by (simp_all add: word_less_nat_alt)
  then have "4096 * ?x < 2 ^ 64" by simp
  then have u: "unat (of_nat (4096 * ?x) :: u64) = 4096 * ?x" by (simp only: unat_of_nat) simp
  have d: "4096 * x div 2 ^ 12 = x" "4096 * x div 2 ^ 21 = x div 512" "4096 * x div 2 ^ 30 = x div 512 div 512"
    "4096 * x div 2 ^ 39 = x div 512 div 512 div 512" for x :: nat
    using div_mult2_eq [of "4096 * x" 4096 512] div_mult2_eq [of "4096 * x" 4096 "512 * 512"] div_mult2_eq [of "4096 * x" 4096 "512 * 512 * 512"]
    by (simp_all add: div_mult2_eq [of x 512 512, symmetric] div_mult2_eq [of x "512 * 512" 512, symmetric])
  have e: "(a + 512 * b) div 512 = b" "(a + 512 * b) mod 512 = a" if "a < 512" for a b :: nat using that by simp_all
  have "pt_index 39 (of_nat (4096 * ?x)) = i" "pt_index 30 (of_nat (4096 * ?x)) = j"
    "pt_index 21 (of_nat (4096 * ?x)) = k" "pt_index 12 (of_nat (4096 * ?x)) = l"
    unfolding word_unat_eq_iff unat_pt_index u d e [OF b(4)] e [OF b(3)] e [OF b(2)] using b(1) by simp_all
  then show thesis by (rule that)
qed

definition mapped_frames :: "'a machine_scheme \<Rightarrow> u64 \<Rightarrow> u64 set" where
  "mapped_frames s r = {page_of a | a va. pt_index 39 va \<noteq> 511 \<and> mmu_walk (mem s) r va = Some a}"

lemma user_pages_mapped:
  assumes ut: "user_tree s r"
  shows "user_pages (mem s) r = mapped_frames s r"
proof (intro set_eqI iffI)
  fix q assume "q \<in> user_pages (mem s) r"
  then obtain xs p l where p: "path xs" "length xs = 3" "node (mem s) r xs = Some p" "l < 512" "child (mem s) p l = Some q"
    unfolding user_pages_def by blast
  obtain i j k where x: "xs = [i, j, k]" "i < 512" "i \<noteq> 511" "j < 512" "k < 512"
    using p(2) by (cases rule: path_cases [OF p(1)]) simp_all
  obtain va where va: "pt_index 39 va = i" "pt_index 30 va = j" "pt_index 21 va = k" "pt_index 12 va = l"
    by (rule address_of_indices [OF x(2,4,5) p(4)])
  have "mmu_walk (mem s) r va = Some (q OR (va AND 0xFFF))"
    using user_walk [OF ut, of va] p(3,5) x(1,3) va by (auto simp: indices_def child_def Let_def split: if_splits)
  moreover have "page_of (q OR (va AND 0xFFF)) = q" using child_aligned [OF p(5)] by simp
  ultimately show "q \<in> mapped_frames s r" unfolding mapped_frames_def using va(1) x(3) by force
next
  fix q assume "q \<in> mapped_frames s r"
  then obtain a va where a: "q = page_of a" "pt_index 39 va \<noteq> 511" "mmu_walk (mem s) r va = Some a" unfolding mapped_frames_def by blast
  then obtain p where p: "node (mem s) r (indices va) = Some p" "present (k_entry s p (pt_index 12 va))" "a = page_of (k_entry s p (pt_index 12 va)) OR (va AND 0xFFF)"
    using user_walk [OF ut a(2)] by (auto simp: Let_def split: option.splits if_splits)
  have "child (mem s) p (pt_index 12 va) = Some q" using p(2) by (simp add: child_def a(1) p(3))
  then show "q \<in> user_pages (mem s) r"
    unfolding user_pages_def using path_indices [OF a(2)] p(1) by (intro CollectI exI [of _ "indices va"] exI [of _ p] exI [of _ "pt_index 12 va"]) (simp add: indices_def)
qed

text \<open>
  C14. Releasing a user address space: \<open>paging_free_user_space\<close> returns, leaves memory alone, and gives back to the frame allocator exactly the tables of the address space
  and the frames that it maps below the kernel's entry, each of which is managed and not frame 0. A frame that is mapped twice is given back once.
\<close>

theorem paging_free_user_space_releases:
  fixes s :: "'a pmm_state_scheme"
  assumes ut: "user_tree s r" and fr: "\<forall>q\<in>tables s r \<union> mapped_frames s r. q \<in> pmm_managed s \<and> q \<noteq> 0"
  shows "\<exists>t. paging_free_user_space r s = Some t \<and> mem t = mem s \<and> pmm_ready t \<and>
    pmm_avail t = pmm_avail s \<union> tables s r \<union> mapped_frames s r"
proof -
  let ?t = "fold pmm_free_frame (space_frames (mem s) r) s"
  have sp: "set (space_frames (mem s) r) = tables s r \<union> mapped_frames s r"
    unfolding space_frames_set user_pages_mapped [OF ut] ..
  have "mem ?t = mem s" using fold_free_eq [OF bitmap_eq_refl, where s = s and fs = "space_frames (mem s) r"] by (rule bitmap_eqE) simp
  moreover have "pmm_ready ?t" "pmm_avail ?t = pmm_avail s \<union> set (space_frames (mem s) r)"
    using pmm.release_all [OF user_treeD(2) [OF ut], of "space_frames (mem s) r"] fr unfolding sp by simp_all
  ultimately show ?thesis using free_space_eq [OF ut] unfolding sp by (intro exI [of _ ?t]) auto
qed

lemma fresh_space:
  assumes ut: "user_tree s r" and tab: "tables s r = {r}"
  shows "mapped_frames s r = {}"
proof -
  have False if "path xs" "length xs = 3" "node (mem s) r xs = Some p" for xs p
    using user_treeD(9) [OF ut that(1) path_Nil that(3)] tablesI [OF that(1,3)] that(2) tab by simp
  then show ?thesis unfolding user_pages_mapped [OF ut, symmetric] user_pages_def by blast
qed

lemma create_then_free:
  fixes s :: "'a paging_state_scheme"
  assumes ks: "kernel_space s" and ne: "pmm_avail s \<noteq> {}" and low: "\<forall>f\<in>pmm_avail s. unat f < 0x1FF000"
  obtains r t where "paging_create_user_space s = Some (r, t)" "user_tree t r" "\<forall>q\<in>tables t r \<union> mapped_frames t r. q \<in> pmm_managed t \<and> q \<noteq> 0"
    "pmm_avail s = pmm_avail t \<union> tables t r \<union> mapped_frames t r"
proof -
  obtain r t where t: "paging_create_user_space s = Some (r, t)" "r \<in> pmm_avail s" "pmm_avail t = pmm_avail s - {r}" "user_tree t r" "tables t r = {r}"
    and e: "t = s\<lparr>mem := mem t, bitmap := bitmap t, used_frames := used_frames t\<rparr>" using create_user_tree [OF assms] by blast
  note rd = kernel_spaceD(4) [OF ks]
  have "total_frames t = total_frames s" by (subst e) simp
  then have "r \<in> pmm_managed t" "r \<noteq> 0" using pmm.avail_managed [OF rd] pmm.zero_not_avail [OF rd] t(2) by (auto simp: pmm_managed_def)
  with that [OF t(1,4)] show thesis using t(2,3,5) fresh_space [OF t(4,5)] by auto
qed

theorem paging_free_user_space_releases_witness:
  "\<exists>s r t u. paging_init paging_sample = Some s \<and> paging_create_user_space s = Some (r, t) \<and> paging_free_user_space r t = Some u \<and>
     pmm_avail u = pmm_avail s \<and> pmm_avail t \<noteq> pmm_avail s"
proof -
  obtain s where s: "paging_init paging_sample = Some s" "kernel_space s" "pmm_avail s = pmm_avail paging_sample"
    using init_kernel_space [OF paging_sample_placed] by blast
  have "60 \<le> card (pmm_avail s)" unfolding s(3) by (rule sample_avail(2)) (simp add: like_sample_def)
  then have ne: "pmm_avail s \<noteq> {}" by auto
  have low: "\<forall>f\<in>pmm_avail s. unat f < 0x1FF000" using paging_sample_avail unfolding s(3) by fastforce
  obtain r t where t: "paging_create_user_space s = Some (r, t)" "user_tree t r" "\<forall>q\<in>tables t r \<union> mapped_frames t r. q \<in> pmm_managed t \<and> q \<noteq> 0"
    "pmm_avail s = pmm_avail t \<union> tables t r \<union> mapped_frames t r" by (rule create_then_free [OF s(2) ne low])
  obtain u where u: "paging_free_user_space r t = Some u" "pmm_avail u = pmm_avail s"
    using paging_free_user_space_releases [OF t(2,3)] t(4) by auto
  have "r \<in> tables t r" by (rule tablesI [OF path_Nil]) simp
  then have "pmm_avail t \<noteq> pmm_avail s" using t(4) user_treeD(8) [OF t(2)] by blast
  with s(1) t(1) u show ?thesis by blast
qed

end
