(* ===== verification/Spec2Isabelle.thy ===== *)
theory Spec2Isabelle
  imports Prism_Main Prism_Release
begin

text \<open>
  A verification development for the Prism kernel, a small x86-64 kernel written in C: it is
  entered in long mode with the boot loader's tables, sets up the processor and its own memory, starts
  kernel threads and one user process, and then echoes keys. Paths below are relative to \<^verbatim>\<open>src/src/\<close>.

  \<^bold>\<open>The shape of the model.\<close> Every C function is a function on an explicit state. The state is a chain of
  extensible records, one link for each component that owns static variables, so that an
  operation is polymorphic in the fields of the components above it and provably leaves them alone:
  \<open>machine\<close> (memory, CR3, port traffic, link addresses), \<open>vga_state\<close>, \<open>pmm_state\<close>, \<open>cpu_state\<close>,
  \<open>irq_state\<close>, \<open>kbd_state\<close>, \<open>paging_state\<close>, \<open>heap_state\<close>, \<open>task_state\<close>, \<open>timer_state\<close>,
  \<open>syscall_state\<close>. C integers are words of their width. Memory is physical bytes; every
  access of the kernel to page tables, heap blocks, stacks, program images and interrupt
  frames is a load or store at a virtual address that passes through the four-level translation
  which those very tables define. An operation of type \<open>'a option\<close> has the value \<open>None\<close> when control does not
  come back from it: a loop that does not end (these are \<open>partial_function\<close>s) or an access that the
  hardware refuses. Theorems about such operations state that they return, and what.

  \<^bold>\<open>The parts of the program.\<close>

  \<^item> \<^verbatim>\<open>cpu/pic.h\<close> (port access), \<^verbatim>\<open>string.h\<close> and the translation of \<^verbatim>\<open>mm/paging.h\<close>: theory \<open>Prism_Machine\<close>.
  \<^item> \<^verbatim>\<open>drivers/serial.h\<close>: \<open>Prism_Serial\<close>. Under \<open>uart_live\<close> (the status register reports readiness again and again)
    every output returns and appends exactly its bytes.
  \<^item> \<^verbatim>\<open>drivers/vga.c\<close>: \<open>Prism_Vga\<close>, with the invariant of screen and cursor.
  \<^item> \<^verbatim>\<open>mm/pmm.c\<close>, \<^verbatim>\<open>mm/multiboot2.h\<close>: \<open>Prism_Pmm\<close>. The bitmap allocator hands out the lowest free frame or run of
    frames, its counter counts the marked frames, and \<open>pmm_init\<close> reserves the kernel image and the bitmap.
  \<^item> \<^verbatim>\<open>cpu/pic.c\<close>: \<open>Prism_Pic\<close>, against a model of the chips that the port writes program.
  \<^item> \<^verbatim>\<open>cpu/gdt.c\<close>, \<^verbatim>\<open>cpu/tss.h\<close>, \<^verbatim>\<open>cpu/idt.c\<close>: \<open>Prism_Cpu\<close>, the descriptors and gates that initialisation builds.
  \<^item> \<^verbatim>\<open>kernel/log.c\<close>: \<open>Prism_Log\<close>, the lines logged and the report of a panic.
  \<^item> \<^verbatim>\<open>drivers/keyboard.c\<close> and the handler table of \<^verbatim>\<open>isr/isr.c\<close>: \<open>Prism_Keyboard\<close>. The ring buffer is a queue of 255 characters and
    the interrupt handler refines the translation of scan codes into text.
  \<^item> \<^verbatim>\<open>mm/paging.c\<close>: the operations are in \<open>Prism_Paging\<close>. \<open>Prism_Kmap\<close> has the kernel's own mapping
    (\<open>kernel_mapped\<close>) and what \<open>paging_init\<close> establishes, \<open>Prism_Mapping\<close> the invariant \<open>kernel_space\<close> of the kernel half and
    \<open>paging_map_page\<close>, \<open>Prism_Walk\<close> the software walks: translation, unmapping,
    the check of user buffers and new address spaces, each compared with the walk of the hardware. \<open>Prism_Release\<close> compares the loops that release an
    address space with the tree of its tables.
  \<^item> \<^verbatim>\<open>mm/heap.c\<close>: the operations are in \<open>Prism_Heap\<close>. \<open>Prism_Heapmem\<close> shows that the pages of the heap are a store of words,
    \<open>Prism_Blocks\<close> treats splitting, unlinking, linking and merging blocks as changes of such a store, \<open>Prism_Freelist\<close> shows that
    \<open>kmalloc\<close> and \<open>kfree\<close> perform these changes and keep the invariant \<open>heap_ok\<close>, which \<open>heap_init\<close> establishes (\<open>Prism_Heapinit\<close>).
  \<^item> \<^verbatim>\<open>task/task.c\<close>, \<^verbatim>\<open>task/switch.s\<close>: the operations are in \<open>Prism_Task\<close>. \<open>Prism_Sched\<close> shows the linked ready list to be a queue
    and scheduling to be round robin, \<open>Prism_Switch\<close> that a task resumes with the registers it had, \<open>Prism_Newtask\<close> what initialisation and
    the creation of kernel and user tasks do, and \<open>Prism_Tasksample\<close> applies these on a small machine.
  \<^item> \<^verbatim>\<open>drivers/timer.c\<close> and the dispatcher of \<^verbatim>\<open>isr/isr.c\<close>: \<open>Prism_Interrupts\<close>, with pre-emption by the timer, waiting for ticks
    and the report of an exception.
  \<^item> \<^verbatim>\<open>syscall/syscall.c\<close>: \<open>Prism_Syscall\<close>, the handlers, the dispatcher and the registers that enable them.
  \<^item> \<^verbatim>\<open>fs/elf.c\<close>, \<^verbatim>\<open>fs/elf.h\<close>: the loader is in \<open>Prism_Elf\<close>, with its refusals and the bounds of its copies. \<open>Prism_Userspace\<close> has
    the tables of a user address space as a tree (\<open>user_tree\<close>) and the mapping of one page, \<open>Prism_Loader\<close> the loading of a
    segment, \<open>Prism_Image\<close> the embedded program of \<^verbatim>\<open>kernel/kernel.c\<close> and the result of loading it.
  \<^item> \<^verbatim>\<open>kernel/kernel.c\<close>: \<open>Prism_Kernel\<close>, the boot sequence, the first user process, the demonstration threads and the echo loop, of which all
    interleavings with keyboard interrupts are considered (\<open>console_run\<close>). \<open>Prism_Process\<close> composes frame allocator, paging, loader, heap and scheduler: the
    user process is built in frames that the kernel does not use (\<open>borrows\<close>), and building it disturbs neither the heap nor other tasks. \<open>Prism_Boot\<close> composes
    the stages after the frame allocator is up, \<open>Prism_Main\<close> adds the processor and the memory map: \<open>kernel_main\<close> reaches the prompt.

  \<^bold>\<open>Interfaces.\<close> \<open>Prism_Prelude\<close> has the types and the lemmas on words, lists and options; \<open>Prism_Interfaces\<close> states the contracts between
  components as locales and proves the lemmas of their clients there. Each contract is interpreted where it is provided:
  \<open>byte_sink\<close> by the serial line, \<open>bounded_fifo\<close> by the keyboard buffer, \<open>frame_source\<close> by the physical memory
  manager, \<open>word_store\<close> by the heap's memory and \<open>linked_fifo\<close> by the ready list.

  \<^bold>\<open>Assumptions.\<close> The UART becomes ready eventually (\<open>uart_live\<close>). The properties of the kernel half assume
  \<open>kernel_space\<close>, which \<open>paging_init\<close> establishes; those of the heap and of task creation assume \<open>heap_ok\<close>, and \<open>heap_room\<close> for the distance
  to the end of the region that the heap may grow into. Those of user address spaces assume \<open>user_tree\<close>: all free frames and tables are
  below physical 0x1FF000, where the kernel's window reaches them without the scratch page. The boot sequence assumes \<open>machine_started\<close>: the linker placed static tables
  and program inside the kernel image and that below 0x1FF000, and the static variables and the bitmap behind the image are cleared; the memory map ends
  below 0x1FF000 and gives 41 frames, eight for the first heap pages and their tables, six for each of three kernel stacks, and fifteen for the user process
  with its kernel stack. Witnesses run on small concrete machines
  (\<open>heap_sample\<close>, \<open>task_sample\<close>, \<open>sample_user_space\<close>, \<open>boot_sample\<close>) that satisfy all of these.

  \<^bold>\<open>Parameters.\<close> The link addresses (\<open>link_symbols\<close>), the contents of the boot information, the answers of the devices to port reads,
  and the halt instruction, which is a function from the state before it to the state in which execution goes on.

  \<^bold>\<open>Not modelled.\<close> The assembly of \<^verbatim>\<open>kernel/boot.s\<close>, \<^verbatim>\<open>isr/isr_asm.s\<close> and \<^verbatim>\<open>user/usermode.s\<close>: entry and exit of interrupts,
  system calls and user mode happen in code outside the C language, so a handler starts with its frame in memory and a task is entered at an
  address. For the same reason a call that switches tasks ends with the instruction pointer it loads. The idle loop is an address. The model has no translation cache, so \<^verbatim>\<open>invlpg\<close> has no effect. Page tables above 2 MiB are part of the definitions,
  through the scratch page, but the properties of user address spaces do not cover them.

  \<^bold>\<open>Open.\<close> The boot of a machine with memory at and above 0x1FF000, where tables are reached through the scratch page, and pre-emption of the
  echo loop by the timer.
\<close>

end
